(* ===== verification/Prelude.thy ===== *)
theory Prelude
  imports Main "HOL-Library.Word"
begin

text \<open>
  Shared vocabulary of the development: Rust's \<^verbatim>\<open>Vec\<close> and slice operations as functions on
  lists (with the panicking ones returning an option), \<^verbatim>\<open>Iterator::position\<close>, Rust strings as lists
  of Unicode scalar values, and the generic lemmas the component theories use.  Lemmas about the
  \<^verbatim>\<open>Vec\<close> operations are collected in \<open>vec_simps\<close>, lemmas about strings in \<open>str_simps\<close>.
\<close>

named_theorems vec_simps \<open>rewriting of Vec and slice operations\<close>
named_theorems str_simps \<open>rewriting of string operations\<close>

subsection \<open>Searching: Iterator::position, find and rposition\<close>

fun position :: "('a \<Rightarrow> bool) \<Rightarrow> 'a list \<Rightarrow> nat option" where
  "position P [] = None"
| "position P (x # xs) = (if P x then Some 0 else map_option Suc (position P xs))"

definition rposition :: "('a \<Rightarrow> bool) \<Rightarrow> 'a list \<Rightarrow> nat option" where
  "rposition P xs = map_option (\<lambda>i. length xs - 1 - i) (position P (rev xs))"

lemma position_None: "position P xs = None \<longleftrightarrow> (\<forall>x\<in>set xs. \<not> P x)"
  by (induction xs) auto

lemma position_SomeD:
  "position P xs = Some i \<Longrightarrow> i < length xs \<and> P (xs ! i) \<and> (\<forall>j<i. \<not> P (xs ! j))"
proof (induction xs arbitrary: i)
  case (Cons x xs)
  show ?case
  proof (cases "P x")
    case False
    with Cons.prems obtain k where k: "position P xs = Some k" "i = Suc k" by auto
    have "\<not> P ((x # xs) ! j)" if "j < i" for j
      using that k(2) Cons.IH[OF k(1)] False by (cases j) auto
    with Cons.IH[OF k(1)] k(2) show ?thesis by simp
  qed (use Cons.prems in auto)
qed simp

lemma position_less: "position P xs = Some i \<Longrightarrow> i < length xs"
  by (simp add: position_SomeD)

lemma position_nth: "position P xs = Some i \<Longrightarrow> P (xs ! i)"
  by (simp add: position_SomeD)

lemma position_append:
  "position P (xs @ ys) =
     (case position P xs of Some i \<Rightarrow> Some i | None \<Rightarrow> map_option ((+) (length xs)) (position P ys))"
proof (induction xs)
  case Nil
  show ?case by (cases "position P ys") simp_all
next
  case (Cons x xs)
  then show ?case
    by (cases "position P ys") (auto split: option.splits)
qed

lemma position_eq_length_takeWhile:
  "position P xs = (if \<exists>x\<in>set xs. P x then Some (length (takeWhile (\<lambda>x. \<not> P x) xs)) else None)"
  by (induction xs) auto

lemma find_eq_position: "List.find P xs = map_option ((!) xs) (position P xs)"
  by (induction xs) (auto simp: option.map_comp comp_def)

lemma find_SomeD: "List.find P xs = Some x \<Longrightarrow> x \<in> set xs \<and> P x"
  by (auto simp: find_Some_iff)

subsection \<open>Vec operations that panic out of range\<close>

definition vec_insert :: "'a list \<Rightarrow> nat \<Rightarrow> 'a \<Rightarrow> 'a list option" where
  "vec_insert xs i x = (if i \<le> length xs then Some (take i xs @ x # drop i xs) else None)"

definition vec_remove :: "'a list \<Rightarrow> nat \<Rightarrow> ('a \<times> 'a list) option" where
  "vec_remove xs i = (if i < length xs then Some (xs ! i, take i xs @ drop (Suc i) xs) else None)"

definition vec_split_off :: "'a list \<Rightarrow> nat \<Rightarrow> ('a list \<times> 'a list) option" where
  "vec_split_off xs i = (if i \<le> length xs then Some (drop i xs, take i xs) else None)"

definition vec_drain :: "'a list \<Rightarrow> nat \<Rightarrow> nat \<Rightarrow> ('a list \<times> 'a list) option" where
  "vec_drain xs lo hi =
     (if lo \<le> hi \<and> hi \<le> length xs
      then Some (take (hi - lo) (drop lo xs), take lo xs @ drop hi xs) else None)"

definition vec_resize :: "'a list \<Rightarrow> nat \<Rightarrow> 'a \<Rightarrow> 'a list" where
  "vec_resize xs n x =
     (if n \<le> length xs then take n xs else xs @ replicate (n - length xs) x)"

lemma length_vec_resize [simp]: "length (vec_resize xs n x) = n"
  by (simp add: vec_resize_def)

lemma vec_resize_nth [vec_simps]:
  "i < n \<Longrightarrow> vec_resize xs n x ! i = (if i < length xs then xs ! i else x)"
  by (auto simp: vec_resize_def nth_append)

lemma vec_insert_Some [vec_simps]: "i \<le> length xs \<Longrightarrow> vec_insert xs i x = Some (take i xs @ x # drop i xs)"
  by (simp add: vec_insert_def)

lemma vec_remove_Some [vec_simps]:
  "i < length xs \<Longrightarrow> vec_remove xs i = Some (xs ! i, take i xs @ drop (Suc i) xs)"
  by (simp add: vec_remove_def)

lemma tl_drop_Suc [vec_simps]: "tl (drop n xs) = drop (Suc n) xs"
  by (simp add: drop_Suc tl_drop)

lemma take_drop_Suc: "i < length xs \<Longrightarrow> take i xs @ xs ! i # drop (Suc i) xs = xs"
  by (simp add: Cons_nth_drop_Suc)

subsection \<open>Fallible calls\<close>

text \<open>
  What a builtin row answers: a value, a Ruby exception (its class and message as one text), or a Rust
  panic.  \<open>bind_row\<close> is the \<^verbatim>\<open>?\<close> operator.
\<close>

datatype 'a row = Returns 'a | Raises string | Panics

fun bind_row :: "'a row \<Rightarrow> ('a \<Rightarrow> 'b row) \<Rightarrow> 'b row" where
  "bind_row (Returns x) f = f x"
| "bind_row (Raises e) f = Raises e"
| "bind_row Panics f = Panics"

lemma bind_row_Returns: "bind_row r f = Returns y \<longleftrightarrow> (\<exists>x. r = Returns x \<and> f x = Returns y)"
  by (cases r) auto

subsection \<open>Byte strings\<close>

type_synonym octets = "8 word list"

definition ascii :: "string \<Rightarrow> octets" where
  "ascii s = map of_char s"

end
