(* ===== verification/Value.thy ===== *)
theory Value
  imports Prelude
begin

text \<open>
  The runtime's value representation (\<^verbatim>\<open>crates/zeo-rt/src/value/mod.rs\<close>): the \<^verbatim>\<open>RubyValue\<close> enum with
  its discriminants.  A heap variant owns one strong \<^verbatim>\<open>Arc\<close> handle, which is modelled by the address
  of the allocation.  A \<^verbatim>\<open>Float\<close> is kept as its 64-bit pattern: nothing here computes with it.
\<close>

type_synonym addr = nat
type_synonym class_id = nat
type_synonym symbol = nat

datatype ruby_value =
    RNil
  | RBool bool
  | RInt "64 word"
  | RBigInt addr
  | RFloat "64 word"
  | RRational addr
  | RComplex addr
  | RSymbol symbol
  | RStr addr
  | RArray addr
  | RHash addr
  | RRange addr
  | RObject addr
  | RProc addr
  | RRegexp addr
  | RMatchData addr
  | RFiber addr
  | REnumerator addr
  | RYielder addr
  | RThread addr
  | RMutex addr
  | RQueue addr
  | RRactor addr
  | RClass class_id

definition FIRST_HEAP_TAG :: nat where
  "FIRST_HEAP_TAG = 16"

primrec value_tag :: "ruby_value \<Rightarrow> nat" where
  "value_tag RNil = 0"
| "value_tag (RBool b) = 1"
| "value_tag (RInt i) = 2"
| "value_tag (RFloat f) = 3"
| "value_tag (RSymbol s) = 4"
| "value_tag (RClass c) = 5"
| "value_tag (RBigInt a) = 16"
| "value_tag (RRational a) = 17"
| "value_tag (RComplex a) = 18"
| "value_tag (RStr a) = 19"
| "value_tag (RArray a) = 20"
| "value_tag (RHash a) = 21"
| "value_tag (RRange a) = 22"
| "value_tag (RObject a) = 23"
| "value_tag (RProc a) = 24"
| "value_tag (RRegexp a) = 25"
| "value_tag (RMatchData a) = 26"
| "value_tag (RFiber a) = 27"
| "value_tag (REnumerator a) = 28"
| "value_tag (RYielder a) = 29"
| "value_tag (RThread a) = 30"
| "value_tag (RMutex a) = 31"
| "value_tag (RQueue a) = 32"
| "value_tag (RRactor a) = 33"

text \<open>The allocation a value holds a strong handle on, if it is a heap variant.\<close>

primrec arc_of :: "ruby_value \<Rightarrow> addr option" where
  "arc_of RNil = None"
| "arc_of (RBool b) = None"
| "arc_of (RInt i) = None"
| "arc_of (RFloat f) = None"
| "arc_of (RSymbol s) = None"
| "arc_of (RClass c) = None"
| "arc_of (RBigInt a) = Some a"
| "arc_of (RRational a) = Some a"
| "arc_of (RComplex a) = Some a"
| "arc_of (RStr a) = Some a"
| "arc_of (RArray a) = Some a"
| "arc_of (RHash a) = Some a"
| "arc_of (RRange a) = Some a"
| "arc_of (RObject a) = Some a"
| "arc_of (RProc a) = Some a"
| "arc_of (RRegexp a) = Some a"
| "arc_of (RMatchData a) = Some a"
| "arc_of (RFiber a) = Some a"
| "arc_of (REnumerator a) = Some a"
| "arc_of (RYielder a) = Some a"
| "arc_of (RThread a) = Some a"
| "arc_of (RMutex a) = Some a"
| "arc_of (RQueue a) = Some a"
| "arc_of (RRactor a) = Some a"

text \<open>\<^verbatim>\<open>gc::can_close_a_cycle\<close>: the tag byte alone decides.\<close>

definition can_close_a_cycle :: "ruby_value \<Rightarrow> bool" where
  "can_close_a_cycle v \<longleftrightarrow> FIRST_HEAP_TAG \<le> value_tag v"

lemma can_close_a_cycle_arc: "can_close_a_cycle v \<longleftrightarrow> arc_of v \<noteq> None"
  by (cases v) (simp_all add: can_close_a_cycle_def FIRST_HEAP_TAG_def)

end
