(* ===== verification/Arrays.thy ===== *)
theory Arrays
  imports Value
begin

text \<open>
  \<^verbatim>\<open>RArray\<close>'s storage (\<^verbatim>\<open>ArrayStore\<close> in \<^verbatim>\<open>crates/zeo-rt/src/value/collections.rs\<close>): a buffer with a
  dead prefix of \<open>beg\<close> slots, so that \<^verbatim>\<open>shift\<close> is O(1), and the \<^verbatim>\<open>Array#[]\<close> / \<^verbatim>\<open>Array#[]=\<close> primitives
  over it.  The interface its clients rely on is the locale \<open>ruby_sequence\<close>: every operation acts on
  the live slice as the corresponding list operation does.
\<close>

subsection \<open>The store and its operations\<close>

record array_store =
  beg :: nat
  buf :: "ruby_value list"

text \<open>\<^verbatim>\<open>Deref\<close>: the live slice.\<close>

definition as_slice :: "array_store \<Rightarrow> ruby_value list" where
  "as_slice s = drop (beg s) (buf s)"

definition as_from :: "ruby_value list \<Rightarrow> array_store" where
  "as_from b = \<lparr>beg = 0, buf = b\<rparr>"

definition as_vec :: "array_store \<Rightarrow> array_store" where
  "as_vec s = (if beg s > 0 then s\<lparr>buf := drop (beg s) (buf s), beg := 0\<rparr> else s)"

definition as_push :: "array_store \<Rightarrow> ruby_value \<Rightarrow> array_store" where
  "as_push s v = s\<lparr>buf := buf s @ [v]\<rparr>"

definition as_pop :: "array_store \<Rightarrow> ruby_value option \<times> array_store" where
  "as_pop s =
     (if length (buf s) > beg s
      then (Some (last (buf s)), s\<lparr>buf := butlast (buf s)\<rparr>)
      else (None, s))"

definition as_shift :: "array_store \<Rightarrow> ruby_value option \<times> array_store" where
  "as_shift s =
     (if length (buf s) = beg s then (None, s)
      else
        let v = buf s ! beg s;
            s1 = s\<lparr>buf := (buf s)[beg s := RNil], beg := beg s + 1\<rparr>;
            s2 = (if beg s1 = length (buf s1) then s1\<lparr>buf := [], beg := 0\<rparr>
                  else if beg s1 \<ge> 512 \<and> beg s1 * 2 \<ge> length (buf s1)
                       then s1\<lparr>buf := drop (beg s1) (buf s1), beg := 0\<rparr>
                  else s1)
        in (Some v, s2))"

definition as_clear :: "array_store \<Rightarrow> array_store" where
  "as_clear s = s\<lparr>buf := [], beg := 0\<rparr>"

definition as_extend :: "array_store \<Rightarrow> ruby_value list \<Rightarrow> array_store" where
  "as_extend s items = s\<lparr>buf := buf s @ items\<rparr>"

text \<open>\<^verbatim>\<open>append\<close> leaves the other vector empty.\<close>

definition as_append :: "array_store \<Rightarrow> ruby_value list \<Rightarrow> array_store \<times> ruby_value list" where
  "as_append s other = (s\<lparr>buf := buf s @ other\<rparr>, [])"

definition as_gc_visit :: "array_store \<Rightarrow> ruby_value list \<Rightarrow> bool \<Rightarrow> array_store \<times> ruby_value list" where
  "as_gc_visit s out take_out =
     (if take_out then (let s1 = as_vec s in (s1\<lparr>buf := []\<rparr>, out @ buf s1))
      else (s, out @ as_slice s))"

definition as_insert :: "array_store \<Rightarrow> nat \<Rightarrow> ruby_value \<Rightarrow> array_store option" where
  "as_insert s i v =
     (let s1 = as_vec s in map_option (\<lambda>b. s1\<lparr>buf := b\<rparr>) (vec_insert (buf s1) i v))"

definition as_remove :: "array_store \<Rightarrow> nat \<Rightarrow> (ruby_value \<times> array_store) option" where
  "as_remove s i =
     (let s1 = as_vec s in map_option (\<lambda>(v, b). (v, s1\<lparr>buf := b\<rparr>)) (vec_remove (buf s1) i))"

definition as_truncate :: "array_store \<Rightarrow> nat \<Rightarrow> array_store" where
  "as_truncate s n = s\<lparr>buf := take (beg s + n) (buf s)\<rparr>"

definition as_split_off :: "array_store \<Rightarrow> nat \<Rightarrow> (ruby_value list \<times> array_store) option" where
  "as_split_off s at =
     (let s1 = as_vec s in map_option (\<lambda>(t, b). (t, s1\<lparr>buf := b\<rparr>)) (vec_split_off (buf s1) at))"

definition as_retain :: "array_store \<Rightarrow> (ruby_value \<Rightarrow> bool) \<Rightarrow> array_store" where
  "as_retain s f = (let s1 = as_vec s in s1\<lparr>buf := filter f (buf s1)\<rparr>)"

definition as_drain :: "array_store \<Rightarrow> nat \<Rightarrow> nat \<Rightarrow> (ruby_value list \<times> array_store) option" where
  "as_drain s lo hi =
     (let s1 = as_vec s in map_option (\<lambda>(t, b). (t, s1\<lparr>buf := b\<rparr>)) (vec_drain (buf s1) lo hi))"

definition as_resize :: "array_store \<Rightarrow> nat \<Rightarrow> ruby_value \<Rightarrow> array_store" where
  "as_resize s n v = (let s1 = as_vec s in s1\<lparr>buf := vec_resize (buf s1) n v\<rparr>)"

definition as_into_vec :: "array_store \<Rightarrow> ruby_value list" where
  "as_into_vec s = (if beg s > 0 then drop (beg s) (buf s) else buf s)"

definition as_clone :: "array_store \<Rightarrow> array_store" where
  "as_clone s = as_from (as_slice s)"

text \<open>\<^verbatim>\<open>DerefMut\<close> indexing: a write inside the live slice, \<open>None\<close> where Rust panics.\<close>

definition as_index_set :: "array_store \<Rightarrow> nat \<Rightarrow> ruby_value \<Rightarrow> array_store option" where
  "as_index_set s i v =
     (if i < length (as_slice s) then Some (s\<lparr>buf := (buf s)[beg s + i := v]\<rparr>) else None)"

subsection \<open>Array#[] and Array#[]=\<close>

text \<open>An \<^verbatim>\<open>i64\<close> index is an integer; \<^verbatim>\<open>usize::try_from\<close> fails exactly on the negative ones.\<close>

definition resolve_index :: "int \<Rightarrow> nat \<Rightarrow> nat option" where
  "resolve_index index len =
     (let i = (if index < 0 then index + int len else index)
      in if 0 \<le> i \<and> nat i < len then Some (nat i) else None)"

definition array_get :: "array_store \<Rightarrow> int \<Rightarrow> ruby_value" where
  "array_get s index =
     (case resolve_index index (length (as_slice s)) of
        None \<Rightarrow> RNil
      | Some i \<Rightarrow> as_slice s ! i)"

text \<open>The result is \<^verbatim>\<open>false\<close> (and the array unchanged) for a negative index before the start.\<close>

definition array_set :: "array_store \<Rightarrow> int \<Rightarrow> ruby_value \<Rightarrow> bool \<times> array_store" where
  "array_set s index v =
     (let from_end = int (length (as_slice s)) + index in
      if index < 0 \<and> from_end < 0 then (False, s)
      else
        let i = (if index < 0 then nat from_end else nat index);
            s1 = (if i \<ge> length (as_slice s) then as_resize s (i + 1) RNil else s)
        in (case as_index_set s1 i v of None \<Rightarrow> (False, s1) | Some s2 \<Rightarrow> (True, s2)))"

definition array_len :: "array_store \<Rightarrow> int" where
  "array_len s = int (length (as_slice s))"

definition array_push :: "array_store \<Rightarrow> ruby_value \<Rightarrow> array_store" where
  "array_push s v = as_push s v"

definition array_snapshot :: "array_store \<Rightarrow> ruby_value list" where
  "array_snapshot s = as_slice s"

subsection \<open>Invariant: the dead prefix is inside the buffer and holds no heap value\<close>

definition as_inv :: "array_store \<Rightarrow> bool" where
  "as_inv s \<longleftrightarrow> beg s \<le> length (buf s) \<and> (\<forall>v\<in>set (take (beg s) (buf s)). v = RNil)"

lemmas as_defs = as_slice_def as_from_def as_vec_def as_push_def as_pop_def as_shift_def as_clear_def
  as_extend_def as_append_def as_gc_visit_def as_insert_def as_remove_def as_truncate_def
  as_split_off_def as_retain_def as_drain_def as_resize_def as_into_vec_def as_clone_def
  as_index_set_def Let_def

lemma as_inv_from [simp]: "as_inv (as_from b)"
  by (simp add: as_inv_def as_from_def)

lemma as_slice_from [simp]: "as_slice (as_from b) = b"
  by (simp add: as_defs)

lemma as_vec_props [simp]: "beg (as_vec s) = 0" "buf (as_vec s) = as_slice s" "as_inv (as_vec s)"
  by (auto simp: as_defs as_inv_def)

lemma as_inv_zero [simp]: "as_inv \<lparr>beg = 0, buf = b\<rparr>" "as_inv (s\<lparr>buf := b, beg := 0\<rparr>)"
  by (simp_all add: as_inv_def)

lemma as_vec_upd [simp]:
  "as_slice (as_vec s\<lparr>buf := b\<rparr>) = b" "as_inv (as_vec s\<lparr>buf := b\<rparr>)"
  by (simp_all add: as_slice_def as_inv_def)

lemma as_push_ok: "as_inv s \<Longrightarrow> as_slice (as_push s v) = as_slice s @ [v] \<and> as_inv (as_push s v)"
  by (simp add: as_defs as_inv_def)

lemma as_extend_ok: "as_inv s \<Longrightarrow> as_slice (as_extend s xs) = as_slice s @ xs \<and> as_inv (as_extend s xs)"
  by (simp add: as_defs as_inv_def)

lemma as_pop_ok:
  assumes "as_inv s"
  shows "fst (as_pop s) = (if as_slice s = [] then None else Some (last (as_slice s)))"
    and "as_slice (snd (as_pop s)) = butlast (as_slice s)" and "as_inv (snd (as_pop s))"
  using assms by (auto simp: as_defs as_inv_def butlast_drop take_butlast)

lemma as_shift_ok:
  assumes "as_inv s"
  shows "fst (as_shift s) = (case as_slice s of [] \<Rightarrow> None | v # _ \<Rightarrow> Some v)"
    and "as_slice (snd (as_shift s)) = tl (as_slice s)" and "as_inv (snd (as_shift s))"
proof -
  show "fst (as_shift s) = (case as_slice s of [] \<Rightarrow> None | v # _ \<Rightarrow> Some v)"
    using assms hd_drop_conv_nth[of "beg s" "buf s"]
    by (auto simp: as_shift_def as_slice_def as_inv_def Let_def split: list.split)
  show "as_slice (snd (as_shift s)) = tl (as_slice s)"
    using assms by (auto simp: as_shift_def as_slice_def as_inv_def Let_def vec_simps)
  show "as_inv (snd (as_shift s))"
    using assms by (auto simp: as_shift_def as_inv_def Let_def take_Suc_conv_app_nth)
qed


lemma as_clear_ok [simp]: "as_slice (as_clear s) = []" "as_inv (as_clear s)"
  by (simp_all add: as_defs as_inv_def)

lemma as_truncate_ok:
  assumes "as_inv s"
  shows "as_slice (as_truncate s n) = take n (as_slice s)" and "as_inv (as_truncate s n)"
  using assms by (auto simp: as_truncate_def as_slice_def as_inv_def take_drop add.commute)

lemma as_insert_ok:
  "as_insert s i v =
     (if i \<le> length (as_slice s)
      then Some (as_vec s\<lparr>buf := take i (as_slice s) @ v # drop i (as_slice s)\<rparr>) else None)"
  by (simp add: as_insert_def vec_insert_def)

lemma as_remove_ok:
  "as_remove s i =
     (if i < length (as_slice s)
      then Some (as_slice s ! i, as_vec s\<lparr>buf := take i (as_slice s) @ drop (Suc i) (as_slice s)\<rparr>)
      else None)"
  by (simp add: as_remove_def vec_remove_def)

lemma as_structural_ok:
  "map_option as_slice (as_insert s i v) = vec_insert (as_slice s) i v"
  "map_option (\<lambda>(x, t). (x, as_slice t)) (as_remove s i) = vec_remove (as_slice s) i"
  "map_option (\<lambda>(x, t). (x, as_slice t)) (as_split_off s i) = vec_split_off (as_slice s) i"
  "map_option (\<lambda>(x, t). (x, as_slice t)) (as_drain s i j) = vec_drain (as_slice s) i j"
  by (auto simp: as_insert_def as_remove_def as_split_off_def as_drain_def Let_def vec_insert_def
      vec_remove_def vec_split_off_def vec_drain_def)

lemma as_resize_ok [simp]:
  "as_slice (as_resize s n v) = vec_resize (as_slice s) n v" "as_inv (as_resize s n v)"
  by (simp_all add: as_resize_def)

lemma as_retain_ok [simp]: "as_slice (as_retain s f) = filter f (as_slice s)" "as_inv (as_retain s f)"
  by (simp_all add: as_retain_def)

lemma as_index_set_ok:
  assumes "as_inv s" and "i < length (as_slice s)"
  shows "\<exists>t. as_index_set s i v = Some t \<and> as_slice t = (as_slice s)[i := v] \<and> as_inv t"
  using assms by (auto simp: as_index_set_def as_slice_def as_inv_def drop_update_swap)

lemma as_into_vec_slice: "as_into_vec s = as_slice s"
  by (simp add: as_into_vec_def as_slice_def)

lemma as_gc_visit_ok:
  "as_gc_visit s out False = (s, out @ as_slice s)"
  "snd (as_gc_visit s out True) = out @ as_slice s"
  "as_slice (fst (as_gc_visit s out True)) = []"
  by (simp_all add: as_gc_visit_def as_slice_def)

subsection \<open>The sequence interface\<close>

text \<open>
  What \<^verbatim>\<open>builtins/array.rs\<close> and the collector rely on: through \<open>view\<close> (the \<^verbatim>\<open>Deref\<close> slice) the store
  is a list, whatever its dead prefix is.
\<close>

locale ruby_sequence =
  fixes view :: "'s \<Rightarrow> ruby_value list"
    and inv :: "'s \<Rightarrow> bool"
    and resize :: "'s \<Rightarrow> nat \<Rightarrow> ruby_value \<Rightarrow> 's"
    and index_set :: "'s \<Rightarrow> nat \<Rightarrow> ruby_value \<Rightarrow> 's option"
    and shift :: "'s \<Rightarrow> ruby_value option \<times> 's"
    and push :: "'s \<Rightarrow> ruby_value \<Rightarrow> 's"
  assumes view_resize: "inv s \<Longrightarrow> view (resize s n v) = vec_resize (view s) n v"
    and inv_resize: "inv s \<Longrightarrow> inv (resize s n v)"
    and view_index_set: "inv s \<Longrightarrow> i < length (view s) \<Longrightarrow>
          \<exists>t. index_set s i v = Some t \<and> view t = (view s)[i := v] \<and> inv t"
    and fst_shift: "inv s \<Longrightarrow> fst (shift s) = (case view s of [] \<Rightarrow> None | v # _ \<Rightarrow> Some v)"
    and view_shift: "inv s \<Longrightarrow> view (snd (shift s)) = tl (view s)"
    and inv_shift: "inv s \<Longrightarrow> inv (snd (shift s))"
    and view_push: "inv s \<Longrightarrow> view (push s v) = view s @ [v]"
    and inv_push: "inv s \<Longrightarrow> inv (push s v)"
begin

text \<open>A write at an index, growing with nil as Ruby does.\<close>

lemma grow_and_set:
  assumes "inv s"
  shows "\<exists>t. index_set (if i \<ge> length (view s) then resize s (i + 1) RNil else s) i v = Some t \<and> inv t
    \<and> view t = (vec_resize (view s) (max (length (view s)) (i + 1)) RNil)[i := v]"
proof (cases "i \<ge> length (view s)")
  case True
  then have "max (length (view s)) (i + 1) = i + 1" by simp
  with True view_index_set[OF inv_resize[OF assms], of i "i + 1" RNil v] assms
  show ?thesis by (auto simp: view_resize)
next
  case False
  with view_index_set[OF assms, of i v] show ?thesis by (auto simp: vec_resize_def max_def)
qed

text \<open>A queue of pushes and shifts is first in, first out.\<close>

fun drain_shifts :: "nat \<Rightarrow> 's \<Rightarrow> ruby_value list \<times> 's" where
  "drain_shifts 0 s = ([], s)"
| "drain_shifts (Suc n) s =
     (case shift s of (None, s1) \<Rightarrow> ([], s1)
      | (Some v, s1) \<Rightarrow> (case drain_shifts n s1 of (vs, s2) \<Rightarrow> (v # vs, s2)))"

lemma drain_shifts_take:
  "inv s \<Longrightarrow> fst (drain_shifts n s) = take n (view s) \<and> view (snd (drain_shifts n s)) = drop n (view s)"
proof (induction n arbitrary: s)
  case (Suc n)
  obtain r s1 where sh: "shift s = (r, s1)" by fastforce
  have r: "r = (case view s of [] \<Rightarrow> None | v # _ \<Rightarrow> Some v)" and v1: "view s1 = tl (view s)"
    and i1: "inv s1"
    using fst_shift[OF Suc.prems] view_shift[OF Suc.prems] inv_shift[OF Suc.prems] sh by auto
  show ?case
    using Suc.IH[OF i1] sh r v1 by (cases "view s") (auto split: prod.splits)
qed simp

end

interpretation arr: ruby_sequence as_slice as_inv as_resize as_index_set as_shift as_push
  by unfold_locales (simp_all add: as_shift_ok as_push_ok as_index_set_ok)

subsection \<open>Array#[] and Array#[]= against Ruby's rule\<close>

lemma array_set_view:
  assumes "as_inv s" and "- int (length (as_slice s)) \<le> index"
  defines "i \<equiv> nat (if index < 0 then int (length (as_slice s)) + index else index)"
  shows "fst (array_set s index v)" and "as_inv (snd (array_set s index v))"
    and "as_slice (snd (array_set s index v)) =
           (vec_resize (as_slice s) (max (length (as_slice s)) (i + 1)) RNil)[i := v]"
proof -
  let ?s1 = "if i \<ge> length (as_slice s) then as_resize s (i + 1) RNil else s"
  have g: "(index < 0 \<and> int (length (as_slice s)) + index < 0) = False" using assms(2) by auto
  have e: "(if index < 0 then nat (int (length (as_slice s)) + index) else nat index) = i"
    by (simp add: i_def)
  have ar: "array_set s index v =
    (case as_index_set ?s1 i v of None \<Rightarrow> (False, ?s1) | Some s2 \<Rightarrow> (True, s2))"
    unfolding array_set_def Let_def e g by (simp only: if_False)
  from arr.grow_and_set[OF assms(1), of i v] obtain t where t: "as_index_set ?s1 i v = Some t"
    "as_inv t" "as_slice t = (vec_resize (as_slice s) (max (length (as_slice s)) (i + 1)) RNil)[i := v]"
    by blast
  from ar t show "fst (array_set s index v)" and "as_inv (snd (array_set s index v))"
    and "as_slice (snd (array_set s index v)) =
           (vec_resize (as_slice s) (max (length (as_slice s)) (i + 1)) RNil)[i := v]"
    by simp_all
qed

lemma array_set_refused:
  "index < - int (length (as_slice s)) \<Longrightarrow> array_set s index v = (False, s)"
  by (simp add: array_set_def)

lemma array_get_nonneg:
  "0 \<le> index \<Longrightarrow> array_get s index =
     (if nat index < length (as_slice s) then as_slice s ! nat index else RNil)"
  by (simp add: array_get_def resolve_index_def)

lemma array_get_neg:
  "index < 0 \<Longrightarrow> array_get s index =
     (if - int (length (as_slice s)) \<le> index
      then as_slice s ! nat (int (length (as_slice s)) + index) else RNil)"
  by (auto simp: array_get_def resolve_index_def Let_def add.commute)

lemma array_get_after_set:
  assumes "as_slice t = (vec_resize (as_slice s) (max (length (as_slice s)) (Suc i)) RNil)[i := v]"
  shows "array_get t (int j) = (if j = i then v else array_get s (int j))"
  using assms by (auto simp: array_get_nonneg vec_resize_nth)

subsection \<open>Cost of shift\<close>

text \<open>
  Element moves of one \<^verbatim>\<open>shift\<close>: one for the element taken, and, when the dead prefix is reclaimed, one
  per live element moved to the front.
\<close>

definition shift_cost :: "array_store \<Rightarrow> nat" where
  "shift_cost s =
     (if length (buf s) = beg s then 0
      else 1 + (if beg s + 1 \<noteq> length (buf s) \<and> beg s + 1 \<ge> 512 \<and> (beg s + 1) * 2 \<ge> length (buf s)
                then length (buf s) - (beg s + 1) else 0))"

lemma shift_cost_amortized:
  "as_inv s \<Longrightarrow> int (shift_cost s) + int (beg (snd (as_shift s))) - int (beg s) \<le> 2"
  by (auto simp: shift_cost_def as_shift_def as_inv_def Let_def)

datatype queue_op = OpPush ruby_value | OpPop | OpShift

fun run_op :: "array_store \<Rightarrow> queue_op \<Rightarrow> array_store" where
  "run_op s (OpPush v) = as_push s v"
| "run_op s OpPop = snd (as_pop s)"
| "run_op s OpShift = snd (as_shift s)"

fun op_cost :: "array_store \<Rightarrow> queue_op \<Rightarrow> nat" where
  "op_cost s OpShift = shift_cost s"
| "op_cost s _ = 1"

fun run_cost :: "array_store \<Rightarrow> queue_op list \<Rightarrow> nat" where
  "run_cost s [] = 0"
| "run_cost s (o1 # os) = op_cost s o1 + run_cost (run_op s o1) os"

lemma run_op_inv: "as_inv s \<Longrightarrow> as_inv (run_op s o1)"
  by (cases o1) (simp_all add: as_push_ok as_pop_ok as_shift_ok)

lemma op_cost_amortized: "as_inv s \<Longrightarrow> op_cost s o1 + beg (run_op s o1) \<le> 2 + beg s"
  using shift_cost_amortized[of s]
  by (cases o1) (auto simp: as_push_def as_pop_def)

subsection \<open>Properties\<close>



text \<open>
  \<^verbatim>\<open>Array#[]=\<close> then \<^verbatim>\<open>Array#[]\<close>: a write at an index that is not before the start succeeds, reading the
  written index back gives the value, and every other non-negative index reads as before (a gap opened
  past the end reads nil, as it did).  A write before the start is refused and changes nothing.
\<close>

theorem array_set_get:
  assumes "as_inv s"
  shows "(if index < - int (length (as_slice s)) then array_set s index v = (False, s)
    else (let (ok, t) = array_set s index v;
              i = nat (if index < 0 then int (length (as_slice s)) + index else index)
          in ok \<and> as_inv t
             \<and> (\<forall>j. array_get t (int j) = (if j = i then v else array_get s (int j)))))"
proof (cases "index < - int (length (as_slice s))")
  case False
  then have ix: "- int (length (as_slice s)) \<le> index" by simp
  obtain ok t where t: "array_set s index v = (ok, t)" by fastforce
  note a = array_set_view[OF assms ix, of v, unfolded t, simplified]
  let ?i = "nat (if index < 0 then int (length (as_slice s)) + index else index)"
  have "array_get t (int j) = (if j = ?i then v else array_get s (int j))" for j
    using a(3) by (rule array_get_after_set)
  with a(1,2) t False show ?thesis by (simp add: Let_def)
qed (simp add: array_set_refused)

theorem array_set_get_witness:
  "(case array_set \<lparr>beg = 1, buf = [RNil, RInt 1, RInt 2]\<rparr> 3 (RInt 9) of (ok, t) \<Rightarrow>
      ok \<and> array_get t 3 = RInt 9 \<and> array_get t 2 = RNil)"
proof -
  let ?s = "\<lparr>beg = 1, buf = [RNil, RInt 1, RInt 2]\<rparr>"
  obtain ok t where t: "array_set ?s 3 (RInt 9) = (ok, t)" by fastforce
  have "as_inv ?s" by (simp add: as_inv_def)
  from array_set_get[OF this, of 3 "RInt 9"]
  have "ok" and g: "\<And>j. array_get t (int j) = (if j = 3 then RInt 9 else array_get ?s (int j))"
    unfolding t by (simp_all add: as_slice_def)
  moreover have "array_get ?s 2 = RNil" by (simp add: array_get_def resolve_index_def as_slice_def)
  ultimately show ?thesis using g[of 2] g[of 3] unfolding t by simp
qed

text \<open>
  \<^verbatim>\<open>shift\<close> is amortized O(1): along any run of pushes, pops and shifts the number of element moves,
  including every compaction of the dead prefix, is at most twice the number of operations plus the
  dead prefix the run started with.
\<close>

theorem shift_amortized:
  assumes "as_inv s"
  shows "run_cost s ops \<le> 2 * length ops + beg s"
  using assms
proof (induction ops arbitrary: s)
  case (Cons o1 ops)
  have "run_cost (run_op s o1) ops \<le> 2 * length ops + beg (run_op s o1)"
    by (rule Cons.IH[OF run_op_inv[OF Cons.prems]])
  with op_cost_amortized[OF Cons.prems, of o1] show ?case by simp
qed simp

theorem shift_amortized_witness:
  "run_cost (as_from []) [OpPush (RInt 1), OpPush (RInt 2), OpShift, OpShift] \<le> 8"
  using shift_amortized[of "as_from []" "[OpPush (RInt 1), OpPush (RInt 2), OpShift, OpShift]"]
  by (simp add: as_from_def as_inv_def)

end
