(* ===== verification/Hashes.thy ===== *)
theory Hashes
  imports Value
begin

text \<open>
  The Hash table (\<^verbatim>\<open>RHashData\<close> in \<^verbatim>\<open>crates/zeo-rt/src/value/collections.rs\<close>): a vector of rows up to
  \<open>SMALL_HASH_MAX\<close> entries, an \<^verbatim>\<open>IndexMap\<close> above it, and the \<^verbatim>\<open>hash_*\<close> functions the Hash rows and the
  generated code call.  \<^verbatim>\<open>IndexMap\<close> is a third-party crate: it is the parameter \<open>index_map\<close>, and what
  the code relies on is the locale \<open>ordered_table\<close>, its documented contract (insertion order, a
  re-inserted key keeps its place).  The projection of a value to its \<^verbatim>\<open>HashKey\<close> dispatches to the Ruby
  program's own \<^verbatim>\<open>hash\<close>, and the string store is outside this component: both are the parameter
  \<open>key_env\<close>.
\<close>

type_synonym kv = "ruby_value \<times> ruby_value"
type_synonym 'k hash_row = "'k \<times> kv"

definition SMALL_HASH_MAX :: nat where
  "SMALL_HASH_MAX = 8"

subsection \<open>The parameters: IndexMap and the key projection\<close>

record ('m, 'k) index_map =
  im_rows :: "'m \<Rightarrow> 'k hash_row list"
  im_insert :: "'m \<Rightarrow> 'k \<Rightarrow> kv \<Rightarrow> 'm \<times> kv option"
  im_get :: "'m \<Rightarrow> 'k \<Rightarrow> kv option"
  im_contains_key :: "'m \<Rightarrow> 'k \<Rightarrow> bool"
  im_get_index_of :: "'m \<Rightarrow> 'k \<Rightarrow> nat option"
  im_set_index :: "'m \<Rightarrow> nat \<Rightarrow> kv \<Rightarrow> 'm"
  im_shift_remove :: "'m \<Rightarrow> 'k \<Rightarrow> 'm \<times> kv option"
  im_len :: "'m \<Rightarrow> nat"
  im_clear :: "'m \<Rightarrow> 'm"
  im_default :: 'm
  im_collect :: "'k hash_row list \<Rightarrow> 'm"

text \<open>
  \<open>hash_key_in v by_identity\<close> is the projected key; \<open>key_raises\<close> says that the program's own \<^verbatim>\<open>hash\<close>
  raised while projecting (the exception is parked); \<open>str_frozen\<close> and \<open>str_copy\<close> read and copy a string
  of the string store.
\<close>

record 'k key_env =
  hash_key_in :: "ruby_value \<Rightarrow> bool \<Rightarrow> 'k"
  key_raises :: "ruby_value \<Rightarrow> bool \<Rightarrow> bool"
  str_frozen :: "addr \<Rightarrow> bool"
  str_copy :: "addr \<Rightarrow> addr"

subsection \<open>Rows: the Small representation\<close>

definition row_position :: "'k hash_row list \<Rightarrow> 'k \<Rightarrow> nat option" where
  "row_position rows k = position (\<lambda>r. fst r = k) rows"

definition rows_get :: "'k hash_row list \<Rightarrow> 'k \<Rightarrow> kv option" where
  "rows_get rows k = map_option snd (List.find (\<lambda>r. fst r = k) rows)"

definition rows_contains_key :: "'k hash_row list \<Rightarrow> 'k \<Rightarrow> bool" where
  "rows_contains_key rows k = list_ex (\<lambda>r. fst r = k) rows"

definition rows_set_index :: "'k hash_row list \<Rightarrow> nat \<Rightarrow> kv \<Rightarrow> 'k hash_row list" where
  "rows_set_index rows i v = (if i < length rows then rows[i := (fst (rows ! i), v)] else rows)"

definition rows_shift_remove :: "'k hash_row list \<Rightarrow> 'k \<Rightarrow> 'k hash_row list \<times> kv option" where
  "rows_shift_remove rows k =
     (case row_position rows k of
        None \<Rightarrow> (rows, None)
      | Some i \<Rightarrow> (take i rows @ drop (Suc i) rows, Some (snd (rows ! i))))"

text \<open>
  The insertion both representations promise: an equivalent key keeps its place and its stored key,
  its value is replaced and the old one returned; a new key goes last.
\<close>

definition rows_insert :: "'k hash_row list \<Rightarrow> 'k \<Rightarrow> kv \<Rightarrow> 'k hash_row list \<times> kv option" where
  "rows_insert rows k v =
     (case row_position rows k of
        Some i \<Rightarrow> (rows_set_index rows i v, Some (snd (rows ! i)))
      | None \<Rightarrow> (rows @ [(k, v)], None))"

definition rows_inv :: "'k hash_row list \<Rightarrow> bool" where
  "rows_inv rows \<longleftrightarrow> distinct (map fst rows)"

subsection \<open>RHashData\<close>

datatype ('m, 'k) hash_repr = Small "'k hash_row list" | Big 'm

record ('m, 'k) rhash_data =
  repr :: "('m, 'k) hash_repr"
  hdefault :: ruby_value
  default_proc :: "ruby_value option"
  compare_by_identity :: bool
  iterating :: nat
  kw_marked :: bool

definition rhd_new :: "('m, 'k) rhash_data" where
  "rhd_new = \<lparr>repr = Small [], hdefault = RNil, default_proc = None, compare_by_identity = False,
              iterating = 0, kw_marked = False\<rparr>"

definition rhd_from_rows :: "('m, 'k) index_map \<Rightarrow> 'k hash_row list \<Rightarrow> ('m, 'k) rhash_data" where
  "rhd_from_rows M rows =
     rhd_new\<lparr>repr := (if length rows \<le> SMALL_HASH_MAX then Small rows else Big (im_collect M rows))\<rparr>"

definition rhd_insert ::
  "('m, 'k) index_map \<Rightarrow> ('m, 'k) rhash_data \<Rightarrow> 'k \<Rightarrow> kv \<Rightarrow> ('m, 'k) rhash_data \<times> kv option" where
  "rhd_insert M d k v =
     (case repr d of
        Small rows \<Rightarrow>
          (case row_position rows k of
             Some i \<Rightarrow> (d\<lparr>repr := Small (rows[i := (fst (rows ! i), v)])\<rparr>, Some (snd (rows ! i)))
           | None \<Rightarrow>
               (if length rows < SMALL_HASH_MAX then (d\<lparr>repr := Small (rows @ [(k, v)])\<rparr>, None)
                else (let (m, old) = im_insert M (im_collect M rows) k v
                      in (d\<lparr>repr := Big m\<rparr>, old))))
      | Big m \<Rightarrow> (let (m', old) = im_insert M m k v in (d\<lparr>repr := Big m'\<rparr>, old)))"

definition rhd_get :: "('m, 'k) index_map \<Rightarrow> ('m, 'k) rhash_data \<Rightarrow> 'k \<Rightarrow> kv option" where
  "rhd_get M d k = (case repr d of Small rows \<Rightarrow> rows_get rows k | Big m \<Rightarrow> im_get M m k)"

definition rhd_contains_key :: "('m, 'k) index_map \<Rightarrow> ('m, 'k) rhash_data \<Rightarrow> 'k \<Rightarrow> bool" where
  "rhd_contains_key M d k =
     (case repr d of Small rows \<Rightarrow> rows_contains_key rows k | Big m \<Rightarrow> im_contains_key M m k)"

definition rhd_get_index_of :: "('m, 'k) index_map \<Rightarrow> ('m, 'k) rhash_data \<Rightarrow> 'k \<Rightarrow> nat option" where
  "rhd_get_index_of M d k =
     (case repr d of Small rows \<Rightarrow> row_position rows k | Big m \<Rightarrow> im_get_index_of M m k)"

text \<open>\<^verbatim>\<open>get_index_mut\<close> followed by a write through the reference it returns.\<close>

definition rhd_set_index ::
  "('m, 'k) index_map \<Rightarrow> ('m, 'k) rhash_data \<Rightarrow> nat \<Rightarrow> kv \<Rightarrow> ('m, 'k) rhash_data" where
  "rhd_set_index M d i v =
     (case repr d of
        Small rows \<Rightarrow> d\<lparr>repr := Small (rows_set_index rows i v)\<rparr>
      | Big m \<Rightarrow> d\<lparr>repr := Big (im_set_index M m i v)\<rparr>)"

definition rhd_shift_remove ::
  "('m, 'k) index_map \<Rightarrow> ('m, 'k) rhash_data \<Rightarrow> 'k \<Rightarrow> ('m, 'k) rhash_data \<times> kv option" where
  "rhd_shift_remove M d k =
     (case repr d of
        Small rows \<Rightarrow> (let (rows', r) = rows_shift_remove rows k in (d\<lparr>repr := Small rows'\<rparr>, r))
      | Big m \<Rightarrow> (let (m', r) = im_shift_remove M m k in (d\<lparr>repr := Big m'\<rparr>, r)))"

definition rhd_len :: "('m, 'k) index_map \<Rightarrow> ('m, 'k) rhash_data \<Rightarrow> nat" where
  "rhd_len M d = (case repr d of Small rows \<Rightarrow> length rows | Big m \<Rightarrow> im_len M m)"

definition rhd_clear :: "('m, 'k) index_map \<Rightarrow> ('m, 'k) rhash_data \<Rightarrow> ('m, 'k) rhash_data" where
  "rhd_clear M d =
     (case repr d of
        Small rows \<Rightarrow> d\<lparr>repr := Small []\<rparr>
      | Big m \<Rightarrow> d\<lparr>repr := Big (im_clear M m)\<rparr>)"

text \<open>\<^verbatim>\<open>iter\<close> and \<^verbatim>\<open>values\<close>: the rows, and the (original key, value) pairs, in insertion order.\<close>

definition rhd_iter :: "('m, 'k) index_map \<Rightarrow> ('m, 'k) rhash_data \<Rightarrow> 'k hash_row list" where
  "rhd_iter M d = (case repr d of Small rows \<Rightarrow> rows | Big m \<Rightarrow> im_rows M m)"

definition rhd_values :: "('m, 'k) index_map \<Rightarrow> ('m, 'k) rhash_data \<Rightarrow> kv list" where
  "rhd_values M d = map snd (rhd_iter M d)"

definition rhd_gc_visit ::
  "('m, 'k) index_map \<Rightarrow> ('m, 'k) rhash_data \<Rightarrow> ruby_value list \<Rightarrow> bool
     \<Rightarrow> ('m, 'k) rhash_data \<times> ruby_value list" where
  "rhd_gc_visit M d out take_out =
     (if take_out then
        (let out1 = out @ concat (map (\<lambda>(k, v). [k, v]) (rhd_values M d)) @ [hdefault d]
                        @ (case default_proc d of None \<Rightarrow> [] | Some p \<Rightarrow> [p]);
             repr1 = (case repr d of Small rows \<Rightarrow> Small [] | Big m \<Rightarrow> Big (im_default M))
         in (d\<lparr>repr := repr1, hdefault := RNil, default_proc := None\<rparr>, out1))
      else
        (d, out @ concat (map (\<lambda>(k, v). [k, v]) (rhd_values M d)) @ [hdefault d]
                @ (case default_proc d of None \<Rightarrow> [] | Some p \<Rightarrow> [p])))"

subsection \<open>The hash functions\<close>

datatype hash_error = CantAddKeyDuringIteration

primrec is_str :: "ruby_value option \<Rightarrow> bool" where
  "is_str None = False"
| "is_str (Some v) = (case v of RStr s \<Rightarrow> True | _ \<Rightarrow> False)"

text \<open>The borrowed string probe applies to a string key of a structural table.\<close>

definition str_probed :: "('m, 'k) rhash_data \<Rightarrow> ruby_value \<Rightarrow> bool" where
  "str_probed h key \<longleftrightarrow> is_str (Some key) \<and> \<not> compare_by_identity h"

definition snapshot_key :: "'k key_env \<Rightarrow> ruby_value \<Rightarrow> bool \<Rightarrow> ruby_value" where
  "snapshot_key E key by_identity =
     (case key of
        RStr s \<Rightarrow> (if \<not> by_identity \<and> \<not> str_frozen E s then RStr (str_copy E s) else key)
      | _ \<Rightarrow> key)"

text \<open>
  \<open>armed\<close> is the thread's flag that a key projection has raised (\<^verbatim>\<open>key_raise_pending\<close>); the functions
  that project a key return its new value.
\<close>

definition hash_set_under ::
  "('m, 'k) index_map \<Rightarrow> 'k key_env \<Rightarrow> bool \<Rightarrow> ('m, 'k) rhash_data \<Rightarrow> ruby_value \<Rightarrow> ruby_value
     \<Rightarrow> ('m, 'k) rhash_data \<times> bool" where
  "hash_set_under M E armed g key value =
     (case (if str_probed g key then rhd_get_index_of M g (hash_key_in E key False) else None) of
        Some i \<Rightarrow> (rhd_set_index M g i (snapshot_key E key False, value), armed)
      | None \<Rightarrow>
          (let k = hash_key_in E key (compare_by_identity g);
               armed' = (armed \<or> key_raises E key (compare_by_identity g))
           in if armed' then (g, armed')
              else (fst (rhd_insert M g k (snapshot_key E key (compare_by_identity g), value)), armed')))"

definition hash_set where
  "hash_set M E armed h key value = hash_set_under M E armed h key value"

definition hash_lookup ::
  "('m, 'k) index_map \<Rightarrow> 'k key_env \<Rightarrow> ('m, 'k) rhash_data \<Rightarrow> ruby_value \<Rightarrow> ruby_value option" where
  "hash_lookup M E h key =
     (if str_probed h key then map_option snd (rhd_get M h (hash_key_in E key False))
      else map_option snd (rhd_get M h (hash_key_in E key (compare_by_identity h))))"

definition hash_get where
  "hash_get M E h key = (case hash_lookup M E h key of None \<Rightarrow> RNil | Some v \<Rightarrow> v)"

text \<open>\<^verbatim>\<open>Hash#[]\<close>: \<open>call\<close> is the dispatch of the default proc with the hash and the key.\<close>

definition hash_index ::
  "('m, 'k) index_map \<Rightarrow> 'k key_env \<Rightarrow> (ruby_value \<Rightarrow> ruby_value \<Rightarrow> 'e + ruby_value)
     \<Rightarrow> ('m, 'k) rhash_data \<Rightarrow> ruby_value \<Rightarrow> 'e + ruby_value" where
  "hash_index M E call h key =
     (case hash_lookup M E h key of
        Some v \<Rightarrow> Inr v
      | None \<Rightarrow> (case default_proc h of Some p \<Rightarrow> call p key | None \<Rightarrow> Inr (hdefault h)))"

definition hash_has_key ::
  "('m, 'k) index_map \<Rightarrow> 'k key_env \<Rightarrow> bool \<Rightarrow> ('m, 'k) rhash_data \<Rightarrow> ruby_value \<Rightarrow> bool \<times> bool" where
  "hash_has_key M E armed h key =
     (if str_probed h key then (rhd_contains_key M h (hash_key_in E key False), armed)
      else (rhd_contains_key M h (hash_key_in E key (compare_by_identity h)),
            armed \<or> key_raises E key (compare_by_identity h)))"

definition hash_set_checked ::
  "('m, 'k) index_map \<Rightarrow> 'k key_env \<Rightarrow> bool \<Rightarrow> ('m, 'k) rhash_data \<Rightarrow> ruby_value \<Rightarrow> ruby_value
     \<Rightarrow> hash_error + (('m, 'k) rhash_data \<times> bool)" where
  "hash_set_checked M E armed h key value =
     (if iterating h > 0 then
        (let (present, armed') = hash_has_key M E armed h key
         in if \<not> present then Inl CantAddKeyDuringIteration
            else Inr (hash_set M E armed' h key value))
      else Inr (hash_set_under M E armed h key value))"

definition hash_iter_guard :: "('m, 'k) rhash_data \<Rightarrow> ('m, 'k) rhash_data" where
  "hash_iter_guard h = h\<lparr>iterating := iterating h + 1\<rparr>"

definition hash_iter_guard_drop :: "('m, 'k) rhash_data \<Rightarrow> ('m, 'k) rhash_data" where
  "hash_iter_guard_drop h = h\<lparr>iterating := iterating h - 1\<rparr>"

definition hash_delete ::
  "('m, 'k) index_map \<Rightarrow> 'k key_env \<Rightarrow> ('m, 'k) rhash_data \<Rightarrow> ruby_value
     \<Rightarrow> ('m, 'k) rhash_data \<times> ruby_value" where
  "hash_delete M E h key =
     (let (h', removed) =
            (if str_probed h key then rhd_shift_remove M h (hash_key_in E key False)
             else rhd_shift_remove M h (hash_key_in E key (compare_by_identity h)))
      in (h', case removed of None \<Rightarrow> RNil | Some (_, v) \<Rightarrow> v))"

definition hash_enable_compare_by_identity ::
  "('m, 'k) index_map \<Rightarrow> 'k key_env \<Rightarrow> ('m, 'k) rhash_data \<Rightarrow> ('m, 'k) rhash_data" where
  "hash_enable_compare_by_identity M E h =
     (if compare_by_identity h then h
      else
        (let old = rhd_values M h;
             g = rhd_clear M (h\<lparr>compare_by_identity := True\<rparr>)
         in foldl (\<lambda>g (k, v). fst (rhd_insert M g (hash_key_in E k True) (k, v))) g old))"

definition hash_new ::
  "('m, 'k) index_map \<Rightarrow> 'k key_env \<Rightarrow> bool \<Rightarrow> kv list \<Rightarrow> ('m, 'k) rhash_data \<times> bool" where
  "hash_new M E armed pairs = foldl (\<lambda>(h, a) (k, v). hash_set M E a h k v) (rhd_new, armed) pairs"

definition hash_new_with_default :: "ruby_value \<Rightarrow> ruby_value option \<Rightarrow> ('m, 'k) rhash_data" where
  "hash_new_with_default d p = rhd_new\<lparr>hdefault := d, default_proc := p\<rparr>"

definition copy_hash_meta :: "('m, 'k) rhash_data \<Rightarrow> ('m, 'k) rhash_data \<Rightarrow> ('m, 'k) rhash_data" where
  "copy_hash_meta src dst =
     dst\<lparr>hdefault := hdefault src, default_proc := default_proc src,
         compare_by_identity := compare_by_identity src\<rparr>"

definition hash_keys where
  "hash_keys M h = map fst (rhd_values M h)"

definition hash_values where
  "hash_values M h = map snd (rhd_values M h)"

definition hash_pairs_snapshot where
  "hash_pairs_snapshot M h = rhd_values M h"

definition hash_except_keys ::
  "('m, 'k) index_map \<Rightarrow> ('m, 'k) rhash_data \<Rightarrow> 'k list \<Rightarrow> ('m, 'k) rhash_data" where
  "hash_except_keys M h excluded =
     rhd_from_rows M (filter (\<lambda>(k, _). k \<notin> set excluded) (rhd_iter M h))"

definition hash_mark_kwargs :: "('m, 'k) rhash_data \<Rightarrow> ('m, 'k) rhash_data" where
  "hash_mark_kwargs h = h\<lparr>kw_marked := True\<rparr>"

subsection \<open>The contract of an insertion-ordered table\<close>

locale ordered_table =
  fixes inv :: "'t \<Rightarrow> bool"
    and rows :: "'t \<Rightarrow> 'k hash_row list"
    and insert :: "'t \<Rightarrow> 'k \<Rightarrow> kv \<Rightarrow> 't \<times> kv option"
    and get :: "'t \<Rightarrow> 'k \<Rightarrow> kv option"
    and contains_key :: "'t \<Rightarrow> 'k \<Rightarrow> bool"
    and get_index_of :: "'t \<Rightarrow> 'k \<Rightarrow> nat option"
    and set_index :: "'t \<Rightarrow> nat \<Rightarrow> kv \<Rightarrow> 't"
    and shift_remove :: "'t \<Rightarrow> 'k \<Rightarrow> 't \<times> kv option"
    and len :: "'t \<Rightarrow> nat"
    and clear :: "'t \<Rightarrow> 't"
  assumes inv_rows: "inv t \<Longrightarrow> rows_inv (rows t)"
    and rows_of_insert: "inv t \<Longrightarrow> insert t k v = (t', old) \<Longrightarrow> rows_insert (rows t) k v = (rows t', old)"
    and inv_insert: "inv t \<Longrightarrow> insert t k v = (t', old) \<Longrightarrow> inv t'"
    and get_rows: "inv t \<Longrightarrow> get t k = rows_get (rows t) k"
    and contains_rows: "inv t \<Longrightarrow> contains_key t k = rows_contains_key (rows t) k"
    and index_rows: "inv t \<Longrightarrow> get_index_of t k = row_position (rows t) k"
    and rows_of_set_index: "inv t \<Longrightarrow> rows (set_index t i v) = rows_set_index (rows t) i v"
    and inv_set_index: "inv t \<Longrightarrow> inv (set_index t i v)"
    and rows_of_shift_remove:
      "inv t \<Longrightarrow> shift_remove t k = (t', r) \<Longrightarrow> rows_shift_remove (rows t) k = (rows t', r)"
    and inv_shift_remove: "inv t \<Longrightarrow> shift_remove t k = (t', r) \<Longrightarrow> inv t'"
    and len_rows: "inv t \<Longrightarrow> len t = length (rows t)"
    and rows_of_clear: "inv t \<Longrightarrow> rows (clear t) = []"
    and inv_clear: "inv t \<Longrightarrow> inv (clear t)"

text \<open>\<^verbatim>\<open>IndexMap\<close>'s documented contract: an ordered table that can also be collected from rows.\<close>

locale index_map_contract =
  ordered_table minv "im_rows M" "im_insert M" "im_get M" "im_contains_key M" "im_get_index_of M"
    "im_set_index M" "im_shift_remove M" "im_len M" "im_clear M"
  for minv :: "'m \<Rightarrow> bool" and M :: "('m, 'k) index_map" +
  assumes rows_of_collect: "rows_inv rs \<Longrightarrow> im_rows M (im_collect M rs) = rs"
    and inv_collect: "rows_inv rs \<Longrightarrow> minv (im_collect M rs)"
    and rows_of_default: "im_rows M (im_default M) = []"
    and inv_default: "minv (im_default M)"

subsection \<open>Lemmas on rows\<close>

lemma row_position_None: "row_position rows k = None \<longleftrightarrow> k \<notin> fst ` set rows"
  by (auto simp: row_position_def position_None image_iff)

lemma row_position_Some:
  "row_position rows k = Some i \<Longrightarrow> i < length rows \<and> fst (rows ! i) = k"
  by (auto simp: row_position_def dest: position_SomeD)

lemma rows_get_map_of: "rows_get rows k = map_of rows k"
  by (induction rows) (auto simp: rows_get_def)

lemma rows_contains_iff: "rows_contains_key rows k \<longleftrightarrow> k \<in> fst ` set rows"
  by (auto simp: rows_contains_key_def list_ex_iff)

lemma map_fst_rows_set_index [simp]: "map fst (rows_set_index rows i v) = map fst rows"
  by (auto simp: rows_set_index_def map_update list_update_same_conv)

lemma rows_inv_Nil [simp]: "rows_inv []"
  by (simp add: rows_inv_def)

lemma rows_inv_set_index [simp]: "rows_inv (rows_set_index rows i v) \<longleftrightarrow> rows_inv rows"
  by (simp add: rows_inv_def)

lemma rows_inv_insert: "rows_inv rows \<Longrightarrow> rows_insert rows k v = (rows', old) \<Longrightarrow> rows_inv rows'"
  by (auto simp: rows_insert_def rows_inv_def row_position_None split: option.splits)

lemma rows_inv_shift_remove:
  "rows_inv rows \<Longrightarrow> rows_shift_remove rows k = (rows', r) \<Longrightarrow> rows_inv rows'"
proof -
  assume d: "rows_inv rows" and r: "rows_shift_remove rows k = (rows', r)"
  show "rows_inv rows'"
  proof (cases "row_position rows k")
    case (Some i)
    then have i: "i < length rows" by (simp add: row_position_Some)
    have "distinct (map fst (take i rows @ rows ! i # drop (Suc i) rows))"
      using d i by (simp only: take_drop_Suc rows_inv_def)
    with Some r show ?thesis by (auto simp: rows_shift_remove_def rows_inv_def)
  qed (use d r in \<open>simp add: rows_shift_remove_def\<close>)
qed

lemma map_of_rows_set_index:
  assumes "rows_inv rows" and "i < length rows"
  shows "map_of (rows_set_index rows i v) = (map_of rows)(fst (rows ! i) \<mapsto> v)"
  using assms
proof (induction rows arbitrary: i)
  case (Cons r rows)
  show ?case
  proof (cases i)
    case (Suc j)
    with Cons.prems have "rows_inv rows" "j < length rows" by (auto simp: rows_inv_def)
    moreover from Cons.prems Suc have "fst r \<noteq> fst (rows ! j)"
      by (auto simp: rows_inv_def dest: nth_mem)
    ultimately show ?thesis
      using Cons.IH[of j] Suc by (cases r) (auto simp: rows_set_index_def)
  qed (cases r, auto simp: rows_set_index_def)
qed simp

lemma map_of_rows_insert:
  "rows_inv rows \<Longrightarrow> map_of (fst (rows_insert rows k v)) = (map_of rows)(k \<mapsto> v)"
proof (cases "row_position rows k")
  case None
  then have "map_of rows k = None" by (simp add: row_position_None map_of_eq_None_iff)
  with None show ?thesis by (auto simp: rows_insert_def map_add_def fun_eq_iff split: option.splits)
next
  case (Some i)
  assume "rows_inv rows"
  with Some show ?thesis
    using row_position_Some[OF Some] by (simp add: rows_insert_def map_of_rows_set_index)
qed

lemma map_of_rows_shift_remove:
  assumes "rows_inv rows"
  shows "map_of (fst (rows_shift_remove rows k)) = (map_of rows)(k := None)"
proof (cases "row_position rows k")
  case None
  then have "map_of rows k = None" by (simp add: row_position_None map_of_eq_None_iff)
  with None show ?thesis by (auto simp: rows_shift_remove_def fun_eq_iff)
next
  case (Some i)
  note i = row_position_Some[OF Some]
  have split: "rows = take i rows @ (k, snd (rows ! i)) # drop (Suc i) rows"
    using i take_drop_Suc[of i rows] by (cases "rows ! i") auto
  have d: "distinct (map fst (take i rows @ (k, snd (rows ! i)) # drop (Suc i) rows))"
    using assms split by (metis rows_inv_def)
  have "map_of rows = map_of (take i rows @ (k, snd (rows ! i)) # drop (Suc i) rows)"
    using split by metis
  moreover have "map_of (take i rows) k = None" "map_of (drop (Suc i) rows) k = None"
    using d by (auto simp: map_of_eq_None_iff)
  ultimately show ?thesis
    using Some by (auto simp: rows_shift_remove_def map_add_def fun_eq_iff split: option.splits)
qed

lemma rows_shift_remove_filter:
  assumes "rows_inv rows"
  shows "fst (rows_shift_remove rows k) = filter (\<lambda>r. fst r \<noteq> k) rows"
proof (cases "row_position rows k")
  case None
  then have "\<forall>r\<in>set rows. fst r \<noteq> k" by (auto simp: row_position_None)
  with None show ?thesis by (simp add: rows_shift_remove_def filter_True)
next
  case (Some i)
  note i = row_position_Some[OF Some]
  have d: "distinct (map fst (take i rows @ rows ! i # drop (Suc i) rows))"
    using assms i by (simp only: take_drop_Suc rows_inv_def)
  have "k \<notin> fst ` set (take i rows)" "k \<notin> fst ` set (drop (Suc i) rows)"
    using d i by auto
  then have "filter (\<lambda>r. fst r \<noteq> k) (take i rows) = take i rows"
    and "filter (\<lambda>r. fst r \<noteq> k) (drop (Suc i) rows) = drop (Suc i) rows"
    by (metis (mono_tags, lifting) filter_id_conv image_eqI)+
  then have "filter (\<lambda>r. fst r \<noteq> k) (take i rows @ rows ! i # drop (Suc i) rows)
      = take i rows @ drop (Suc i) rows"
    using i by simp
  with Some i show ?thesis by (simp add: rows_shift_remove_def take_drop_Suc)
qed

interpretation small: ordered_table rows_inv "\<lambda>rs. rs" rows_insert rows_get rows_contains_key
  row_position rows_set_index rows_shift_remove length "\<lambda>_. []"
  by unfold_locales (auto dest: rows_inv_insert rows_inv_shift_remove)

subsection \<open>RHashData keeps the contract of an ordered table\<close>

definition rhd_inv :: "('m \<Rightarrow> bool) \<Rightarrow> ('m, 'k) rhash_data \<Rightarrow> bool" where
  "rhd_inv minv d =
     (case repr d of Small rows \<Rightarrow> rows_inv rows \<and> length rows \<le> SMALL_HASH_MAX | Big m \<Rightarrow> minv m)"

lemma rhd_iter_repr_upd [simp]:
  "rhd_iter M (d\<lparr>repr := Small rs\<rparr>) = rs" "rhd_iter M (d\<lparr>repr := Big m\<rparr>) = im_rows M m"
  by (simp_all add: rhd_iter_def)

lemma rhd_inv_repr_upd [simp]:
  "rhd_inv mi (d\<lparr>repr := Small rs\<rparr>) \<longleftrightarrow> rows_inv rs \<and> length rs \<le> SMALL_HASH_MAX"
  "rhd_inv mi (d\<lparr>repr := Big m\<rparr>) \<longleftrightarrow> mi m"
  by (simp_all add: rhd_inv_def)

lemma length_rows_set_index [simp]: "length (rows_set_index rows i v) = length rows"
  by (simp add: rows_set_index_def)

lemma length_rows_shift_remove:
  "rows_shift_remove rows k = (rows', r) \<Longrightarrow> length rows' \<le> length rows"
  by (auto simp: rows_shift_remove_def split: option.splits)

lemma rhd_insert_repr:
  "rhd_insert M d k v =
     (case repr d of
        Small rows \<Rightarrow>
          (if row_position rows k \<noteq> None \<or> length rows < SMALL_HASH_MAX
           then (d\<lparr>repr := Small (fst (rows_insert rows k v))\<rparr>, snd (rows_insert rows k v))
           else (d\<lparr>repr := Big (fst (im_insert M (im_collect M rows) k v))\<rparr>,
                 snd (im_insert M (im_collect M rows) k v)))
      | Big m \<Rightarrow> (d\<lparr>repr := Big (fst (im_insert M m k v))\<rparr>, snd (im_insert M m k v)))"
  by (auto simp: rhd_insert_def rows_insert_def rows_set_index_def Let_def split_beta
      split: hash_repr.splits option.splits dest: row_position_Some)

context index_map_contract
begin

lemma rhd_insert_rows:
  assumes i: "rhd_inv minv d" and r: "rhd_insert M d k v = (d', old)"
  shows "rows_insert (rhd_iter M d) k v = (rhd_iter M d', old)" and "rhd_inv minv d'"
proof -
  have "rows_insert (rhd_iter M d) k v = (rhd_iter M d', old) \<and> rhd_inv minv d'"
  proof (cases "repr d")
    case (Small rs)
    with i have rs: "rows_inv rs" "length rs \<le> SMALL_HASH_MAX" by (auto simp: rhd_inv_def)
    show ?thesis
    proof (cases "row_position rs k \<noteq> None \<or> length rs < SMALL_HASH_MAX")
      case True
      moreover obtain rs' o' where ro: "rows_insert rs k v = (rs', o')" by fastforce
      moreover have "length rs' \<le> SMALL_HASH_MAX"
        using True rs(2) ro by (auto simp: rows_insert_def split: option.splits)
      ultimately show ?thesis
        using r Small rows_inv_insert[OF rs(1) ro] by (auto simp: rhd_insert_repr rhd_iter_def)
    next
      case False
      obtain m' o' where mo: "im_insert M (im_collect M rs) k v = (m', o')" by fastforce
      have "rows_insert rs k v = (im_rows M m', o')" "minv m'"
        using rows_of_insert[OF inv_collect[OF rs(1)] mo] inv_insert[OF inv_collect[OF rs(1)] mo]
        by (simp_all add: rows_of_collect[OF rs(1)])
      with False r Small mo show ?thesis by (auto simp: rhd_insert_repr rhd_iter_def)
    qed
  next
    case (Big m)
    with i have m: "minv m" by (simp add: rhd_inv_def)
    obtain m' o' where mo: "im_insert M m k v = (m', o')" by fastforce
    from rows_of_insert[OF m mo] inv_insert[OF m mo] Big r mo show ?thesis
      by (auto simp: rhd_insert_repr rhd_iter_def)
  qed
  then show "rows_insert (rhd_iter M d) k v = (rhd_iter M d', old)" and "rhd_inv minv d'" by auto
qed

lemma rhd_shift_remove_rows:
  assumes i: "rhd_inv minv d" and r: "rhd_shift_remove M d k = (d', x)"
  shows "rows_shift_remove (rhd_iter M d) k = (rhd_iter M d', x)" and "rhd_inv minv d'"
proof -
  have "rows_shift_remove (rhd_iter M d) k = (rhd_iter M d', x) \<and> rhd_inv minv d'"
  proof (cases "repr d")
    case (Small rs)
    with i have rs: "rows_inv rs" "length rs \<le> SMALL_HASH_MAX" by (auto simp: rhd_inv_def)
    obtain rs' o' where ro: "rows_shift_remove rs k = (rs', o')" by fastforce
    from rows_inv_shift_remove[OF rs(1) ro] length_rows_shift_remove[OF ro] rs(2) Small r ro
    show ?thesis by (auto simp: rhd_shift_remove_def rhd_iter_def)
  next
    case (Big m)
    with i have m: "minv m" by (simp add: rhd_inv_def)
    obtain m' o' where mo: "im_shift_remove M m k = (m', o')" by fastforce
    from rows_of_shift_remove[OF m mo] inv_shift_remove[OF m mo] Big r mo show ?thesis
      by (auto simp: rhd_shift_remove_def rhd_iter_def)
  qed
  then show "rows_shift_remove (rhd_iter M d) k = (rhd_iter M d', x)" and "rhd_inv minv d'" by auto
qed

lemma rhd_get_rows: "rhd_inv minv d \<Longrightarrow> rhd_get M d k = rows_get (rhd_iter M d) k"
  by (auto simp: rhd_get_def rhd_iter_def rhd_inv_def get_rows split: hash_repr.splits)

lemma rhd_set_index_rows:
  assumes "rhd_inv minv d"
  shows "rhd_iter M (rhd_set_index M d i v) = rows_set_index (rhd_iter M d) i v"
    and "rhd_inv minv (rhd_set_index M d i v)"
  using assms
  by (auto simp: rhd_set_index_def rhd_iter_def rhd_inv_def rows_of_set_index inv_set_index
      split: hash_repr.splits)

end

text \<open>Given \<^verbatim>\<open>IndexMap\<close>'s contract, \<^verbatim>\<open>RHashData\<close> has the same one across the change of representation.\<close>

sublocale index_map_contract \<subseteq> table: ordered_table "rhd_inv minv" "rhd_iter M" "rhd_insert M"
  "rhd_get M" "rhd_contains_key M" "rhd_get_index_of M" "rhd_set_index M" "rhd_shift_remove M"
  "rhd_len M" "rhd_clear M"
proof unfold_locales
  fix d k v d' old
  show "rhd_inv minv d \<Longrightarrow> rows_inv (rhd_iter M d)"
    by (auto simp: rhd_inv_def rhd_iter_def inv_rows split: hash_repr.splits)
  show "rhd_inv minv d \<Longrightarrow> rhd_insert M d k v = (d', old) \<Longrightarrow>
      rows_insert (rhd_iter M d) k v = (rhd_iter M d', old)"
    by (rule rhd_insert_rows)
  show "rhd_inv minv d \<Longrightarrow> rhd_insert M d k v = (d', old) \<Longrightarrow> rhd_inv minv d'"
    by (rule rhd_insert_rows)
  show "rhd_inv minv d \<Longrightarrow> rhd_get M d k = rows_get (rhd_iter M d) k"
    by (rule rhd_get_rows)
  show "rhd_inv minv d \<Longrightarrow> rhd_contains_key M d k = rows_contains_key (rhd_iter M d) k"
    by (auto simp: rhd_contains_key_def rhd_iter_def rhd_inv_def contains_rows split: hash_repr.splits)
  show "rhd_inv minv d \<Longrightarrow> rhd_get_index_of M d k = row_position (rhd_iter M d) k"
    by (auto simp: rhd_get_index_of_def rhd_iter_def rhd_inv_def index_rows split: hash_repr.splits)
  show "rhd_inv minv d \<Longrightarrow> rhd_len M d = length (rhd_iter M d)"
    by (auto simp: rhd_len_def rhd_iter_def rhd_inv_def len_rows split: hash_repr.splits)
  show "rhd_inv minv d \<Longrightarrow> rhd_iter M (rhd_clear M d) = []"
    by (auto simp: rhd_clear_def rhd_iter_def rhd_inv_def rows_of_clear split: hash_repr.splits)
  show "rhd_inv minv d \<Longrightarrow> rhd_inv minv (rhd_clear M d)"
    by (auto simp: rhd_clear_def rhd_inv_def inv_clear split: hash_repr.splits)
qed (auto dest: rhd_shift_remove_rows simp: rhd_set_index_rows)

text \<open>An \<^verbatim>\<open>IndexMap\<close> whose rows are a plain list: the concrete instance used to evaluate the table.\<close>

definition rows_map :: "('k hash_row list, 'k) index_map" where
  "rows_map = \<lparr>im_rows = (\<lambda>rs. rs), im_insert = rows_insert, im_get = rows_get,
     im_contains_key = rows_contains_key, im_get_index_of = row_position,
     im_set_index = rows_set_index, im_shift_remove = rows_shift_remove, im_len = length,
     im_clear = (\<lambda>_. []), im_default = [], im_collect = (\<lambda>rs. rs)\<rparr>"

interpretation rows_map: index_map_contract rows_inv rows_map
  by unfold_locales (auto simp: rows_map_def dest: rows_inv_insert rows_inv_shift_remove)


subsection \<open>The hash functions over the contract\<close>

text \<open>The projected key a lookup or a store uses.\<close>

definition key_of :: "'k key_env \<Rightarrow> ('m, 'k) rhash_data \<Rightarrow> ruby_value \<Rightarrow> 'k" where
  "key_of E h key = hash_key_in E key (compare_by_identity h)"

lemma str_probed_key: "str_probed h key \<Longrightarrow> hash_key_in E key False = key_of E h key"
  by (simp add: str_probed_def key_of_def)

lemma rhd_insert_meta [simp]:
  "compare_by_identity (fst (rhd_insert M g k v)) = compare_by_identity g"
  "iterating (fst (rhd_insert M g k v)) = iterating g"
  by (auto simp: rhd_insert_repr split: hash_repr.splits)

lemma rhd_set_index_meta [simp]:
  "compare_by_identity (rhd_set_index M g i v) = compare_by_identity g"
  "iterating (rhd_set_index M g i v) = iterating g"
  by (auto simp: rhd_set_index_def split: hash_repr.splits)

lemma rhd_inv_cbi_upd [simp]: "rhd_inv mi (h\<lparr>compare_by_identity := b\<rparr>) = rhd_inv mi h"
  by (simp add: rhd_inv_def)

context index_map_contract
begin

lemma hash_lookup_rows:
  "rhd_inv minv h \<Longrightarrow> hash_lookup M E h key = map_option snd (map_of (rhd_iter M h) (key_of E h key))"
  by (auto simp: hash_lookup_def str_probed_key rhd_get_rows rows_get_map_of key_of_def)

lemma hash_has_key_rows:
  "rhd_inv minv h \<Longrightarrow> fst (hash_has_key M E a h key) \<longleftrightarrow> map_of (rhd_iter M h) (key_of E h key) \<noteq> None"
  by (auto simp: hash_has_key_def str_probed_key table.contains_rows rows_contains_iff key_of_def
      map_of_eq_None_iff)

text \<open>A store whose key projection does not raise inserts one row.\<close>

lemma hash_set_rows:
  fixes v :: ruby_value
  assumes i: "rhd_inv minv h" and nr: "\<not> armed" "\<not> key_raises E key (compare_by_identity h)"
  defines "pair \<equiv> (snapshot_key E key (compare_by_identity h), v)"
  shows "rhd_iter M (fst (hash_set_under M E armed h key v))
           = fst (rows_insert (rhd_iter M h) (key_of E h key) pair)"
    and "rhd_inv minv (fst (hash_set_under M E armed h key v))"
    and "snd (hash_set_under M E armed h key v) = armed"
    and "compare_by_identity (fst (hash_set_under M E armed h key v)) = compare_by_identity h"
proof -
  obtain h' old where ins: "rhd_insert M h (key_of E h key) pair = (h', old)" by fastforce
  note r = rhd_insert_rows[OF i ins]
  have main: "rhd_iter M (fst (hash_set_under M E armed h key v))
           = fst (rows_insert (rhd_iter M h) (key_of E h key) pair)
    \<and> rhd_inv minv (fst (hash_set_under M E armed h key v))"
  proof (cases "str_probed h key \<and> row_position (rhd_iter M h) (key_of E h key) \<noteq> None")
    case True
    then obtain j where j: "row_position (rhd_iter M h) (key_of E h key) = Some j" by blast
    have c: "\<not> compare_by_identity h" using True by (simp add: str_probed_def)
    have "hash_set_under M E armed h key v = (rhd_set_index M h j pair, armed)"
      using True j c by (simp add: hash_set_under_def str_probed_key table.index_rows[OF i] pair_def)
    with j show ?thesis by (simp add: rhd_set_index_rows[OF i] rows_insert_def)
  next
    case False
    have "hash_set_under M E armed h key v = (h', armed)"
      using False nr ins
      by (auto simp: hash_set_under_def str_probed_key table.index_rows[OF i] pair_def key_of_def Let_def)
    with r show ?thesis by simp
  qed
  then show "rhd_iter M (fst (hash_set_under M E armed h key v))
           = fst (rows_insert (rhd_iter M h) (key_of E h key) pair)"
    and "rhd_inv minv (fst (hash_set_under M E armed h key v))" by auto
  show "snd (hash_set_under M E armed h key v) = armed"
    using nr by (auto simp: hash_set_under_def Let_def split: option.splits)
  show "compare_by_identity (fst (hash_set_under M E armed h key v)) = compare_by_identity h"
    by (auto simp: hash_set_under_def Let_def split: option.splits)
qed

lemma hash_set_map:
  assumes "rhd_inv minv h" and "\<not> armed" "\<not> key_raises E key (compare_by_identity h)"
  shows "map_of (rhd_iter M (fst (hash_set_under M E armed h key v))) =
    (map_of (rhd_iter M h))(key_of E h key \<mapsto> (snapshot_key E key (compare_by_identity h), v))"
  using hash_set_rows(1)[OF assms] map_of_rows_insert[OF table.inv_rows[OF assms(1)]] by simp

lemma hash_set_keys:
  assumes "rhd_inv minv h" and "\<not> armed" "\<not> key_raises E key (compare_by_identity h)"
  shows "map fst (rhd_iter M (fst (hash_set_under M E armed h key v))) =
    (if map_of (rhd_iter M h) (key_of E h key) = None
     then map fst (rhd_iter M h) @ [key_of E h key] else map fst (rhd_iter M h))"
  unfolding hash_set_rows(1)[OF assms]
  by (auto simp: rows_insert_def map_of_eq_None_iff row_position_None[symmetric] split: option.splits)

lemma hash_delete_rows:
  assumes "rhd_inv minv h"
  shows "rhd_iter M (fst (hash_delete M E h key)) = fst (rows_shift_remove (rhd_iter M h) (key_of E h key))"
    and "snd (hash_delete M E h key) =
      (case map_of (rhd_iter M h) (key_of E h key) of None \<Rightarrow> RNil | Some (_, v) \<Rightarrow> v)"
    and "rhd_inv minv (fst (hash_delete M E h key))"
proof -
  obtain h' r where sr: "rhd_shift_remove M h (key_of E h key) = (h', r)" by fastforce
  note rr = rhd_shift_remove_rows[OF assms sr]
  have hd: "hash_delete M E h key = (h', case r of None \<Rightarrow> RNil | Some (_, v) \<Rightarrow> v)"
    using sr by (simp add: hash_delete_def str_probed_key key_of_def[symmetric])
  have "r = map_of (rhd_iter M h) (key_of E h key)"
  proof (cases "row_position (rhd_iter M h) (key_of E h key)")
    case None
    then have "map_of (rhd_iter M h) (key_of E h key) = None"
      by (simp add: row_position_None map_of_eq_None_iff)
    with None show ?thesis using rr(1) by (simp add: rows_shift_remove_def)
  next
    case (Some i)
    note i = row_position_Some[OF Some]
    have "map_of (rhd_iter M h) (key_of E h key) = Some (snd (rhd_iter M h ! i))"
      using i table.inv_rows[OF assms] by (metis map_of_eq_Some_iff nth_mem prod.collapse rows_inv_def)
    with Some rr(1) show ?thesis by (simp add: rows_shift_remove_def)
  qed
  with hd rr show "rhd_iter M (fst (hash_delete M E h key)) =
      fst (rows_shift_remove (rhd_iter M h) (key_of E h key))"
    and "snd (hash_delete M E h key) =
      (case map_of (rhd_iter M h) (key_of E h key) of None \<Rightarrow> RNil | Some (_, v) \<Rightarrow> v)"
    and "rhd_inv minv (fst (hash_delete M E h key))" by simp_all
qed

text \<open>Re-inserting pairs under fresh keys keeps them all, in order.\<close>

lemma foldl_insert_fresh:
  defines "step \<equiv> \<lambda>kf g (k, v). fst (rhd_insert M g (kf k) (k, v))"
  assumes "rhd_inv minv g" and "distinct (map fst (rhd_iter M g) @ map (\<lambda>p. kf (fst p)) ps)"
  shows "rhd_iter M (foldl (step kf) g ps) = rhd_iter M g @ map (\<lambda>p. (kf (fst p), p)) ps
    \<and> compare_by_identity (foldl (step kf) g ps) = compare_by_identity g
    \<and> rhd_inv minv (foldl (step kf) g ps)"
  using assms(2,3)
proof (induction ps arbitrary: g)
  case (Cons p ps)
  obtain k v where p: "p = (k, v)" by fastforce
  obtain g' old where ins: "rhd_insert M g (kf k) (k, v) = (g', old)" by fastforce
  note r = rhd_insert_rows[OF Cons.prems(1) ins]
  have "row_position (rhd_iter M g) (kf k) = None"
    using Cons.prems(2) p by (auto simp: row_position_None)
  then have g': "rhd_iter M g' = rhd_iter M g @ [(kf k, (k, v))]"
    using r(1) by (simp add: rows_insert_def)
  have c: "compare_by_identity g' = compare_by_identity g"
    using rhd_insert_meta(1)[of M g "kf k" "(k, v)"] ins by simp
  have d: "distinct (map fst (rhd_iter M g') @ map (\<lambda>p. kf (fst p)) ps)"
    using Cons.prems(2) p by (auto simp: g')
  show ?case using Cons.IH[OF r(2) d] by (simp add: p ins g' c step_def)
qed simp

lemma identity_rows:
  assumes i: "rhd_inv minv h" and n: "\<not> compare_by_identity h"
    and d: "distinct (map (\<lambda>p. hash_key_in E (fst p) True) (rhd_values M h))"
  shows "rhd_iter M (hash_enable_compare_by_identity M E h) =
      map (\<lambda>p. (hash_key_in E (fst p) True, p)) (rhd_values M h)"
    and "compare_by_identity (hash_enable_compare_by_identity M E h)"
    and "rhd_inv minv (hash_enable_compare_by_identity M E h)"
proof -
  let ?h = "h\<lparr>compare_by_identity := True\<rparr>"
  have i': "rhd_inv minv ?h" using i by simp
  have c: "compare_by_identity (rhd_clear M ?h)"
    by (auto simp: rhd_clear_def split: hash_repr.splits)
  have "distinct (map fst (rhd_iter M (rhd_clear M ?h))
      @ map (\<lambda>p. hash_key_in E (fst p) True) (rhd_values M h))"
    using d by (simp add: table.rows_of_clear[OF i'])
  note f = foldl_insert_fresh[OF table.inv_clear[OF i'] this]
  from f n c
  show "rhd_iter M (hash_enable_compare_by_identity M E h) =
      map (\<lambda>p. (hash_key_in E (fst p) True, p)) (rhd_values M h)"
    and "compare_by_identity (hash_enable_compare_by_identity M E h)"
    and "rhd_inv minv (hash_enable_compare_by_identity M E h)"
    by (simp_all add: hash_enable_compare_by_identity_def Let_def table.rows_of_clear[OF i'])
qed

lemma rhd_ordered_table:
  "ordered_table (rhd_inv minv) (rhd_iter M) (rhd_insert M) (rhd_get M) (rhd_contains_key M)
     (rhd_get_index_of M) (rhd_set_index M) (rhd_shift_remove M) (rhd_len M) (rhd_clear M)"
  by (rule table.ordered_table_axioms)

end

lemma rhd_gc_visit_same_list: "snd (rhd_gc_visit M d out True) = snd (rhd_gc_visit M d out False)"
  by (simp add: rhd_gc_visit_def Let_def)

subsection \<open>Properties\<close>

text \<open>A concrete environment for evaluation: keys are immediates, projected to themselves.\<close>

definition self_env :: "ruby_value key_env" where
  "self_env = \<lparr>hash_key_in = (\<lambda>v _. v), key_raises = (\<lambda>_ _. False), str_frozen = (\<lambda>_. False),
               str_copy = Suc\<rparr>"

text \<open>
  C4. \<^verbatim>\<open>RHashData\<close> answers every operation as \<^verbatim>\<open>IndexMap\<close> documents it, on either representation and
  across the promotion from the small vector to the map: given a map with that contract, the table as a
  whole has the same contract (insertion order, a re-inserted key keeps its place, removal shifts).
\<close>

theorem rhash_keeps_index_map_contract:
  assumes "index_map_contract minv M"
  shows "ordered_table (rhd_inv minv) (rhd_iter M) (rhd_insert M) (rhd_get M) (rhd_contains_key M)
     (rhd_get_index_of M) (rhd_set_index M) (rhd_shift_remove M) (rhd_len M) (rhd_clear M)"
  by (rule index_map_contract.rhd_ordered_table[OF assms])

theorem rhash_keeps_index_map_contract_witness:
  "ordered_table (rhd_inv rows_inv) (rhd_iter rows_map) (rhd_insert rows_map) (rhd_get rows_map)
     (rhd_contains_key rows_map) (rhd_get_index_of (rows_map :: (nat hash_row list, nat) index_map))
     (rhd_set_index rows_map) (rhd_shift_remove rows_map) (rhd_len rows_map) (rhd_clear rows_map)"
  by (rule rhash_keeps_index_map_contract[OF rows_map.index_map_contract_axioms])

text \<open>
  \<^verbatim>\<open>Hash#[]=\<close> then a lookup: when projecting the key does not raise, the stored value is found under
  every key that projects to the same \<^verbatim>\<open>HashKey\<close>, every other key reads as before, and the table stays
  well formed.
\<close>

theorem hash_set_lookup:
  assumes "index_map_contract minv M" and "rhd_inv minv h"
    and "\<not> key_raises E key (compare_by_identity h)"
  shows "hash_lookup M E (fst (hash_set M E False h key v)) key2 =
      (if key_of E h key2 = key_of E h key then Some v else hash_lookup M E h key2)
    \<and> rhd_inv minv (fst (hash_set M E False h key v))"
proof -
  note s = index_map_contract.hash_set_rows[OF assms(1,2) _ assms(3), of False v]
  note l = index_map_contract.hash_lookup_rows[OF assms(1)]
  note m = index_map_contract.hash_set_map[OF assms(1,2) _ assms(3), of False v]
  have "key_of E (fst (hash_set_under M E False h key v)) key2 = key_of E h key2"
    using s(4) by (simp add: key_of_def)
  with s(2) m show ?thesis by (simp add: hash_set_def l[OF s(2)] l[OF assms(2)])
qed

theorem hash_set_lookup_witness:
  "hash_lookup rows_map self_env (fst (hash_set rows_map self_env False rhd_new (RInt 1) (RInt 7))) (RInt 1)
     = Some (RInt 7)
   \<and> hash_lookup rows_map self_env (fst (hash_set rows_map self_env False rhd_new (RInt 1) (RInt 7))) (RInt 2)
     = None"
proof -
  have i: "rhd_inv rows_inv (rhd_new :: (ruby_value hash_row list, ruby_value) rhash_data)"
    by (simp add: rhd_inv_def rhd_new_def SMALL_HASH_MAX_def)
  have r: "\<not> key_raises self_env (RInt 1)
      (compare_by_identity (rhd_new :: (ruby_value hash_row list, ruby_value) rhash_data))"
    by (simp add: self_env_def)
  note t = hash_set_lookup[OF rows_map.index_map_contract_axioms i r, of "RInt 7"]
  have "hash_lookup rows_map self_env rhd_new (RInt 2) = None" by code_simp
  with t[of "RInt 1"] t[of "RInt 2"] show ?thesis by (simp add: key_of_def self_env_def)
qed

text \<open>
  \<^verbatim>\<open>Hash#[]=\<close> keeps Ruby's order: storing under a key that is present leaves the sequence of stored
  keys as it was, a new key goes to the end; the same holds when the store promotes the table.
\<close>

theorem hash_set_order:
  assumes "index_map_contract minv M" and "rhd_inv minv h"
    and "\<not> key_raises E key (compare_by_identity h)"
  shows "map fst (rhd_iter M (fst (hash_set M E False h key v))) =
    (if hash_lookup M E h key = None then map fst (rhd_iter M h) @ [key_of E h key]
     else map fst (rhd_iter M h))"
  using index_map_contract.hash_set_keys[OF assms(1,2) _ assms(3), of False v]
    index_map_contract.hash_lookup_rows[OF assms(1,2), of E key]
  by (simp add: hash_set_def)

theorem hash_set_order_witness:
  "map fst (rhd_iter rows_map (fst (hash_set rows_map self_env False
      (rhd_from_rows rows_map [(RInt 1, (RInt 1, RNil)), (RInt 2, (RInt 2, RNil))]) (RInt 1) (RInt 7))))
   = [RInt 1, RInt 2]"
proof -
  let ?h = "rhd_from_rows rows_map [(RInt 1, (RInt 1, RNil)), (RInt 2, (RInt 2, RNil))]"
  have i: "rhd_inv rows_inv ?h"
    by (simp add: rhd_inv_def rhd_from_rows_def rhd_new_def SMALL_HASH_MAX_def rows_inv_def)
  have r: "\<not> key_raises self_env (RInt 1) (compare_by_identity ?h)"
    by (simp add: self_env_def)
  have "hash_lookup rows_map self_env ?h (RInt 1) \<noteq> None" by code_simp
  with hash_set_order[OF rows_map.index_map_contract_axioms i r, of "RInt 7"]
  show ?thesis by (simp add: rhd_from_rows_def rhd_iter_def rhd_new_def SMALL_HASH_MAX_def)
qed

text \<open>
  Storing under a present key replaces the stored key object too: the pair at its position becomes
  the new (snapshot of the) key and the value, so \<^verbatim>\<open>Hash#keys\<close> answers the key of the last store, not
  the key of the first.
\<close>

theorem hash_set_replaces_key_object:
  assumes "index_map_contract minv M" and "rhd_inv minv h"
    and "\<not> key_raises E key (compare_by_identity h)"
    and "row_position (rhd_iter M h) (key_of E h key) = Some i"
  shows "hash_keys M (fst (hash_set M E False h key v))
    = (hash_keys M h)[i := snapshot_key E key (compare_by_identity h)]"
proof -
  have "i < length (rhd_iter M h)" using row_position_Some[OF assms(4)] by simp
  with index_map_contract.hash_set_rows(1)[OF assms(1,2) _ assms(3), of False v] assms(4)
  show ?thesis
    by (simp add: hash_keys_def rhd_values_def hash_set_def rows_insert_def rows_set_index_def map_update)
qed

definition parity_env :: "bool key_env" where
  "parity_env = \<lparr>hash_key_in = (\<lambda>v _. case v of RInt i \<Rightarrow> bit i 0 | _ \<Rightarrow> False),
     key_raises = (\<lambda>_ _. False), str_frozen = (\<lambda>_. False), str_copy = Suc\<rparr>"

theorem hash_set_replaces_key_object_witness:
  "hash_keys rows_map (rhd_from_rows rows_map [(True, (RInt 1, RNil))]) = [RInt 1]
   \<and> hash_keys rows_map (fst (hash_set rows_map parity_env False
        (rhd_from_rows rows_map [(True, (RInt 1, RNil))]) (RInt 3) RNil)) = [RInt 3]"
proof -
  let ?h = "rhd_from_rows rows_map [(True, (RInt 1, RNil))]"
  have i: "rhd_inv rows_inv ?h"
    by (simp add: rhd_inv_def rhd_from_rows_def rhd_new_def SMALL_HASH_MAX_def rows_inv_def)
  have r: "\<not> key_raises parity_env (RInt 3) (compare_by_identity ?h)" by (simp add: parity_env_def)
  have p: "row_position (rhd_iter rows_map ?h) (key_of parity_env ?h (RInt 3)) = Some 0"
    by (simp add: row_position_def rhd_iter_def rhd_from_rows_def SMALL_HASH_MAX_def rhd_new_def
        key_of_def parity_env_def)
  have k: "hash_keys rows_map ?h = [RInt 1]"
    by (simp add: hash_keys_def rhd_values_def rhd_iter_def rhd_from_rows_def SMALL_HASH_MAX_def rhd_new_def)
  from hash_set_replaces_key_object[OF rows_map.index_map_contract_axioms i r p, of RNil]
  show ?thesis by (simp add: k snapshot_key_def)
qed



text \<open>
  \<^verbatim>\<open>Hash#delete\<close> answers the stored value (nil when absent), the key is then absent, every other key
  reads as before and the remaining rows keep their order.
\<close>

theorem hash_delete_correct:
  assumes "index_map_contract minv M" and "rhd_inv minv h" and "hash_delete M E h key = (h', r)"
  shows "r = hash_get M E h key
    \<and> rhd_iter M h' = filter (\<lambda>row. fst row \<noteq> key_of E h key) (rhd_iter M h)
    \<and> rhd_inv minv h'"
proof -
  note d = index_map_contract.hash_delete_rows[OF assms(1,2), of E key, unfolded assms(3), simplified]
  note l = index_map_contract.hash_lookup_rows[OF assms(1,2), of E key]
  have "rows_inv (rhd_iter M h)"
    using index_map_contract.rhd_ordered_table[OF assms(1)] assms(2) by (rule ordered_table.inv_rows)
  with d l show ?thesis
    by (auto simp: hash_get_def rows_shift_remove_filter split: option.splits)
qed

theorem hash_delete_correct_witness:
  "hash_delete rows_map self_env
      (rhd_from_rows rows_map [(RInt 1, (RInt 1, RInt 10)), (RInt 2, (RInt 2, RInt 20))]) (RInt 1)
    = (rhd_from_rows rows_map [(RInt 2, (RInt 2, RInt 20))], RInt 10)"
proof -
  let ?h = "rhd_from_rows rows_map [(RInt 1, (RInt 1, RInt 10)), (RInt 2, (RInt 2, RInt 20))]"
  have i: "rhd_inv rows_inv ?h"
    by (simp add: rhd_inv_def rhd_from_rows_def rhd_new_def SMALL_HASH_MAX_def rows_inv_def)
  obtain h' r where d: "hash_delete rows_map self_env ?h (RInt 1) = (h', r)" by fastforce
  have "r = RInt 10"
    using hash_delete_correct[OF rows_map.index_map_contract_axioms i d]
    by (simp add: hash_get_def hash_lookup_def str_probed_def rhd_get_def rhd_from_rows_def rhd_new_def
        SMALL_HASH_MAX_def rows_get_def self_env_def)
  moreover have "h' = rhd_from_rows rows_map [(RInt 2, (RInt 2, RInt 20))]"
    using d by (simp add: hash_delete_def str_probed_def rhd_shift_remove_def rhd_from_rows_def rhd_new_def
        SMALL_HASH_MAX_def rows_shift_remove_def row_position_def self_env_def)
  ultimately show ?thesis using d by simp
qed

text \<open>
  \<^verbatim>\<open>Hash#compare_by_identity\<close>: when the stored key objects are pairwise distinct under identity, the
  switch keeps every pair in its order, and each stored key object finds its own value afterwards.
\<close>

theorem compare_by_identity_keeps_pairs:
  assumes "index_map_contract minv M" and "rhd_inv minv h" and "\<not> compare_by_identity h"
    and "distinct (map (\<lambda>p. hash_key_in E (fst p) True) (rhd_values M h))"
  shows "let h' = hash_enable_compare_by_identity M E h
     in hash_pairs_snapshot M h' = hash_pairs_snapshot M h
        \<and> (\<forall>(k, v)\<in>set (hash_pairs_snapshot M h). hash_lookup M E h' k = Some v)"
proof -
  let ?h = "hash_enable_compare_by_identity M E h"
  note r = index_map_contract.identity_rows[OF assms]
  have l: "hash_lookup M E ?h k = map_option snd (map_of (rhd_iter M ?h) (hash_key_in E k True))" for k
    using index_map_contract.hash_lookup_rows[OF assms(1) r(3)] r(2) by (simp add: key_of_def)
  have "map_of (rhd_iter M ?h) (hash_key_in E k True) = Some (k, v)"
    if "(k, v) \<in> set (rhd_values M h)" for k v
    unfolding r(1) using that assms(4) by (intro map_of_is_SomeI) (force simp: comp_def)+
  then have "hash_lookup M E ?h k = Some v" if "(k, v) \<in> set (rhd_values M h)" for k v
    using that by (simp add: l)
  moreover have "rhd_values M ?h = rhd_values M h"
    unfolding rhd_values_def[of M ?h] r(1) by (simp add: comp_def)
  ultimately show ?thesis by (auto simp: Let_def hash_pairs_snapshot_def)
qed

theorem compare_by_identity_keeps_pairs_witness:
  "hash_lookup rows_map self_env (hash_enable_compare_by_identity rows_map self_env
      (rhd_from_rows rows_map [(RStr 1, (RStr 1, RInt 10)), (RStr 2, (RStr 2, RInt 20))])) (RStr 2)
    = Some (RInt 20)"
proof -
  let ?h = "rhd_from_rows rows_map [(RStr 1, (RStr 1, RInt 10)), (RStr 2, (RStr 2, RInt 20))]"
  have i: "rhd_inv rows_inv ?h" "\<not> compare_by_identity ?h"
    by (simp_all add: rhd_inv_def rhd_from_rows_def rhd_new_def SMALL_HASH_MAX_def rows_inv_def)
  have v: "rhd_values rows_map ?h = [(RStr 1, RInt 10), (RStr 2, RInt 20)]"
    by (simp add: rhd_values_def rhd_iter_def rhd_from_rows_def rhd_new_def SMALL_HASH_MAX_def)
  have "distinct (map (\<lambda>p. hash_key_in self_env (fst p) True) (rhd_values rows_map ?h))"
    unfolding v by (simp add: self_env_def)
  from compare_by_identity_keeps_pairs[OF rows_map.index_map_contract_axioms i this]
  show ?thesis unfolding Let_def hash_pairs_snapshot_def v by simp
qed

end
