(* ===== verification/GcHeap.thy ===== *)
theory GcHeap
  imports Arrays Hashes
begin

text \<open>
  The heap the cycle collector reads (\<^verbatim>\<open>crates/zeo-rt/src/gc/registry.rs\<close>, enum \<^verbatim>\<open>Strong\<close>): the \<^verbatim>\<open>Arc\<close>
  allocations of the process, what each owns, and the strong counts that follow.  An allocation's
  strong count is the number of handles held outside the heap (stack slots, constant caches, globals,
  release pools) plus the references other allocations own; the collector is told about some of the
  latter through \<^verbatim>\<open>gc_visit\<close> and \<^verbatim>\<open>gc_cells\<close>.
\<close>

subsection \<open>Allocations\<close>

text \<open>\<^verbatim>\<open>ProcEnvOwned\<close>: a closure's captured cells, its lexical block and its binding.\<close>

record proc_env =
  env_cells :: "addr list"
  lexical_blk :: "ruby_value option"
  env_binding :: "ruby_value option"

text \<open>
  The payload kinds: the six the registry records, and \<open>POther\<close> for every allocation it does not
  (strings, enumerators, threads, and the values such an allocation owns).
\<close>

datatype ('m, 'k) payload =
    PArray array_store
  | PHash "('m, 'k) rhash_data"
  | PObject "ruby_value list"
  | PCell ruby_value
  | PProc ruby_value "ruby_value option" "proc_env option"
  | PRange "ruby_value option" "ruby_value option"
  | POther "ruby_value list"

text \<open>
  \<open>hidden\<close> are strong references an allocation owns without reporting them: what a Rust closure
  captured, a user-hashed key kept inside a \<^verbatim>\<open>HashKey\<close>, an object field its \<^verbatim>\<open>gc_visit\<close> leaves out.
\<close>

record ('m, 'k) alloc =
  pay :: "('m, 'k) payload"
  hidden :: "addr list"

record ('m, 'k) heap =
  objs :: "(addr \<times> ('m, 'k) alloc) list"
  ext :: "addr \<Rightarrow> nat"

subsection \<open>What a node reports\<close>

definition opt_list :: "'a option \<Rightarrow> 'a list" where
  "opt_list x = (case x of None \<Rightarrow> [] | Some v \<Rightarrow> [v])"

definition proc_env_gc_edges :: "proc_env \<Rightarrow> ruby_value list" where
  "proc_env_gc_edges env = opt_list (lexical_blk env) @ opt_list (env_binding env)"

definition proc_gc_edges :: "ruby_value \<Rightarrow> ruby_value option \<Rightarrow> proc_env option \<Rightarrow> ruby_value list" where
  "proc_gc_edges self_val binding env =
     [self_val] @ opt_list binding @ (case env of None \<Rightarrow> [] | Some e \<Rightarrow> proc_env_gc_edges e)"

definition object_gc_visit :: "ruby_value list \<Rightarrow> ruby_value list \<Rightarrow> bool \<Rightarrow> ruby_value list \<times> ruby_value list" where
  "object_gc_visit ivars out take_out = (if take_out then ([], out @ ivars) else (ivars, out @ ivars))"

text \<open>\<^verbatim>\<open>Strong::gc_visit\<close>: clone for the walk, move out for the sweep.\<close>

definition gc_visit ::
  "('m, 'k) index_map \<Rightarrow> ('m, 'k) payload \<Rightarrow> ruby_value list \<Rightarrow> bool
     \<Rightarrow> ('m, 'k) payload \<times> ruby_value list" where
  "gc_visit M p out take_out =
     (case p of
        PArray s \<Rightarrow> (let (s', o') = as_gc_visit s out take_out in (PArray s', o'))
      | PHash d \<Rightarrow> (let (d', o') = rhd_gc_visit M d out take_out in (PHash d', o'))
      | PObject ivars \<Rightarrow> (let (i', o') = object_gc_visit ivars out take_out in (PObject i', o'))
      | PCell v \<Rightarrow> (PCell (if take_out then RNil else v), out @ [v])
      | PProc s b e \<Rightarrow> (p, if take_out then out else out @ proc_gc_edges s b e)
      | PRange a b \<Rightarrow> (p, if take_out then out else out @ opt_list a @ opt_list b)
      | POther vs \<Rightarrow> (p, out))"

text \<open>\<^verbatim>\<open>Strong::gc_cells\<close>: only a Proc has any.\<close>

definition gc_cells :: "('m, 'k) payload \<Rightarrow> addr list" where
  "gc_cells p =
     (case p of PProc s b (Some e) \<Rightarrow> env_cells e | _ \<Rightarrow> [])"

text \<open>\<^verbatim>\<open>value_addr\<close>: the identity an edge points at, for the value kinds the registry records.\<close>

definition value_addr :: "ruby_value \<Rightarrow> addr option" where
  "value_addr v =
     (case v of
        RArray a \<Rightarrow> Some a
      | RHash a \<Rightarrow> Some a
      | RObject a \<Rightarrow> Some a
      | RProc a \<Rightarrow> Some a
      | RRange a \<Rightarrow> Some a
      | _ \<Rightarrow> None)"

text \<open>The addresses the walk reads off a node, in the order it reads them.\<close>

definition reported :: "('m, 'k) index_map \<Rightarrow> ('m, 'k) payload \<Rightarrow> addr list" where
  "reported M p = List.map_filter value_addr (snd (gc_visit M p [] False)) @ gc_cells p"

subsection \<open>What a node owns, and strong counts\<close>

primrec payload_values :: "('m, 'k) index_map \<Rightarrow> ('m, 'k) payload \<Rightarrow> ruby_value list" where
  "payload_values M (PArray s) = buf s"
| "payload_values M (PHash d) =
     concat (map (\<lambda>(k, v). [k, v]) (rhd_values M d)) @ [hdefault d] @ opt_list (default_proc d)"
| "payload_values M (PObject ivars) = ivars"
| "payload_values M (PCell v) = [v]"
| "payload_values M (PProc s b e) = proc_gc_edges s b e"
| "payload_values M (PRange a b) = opt_list a @ opt_list b"
| "payload_values M (POther vs) = vs"

definition owned :: "('m, 'k) index_map \<Rightarrow> ('m, 'k) alloc \<Rightarrow> addr list" where
  "owned M n = List.map_filter arc_of (payload_values M (pay n)) @ gc_cells (pay n) @ hidden n"

definition count_in :: "('m, 'k) index_map \<Rightarrow> (addr \<times> ('m, 'k) alloc) list \<Rightarrow> addr \<Rightarrow> nat" where
  "count_in M os a = sum_list (map (\<lambda>(b, n). count_list (owned M n) a) os)"

text \<open>\<^verbatim>\<open>Arc::strong_count\<close>.\<close>

definition strong_count :: "('m, 'k) index_map \<Rightarrow> ('m, 'k) heap \<Rightarrow> addr \<Rightarrow> nat" where
  "strong_count M h a = ext h a + count_in M (objs h) a"

text \<open>A weak handle upgrades while its allocation is alive.\<close>

definition is_live :: "('m, 'k) heap \<Rightarrow> addr \<Rightarrow> bool" where
  "is_live h a \<longleftrightarrow> a \<in> fst ` set (objs h)"

subsection \<open>Dropping the last handle\<close>

text \<open>
  Reference counting itself: an allocation whose strong count is zero is dropped, which releases what
  it owns, until no such allocation is left.
\<close>

definition drop_dead :: "('m, 'k) index_map \<Rightarrow> ('m, 'k) heap \<Rightarrow> ('m, 'k) heap" where
  "drop_dead M h = h\<lparr>objs := filter (\<lambda>(a, n). strong_count M h a > 0) (objs h)\<rparr>"

lemma drop_dead_shrinks: "length (objs (drop_dead M h)) \<le> length (objs h)"
  by (simp add: drop_dead_def)

function reap :: "('m, 'k) index_map \<Rightarrow> ('m, 'k) heap \<Rightarrow> ('m, 'k) heap" where
  "reap M h =
     (if length (objs (drop_dead M h)) = length (objs h) then h else reap M (drop_dead M h))"
  by pat_completeness auto
termination
  by (relation "measure (\<lambda>(M, h). length (objs h))")
    (use drop_dead_shrinks le_neq_implies_less in \<open>auto simp: less_le\<close>)

declare reap.simps [simp del]

subsection \<open>Lemmas\<close>

lemma value_addr_arc: "value_addr v = Some a \<Longrightarrow> arc_of v = Some a"
  by (cases v) (simp_all add: value_addr_def)

lemma count_list_append [simp]: "count_list (xs @ ys) a = count_list xs a + count_list ys a"
  by (induction xs) auto

lemma count_list_zero_iff: "count_list xs a = 0 \<longleftrightarrow> a \<notin> set xs"
  by (induction xs) auto

lemma map_filter_Nil [simp]: "List.map_filter f [] = []"
  by (simp add: map_filter_simps)

lemma map_filter_Cons:
  "List.map_filter f (x # xs) = (case f x of None \<Rightarrow> List.map_filter f xs | Some y \<Rightarrow> y # List.map_filter f xs)"
  by (simp add: map_filter_simps)

lemma map_filter_append: "List.map_filter f (xs @ ys) = List.map_filter f xs @ List.map_filter f ys"
  by (simp add: List.map_filter_def)

lemma count_value_addr_le:
  "count_list (List.map_filter value_addr vs) a \<le> count_list (List.map_filter arc_of vs) a"
proof (induction vs)
  case (Cons v vs)
  then show ?case
    by (cases "value_addr v"; cases "arc_of v") (auto simp: map_filter_Cons dest: value_addr_arc)
qed simp

lemma gc_visit_walk_payload: "fst (gc_visit M p out False) = p"
  by (cases p) (simp_all add: gc_visit_def as_gc_visit_def rhd_gc_visit_def object_gc_visit_def)

lemma gc_visit_walk_values:
  "snd (gc_visit M p [] False) =
     (case p of PArray s \<Rightarrow> as_slice s | POther vs \<Rightarrow> [] | _ \<Rightarrow> payload_values M p)"
  by (cases p) (simp_all add: gc_visit_def as_gc_visit_def rhd_gc_visit_def object_gc_visit_def
      Let_def opt_list_def split: option.splits)

text \<open>Every reported reference is an owned one, and reported no more often than it is owned.\<close>

lemma count_reported_hidden_le:
  "count_list (reported M (pay n)) a + count_list (hidden n) a \<le> count_list (owned M n) a"
proof -
  have "count_list (List.map_filter value_addr (snd (gc_visit M (pay n) [] False))) a
      \<le> count_list (List.map_filter arc_of (payload_values M (pay n))) a"
  proof (cases "pay n")
    case (PArray s)
    have "count_list (List.map_filter value_addr (as_slice s)) a
        \<le> count_list (List.map_filter arc_of (take (beg s) (buf s) @ as_slice s)) a"
      using count_value_addr_le[of "as_slice s" a] by (simp add: map_filter_append)
    then show ?thesis using PArray by (simp add: gc_visit_walk_values as_slice_def)
  next
    case (POther vs)
    then show ?thesis by (simp add: gc_visit_walk_values)
  qed (simp_all add: gc_visit_walk_values count_value_addr_le del: map_filter_simps)
  then show ?thesis by (simp add: reported_def owned_def)
qed

lemma count_reported_le: "count_list (reported M (pay n)) a \<le> count_list (owned M n) a"
  using count_reported_hidden_le[of M n a] by simp

lemma reported_subset_owned: "set (reported M (pay n)) \<subseteq> set (owned M n)"
  using count_reported_le[of M n] by (metis count_list_zero_iff le_zero_eq subsetI)

text \<open>After the sweep has moved its values out, only an immutable payload still reports anything.\<close>

definition immutable_payload :: "('m, 'k) payload \<Rightarrow> bool" where
  "immutable_payload p \<longleftrightarrow> (case p of PProc _ _ _ \<Rightarrow> True | PRange _ _ \<Rightarrow> True | POther _ \<Rightarrow> True | _ \<Rightarrow> False)"

lemma take_immutable: "immutable_payload p \<Longrightarrow> fst (gc_visit M p out True) = p"
  by (cases p) (simp_all add: immutable_payload_def gc_visit_def)

end
