(* ===== verification/GcRegistry.thy ===== *)
theory GcRegistry
  imports GcHeap "HOL-Library.Word" "HOL-Library.Sublist"
begin

text \<open>
  The allocation registry (\<^verbatim>\<open>crates/zeo-rt/src/gc/registry.rs\<close> and the gate in \<^verbatim>\<open>gc/mod.rs\<close>): the
  weak handles a process has recorded, buffered per thread, sealed into published chunks, compacted
  when the registry has grown past its threshold, and read back by \<^verbatim>\<open>snapshot\<close>.  Which handles are
  still alive is a predicate \<open>lv\<close> on addresses; the collector instantiates it with the heap's own
  liveness.
\<close>

subsection \<open>Nodes and the registry's statics\<close>

datatype node =
    NArray addr
  | NHash addr
  | NObject addr
  | NCell addr
  | NProc addr
  | NRange addr

primrec node_addr :: "node \<Rightarrow> addr" where
  "node_addr (NArray a) = a"
| "node_addr (NHash a) = a"
| "node_addr (NObject a) = a"
| "node_addr (NCell a) = a"
| "node_addr (NProc a) = a"
| "node_addr (NRange a) = a"

definition CHUNK :: nat where
  "CHUNK = 4096"

record registry =
  chunks :: "node list list"
  local_buf :: "nat \<Rightarrow> node list"
  local_gone :: "nat \<Rightarrow> bool"
  compact_at :: nat
  collect_at :: nat
  published :: nat
  total_allocated :: "64 word"
  recording :: bool
  due :: bool
  pending :: "32 word"

definition registry_init :: registry where
  "registry_init =
     \<lparr>chunks = [], local_buf = (\<lambda>t. []), local_gone = (\<lambda>t. False),
      compact_at = 2 * CHUNK, collect_at = 8 * CHUNK, published = 0,
      total_allocated = 0, recording = False, due = False, pending = 0\<rparr>"

subsection \<open>Operations\<close>

definition node_is_live :: "(addr \<Rightarrow> bool) \<Rightarrow> node \<Rightarrow> bool" where
  "node_is_live lv n = lv (node_addr n)"

definition upgrade :: "(addr \<Rightarrow> bool) \<Rightarrow> node \<Rightarrow> node option" where
  "upgrade lv n = (if lv (node_addr n) then Some n else None)"

text \<open>\<^verbatim>\<open>note_posted\<close> and \<^verbatim>\<open>note_consumed\<close>: the process-wide interrupt counter, an \<^verbatim>\<open>AtomicU32\<close> that wraps.\<close>

definition note_posted :: "registry \<Rightarrow> registry" where
  "note_posted r = r\<lparr>pending := pending r + 1\<rparr>"

definition note_consumed :: "registry \<Rightarrow> registry" where
  "note_consumed r = r\<lparr>pending := pending r - 1\<rparr>"

text \<open>\<^verbatim>\<open>arm_collection\<close>: swap the flag in, and move the counter only when it was clear.\<close>

definition arm_collection :: "registry \<Rightarrow> registry" where
  "arm_collection r = (if due r then r else note_posted (r\<lparr>due := True\<rparr>))"

text \<open>\<^verbatim>\<open>compact_locked\<close>: drop the dead entries of every chunk, then the empty chunks.\<close>

definition compact_locked :: "(addr \<Rightarrow> bool) \<Rightarrow> node list list \<Rightarrow> node list list \<times> nat" where
  "compact_locked lv cs =
     (let cs' = map (filter (node_is_live lv)) cs
      in (filter (\<lambda>c. c \<noteq> []) cs', sum_list (map length cs')))"

definition compact_target :: "nat \<Rightarrow> nat" where
  "compact_target live = live + max (live div 2) (2 * CHUNK)"

definition publish :: "(addr \<Rightarrow> bool) \<Rightarrow> node list \<Rightarrow> registry \<Rightarrow> registry" where
  "publish lv chunk r =
     (if chunk = [] then r
      else let cs = chunks r @ [chunk];
               total = published r + length chunk
        in if total \<ge> compact_at r
           then let (cs', live) = compact_locked lv cs;
                    r' = r\<lparr>chunks := cs', published := live, compact_at := compact_target live\<rparr>
                in if live \<ge> collect_at r' then arm_collection r' else r'
           else r\<lparr>chunks := cs, published := total\<rparr>)"

text \<open>
  \<^verbatim>\<open>flush_local\<close> and \<^verbatim>\<open>Drop for Local\<close>: a thread's partial chunk is published; once the thread-local's
  destructor has run, \<^verbatim>\<open>try_with\<close> fails and nothing happens.
\<close>

definition flush_local :: "(addr \<Rightarrow> bool) \<Rightarrow> nat \<Rightarrow> registry \<Rightarrow> registry" where
  "flush_local lv t r =
     (if local_gone r t then r
      else publish lv (local_buf r t) (r\<lparr>local_buf := (local_buf r)(t := [])\<rparr>))"

definition local_drop :: "(addr \<Rightarrow> bool) \<Rightarrow> nat \<Rightarrow> registry \<Rightarrow> registry" where
  "local_drop lv t r =
     (let r' = flush_local lv t r in r'\<lparr>local_gone := (local_gone r')(t := True)\<rparr>)"

definition record_node :: "(addr \<Rightarrow> bool) \<Rightarrow> nat \<Rightarrow> node \<Rightarrow> registry \<Rightarrow> registry" where
  "record_node lv t n r0 =
     (let r = r0\<lparr>total_allocated := total_allocated r0 + 1\<rparr> in
      if local_gone r t then r
      else let l = local_buf r t @ [n] in
        if length l \<ge> CHUNK
        then publish lv l (r\<lparr>local_buf := (local_buf r)(t := [])\<rparr>)
        else r\<lparr>local_buf := (local_buf r)(t := l)\<rparr>)"

text \<open>The \<^verbatim>\<open>record_*\<close> entries: all six read the gate first.\<close>

definition record_gated :: "(addr \<Rightarrow> bool) \<Rightarrow> nat \<Rightarrow> node \<Rightarrow> registry \<Rightarrow> registry" where
  "record_gated lv t n r = (if recording r then record_node lv t n r else r)"

definition start_recording :: "registry \<Rightarrow> registry" where
  "start_recording r = r\<lparr>recording := True\<rparr>"

definition retarget_collection :: "nat \<Rightarrow> registry \<Rightarrow> registry" where
  "retarget_collection live r = r\<lparr>collect_at := live + max (live div 2) (8 * CHUNK)\<rparr>"

text \<open>\<^verbatim>\<open>snapshot\<close>: upgrade in order, and keep the first handle of each address (\<^verbatim>\<open>seen\<close>).\<close>

primrec snapshot_nodes :: "(addr \<Rightarrow> bool) \<Rightarrow> addr list \<Rightarrow> node list \<Rightarrow> node list" where
  "snapshot_nodes lv seen [] = []"
| "snapshot_nodes lv seen (n # ns) =
     (case upgrade lv n of
        None \<Rightarrow> snapshot_nodes lv seen ns
      | Some s \<Rightarrow>
          if node_addr s \<in> set seen then snapshot_nodes lv seen ns
          else s # snapshot_nodes lv (node_addr s # seen) ns)"

definition snapshot :: "(addr \<Rightarrow> bool) \<Rightarrow> nat \<Rightarrow> registry \<Rightarrow> registry \<times> node list" where
  "snapshot lv t r = (let r' = flush_local lv t r in (r', snapshot_nodes lv [] (concat (chunks r'))))"

definition live_count :: "(addr \<Rightarrow> bool) \<Rightarrow> nat \<Rightarrow> registry \<Rightarrow> registry \<times> nat" where
  "live_count lv t r =
     (let r' = flush_local lv t r in (r', length (filter (node_is_live lv) (concat (chunks r')))))"

text \<open>\<^verbatim>\<open>live_values\<close>, for \<^verbatim>\<open>ObjectSpace.each_object\<close>: a cell is not a value a program can name.\<close>

primrec node_value :: "node \<Rightarrow> ruby_value option" where
  "node_value (NArray a) = Some (RArray a)"
| "node_value (NHash a) = Some (RHash a)"
| "node_value (NObject a) = Some (RObject a)"
| "node_value (NProc a) = Some (RProc a)"
| "node_value (NRange a) = Some (RRange a)"
| "node_value (NCell a) = None"

definition live_values :: "(addr \<Rightarrow> bool) \<Rightarrow> nat \<Rightarrow> registry \<Rightarrow> registry \<times> ruby_value list" where
  "live_values lv t r =
     (if recording r then (let (r', ns) = snapshot lv t r in (r', List.map_filter node_value ns))
      else (r, []))"

subsection \<open>What compaction and publication keep\<close>

lemma filter_concat: "filter P (concat xss) = concat (map (filter P) xss)"
  by (induction xss) auto

lemma concat_filter_nonempty: "concat (filter (\<lambda>c. c \<noteq> []) xss) = concat xss"
  by (induction xss) auto

lemma compact_locked_concat:
  "concat (fst (compact_locked lv cs)) = filter (node_is_live lv) (concat cs)"
  by (simp add: compact_locked_def Let_def concat_filter_nonempty filter_concat)

lemma compact_locked_count: "snd (compact_locked lv cs) = length (concat (fst (compact_locked lv cs)))"
  by (simp add: compact_locked_def Let_def concat_filter_nonempty length_concat)

lemma compact_locked_chunks:
  assumes "c \<in> set (fst (compact_locked lv cs))"
  shows "c \<noteq> [] \<and> (\<exists>d \<in> set cs. length c \<le> length d)"
proof -
  obtain d where "d \<in> set cs" "c = filter (node_is_live lv) d" "c \<noteq> []"
    using assms by (auto simp: compact_locked_def Let_def)
  then show ?thesis by (metis length_filter_le)
qed

lemma arm_collection_fields [simp]:
  "chunks (arm_collection r) = chunks r"
  "local_buf (arm_collection r) = local_buf r"
  "local_gone (arm_collection r) = local_gone r"
  "published (arm_collection r) = published r"
  "compact_at (arm_collection r) = compact_at r"
  "recording (arm_collection r) = recording r"
  by (simp_all add: arm_collection_def note_posted_def)

lemma publish_locals [simp]:
  "local_buf (publish lv c r) = local_buf r"
  "local_gone (publish lv c r) = local_gone r"
  "recording (publish lv c r) = recording r"
  by (simp_all add: publish_def Let_def split: prod.split)

text \<open>Publication keeps every live entry, in order and with its multiplicity.\<close>

lemma publish_live:
  "filter (node_is_live lv) (concat (chunks (publish lv c r)))
     = filter (node_is_live lv) (concat (chunks r) @ c)"
proof -
  have "filter (node_is_live lv) (concat (fst (compact_locked lv (chunks r @ [c]))))
      = filter (node_is_live lv) (concat (chunks r) @ c)"
    by (simp add: compact_locked_concat)
  then show ?thesis by (auto simp: publish_def Let_def split: prod.split)
qed

lemma publish_subset: "set (concat (chunks (publish lv c r))) \<subseteq> set (concat (chunks r)) \<union> set c"
proof -
  have "set (concat (fst (compact_locked lv (chunks r @ [c])))) \<subseteq> set (concat (chunks r)) \<union> set c"
    by (subst compact_locked_concat) auto
  then show ?thesis by (cases "compact_locked lv (chunks r @ [c])") (simp add: publish_def Let_def)
qed

subsection \<open>The registry invariant\<close>

definition registry_inv :: "registry \<Rightarrow> bool" where
  "registry_inv r \<longleftrightarrow>
     published r = length (concat (chunks r)) \<and> published r < compact_at r \<and>
     (\<forall>c \<in> set (chunks r). c \<noteq> [] \<and> length c \<le> CHUNK) \<and>
     (\<forall>t. length (local_buf r t) < CHUNK) \<and> (\<forall>t. local_gone r t \<longrightarrow> local_buf r t = [])"

lemma registry_invI:
  assumes "published r = length (concat (chunks r))" "published r < compact_at r"
    and "\<And>c. c \<in> set (chunks r) \<Longrightarrow> c \<noteq> [] \<and> length c \<le> CHUNK"
    and "\<And>t. length (local_buf r t) < CHUNK" "\<And>t. local_gone r t \<Longrightarrow> local_buf r t = []"
  shows "registry_inv r"
  using assms by (simp add: registry_inv_def)

lemma CHUNK_pos [simp]: "0 < CHUNK" "CHUNK \<noteq> 0"
  by (simp_all add: CHUNK_def)

lemma registry_inv_init: "registry_inv registry_init"
  by (simp add: registry_inv_def registry_init_def)

lemma compact_target_gt: "live < compact_target live"
  by (simp add: compact_target_def CHUNK_def less_max_iff_disj)

lemma registry_inv_arm [simp]: "registry_inv (arm_collection r) = registry_inv r"
  by (simp add: registry_inv_def)

lemma publish_inv:
  assumes "registry_inv r" "length c \<le> CHUNK"
  shows "registry_inv (publish lv c r)"
proof (cases "c = [] \<or> published r + length c < compact_at r")
  case True
  then show ?thesis using assms by (auto simp: publish_def registry_inv_def Let_def)
next
  case False
  obtain cs live where C: "compact_locked lv (chunks r @ [c]) = (cs, live)" by fastforce
  define r' where "r' = r\<lparr>chunks := cs, published := live, compact_at := compact_target live\<rparr>"
  have "registry_inv r'"
  proof (rule registry_invI)
    show "published r' = length (concat (chunks r'))"
      using compact_locked_count[of lv "chunks r @ [c]"] C by (simp add: r'_def)
    show "published r' < compact_at r'" by (simp add: r'_def compact_target_gt)
    show "d \<noteq> [] \<and> length d \<le> CHUNK" if "d \<in> set (chunks r')" for d
      using compact_locked_chunks[of d lv "chunks r @ [c]"] that C assms le_trans
      by (fastforce simp: r'_def registry_inv_def)
  qed (use assms in \<open>auto simp: r'_def registry_inv_def\<close>)
  moreover have "publish lv c r = (if live \<ge> collect_at r' then arm_collection r' else r')"
    using False C by (simp add: publish_def Let_def r'_def)
  ultimately show ?thesis by simp
qed

lemma registry_inv_local:
  assumes "registry_inv r" "length l < CHUNK" "local_gone r t \<Longrightarrow> l = []"
  shows "registry_inv (r\<lparr>local_buf := (local_buf r)(t := l)\<rparr>)"
  using assms by (auto simp: registry_inv_def)

lemma registry_inv_buf: "registry_inv r \<Longrightarrow> length (local_buf r t) < CHUNK"
  by (simp add: registry_inv_def)

lemma flush_local_inv: "registry_inv r \<Longrightarrow> registry_inv (flush_local lv t r)"
  by (simp add: flush_local_def publish_inv registry_inv_local registry_inv_buf less_imp_le)

lemma flush_local_buf: "registry_inv r \<Longrightarrow> local_buf (flush_local lv t r) t = []"
  by (simp add: flush_local_def registry_inv_def)

lemma flush_local_other: "u \<noteq> t \<Longrightarrow> local_buf (flush_local lv t r) u = local_buf r u"
  by (simp add: flush_local_def)

lemma flush_local_gone [simp]: "local_gone (flush_local lv t r) = local_gone r"
  "recording (flush_local lv t r) = recording r"
  by (simp_all add: flush_local_def)

lemma local_drop_inv: "registry_inv r \<Longrightarrow> registry_inv (local_drop lv t r)"
  using flush_local_inv[of r lv t] flush_local_buf[of r lv t]
  by (auto simp: local_drop_def Let_def registry_inv_def)

lemma record_node_inv:
  assumes "registry_inv r"
  shows "registry_inv (record_node lv t n r)"
proof -
  let ?r = "r\<lparr>total_allocated := total_allocated r + 1\<rparr>"
  have I: "registry_inv ?r" using assms by (simp add: registry_inv_def)
  show ?thesis
  proof (cases "local_gone r t")
    case False
    then show ?thesis
      using I publish_inv[OF registry_inv_local[of ?r "[]" t], of "local_buf r t @ [n]" lv]
        registry_inv_local[of ?r "local_buf r t @ [n]" t] registry_inv_buf[OF assms, of t]
      by (simp add: record_node_def Let_def)
  qed (use I in \<open>simp add: record_node_def\<close>)
qed

subsection \<open>No live node is lost\<close>

definition held :: "registry \<Rightarrow> node set" where
  "held r = set (concat (chunks r)) \<union> (\<Union>t. set (local_buf r t))"

definition held_live :: "(addr \<Rightarrow> bool) \<Rightarrow> registry \<Rightarrow> node set" where
  "held_live lv r = {n \<in> held r. node_is_live lv n}"

lemma held_live_publish:
  "held_live lv (publish lv c r) = held_live lv r \<union> {n \<in> set c. node_is_live lv n}"
proof -
  have "{n \<in> set (concat (chunks (publish lv c r))). node_is_live lv n}
      = {n \<in> set (concat (chunks r) @ c). node_is_live lv n}"
    using publish_live[of lv c r, THEN arg_cong[of _ _ set]] by (simp only: set_filter)
  then show ?thesis by (auto simp: held_live_def held_def)
qed

lemma held_live_local:
  assumes "set (local_buf r t) \<subseteq> set l"
  shows "held_live lv (r\<lparr>local_buf := (local_buf r)(t := l)\<rparr>)
     = held_live lv r \<union> {n \<in> set l. node_is_live lv n}"
  using assms by (fastforce simp: held_live_def held_def split: if_splits)

lemma held_live_take_local:
  "held_live lv r =
     held_live lv (r\<lparr>local_buf := (local_buf r)(t := [])\<rparr>) \<union> {n \<in> set (local_buf r t). node_is_live lv n}"
  by (auto simp: held_live_def held_def split: if_splits)

lemma held_live_flush: "held_live lv (flush_local lv t r) = held_live lv r"
  using held_live_take_local[of lv r t] by (simp add: flush_local_def held_live_publish)

lemma held_live_cong:
  "chunks r = chunks s \<Longrightarrow> local_buf r = local_buf s \<Longrightarrow> held_live lv r = held_live lv s"
  by (simp add: held_live_def held_def)

lemma held_live_record:
  assumes "\<not> local_gone r t"
  shows "held_live lv (record_node lv t n r) = held_live lv r \<union> {m \<in> {n}. node_is_live lv m}"
proof -
  let ?r = "r\<lparr>total_allocated := total_allocated r + 1\<rparr>"
  have E: "held_live lv ?r = held_live lv r" by (rule held_live_cong) simp_all
  have P: "held_live lv (publish lv (local_buf r t @ [n]) (?r\<lparr>local_buf := (local_buf ?r)(t := [])\<rparr>))
      = held_live lv r \<union> {m \<in> {n}. node_is_live lv m}"
    using held_live_take_local[of lv ?r t] E by (auto simp: held_live_publish)
  have Q: "held_live lv (?r\<lparr>local_buf := (local_buf ?r)(t := local_buf r t @ [n])\<rparr>)
      = held_live lv r \<union> {m \<in> {n}. node_is_live lv m}"
    using held_live_local[of ?r t "local_buf r t @ [n]" lv] E held_live_take_local[of lv r t]
    by auto
  show ?thesis using assms P Q by (simp add: record_node_def Let_def)
qed

text \<open>
  A run of the process as the registry sees it: allocations (recorded on some thread, at an address
  that neither a live allocation nor a weak handle still occupies), deaths, and the registry's own
  operations, in any interleaving.
\<close>

record world =
  reg :: registry
  alive :: "addr set"
  made :: "node set"

definition lv_of :: "world \<Rightarrow> addr \<Rightarrow> bool" where
  "lv_of w = (\<lambda>a. a \<in> alive w)"

definition world_init :: world where
  "world_init = \<lparr>reg = registry_init, alive = {}, made = {}\<rparr>"

inductive gc_step :: "world \<Rightarrow> world \<Rightarrow> bool" where
  step_alloc: "node_addr n \<notin> alive w \<Longrightarrow> node_addr n \<notin> node_addr ` held (reg w) \<Longrightarrow>
     recording (reg w) \<Longrightarrow> \<not> local_gone (reg w) t \<Longrightarrow>
     gc_step w \<lparr>reg = record_gated (\<lambda>a. a \<in> insert (node_addr n) (alive w)) t n (reg w),
       alive = insert (node_addr n) (alive w), made = insert n (made w)\<rparr>"
| step_alloc_unrecorded: "a \<notin> alive w \<Longrightarrow> a \<notin> node_addr ` (held (reg w) \<union> made w) \<Longrightarrow>
     \<not> recording (reg w) \<or> local_gone (reg w) t \<Longrightarrow> node_addr n = a \<Longrightarrow>
     gc_step w (w\<lparr>reg := record_gated (\<lambda>b. b \<in> insert a (alive w)) t n (reg w), alive := insert a (alive w)\<rparr>)"
| step_die: "gc_step w (w\<lparr>alive := alive w - {a}, made := {n \<in> made w. node_addr n \<noteq> a}\<rparr>)"
| step_start: "gc_step w (w\<lparr>reg := start_recording (reg w)\<rparr>)"
| step_snapshot: "gc_step w (w\<lparr>reg := fst (snapshot (lv_of w) t (reg w))\<rparr>)"
| step_live_count: "gc_step w (w\<lparr>reg := fst (live_count (lv_of w) t (reg w))\<rparr>)"
| step_exit: "gc_step w (w\<lparr>reg := local_drop (lv_of w) t (reg w)\<rparr>)"
| step_retarget: "gc_step w (w\<lparr>reg := retarget_collection k (reg w)\<rparr>)"

definition world_inv :: "world \<Rightarrow> bool" where
  "world_inv w \<longleftrightarrow> registry_inv (reg w) \<and> made w \<subseteq> held_live (lv_of w) (reg w)"

lemma lv_of_upd [simp]: "lv_of (w\<lparr>reg := r\<rparr>) = lv_of w"
  by (simp add: fun_eq_iff lv_of_def)

lemma held_live_drop: "held_live lv (local_drop lv t r) = held_live lv r"
  using held_live_flush[of lv t r] held_live_cong[of "local_drop lv t r" "flush_local lv t r" lv]
  by (simp add: local_drop_def Let_def)

lemma record_gone: "local_gone r t \<Longrightarrow> held_live lv (record_node lv' t n r) = held_live lv r"
  by (simp add: record_node_def held_live_def held_def)

lemma held_live_mono: "(\<And>a. lv a \<Longrightarrow> lv' a) \<Longrightarrow> held_live lv r \<subseteq> held_live lv' r"
  by (auto simp: held_live_def node_is_live_def)

lemma world_inv_step: "gc_step w w' \<Longrightarrow> world_inv w \<Longrightarrow> world_inv w'"
proof (induction rule: gc_step.induct)
  case (step_alloc n w t)
  let ?lv = "\<lambda>a. a \<in> insert (node_addr n) (alive w)"
  have "held_live (lv_of w) (reg w) \<subseteq> held_live ?lv (reg w)"
    by (rule held_live_mono) (simp add: lv_of_def)
  then have "insert n (made w) \<subseteq> held_live ?lv (record_node ?lv t n (reg w))"
    using step_alloc held_live_record[of "reg w" t ?lv n]
    by (auto simp: world_inv_def node_is_live_def)
  then show ?case using step_alloc
    by (simp add: world_inv_def record_gated_def record_node_inv lv_of_def)
next
  case (step_alloc_unrecorded a w t n)
  let ?lv = "\<lambda>b. b \<in> insert a (alive w)"
  have "held_live (lv_of w) (reg w) \<subseteq> held_live ?lv (reg w)"
    by (rule held_live_mono) (simp add: lv_of_def)
  then show ?case using step_alloc_unrecorded
    by (auto simp: world_inv_def record_gated_def record_node_inv record_gone lv_of_def)
next
  case (step_die w a)
  then show ?case by (auto simp: world_inv_def held_live_def node_is_live_def lv_of_def)
next
  case (step_start w)
  then show ?case
    by (auto simp: world_inv_def start_recording_def registry_inv_def held_live_def held_def)
next
  case (step_snapshot w t)
  then show ?case by (simp add: world_inv_def snapshot_def Let_def flush_local_inv held_live_flush)
next
  case (step_live_count w t)
  then show ?case by (simp add: world_inv_def live_count_def Let_def flush_local_inv held_live_flush)
next
  case (step_exit w t)
  then show ?case by (simp add: world_inv_def local_drop_inv held_live_drop)
next
  case (step_retarget w k)
  then show ?case
    by (auto simp: world_inv_def retarget_collection_def registry_inv_def held_live_def held_def)
qed

lemma world_inv_reach: "gc_step\<^sup>*\<^sup>* world_init w \<Longrightarrow> world_inv w"
proof (induction rule: rtranclp_induct)
  case base
  show ?case by (simp add: world_inv_def world_init_def registry_inv_init)
next
  case (step w w')
  then show ?case by (blast intro: world_inv_step)
qed

subsection \<open>Snapshots\<close>

lemma snapshot_nodes_addrs:
  "distinct (map node_addr (snapshot_nodes lv seen ns)) \<and>
   set (map node_addr (snapshot_nodes lv seen ns))
     = {a \<in> set (map node_addr ns). lv a \<and> a \<notin> set seen}"
  by (induction ns arbitrary: seen) (auto simp: upgrade_def)

lemma snapshot_nodes_subseq: "subseq (snapshot_nodes lv seen ns) (filter (node_is_live lv) ns)"
  by (induction ns arbitrary: seen) (auto simp: upgrade_def node_is_live_def)

lemma flush_local_live:
  assumes "registry_inv r"
  shows "filter (node_is_live lv) (concat (chunks (flush_local lv t r)))
     = filter (node_is_live lv) (concat (chunks r) @ local_buf r t)"
  using assms by (auto simp: flush_local_def publish_live registry_inv_def)

lemma snapshot_nodes_filter:
  "snapshot_nodes lv seen ns = snapshot_nodes lv seen (filter (node_is_live lv) ns)"
  by (induction ns arbitrary: seen) (auto simp: upgrade_def node_is_live_def)

lemma snapshot_eq:
  assumes "registry_inv r"
  shows "snapshot lv t r = (flush_local lv t r, snapshot_nodes lv [] (concat (chunks r) @ local_buf r t))"
  using flush_local_live[OF assms, of lv t] by (metis snapshot_def snapshot_nodes_filter)

subsection \<open>The cost of compaction\<close>

text \<open>The entries a publication scans: all of them when it compacts, none otherwise.\<close>

definition scan_cost :: "node list \<Rightarrow> registry \<Rightarrow> nat" where
  "scan_cost chunk r =
     (if chunk \<noteq> [] \<and> published r + length chunk \<ge> compact_at r then published r + length chunk else 0)"

primrec publish_all ::
  "((addr \<Rightarrow> bool) \<times> node list) list \<Rightarrow> registry \<Rightarrow> registry \<times> nat" where
  "publish_all [] r = (r, 0)"
| "publish_all (p # ps) r =
     (case publish_all ps (publish (fst p) (snd p) r) of
        (r', c) \<Rightarrow> (r', scan_cost (snd p) r + c))"

lemma compact_target_base: "k \<ge> compact_target base \<Longrightarrow> k \<le> 4 * (k - base)"
  by (auto simp: compact_target_def CHUNK_def)

lemma scan_cost_step:
  assumes "compact_at r = compact_target base" "base \<le> published r"
  shows "\<exists>base'. compact_at (publish lv c r) = compact_target base' \<and>
     base' \<le> published (publish lv c r) \<and>
     scan_cost c r + 4 * (published (publish lv c r) - base')
       \<le> 4 * (published r - base) + 4 * length c"
proof (cases "c = [] \<or> published r + length c < compact_at r")
  case True
  then show ?thesis using assms by (intro exI[of _ base]) (auto simp: publish_def scan_cost_def Let_def)
next
  case False
  obtain cs live where C: "compact_locked lv (chunks r @ [c]) = (cs, live)" by fastforce
  have "published (publish lv c r) = live" "compact_at (publish lv c r) = compact_target live"
    using False C by (simp_all add: publish_def Let_def)
  moreover have "scan_cost c r \<le> 4 * (published r + length c - base)"
    using False assms compact_target_base[of base "published r + length c"] by (simp add: scan_cost_def)
  ultimately show ?thesis using assms by (intro exI[of _ live]) simp
qed

lemma publish_all_cost:
  assumes "compact_at r = compact_target base" "base \<le> published r"
  shows "snd (publish_all ps r) \<le> 4 * (published r - base) + 4 * sum_list (map (length \<circ> snd) ps)"
  using assms
proof (induction ps arbitrary: r base)
  case (Cons p ps)
  obtain base' where B: "compact_at (publish (fst p) (snd p) r) = compact_target base'"
    "base' \<le> published (publish (fst p) (snd p) r)"
    "scan_cost (snd p) r + 4 * (published (publish (fst p) (snd p) r) - base')
       \<le> 4 * (published r - base) + 4 * length (snd p)"
    using scan_cost_step[OF Cons.prems] by blast
  obtain r' c where "publish_all ps (publish (fst p) (snd p) r) = (r', c)" by fastforce
  then show ?case using Cons.IH[OF B(1,2)] B(3) by simp
qed simp

subsection \<open>Properties\<close>

text \<open>
  C13. In every run of the process -- allocations, deaths, snapshots, counts, thread exits and
  re-targeting interleaved in any order over any number of threads -- the registry keeps its
  bookkeeping invariant (the published count is the number of entries, below the compaction threshold,
  no empty chunk, no over-full buffer, nothing buffered by a finished thread) and every recorded node
  that is still alive is still in a published chunk or in a thread's buffer: compaction and hand-over
  lose no live node.
\<close>

theorem registry_loses_no_live_node:
  assumes "gc_step\<^sup>*\<^sup>* world_init w"
  shows "registry_inv (reg w) \<and> (\<forall>n \<in> made w. node_addr n \<in> alive w \<and> n \<in> held (reg w))"
  using world_inv_reach[OF assms]
  by (auto simp: world_inv_def held_live_def node_is_live_def lv_of_def)

definition demo_world :: world where
  "demo_world =
     \<lparr>reg = record_gated (\<lambda>a. a \<in> insert (node_addr (NArray 1)) {}) 0 (NArray 1) (start_recording registry_init),
      alive = insert (node_addr (NArray 1)) {}, made = insert (NArray 1) {}\<rparr>"

lemma demo_world_reach: "gc_step\<^sup>*\<^sup>* world_init demo_world"
proof -
  let ?w = "world_init\<lparr>reg := start_recording (reg world_init)\<rparr>"
  have "gc_step world_init ?w" by (rule step_start)
  moreover have "gc_step ?w demo_world"
    using step_alloc[of "NArray 1" ?w 0]
    by (simp add: world_init_def demo_world_def start_recording_def registry_init_def held_def)
  ultimately show ?thesis by simp
qed

lemma demo_world_inv: "registry_inv (reg demo_world)"
  using world_inv_reach[OF demo_world_reach] by (simp add: world_inv_def)

theorem registry_loses_no_live_node_witness:
  "registry_inv (reg demo_world) \<and>
   node_addr (NArray 1) \<in> alive demo_world \<and> NArray 1 \<in> held (reg demo_world)"
  using registry_loses_no_live_node[OF demo_world_reach] by (simp add: demo_world_def)

text \<open>
  \<^verbatim>\<open>snapshot\<close> returns one handle per node, in allocation order, and exactly the nodes that are alive
  among the published ones and the calling thread's own buffer; \<^verbatim>\<open>live_count\<close> counts those entries.
  Neither changes what the registry holds alive.
\<close>

theorem snapshot_exact:
  assumes "registry_inv r"
  shows "distinct (map node_addr (snd (snapshot lv t r))) \<and>
    set (map node_addr (snd (snapshot lv t r)))
      = {a \<in> set (map node_addr (concat (chunks r) @ local_buf r t)). lv a} \<and>
    subseq (snd (snapshot lv t r)) (filter (node_is_live lv) (concat (chunks r) @ local_buf r t)) \<and>
    snd (live_count lv t r) = length (filter (node_is_live lv) (concat (chunks r) @ local_buf r t)) \<and>
    held_live lv (fst (snapshot lv t r)) = held_live lv r"
  using snapshot_nodes_addrs[of lv "[]" "concat (chunks r) @ local_buf r t"]
    snapshot_nodes_subseq[of lv "[]" "concat (chunks r) @ local_buf r t"]
    snapshot_eq[OF assms, of lv t] flush_local_live[OF assms, of lv t] held_live_flush[of lv t r]
  by (simp add: live_count_def Let_def)

theorem snapshot_exact_witness:
  "distinct (map node_addr (snd (snapshot (\<lambda>a. a = 1) 0 (reg demo_world)))) \<and>
   set (map node_addr (snd (snapshot (\<lambda>a. a = 1) 0 (reg demo_world)))) = {1}"
  using snapshot_exact[OF demo_world_inv, of "\<lambda>a. a = 1" 0]
  by (simp add: demo_world_def record_gated_def record_node_def start_recording_def registry_init_def
      CHUNK_def)

text \<open>
  Compaction is amortised constant: over any sequence of published chunks, starting from the empty
  registry and whatever is alive at each moment, the number of entries all compactions scan together is
  at most four times the number of entries published.
\<close>

theorem compaction_amortized:
  "snd (publish_all ps registry_init) \<le> 4 * sum_list (map (length \<circ> snd) ps)"
  using publish_all_cost[of registry_init 0 ps]
  by (simp add: registry_init_def compact_target_def CHUNK_def)

end
