(* ===== verification/GcCollect.thy ===== *)
theory GcCollect
  imports GcRegistry
begin

text \<open>
  The collection pass (\<^verbatim>\<open>crates/zeo-rt/src/gc/collect.rs\<close>): reconcile every registered node's strong
  count with the references registered nodes report, mark what an unexplained owner reaches, and clear
  the rest.  An index panic of the Rust code is the value \<^term>\<open>None\<close>; the pass is shown never to take it.
\<close>

subsection \<open>The index and the walk\<close>

text \<open>The \<^verbatim>\<open>FMap\<close> from address to position, filled in order (a later insertion overwrites).\<close>

definition node_index :: "addr list \<Rightarrow> addr \<Rightarrow> nat option" where
  "node_index addrs = fold (\<lambda>(i, a) m. m(a \<mapsto> i)) (enumerate 0 addrs) Map.empty"

definition payload_of :: "('m, 'k) heap \<Rightarrow> addr \<Rightarrow> ('m, 'k) payload option" where
  "payload_of h a = map_option pay (map_of (objs h) a)"

text \<open>What a node reports to the walk: \<^verbatim>\<open>gc_visit(buf, false)\<close>, then \<^verbatim>\<open>gc_cells\<close>.\<close>

definition node_reports :: "('m, 'k) index_map \<Rightarrow> ('m, 'k) heap \<Rightarrow> addr \<Rightarrow> addr list" where
  "node_reports M h a = (case payload_of h a of None \<Rightarrow> [] | Some p \<Rightarrow> reported M p)"

text \<open>\<^verbatim>\<open>owners()\<close> while the pass holds one handle on every node.\<close>

definition owners :: "('m, 'k) index_map \<Rightarrow> ('m, 'k) heap \<Rightarrow> addr list \<Rightarrow> addr \<Rightarrow> nat" where
  "owners M h addrs a = strong_count M h a + count_list addrs a"

definition unexplained_init :: "('m, 'k) index_map \<Rightarrow> ('m, 'k) heap \<Rightarrow> addr list \<Rightarrow> int list" where
  "unexplained_init M h addrs = map (\<lambda>a. int (owners M h addrs a) - 1) addrs"

primrec walk_targets ::
  "(addr \<Rightarrow> nat option) \<Rightarrow> addr list \<Rightarrow> int list \<times> 32 word list \<Rightarrow> int list \<times> 32 word list" where
  "walk_targets idx [] s = s"
| "walk_targets idx (a # as) s =
     walk_targets idx as
       (case idx a of
          None \<Rightarrow> s
        | Some t \<Rightarrow> (case s of (u, et) \<Rightarrow> (u[t := u ! t - 1], et @ [word_of_nat t])))"

primrec walk ::
  "('m, 'k) index_map \<Rightarrow> ('m, 'k) heap \<Rightarrow> (addr \<Rightarrow> nat option) \<Rightarrow> addr list
     \<Rightarrow> int list \<times> 32 word list \<times> 32 word list \<Rightarrow> int list \<times> 32 word list \<times> 32 word list" where
  "walk M h idx [] s = (case s of (u, es, et) \<Rightarrow> (u, es @ [word_of_nat (length et)], et))"
| "walk M h idx (a # as) s =
     (case s of (u, es, et) \<Rightarrow>
        let (u', et') = walk_targets idx (node_reports M h a) (u, et)
        in walk M h idx as (u', es @ [word_of_nat (length et)], et'))"

text \<open>\<^verbatim>\<open>targets_of\<close>: a slice of the flat edge array; both indexings and the slice are checked.\<close>

definition targets_of :: "32 word list \<Rightarrow> 32 word list \<Rightarrow> nat \<Rightarrow> nat list option" where
  "targets_of es et i =
     (if i + 1 < length es
      then let lo = unat (es ! i); hi = unat (es ! (i + 1))
           in if lo \<le> hi \<and> hi \<le> length et then Some (map unat (take (hi - lo) (drop lo et))) else None
      else None)"

subsection \<open>Mark and sweep\<close>

text \<open>The mark loop: \<^verbatim>\<open>stack.pop()\<close> takes from the end, \<^verbatim>\<open>extend\<close> appends there.\<close>

definition unmarked :: "bool list \<Rightarrow> nat" where
  "unmarked live = length (filter Not live)"

lemma unmarked_update:
  assumes "i < length live" "\<not> live ! i"
  shows "unmarked (live[i := True]) < unmarked live"
proof -
  let ?a = "take i live" and ?b = "drop (Suc i) live"
  have "unmarked live = unmarked (?a @ False # ?b)"
    using assms id_take_nth_drop[of i live] by (metis (full_types))
  moreover have "unmarked (live[i := True]) = unmarked (?a @ True # ?b)"
    using assms by (simp add: upd_conv_take_nth_drop)
  ultimately show ?thesis by (simp add: unmarked_def)
qed

function mark_loop :: "(nat \<Rightarrow> nat list option) \<Rightarrow> bool list \<Rightarrow> nat list \<Rightarrow> bool list option" where
  "mark_loop tof live stack =
     (if stack = [] then Some live
      else let i = last stack; rest = butlast stack in
        if i < length live
        then if live ! i then mark_loop tof live rest
             else (case tof i of
                     None \<Rightarrow> None
                   | Some ts \<Rightarrow> mark_loop tof (live[i := True]) (rest @ ts))
        else None)"
  by pat_completeness auto
termination
  by (relation "measures [\<lambda>(tof, live, stack). unmarked live, \<lambda>(tof, live, stack). length stack]")
    (auto simp: unmarked_update)

declare mark_loop.simps [simp del]

text \<open>The sweep empties the payload of every node the marking left out.\<close>

definition clear_payload :: "('m, 'k) index_map \<Rightarrow> ('m, 'k) alloc \<Rightarrow> ('m, 'k) alloc" where
  "clear_payload M n = n\<lparr>pay := fst (gc_visit M (pay n) [] True)\<rparr>"

primrec sweep ::
  "('m, 'k) index_map \<Rightarrow> (addr \<times> bool) list \<Rightarrow> ('m, 'k) heap \<times> nat \<Rightarrow> ('m, 'k) heap \<times> nat" where
  "sweep M [] s = s"
| "sweep M (n # ns) s =
     (case s of (h, reclaimed) \<Rightarrow>
        if snd n then sweep M ns (h, reclaimed)
        else sweep M ns
          (h\<lparr>objs := map (\<lambda>(a, x). (a, if a = fst n then clear_payload M x else x)) (objs h)\<rparr>,
           reclaimed + 1))"

subsection \<open>The pass\<close>

text \<open>The reconciliation, from the snapshot's addresses: which nodes are live.\<close>

definition reconcile :: "('m, 'k) index_map \<Rightarrow> ('m, 'k) heap \<Rightarrow> addr list \<Rightarrow> bool list option" where
  "reconcile M h addrs =
     (let (unexplained, edge_starts, edge_targets) =
            walk M h (node_index addrs) addrs (unexplained_init M h addrs, [], [])
      in mark_loop (targets_of edge_starts edge_targets) (replicate (length addrs) False)
           (filter (\<lambda>i. unexplained ! i > 0) [0..<length addrs]))"

record ('m, 'k) process =
  pheap :: "('m, 'k) heap"
  preg :: registry

text \<open>
  \<^verbatim>\<open>collect\<close>: \<open>sole\<close> is \<^verbatim>\<open>sole_thread()\<close> and \<open>stopped\<close> whether \<^verbatim>\<open>stop_the_world()\<close> succeeded.  When the
  pass has let go of its handles and of what it drained, reference counting drops what is dead.
\<close>

definition collect ::
  "('m, 'k) index_map \<Rightarrow> bool \<Rightarrow> bool \<Rightarrow> nat \<Rightarrow> ('m, 'k) process \<Rightarrow> (('m, 'k) process \<times> nat) option" where
  "collect M sole stopped t p =
     (if \<not> recording (preg p) then Some (p, 0)
      else if \<not> sole \<and> \<not> stopped then Some (p, 0)
      else let (r, nodes) = snapshot (is_live (pheap p)) t (preg p) in
        if nodes = [] then Some (p\<lparr>preg := r\<rparr>, 0)
        else let addrs = map node_addr nodes in
          (case reconcile M (pheap p) addrs of
             None \<Rightarrow> None
           | Some live \<Rightarrow>
               let (h, reclaimed) = sweep M (zip addrs live) (pheap p, 0)
               in Some (p\<lparr>pheap := reap M h, preg := retarget_collection (length addrs - reclaimed) r\<rparr>,
                        reclaimed)))"

text \<open>\<^verbatim>\<open>run_collection\<close> counts the pass and lets \<^verbatim>\<open>GC.disable\<close> gate it.\<close>

definition run_collection ::
  "('m, 'k) index_map \<Rightarrow> bool \<Rightarrow> bool \<Rightarrow> nat \<Rightarrow> bool \<Rightarrow> ('m, 'k) process \<times> 64 word
     \<Rightarrow> (('m, 'k) process \<times> 64 word) option" where
  "run_collection M sole stopped t disabled s =
     (case s of (p, count) \<Rightarrow>
        if disabled then Some (p, count + 1)
        else map_option (\<lambda>(p', k). (p', count + 1)) (collect M sole stopped t p))"

text \<open>\<^verbatim>\<open>service_due\<close>, the safepoint: claim the request with a swap, consume the interrupt, collect.\<close>

definition service_due ::
  "('m, 'k) index_map \<Rightarrow> bool \<Rightarrow> bool \<Rightarrow> nat \<Rightarrow> bool \<Rightarrow> ('m, 'k) process \<times> 64 word
     \<Rightarrow> (('m, 'k) process \<times> 64 word) option" where
  "service_due M sole stopped t disabled s =
     (case s of (p, count) \<Rightarrow>
        if \<not> due (preg p) then Some s
        else run_collection M sole stopped t disabled
               (p\<lparr>preg := note_consumed ((preg p)\<lparr>due := False\<rparr>)\<rparr>, count))"

subsection \<open>The index\<close>

lemma fold_index_other:
  "a \<notin> set as \<Longrightarrow> fold (\<lambda>(i, a) m. m(a \<mapsto> i)) (enumerate n as) m a = m a"
  by (induction as arbitrary: n m) auto

lemma fold_index_nth:
  "distinct as \<Longrightarrow> i < length as \<Longrightarrow>
     fold (\<lambda>(i, a) m. m(a \<mapsto> i)) (enumerate n as) m (as ! i) = Some (n + i)"
proof (induction as arbitrary: n m i)
  case (Cons a as)
  then show ?case by (cases i) (simp_all add: fold_index_other del: fun_upd_apply, simp)
qed simp

lemma node_index_nth: "distinct as \<Longrightarrow> i < length as \<Longrightarrow> node_index as (as ! i) = Some i"
  by (simp add: node_index_def fold_index_nth)

lemma node_index_None: "a \<notin> set as \<Longrightarrow> node_index as a = None"
  by (simp add: node_index_def fold_index_other)

lemma node_index_Some:
  assumes "distinct as"
  shows "node_index as a = Some i \<longleftrightarrow> i < length as \<and> as ! i = a"
  using assms node_index_nth node_index_None by (metis in_set_conv_nth option.distinct(1) option.inject)

lemma index_range:
  assumes "distinct as" "i \<in> set (List.map_filter (node_index as) rs)"
  shows "i < length as \<and> as ! i \<in> set rs"
  using assms by (induction rs) (auto simp: map_filter_Cons node_index_Some split: option.splits)

lemma index_count:
  assumes "distinct as" "i < length as"
  shows "count_list (List.map_filter (node_index as) rs) i = count_list rs (as ! i)"
proof (induction rs)
  case (Cons r rs)
  show ?case
  proof (cases "node_index as r")
    case None
    then have "r \<noteq> as ! i" using node_index_nth[OF assms] by auto
    then show ?thesis using None Cons by (simp add: map_filter_Cons)
  next
    case (Some j)
    then have "j < length as" "as ! j = r" using node_index_Some[OF assms(1)] by auto
    then have "(j = i) = (r = as ! i)" using assms nth_eq_iff_index_eq by metis
    then show ?thesis using Some Cons by (simp add: map_filter_Cons)
  qed
qed simp

lemma index_mem:
  assumes "distinct as" "i < length as"
  shows "i \<in> set (List.map_filter (node_index as) rs) \<longleftrightarrow> as ! i \<in> set rs"
  using index_count[OF assms, of rs] count_list_zero_iff by metis

subsection \<open>The walk\<close>

lemma walk_targets_edges:
  "snd (walk_targets idx as s) = snd s @ map word_of_nat (List.map_filter idx as)"
  by (induction as arbitrary: s) (auto simp: map_filter_Cons split: option.splits prod.splits)

lemma walk_targets_length: "length (fst (walk_targets idx as s)) = length (fst s)"
  by (induction as arbitrary: s) (auto split: option.splits prod.splits)

lemma walk_targets_count:
  "j < length (fst s) \<Longrightarrow>
     fst (walk_targets idx as s) ! j = fst s ! j - int (count_list (List.map_filter idx as) j)"
proof (induction as arbitrary: s)
  case (Cons a as)
  show ?case
  proof (cases "idx a")
    case None
    then show ?thesis using Cons by (simp add: map_filter_Cons)
  next
    case (Some t)
    obtain u et where s: "s = (u, et)" by (cases s)
    have "fst (walk_targets idx as (u[t := u ! t - 1], et @ [word_of_nat t])) ! j
        = u[t := u ! t - 1] ! j - int (count_list (List.map_filter idx as) j)"
      using Cons.IH[of "(u[t := u ! t - 1], et @ [word_of_nat t])"] Cons.prems s by simp
    then show ?thesis using Some s Cons.prems by (auto simp: map_filter_Cons nth_list_update)
  qed
qed simp

definition out_edges ::
  "('m, 'k) index_map \<Rightarrow> ('m, 'k) heap \<Rightarrow> (addr \<Rightarrow> nat option) \<Rightarrow> addr \<Rightarrow> nat list" where
  "out_edges M h idx a = List.map_filter idx (node_reports M h a)"

definition edge_offset ::
  "('m, 'k) index_map \<Rightarrow> ('m, 'k) heap \<Rightarrow> (addr \<Rightarrow> nat option) \<Rightarrow> addr list \<Rightarrow> nat \<Rightarrow> nat" where
  "edge_offset M h idx as i = length (concat (map (out_edges M h idx) (take i as)))"

lemma walk_edges:
  "snd (walk M h idx as (u, es, et)) =
     (es @ map (\<lambda>i. word_of_nat (length et + edge_offset M h idx as i)) [0..<Suc (length as)],
      et @ map word_of_nat (concat (map (out_edges M h idx) as)))"
proof (induction as arbitrary: u es et)
  case (Cons a as)
  obtain u' et' where W: "walk_targets idx (node_reports M h a) (u, et) = (u', et')" by fastforce
  then have E: "et' = et @ map word_of_nat (out_edges M h idx a)"
    using walk_targets_edges[of idx "node_reports M h a" "(u, et)"] by (simp add: out_edges_def)
  have U: "[0..<Suc (Suc (length as))] = 0 # map Suc [0..<Suc (length as)]"
    by (simp add: upt_conv_Cons map_Suc_upt del: upt_Suc)
  then show ?case using Cons.IH[of u' "es @ [word_of_nat (length et)]" et'] W
    by (simp add: E U edge_offset_def comp_def add.assoc del: upt_Suc)
qed (simp add: edge_offset_def)

lemma walk_length: "length (fst (walk M h idx as (u, es, et))) = length u"
proof (induction as arbitrary: u es et)
  case (Cons a as)
  obtain u' et' where W: "walk_targets idx (node_reports M h a) (u, et) = (u', et')" by fastforce
  then have "length u' = length u" using walk_targets_length[of idx "node_reports M h a" "(u, et)"] by simp
  then show ?case using Cons W by simp
qed simp

lemma walk_unexplained:
  "j < length u \<Longrightarrow>
     fst (walk M h idx as (u, es, et)) ! j
       = u ! j - int (sum_list (map (\<lambda>a. count_list (out_edges M h idx a) j) as))"
proof (induction as arbitrary: u es et)
  case (Cons a as)
  obtain u' et' where W: "walk_targets idx (node_reports M h a) (u, et) = (u', et')" by fastforce
  then have "length u' = length u" "u' ! j = u ! j - int (count_list (out_edges M h idx a) j)"
    using walk_targets_length[of idx "node_reports M h a" "(u, et)"]
      walk_targets_count[of j "(u, et)" idx "node_reports M h a"] Cons.prems
    by (simp_all add: out_edges_def)
  then show ?case using Cons W by simp
qed simp

lemma edge_offset_Suc:
  "i < length as \<Longrightarrow>
     edge_offset M h idx as (Suc i) = edge_offset M h idx as i + length (out_edges M h idx (as ! i))"
  by (simp add: edge_offset_def take_Suc_conv_app_nth)

lemma edge_offset_le: "edge_offset M h idx as i \<le> length (concat (map (out_edges M h idx) as))"
proof -
  have "concat (map (out_edges M h idx) as)
      = concat (map (out_edges M h idx) (take i as)) @ concat (map (out_edges M h idx) (drop i as))"
    by (metis append_take_drop_id concat_append map_append)
  then show ?thesis by (simp add: edge_offset_def)
qed

lemma edge_slice:
  assumes "i < length as"
  shows "take (length (out_edges M h idx (as ! i)))
      (drop (edge_offset M h idx as i) (concat (map (out_edges M h idx) as))) = out_edges M h idx (as ! i)"
proof -
  have "concat (map (out_edges M h idx) as)
      = concat (map (out_edges M h idx) (take i as))
        @ out_edges M h idx (as ! i) @ concat (map (out_edges M h idx) (drop (Suc i) as))"
    using id_take_nth_drop[OF assms] by (metis concat.simps(2) concat_append list.simps(9) map_append)
  then show ?thesis by (simp add: edge_offset_def)
qed

text \<open>
  The flat graph answers each node's reported registered targets, as long as every offset and every
  index fits the \<^verbatim>\<open>u32\<close> it is stored in.
\<close>

definition graph_fits :: "('m, 'k) index_map \<Rightarrow> ('m, 'k) heap \<Rightarrow> addr list \<Rightarrow> bool" where
  "graph_fits M h as \<longleftrightarrow>
     length as \<le> 2 ^ 32 \<and> sum_list (map (\<lambda>a. length (node_reports M h a)) as) < 2 ^ 32"

lemma length_map_filter_le: "length (List.map_filter f xs) \<le> length xs"
  by (induction xs) (auto simp: map_filter_Cons split: option.splits)

lemma edges_fit:
  assumes "graph_fits M h as"
  shows "length (concat (map (out_edges M h idx) as)) < 2 ^ 32"
proof -
  have "length (concat (map (out_edges M h idx) as)) \<le> sum_list (map (\<lambda>a. length (node_reports M h a)) as)"
    by (induction as) (auto simp: out_edges_def intro: add_mono length_map_filter_le)
  then show ?thesis using assms by (simp add: graph_fits_def)
qed

lemma unat_word_of_nat32: "n < 2 ^ 32 \<Longrightarrow> unat (word_of_nat n :: 32 word) = n"
  by (simp add: unat_of_nat take_bit_nat_eq_self_iff)

lemma targets_of_walk:
  assumes fits: "graph_fits M h as" and d: "distinct as" and i: "i < length as"
    and w: "walk M h (node_index as) as (u, [], []) = (u', es, et)"
  shows "targets_of es et i = Some (out_edges M h (node_index as) (as ! i))"
proof -
  let ?idx = "node_index as"
  let ?E = "concat (map (out_edges M h ?idx) as)"
  have es: "es = map (\<lambda>i. word_of_nat (edge_offset M h ?idx as i)) [0..<Suc (length as)]"
    and et: "et = map word_of_nat ?E"
    using walk_edges[of M h ?idx as u "[]" "[]"] w by simp_all
  have fit: "edge_offset M h ?idx as j < 2 ^ 32" for j
    using edge_offset_le[of M h ?idx as j] edges_fit[OF fits, of ?idx] by simp
  have nth: "j \<le> length as \<Longrightarrow> unat (es ! j) = edge_offset M h ?idx as j" for j
    using fit[of j] unat_word_of_nat32 by (simp add: es del: upt_Suc)
  have small: "x < 2 ^ 32" if "x \<in> set (out_edges M h ?idx (as ! i))" for x
    using index_range[OF d, of x] that fits by (fastforce simp: out_edges_def graph_fits_def)
  then have rt: "map (unat \<circ> (word_of_nat :: nat \<Rightarrow> 32 word)) (out_edges M h ?idx (as ! i))
      = out_edges M h ?idx (as ! i)"
    by (intro map_idI) (simp add: unat_word_of_nat32)
  have "edge_offset M h ?idx as (Suc i) \<le> length et"
    using edge_offset_le[of M h ?idx as "Suc i"] by (simp add: et)
  then show ?thesis
    using i nth[of i] nth[of "Suc i"] edge_slice[OF i, of M h ?idx] rt
    by (simp add: targets_of_def es et edge_offset_Suc[OF i] take_map drop_map Let_def del: upt_Suc)
qed

subsection \<open>The mark loop\<close>

text \<open>On a graph whose successors are in range the loop returns, and marks what the stack reaches.\<close>

definition succs_ok :: "(nat \<Rightarrow> nat list option) \<Rightarrow> (nat \<Rightarrow> nat list) \<Rightarrow> nat \<Rightarrow> bool" where
  "succs_ok tof ts n \<longleftrightarrow> (\<forall>i < n. tof i = Some (ts i) \<and> set (ts i) \<subseteq> {..<n})"

lemma mark_loop_snoc:
  "mark_loop tof live (rest @ [i]) =
     (if i < length live then if live ! i then mark_loop tof live rest
        else (case tof i of None \<Rightarrow> None | Some ts \<Rightarrow> mark_loop tof (live[i := True]) (rest @ ts))
      else None)"
  by (subst mark_loop.simps) (simp add: Let_def)

lemma mark_loop_total:
  assumes "succs_ok tof ts (length live)" "set stack \<subseteq> {..<length live}"
    and "\<And>i j. i < length live \<Longrightarrow> live ! i \<Longrightarrow> j \<in> set (ts i) \<Longrightarrow> live ! j \<or> j \<in> set stack"
  shows "\<exists>live'. mark_loop tof live stack = Some live' \<and> length live' = length live \<and>
     (\<forall>i < length live. live ! i \<or> i \<in> set stack \<longrightarrow> live' ! i) \<and>
     (\<forall>i < length live. live' ! i \<longrightarrow> (\<forall>j \<in> set (ts i). live' ! j))"
  using assms
proof (induction tof live stack rule: mark_loop.induct)
  case (1 tof live stack)
  show ?case
  proof (cases "stack = []")
    case True
    then show ?thesis using 1(5) by (auto simp: mark_loop.simps[of tof live])
  next
    case False
    define i where "i = last stack"
    define rest where "rest = butlast stack"
    have st: "stack = rest @ [i]" using False by (simp add: i_def rest_def)
    have i: "i < length live" using 1(4) st by auto
    have tof: "tof i = Some (ts i)" "set (ts i) \<subseteq> {..<length live}"
      using 1(3) i by (auto simp: succs_ok_def)
    show ?thesis
    proof (cases "live ! i")
      case True
      have "\<exists>live'. mark_loop tof live rest = Some live' \<and> length live' = length live \<and>
          (\<forall>k < length live. live ! k \<or> k \<in> set rest \<longrightarrow> live' ! k) \<and>
          (\<forall>k < length live. live' ! k \<longrightarrow> (\<forall>j \<in> set (ts k). live' ! j))"
        by (rule 1(1)[OF False i_def rest_def i True]) (use 1(3-5) st True in auto)
      moreover have "mark_loop tof live stack = mark_loop tof live rest"
        using i True by (simp add: st mark_loop_snoc)
      ultimately show ?thesis using True st by auto
    next
      case nl: False
      let ?live = "live[i := True]"
      have cl: "?live ! j \<or> j \<in> set (rest @ ts i)"
        if "k < length ?live" "?live ! k" "j \<in> set (ts k)" for k j
      proof (cases "k = i \<or> j = i")
        case True
        then show ?thesis using that i by auto
      next
        case False
        then show ?thesis using 1(5)[of k j] that st by (auto simp: nth_list_update)
      qed
      have "\<exists>live'. mark_loop tof ?live (rest @ ts i) = Some live' \<and> length live' = length ?live \<and>
          (\<forall>k < length ?live. ?live ! k \<or> k \<in> set (rest @ ts i) \<longrightarrow> live' ! k) \<and>
          (\<forall>k < length ?live. live' ! k \<longrightarrow> (\<forall>j \<in> set (ts k). live' ! j))"
        by (rule 1(2)[OF False i_def rest_def i nl tof(1) _ _ cl]) (use 1(3,4) st tof in auto)
      then obtain live' where L: "mark_loop tof ?live (rest @ ts i) = Some live'"
        "length live' = length live"
        "\<And>k. k < length live \<Longrightarrow> ?live ! k \<or> k \<in> set rest \<Longrightarrow> live' ! k"
        "\<forall>k < length live. live' ! k \<longrightarrow> (\<forall>j \<in> set (ts k). live' ! j)"
        by auto
      have "live' ! k" if "k < length live" "live ! k \<or> k \<in> set stack" for k
      proof (cases "k = i")
        case True
        then show ?thesis using L(3)[of k] that by simp
      next
        case False
        then show ?thesis using L(3)[of k] that st by auto
      qed
      moreover have "mark_loop tof live stack = Some live'"
        using i nl tof(1) L(1) by (simp add: st mark_loop_snoc)
      ultimately show ?thesis using L by blast
    qed
  qed
qed

lemma mark_loop_sound:
  assumes "mark_loop tof live stack = Some live'"
    and "\<And>i. i < length live \<Longrightarrow> live ! i \<Longrightarrow> P i" "\<And>i. i \<in> set stack \<Longrightarrow> P i"
    and "\<And>i j ts. P i \<Longrightarrow> tof i = Some ts \<Longrightarrow> j \<in> set ts \<Longrightarrow> P j"
  shows "\<forall>i < length live'. live' ! i \<longrightarrow> P i"
  using assms
proof (induction tof live stack rule: mark_loop.induct)
  case (1 tof live stack)
  show ?case
  proof (cases "stack = []")
    case True
    then show ?thesis using 1(3,4) by (simp add: mark_loop.simps[of tof live])
  next
    case False
    define i where "i = last stack"
    define rest where "rest = butlast stack"
    have st: "stack = rest @ [i]" using False by (simp add: i_def rest_def)
    have i: "i < length live" using 1(3) mark_loop_snoc[of tof live rest i] st by (simp split: if_splits)
    show ?thesis
    proof (cases "live ! i")
      case True
      show ?thesis
        by (rule 1(1)[OF False i_def rest_def i True]) (use 1(3-6) mark_loop_snoc[of tof live rest i] st i True in auto)
    next
      case nl: False
      then obtain ts where ts: "tof i = Some ts" using 1(3) mark_loop_snoc[of tof live rest i] st i by (auto split: option.splits)
      have "P j" if "j \<in> set ts" for j using 1(5)[of i] 1(6)[OF _ ts that] st by simp
      then show ?thesis
        by (intro 1(2)[OF False i_def rest_def i nl ts])
          (use 1(3-6) mark_loop_snoc[of tof live rest i] st i nl ts in \<open>auto simp: nth_list_update split: if_splits\<close>)
    qed
  qed
qed

text \<open>Together: a node is marked exactly when a root reaches it along the edges.\<close>

lemma mark_loop_reaches:
  assumes ok: "succs_ok tof ts n" and roots: "set roots \<subseteq> {..<n}"
  shows "\<exists>live. mark_loop tof (replicate n False) roots = Some live \<and> length live = n \<and>
     (\<forall>i < n. live ! i \<longleftrightarrow> (\<exists>r \<in> set roots. (r, i) \<in> {(i, j). i < n \<and> j \<in> set (ts i)}\<^sup>*))"
proof -
  let ?E = "{(i, j). i < n \<and> j \<in> set (ts i)}"
  obtain live where L: "mark_loop tof (replicate n False) roots = Some live" "length live = n"
    "\<forall>i < n. i \<in> set roots \<longrightarrow> live ! i" "\<forall>i < n. live ! i \<longrightarrow> (\<forall>j \<in> set (ts i). live ! j)"
    using mark_loop_total[of tof ts "replicate n False" roots] ok roots by auto
  have "\<exists>r \<in> set roots. (r, i) \<in> ?E\<^sup>*" if "i < n" "live ! i" for i
  proof -
    let ?P = "\<lambda>i. i < n \<and> (\<exists>r \<in> set roots. (r, i) \<in> ?E\<^sup>*)"
    have "\<forall>i < length live. live ! i \<longrightarrow> ?P i"
    proof (rule mark_loop_sound[OF L(1)])
      show "?P j" if "?P i" "tof i = Some us" "j \<in> set us" for i j us
      proof -
        have "(i, j) \<in> ?E" "j < n" using ok that by (auto simp: succs_ok_def)
        then show ?thesis using that(1) rtrancl_into_rtrancl by fast
      qed
    qed (use roots in auto)
    then show ?thesis using that L(2) by simp
  qed
  moreover have "i < n \<and> live ! i" if "r \<in> set roots" "(r, i) \<in> ?E\<^sup>*" for r i
    using that(2)
  proof (induction rule: rtrancl_induct)
    case base
    then show ?case using L(3) roots that(1) by auto
  next
    case (step i j)
    then show ?case using L(4) ok by (auto simp: succs_ok_def)
  qed
  ultimately show ?thesis using L by blast
qed

subsection \<open>Reconciliation\<close>

text \<open>The owners of a node that no registered node's report explains.\<close>

definition unexplained_owners ::
  "('m, 'k) index_map \<Rightarrow> ('m, 'k) heap \<Rightarrow> addr list \<Rightarrow> addr \<Rightarrow> int" where
  "unexplained_owners M h as a =
     int (strong_count M h a) - int (sum_list (map (\<lambda>b. count_list (node_reports M h b) a) as))"

definition report_rel :: "('m, 'k) index_map \<Rightarrow> ('m, 'k) heap \<Rightarrow> addr list \<Rightarrow> (addr \<times> addr) set" where
  "report_rel M h as = {(a, b). a \<in> set as \<and> b \<in> set as \<and> b \<in> set (node_reports M h a)}"

definition live_set :: "('m, 'k) index_map \<Rightarrow> ('m, 'k) heap \<Rightarrow> addr list \<Rightarrow> addr set" where
  "live_set M h as = (report_rel M h as)\<^sup>* `` {a \<in> set as. unexplained_owners M h as a > 0}"

definition dead_set :: "('m, 'k) index_map \<Rightarrow> ('m, 'k) heap \<Rightarrow> addr list \<Rightarrow> addr set" where
  "dead_set M h as = set as - live_set M h as"

lemma count_list_distinct: "distinct as \<Longrightarrow> a \<in> set as \<Longrightarrow> count_list as a = 1"
  by (induction as) (auto simp: count_list_zero_iff)

lemma walk_unexplained_owners:
  assumes "distinct as" "j < length as"
  shows "fst (walk M h (node_index as) as (unexplained_init M h as, [], [])) ! j
     = unexplained_owners M h as (as ! j)"
proof -
  have "count_list (out_edges M h (node_index as) b) j = count_list (node_reports M h b) (as ! j)" for b
    using index_count[OF assms] by (simp add: out_edges_def)
  moreover have "unexplained_init M h as ! j = int (strong_count M h (as ! j))"
    using assms count_list_distinct[OF assms(1), of "as ! j"] by (simp add: unexplained_init_def owners_def)
  ultimately show ?thesis
    using walk_unexplained[of j "unexplained_init M h as" M h "node_index as" as "[]" "[]"] assms
    by (simp add: unexplained_owners_def unexplained_init_def)
qed

text \<open>Paths over positions are paths over the addresses at those positions.\<close>

lemma rtrancl_index:
  assumes d: "distinct as" and E: "\<And>i j. (i, j) \<in> E \<longleftrightarrow> i < length as \<and> j < length as \<and> (as ! i, as ! j) \<in> R"
    and R: "R \<subseteq> set as \<times> set as" and r: "r < length as" "i < length as"
  shows "(r, i) \<in> E\<^sup>* \<longleftrightarrow> (as ! r, as ! i) \<in> R\<^sup>*"
proof
  assume "(r, i) \<in> E\<^sup>*"
  then show "(as ! r, as ! i) \<in> R\<^sup>*"
    by (induction rule: rtrancl_induct) (use E in \<open>auto intro: rtrancl_into_rtrancl\<close>)
next
  assume "(as ! r, as ! i) \<in> R\<^sup>*"
  then have "\<forall>k < length as. as ! k = as ! i \<longrightarrow> (r, k) \<in> E\<^sup>*"
  proof (induction rule: rtrancl_induct)
    case base
    then show ?case using d r by (auto simp: nth_eq_iff_index_eq)
  next
    case (step b c)
    then have "b \<in> set as" using R by blast
    then obtain k where "k < length as" "as ! k = b" by (auto simp: in_set_conv_nth)
    then show ?case using step E rtrancl_into_rtrancl by metis
  qed
  then show "(r, i) \<in> E\<^sup>*" using r by blast
qed

lemma reconcile_exact:
  assumes d: "distinct as" and fits: "graph_fits M h as"
  shows "\<exists>live. reconcile M h as = Some live \<and> length live = length as \<and>
     (\<forall>i < length as. live ! i \<longleftrightarrow> as ! i \<in> live_set M h as)"
proof -
  let ?n = "length as" and ?ts = "\<lambda>i. out_edges M h (node_index as) (as ! i)"
  obtain u es et where W: "walk M h (node_index as) as (unexplained_init M h as, [], []) = (u, es, et)"
    by (cases "walk M h (node_index as) as (unexplained_init M h as, [], [])")
  define roots where "roots = filter (\<lambda>i. u ! i > 0) [0..<?n]"
  have u: "j < ?n \<Longrightarrow> u ! j = unexplained_owners M h as (as ! j)" for j
    using walk_unexplained_owners[OF d, of j M h] W by simp
  have ok: "succs_ok (targets_of es et) ?ts ?n"
    using targets_of_walk[OF fits d _ W] index_range[OF d] by (fastforce simp: succs_ok_def out_edges_def)
  have E: "(i, j) \<in> {(i, j). i < ?n \<and> j \<in> set (?ts i)}
      \<longleftrightarrow> i < ?n \<and> j < ?n \<and> (as ! i, as ! j) \<in> report_rel M h as" for i j
    using index_range[OF d, of j] index_mem[OF d, of j] by (auto simp: out_edges_def report_rel_def)
  obtain live where L: "mark_loop (targets_of es et) (replicate ?n False) roots = Some live" "length live = ?n"
    "\<forall>i < ?n. live ! i \<longleftrightarrow> (\<exists>r \<in> set roots. (r, i) \<in> {(i, j). i < ?n \<and> j \<in> set (?ts i)}\<^sup>*)"
    using mark_loop_reaches[OF ok, of roots] by (auto simp: roots_def)
  have "(\<exists>r \<in> set roots. (r, i) \<in> {(i, j). i < ?n \<and> j \<in> set (?ts i)}\<^sup>*) \<longleftrightarrow> as ! i \<in> live_set M h as"
    if "i < ?n" for i
  proof -
    have "(r, i) \<in> {(i, j). i < ?n \<and> j \<in> set (?ts i)}\<^sup>* \<longleftrightarrow> (as ! r, as ! i) \<in> (report_rel M h as)\<^sup>*"
      if "r < ?n" for r
      by (rule rtrancl_index[OF d E _ that \<open>i < ?n\<close>]) (auto simp: report_rel_def)
    then show ?thesis using u by (fastforce simp: roots_def live_set_def in_set_conv_nth)
  qed
  then show ?thesis using L W by (simp add: reconcile_def roots_def)
qed

subsection \<open>Every owner of a dead node is dead\<close>

definition heap_wf :: "('m, 'k) heap \<Rightarrow> bool" where
  "heap_wf h \<longleftrightarrow> distinct (map fst (objs h))"

lemma node_reports_obj: "heap_wf h \<Longrightarrow> (b, n) \<in> set (objs h) \<Longrightarrow> node_reports M h b = reported M (pay n)"
  by (simp add: node_reports_def payload_of_def heap_wf_def)

lemma node_reports_dead: "b \<notin> fst ` set (objs h) \<Longrightarrow> node_reports M h b = []"
proof -
  assume "b \<notin> fst ` set (objs h)"
  then have "map_of (objs h) b = None" by (simp add: map_of_eq_None_iff)
  then show ?thesis by (simp add: node_reports_def payload_of_def)
qed

text \<open>The references a registered allocation is seen to own, against those it owns.\<close>

definition seen_count ::
  "('m, 'k) index_map \<Rightarrow> addr list \<Rightarrow> addr \<times> ('m, 'k) alloc \<Rightarrow> addr \<Rightarrow> nat" where
  "seen_count M as ob a = (if fst ob \<in> set as then count_list (reported M (pay (snd ob))) a else 0)"

lemma seen_count_le: "seen_count M as ob a \<le> count_list (owned M (snd ob)) a"
  by (simp add: seen_count_def count_reported_le)

lemma reports_sum:
  assumes "heap_wf h" "distinct as"
  shows "sum_list (map (\<lambda>b. count_list (node_reports M h b) a) as)
     = sum_list (map (\<lambda>ob. seen_count M as ob a) (objs h))"
proof -
  let ?f = "\<lambda>b. count_list (node_reports M h b) a"
  have "sum_list (map ?f as) = sum ?f (set as)" using assms(2) by (simp add: sum_list_distinct_conv_sum_set)
  also have "\<dots> = sum ?f (set as \<inter> fst ` set (objs h))"
    by (rule sum.mono_neutral_right) (auto simp: node_reports_dead)
  also have "\<dots> = sum (\<lambda>b. if b \<in> set as then ?f b else 0) (fst ` set (objs h))"
    by (subst Int_commute) (simp add: sum.inter_restrict)
  also have "\<dots> = sum_list (map (\<lambda>b. if b \<in> set as then ?f b else 0) (map fst (objs h)))"
    using assms(1) by (simp add: heap_wf_def sum_list_distinct_conv_sum_set[of "map fst (objs h)"] del: map_map)
  also have "\<dots> = sum_list (map (\<lambda>ob. seen_count M as ob a) (objs h))"
    unfolding map_map
    by (rule arg_cong[of _ _ sum_list], rule map_cong)
      (use node_reports_obj[OF assms(1)] in \<open>auto simp: seen_count_def\<close>)
  finally show ?thesis .
qed

lemma count_in_alt: "count_in M os a = sum_list (map (\<lambda>ob. count_list (owned M (snd ob)) a) os)"
  by (simp add: count_in_def case_prod_unfold)

lemma unexplained_nonneg:
  assumes "heap_wf h" "distinct as"
  shows "unexplained_owners M h as a \<ge> 0"
proof -
  have "sum_list (map (\<lambda>ob. seen_count M as ob a) (objs h)) \<le> count_in M (objs h) a"
    unfolding count_in_alt by (rule sum_list_mono) (rule seen_count_le)
  then show ?thesis using reports_sum[OF assms, of M a]
    by (simp add: unexplained_owners_def strong_count_def)
qed

lemma sum_list_eq_pointwise:
  fixes f g :: "'a \<Rightarrow> nat"
  shows "sum_list (map f xs) = sum_list (map g xs) \<Longrightarrow> (\<And>x. f x \<le> g x) \<Longrightarrow> x \<in> set xs \<Longrightarrow> f x = g x"
proof (induction xs)
  case (Cons y ys)
  have "sum_list (map f ys) \<le> sum_list (map g ys)" using Cons.prems(2) by (simp add: sum_list_mono)
  then have "f y = g y" "sum_list (map f ys) = sum_list (map g ys)"
    using Cons.prems(1) Cons.prems(2)[of y] by simp_all
  then show ?case using Cons by auto
qed simp

lemma dead_explained:
  assumes wf: "heap_wf h" and d: "distinct as" and a: "a \<in> dead_set M h as"
  shows "ext h a = 0 \<and> (\<forall>(b, n) \<in> set (objs h). count_list (owned M n) a = seen_count M as (b, n) a)"
proof -
  let ?s = "sum_list (map (\<lambda>ob. seen_count M as ob a) (objs h))"
  have "\<not> unexplained_owners M h as a > 0" using a by (auto simp: dead_set_def live_set_def)
  then have "strong_count M h a \<le> ?s"
    using reports_sum[OF wf d, of M a] by (simp add: unexplained_owners_def)
  moreover have "?s \<le> count_in M (objs h) a"
    unfolding count_in_alt by (rule sum_list_mono) (rule seen_count_le)
  ultimately have e: "ext h a = 0" "?s = sum_list (map (\<lambda>ob. count_list (owned M (snd ob)) a) (objs h))"
    by (simp_all add: strong_count_def count_in_alt)
  show ?thesis using e(1) sum_list_eq_pointwise[OF e(2) seen_count_le] by fastforce
qed

lemma dead_owners:
  assumes wf: "heap_wf h" and d: "distinct as" and a: "a \<in> dead_set M h as"
    and b: "(b, n) \<in> set (objs h)" "a \<in> set (owned M n)"
  shows "b \<in> dead_set M h as \<and> a \<in> set (reported M (pay n))"
proof -
  have "seen_count M as (b, n) a \<noteq> 0"
    using dead_explained[OF wf d a] b count_list_zero_iff by fastforce
  then have r: "b \<in> set as" "a \<in> set (reported M (pay n))"
    using count_list_zero_iff[of "reported M (pay n)" a] by (auto simp: seen_count_def split: if_splits)
  then have "(b, a) \<in> report_rel M h as"
    using node_reports_obj[OF wf b(1)] a by (simp add: report_rel_def dead_set_def)
  then have "b \<in> live_set M h as \<Longrightarrow> a \<in> live_set M h as"
    by (auto simp: live_set_def intro: rtrancl_into_rtrancl)
  then show ?thesis using r a by (auto simp: dead_set_def)
qed

subsection \<open>The sweep\<close>

definition swept :: "('m, 'k) index_map \<Rightarrow> addr set \<Rightarrow> ('m, 'k) heap \<Rightarrow> ('m, 'k) heap" where
  "swept M D h = h\<lparr>objs := map (\<lambda>(a, x). (a, if a \<in> D then clear_payload M x else x)) (objs h)\<rparr>"

lemma swept_empty [simp]: "swept M {} h = h"
  by (simp add: swept_def)

lemma swept_insert:
  assumes "a \<notin> D"
  shows "swept M D (h\<lparr>objs := map (\<lambda>(b, x). (b, if b = a then clear_payload M x else x)) (objs h)\<rparr>)
     = swept M (insert a D) h"
  using assms by (auto simp: swept_def comp_def intro!: arg_cong[of _ _ "\<lambda>os. objs_update (\<lambda>_. os) h"] map_cong)

lemma sweep_eq:
  "distinct (map fst ns) \<Longrightarrow>
     sweep M ns (h, k) = (swept M {a. (a, False) \<in> set ns} h, k + length (filter (\<lambda>n. \<not> snd n) ns))"
proof (induction ns arbitrary: h k)
  case (Cons n ns)
  obtain a l where n: "n = (a, l)" by (cases n)
  have "a \<notin> {b. (b, False) \<in> set ns}" using Cons.prems n by (auto simp: image_iff)
  moreover have "{b. (b, False) \<in> set (n # ns)} =
      (if l then {b. (b, False) \<in> set ns} else insert a {b. (b, False) \<in> set ns})"
    using n by auto
  ultimately show ?case using Cons n by (auto simp: swept_insert)
qed simp

lemma zip_dead:
  assumes "length live = length as" "\<forall>i < length as. live ! i \<longleftrightarrow> as ! i \<in> L"
  shows "{a. (a, False) \<in> set (zip as live)} = set as - L"
proof -
  have Z: "(a, False) \<in> set (zip as live) \<longleftrightarrow> (\<exists>i < length as. as ! i = a \<and> \<not> live ! i)" for a
    using assms(1) by (auto simp: in_set_zip)
  show ?thesis
  proof (rule set_eqI)
    fix a
    show "a \<in> {a. (a, False) \<in> set (zip as live)} \<longleftrightarrow> a \<in> set as - L"
      unfolding mem_Collect_eq Z using assms(2) by (metis Diff_iff in_set_conv_nth)
  qed
qed

lemma filter_snd_card:
  assumes "distinct (map fst ns)"
  shows "length (filter (\<lambda>n. \<not> snd n) ns) = card {a. (a, False) \<in> set ns}"
proof -
  have "{a. (a, False) \<in> set ns} = fst ` set (filter (\<lambda>n. \<not> snd n) ns)" by force
  moreover have "distinct (map fst (filter (\<lambda>n. \<not> snd n) ns))"
    using assms by (simp add: distinct_map_filter)
  ultimately show ?thesis by (metis distinct_card length_map set_map)
qed

lemma sweep_reconciled:
  assumes d: "distinct as" and "length live = length as"
    and "\<forall>i < length as. live ! i \<longleftrightarrow> as ! i \<in> live_set M h as"
  shows "sweep M (zip as live) (h, 0) = (swept M (dead_set M h as) h, card (dead_set M h as))"
proof -
  have "distinct (map fst (zip as live))" using assms by simp
  then show ?thesis
    using sweep_eq[of "zip as live" M h 0] filter_snd_card[of "zip as live"] zip_dead[OF assms(2,3)]
    by (simp add: dead_set_def)
qed

lemma swept_fields [simp]:
  "ext (swept M D h) = ext h" "fst ` set (objs (swept M D h)) = fst ` set (objs h)"
  by (simp_all add: swept_def image_image case_prod_unfold)

lemma swept_keeps: "a \<notin> D \<Longrightarrow> (a, n) \<in> set (objs (swept M D h)) \<longleftrightarrow> (a, n) \<in> set (objs h)"
  by (auto simp: swept_def intro: rev_image_eqI)

lemma swept_cleared:
  "(a, n') \<in> set (objs (swept M D h)) \<Longrightarrow>
     \<exists>n. (a, n) \<in> set (objs h) \<and> n' = (if a \<in> D then clear_payload M n else n)"
  by (auto simp: swept_def)

lemma owned_clear:
  assumes "im_rows M (im_default M) = []"
  shows "set (owned M (clear_payload M n)) \<subseteq>
     (if immutable_payload (pay n) then set (owned M n) else set (hidden n))"
  using assms
  by (cases "pay n") (auto simp: owned_def clear_payload_def gc_visit_def as_gc_visit_def rhd_gc_visit_def
      object_gc_visit_def gc_cells_def immutable_payload_def rhd_values_def rhd_iter_def opt_list_def
      as_vec_def Let_def map_filter_Cons split: hash_repr.splits if_splits)

subsection \<open>Reference counting after the sweep\<close>

inductive reach :: "('m, 'k) index_map \<Rightarrow> ('m, 'k) heap \<Rightarrow> addr \<Rightarrow> bool" for M h where
  reach_root: "is_live h a \<Longrightarrow> ext h a > 0 \<Longrightarrow> reach M h a"
| reach_step: "reach M h b \<Longrightarrow> (b, n) \<in> set (objs h) \<Longrightarrow> a \<in> set (owned M n) \<Longrightarrow> is_live h a \<Longrightarrow> reach M h a"

lemma reach_is_live: "reach M h a \<Longrightarrow> is_live h a"
  by (auto elim: reach.cases)

lemma strong_count_pos:
  "strong_count M h a > 0 \<longleftrightarrow> ext h a > 0 \<or> (\<exists>(b, n) \<in> set (objs h). a \<in> set (owned M n))"
proof -
  have "count_in M (objs h) a = 0 \<longleftrightarrow> (\<forall>ob \<in> set (objs h). a \<notin> set (owned M (snd ob)))"
    by (simp add: count_in_alt count_list_zero_iff)
  then show ?thesis by (fastforce simp: strong_count_def)
qed

definition supported :: "('m, 'k) index_map \<Rightarrow> ('m, 'k) heap \<Rightarrow> (addr \<Rightarrow> bool) \<Rightarrow> bool" where
  "supported M h R \<longleftrightarrow>
     (\<forall>a. R a \<longrightarrow> ext h a > 0 \<or> (\<exists>b n. R b \<and> (b, n) \<in> set (objs h) \<and> a \<in> set (owned M n)))"

lemma drop_dead_keeps:
  assumes "supported M h R" "R a"
  shows "(a, n) \<in> set (objs (drop_dead M h)) \<longleftrightarrow> (a, n) \<in> set (objs h)"
proof -
  have "strong_count M h a > 0" using assms by (fastforce simp: supported_def strong_count_pos)
  then show ?thesis by (auto simp: drop_dead_def)
qed

lemma supported_drop_dead: "supported M h R \<Longrightarrow> supported M (drop_dead M h) R"
proof -
  assume s: "supported M h R"
  have "ext (drop_dead M h) = ext h" by (simp add: drop_dead_def)
  then show ?thesis using s drop_dead_keeps[OF s] unfolding supported_def by metis
qed

lemma reap_keeps:
  assumes "supported M h R" "R a" "(a, n) \<in> set (objs h)"
  shows "(a, n) \<in> set (objs (reap M h))"
  using assms
proof (induction M h rule: reap.induct)
  case (1 M h)
  then show ?case
    by (subst reap.simps) (auto simp: supported_drop_dead drop_dead_keeps)
qed

lemma reap_subset: "set (objs (reap M h)) \<subseteq> set (objs h) \<and> ext (reap M h) = ext h"
proof (induction M h rule: reap.induct)
  case (1 M h)
  have "set (objs (drop_dead M h)) \<subseteq> set (objs h)" "ext (drop_dead M h) = ext h"
    by (auto simp: drop_dead_def)
  then show ?case using 1 by (subst (1 2) reap.simps) auto
qed

lemma reap_counted: "(a, n) \<in> set (objs (reap M h)) \<Longrightarrow> strong_count M (reap M h) a > 0"
proof (induction M h rule: reap.induct)
  case (1 M h)
  show ?case
  proof (cases "length (objs (drop_dead M h)) = length (objs h)")
    case True
    then have "\<forall>x \<in> set (objs h). (case x of (a, n) \<Rightarrow> strong_count M h a > 0)"
      by (simp add: drop_dead_def) (metis (no_types, lifting) length_filter_less less_irrefl)
    moreover have "reap M h = h" using True by (subst reap.simps) simp
    ultimately show ?thesis using 1(2) by auto
  next
    case False
    then have "reap M h = reap M (drop_dead M h)" by (subst reap.simps) simp
    then show ?thesis using 1 False by simp
  qed
qed

subsection \<open>What the pass keeps and what it frees\<close>

lemma reach_not_dead:
  assumes "heap_wf h" "distinct as" "reach M h a"
  shows "a \<notin> dead_set M h as"
  using assms(3)
proof (induction rule: reach.induct)
  case (reach_root a)
  then show ?case using dead_explained[OF assms(1,2)] by fastforce
next
  case (reach_step b n a)
  then show ?case using dead_owners[OF assms(1,2)] by blast
qed

lemma reach_supported:
  assumes "heap_wf h" "distinct as"
  shows "supported M (swept M (dead_set M h as) h) (reach M h)"
  unfolding supported_def
proof (intro allI impI)
  fix a assume "reach M h a"
  then show "ext (swept M (dead_set M h as) h) a > 0 \<or>
      (\<exists>b n. reach M h b \<and> (b, n) \<in> set (objs (swept M (dead_set M h as) h)) \<and> a \<in> set (owned M n))"
  proof (cases rule: reach.cases)
    case (reach_step b n)
    then have "(b, n) \<in> set (objs (swept M (dead_set M h as) h))"
      using reach_not_dead[OF assms] by (simp add: swept_keeps)
    then show ?thesis using reach_step by blast
  qed simp
qed

lemma reach_survives:
  assumes "heap_wf h" "distinct as" "reach M h a" "(a, n) \<in> set (objs h)"
  shows "(a, n) \<in> set (objs (reap M (swept M (dead_set M h as) h)))"
  using reap_keeps[OF reach_supported[OF assms(1,2)] assms(3)] reach_not_dead[OF assms(1-3)] assms(4)
  by (simp add: swept_keeps)

text \<open>
  A Proc or a Range cannot be emptied, so it lets go of what it holds only when it dies itself; the dead
  nodes all go when no ring runs through such nodes alone.
\<close>

definition pinned_rel ::
  "('m, 'k) index_map \<Rightarrow> ('m, 'k) heap \<Rightarrow> addr set \<Rightarrow> (addr \<times> addr) set" where
  "pinned_rel M h D =
     {(b, a). b \<in> D \<and> a \<in> D \<and>
        (\<exists>n. (b, n) \<in> set (objs h) \<and> immutable_payload (pay n) \<and> a \<in> set (reported M (pay n)))}"

lemma dead_owner_pinned:
  assumes wf: "heap_wf h" and d: "distinct as" and M: "im_rows M (im_default M) = []"
    and a: "a \<in> dead_set M h as"
    and b: "(b, n') \<in> set (objs (swept M (dead_set M h as) h))" "a \<in> set (owned M n')"
  shows "(b, a) \<in> pinned_rel M h (dead_set M h as)"
proof -
  let ?D = "dead_set M h as"
  obtain n where n: "(b, n) \<in> set (objs h)" "n' = (if b \<in> ?D then clear_payload M n else n)"
    using swept_cleared[OF b(1)] by blast
  have h0: "count_list (hidden n) a = 0" if "b \<in> ?D"
    using dead_explained[OF wf d a] n(1) count_reported_hidden_le[of M n a]
    by (fastforce simp: seen_count_def split: if_splits)
  have "a \<in> set (owned M n)"
    using b(2) n(2) owned_clear[OF M, of n] h0 count_list_zero_iff[of "hidden n" a]
    by (auto split: if_splits)
  then have D: "b \<in> ?D" "a \<in> set (reported M (pay n))" using dead_owners[OF wf d a n(1)] by auto
  then have "immutable_payload (pay n)"
    using b(2) n(2) owned_clear[OF M, of n] h0 count_list_zero_iff[of "hidden n" a]
    by (auto split: if_splits)
  then show ?thesis using D n(1) a by (auto simp: pinned_rel_def)
qed

lemma dead_freed:
  assumes wf: "heap_wf h" and d: "distinct as" and M: "im_rows M (im_default M) = []"
    and ac: "acyclic (pinned_rel M h (dead_set M h as))"
  shows "\<forall>a \<in> dead_set M h as. \<not> is_live (reap M (swept M (dead_set M h as) h)) a"
proof (rule ccontr)
  let ?D = "dead_set M h as"
  let ?h = "reap M (swept M ?D h)" and ?P = "pinned_rel M h ?D"
  define Q where "Q = {a \<in> ?D. is_live ?h a}"
  assume "\<not> ?thesis"
  then obtain x where x: "x \<in> Q" by (auto simp: Q_def)
  have "finite ?P" by (rule finite_subset[of _ "?D \<times> ?D"]) (auto simp: pinned_rel_def dead_set_def)
  then have "wf ?P" using ac by (rule finite_acyclic_wf)
  then obtain z where z: "z \<in> Q" "\<And>y. (y, z) \<in> ?P \<Longrightarrow> y \<notin> Q" using x by (metis wfE_min)
  then obtain n where "(z, n) \<in> set (objs ?h)" by (auto simp: Q_def is_live_def)
  then have "strong_count M ?h z > 0" by (rule reap_counted)
  moreover have "ext ?h z = 0"
    using dead_explained[OF wf d] z reap_subset[of M "swept M ?D h"] by (auto simp: Q_def)
  ultimately obtain b m where b: "(b, m) \<in> set (objs ?h)" "z \<in> set (owned M m)"
    using strong_count_pos[of M ?h z] by auto
  then have "(b, z) \<in> ?P"
    using dead_owner_pinned[OF wf d M] z reap_subset[of M "swept M ?D h"] by (auto simp: Q_def)
  moreover have "b \<in> Q" using calculation b by (force simp: Q_def is_live_def pinned_rel_def)
  ultimately show False using z(2) by blast
qed

text \<open>On a heap with nothing hidden and everything registered the pass is exact.\<close>

definition transparent :: "('m, 'k) index_map \<Rightarrow> ('m, 'k) heap \<Rightarrow> addr list \<Rightarrow> bool" where
  "transparent M h as \<longleftrightarrow>
     (\<forall>(b, n) \<in> set (objs h). b \<in> set as \<and> (\<forall>a. count_list (owned M n) a = count_list (reported M (pay n)) a))"

lemma transparent_unexplained:
  assumes "heap_wf h" "distinct as" "transparent M h as"
  shows "unexplained_owners M h as a = int (ext h a)"
proof -
  have "map (\<lambda>ob. count_list (owned M (snd ob)) a) (objs h) = map (\<lambda>ob. seen_count M as ob a) (objs h)"
    using assms(3) by (auto simp: transparent_def seen_count_def)
  then have "count_in M (objs h) a = sum_list (map (\<lambda>ob. seen_count M as ob a) (objs h))"
    unfolding count_in_alt by (rule arg_cong)
  then show ?thesis
    using reports_sum[OF assms(1,2), of M a] by (simp add: unexplained_owners_def strong_count_def)
qed

lemma transparent_live_reach:
  assumes wf: "heap_wf h" and d: "distinct as" and t: "transparent M h as"
    and live: "\<forall>a \<in> set as. is_live h a" and a: "a \<in> live_set M h as"
  shows "reach M h a"
proof -
  obtain r where r: "r \<in> set as" "ext h r > 0" "(r, a) \<in> (report_rel M h as)\<^sup>*"
    using a transparent_unexplained[OF wf d t] by (auto simp: live_set_def)
  from r(3) show ?thesis
  proof (induction rule: rtrancl_induct)
    case base
    then show ?case using r live by (auto intro: reach_root)
  next
    case (step b c)
    then obtain n where n: "(b, n) \<in> set (objs h)" using live by (auto simp: report_rel_def is_live_def)
    then have "c \<in> set (owned M n)"
      using step node_reports_obj[OF wf n] reported_subset_owned[of M n] by (auto simp: report_rel_def)
    then show ?case using step n live by (auto simp: report_rel_def intro: reach_step)
  qed
qed

subsection \<open>The pass as a whole\<close>

definition snapshot_addrs :: "nat \<Rightarrow> ('m, 'k) process \<Rightarrow> addr list" where
  "snapshot_addrs t p = map node_addr (snd (snapshot (is_live (pheap p)) t (preg p)))"

text \<open>What a process needs for its pass: distinct addresses, the registry's invariant, \<^verbatim>\<open>u32\<close> offsets that fit.\<close>

definition process_ok :: "('m, 'k) index_map \<Rightarrow> nat \<Rightarrow> ('m, 'k) process \<Rightarrow> bool" where
  "process_ok M t p \<longleftrightarrow>
     heap_wf (pheap p) \<and> registry_inv (preg p) \<and> graph_fits M (pheap p) (snapshot_addrs t p)"

lemma snapshot_addrs_ok:
  assumes "process_ok M t p"
  shows "distinct (snapshot_addrs t p) \<and> (\<forall>a \<in> set (snapshot_addrs t p). is_live (pheap p) a)"
  using assms snapshot_eq[of "preg p" "is_live (pheap p)" t]
    snapshot_nodes_addrs[of "is_live (pheap p)" "[]" "concat (chunks (preg p)) @ local_buf (preg p) t"]
  by (auto simp: process_ok_def snapshot_addrs_def)

definition swept_process :: "('m, 'k) index_map \<Rightarrow> nat \<Rightarrow> ('m, 'k) process \<Rightarrow> ('m, 'k) heap" where
  "swept_process M t p =
     reap M (swept M (dead_set M (pheap p) (snapshot_addrs t p)) (pheap p))"

lemma collect_eq:
  assumes ok: "process_ok M t p" and rec: "recording (preg p)" "sole \<or> stopped"
    and ne: "snapshot_addrs t p \<noteq> []"
  shows "\<exists>p'. collect M sole stopped t p = Some (p', card (dead_set M (pheap p) (snapshot_addrs t p))) \<and>
     pheap p' = swept_process M t p \<and>
     collect_at (preg p') = (let live = length (snapshot_addrs t p)
         - card (dead_set M (pheap p) (snapshot_addrs t p)) in live + max (live div 2) (8 * CHUNK))"
proof -
  let ?as = "snapshot_addrs t p" and ?h = "pheap p"
  have d: "distinct ?as" using snapshot_addrs_ok[OF ok] by simp
  obtain live where L: "reconcile M ?h ?as = Some live" "length live = length ?as"
    "\<forall>i < length ?as. live ! i \<longleftrightarrow> ?as ! i \<in> live_set M ?h ?as"
    using reconcile_exact[OF d, of M ?h] ok by (auto simp: process_ok_def)
  obtain r nodes where S: "snapshot (is_live ?h) t (preg p) = (r, nodes)" by fastforce
  then have as: "?as = map node_addr nodes" by (simp add: snapshot_addrs_def)
  have "sweep M (zip ?as live) (?h, 0) = (swept M (dead_set M ?h ?as) ?h, card (dead_set M ?h ?as))"
    by (rule sweep_reconciled[OF d L(2,3)])
  then show ?thesis
    using rec ne S L(1) unfolding collect_def swept_process_def
    by (simp add: as[symmetric] Let_def retarget_collection_def) (auto simp: as)
qed

lemma collect_gated:
  "\<not> recording (preg p) \<or> (\<not> sole \<and> \<not> stopped) \<Longrightarrow> collect M sole stopped t p = Some (p, 0)"
  by (auto simp: collect_def)

lemma collect_empty:
  assumes "recording (preg p)" "sole \<or> stopped" "snapshot_addrs t p = []"
  shows "\<exists>p'. collect M sole stopped t p = Some (p', 0) \<and> pheap p' = pheap p"
  using assms by (auto simp: collect_def snapshot_addrs_def split: prod.split)

subsection \<open>Properties\<close>

text \<open>
  C1. A collection always returns (no index of the pass is ever out of range), and it never touches
  what the program can still reach: every allocation that a handle outside the heap reaches through
  owned references -- reported or not, through registered and unregistered allocations alike -- is
  still allocated afterwards with exactly the payload it had.
\<close>

theorem collect_keeps_reachable:
  assumes "process_ok M t p"
  shows "\<exists>p' k. collect M sole stopped t p = Some (p', k) \<and>
    (\<forall>a n. reach M (pheap p) a \<longrightarrow> (a, n) \<in> set (objs (pheap p)) \<longrightarrow> (a, n) \<in> set (objs (pheap p')))"
proof (cases "recording (preg p) \<and> (sole \<or> stopped) \<and> snapshot_addrs t p \<noteq> []")
  case True
  then obtain p' where "collect M sole stopped t p
      = Some (p', card (dead_set M (pheap p) (snapshot_addrs t p)))" "pheap p' = swept_process M t p"
    using collect_eq[OF assms] by blast
  then show ?thesis
    using reach_survives[of "pheap p" "snapshot_addrs t p" M] snapshot_addrs_ok[OF assms] assms
    by (auto simp: swept_process_def process_ok_def)
next
  case False
  then consider "\<not> recording (preg p) \<or> (\<not> sole \<and> \<not> stopped)"
    | "recording (preg p)" "sole \<or> stopped" "snapshot_addrs t p = []" by blast
  then show ?thesis
  proof cases
    case 1
    then show ?thesis using collect_gated[of p sole stopped M t] by auto
  next
    case 2
    then show ?thesis using collect_empty[of p sole stopped t M] by auto
  qed
qed

text \<open>Two arrays in a ring nobody holds, and an array held from outside that holds a fourth.\<close>

definition demo_process :: "(nat hash_row list, nat) process" where
  "demo_process =
     \<lparr>pheap = \<lparr>objs = [(1, \<lparr>pay = PArray (as_from [RArray 2]), hidden = []\<rparr>),
                       (2, \<lparr>pay = PArray (as_from [RArray 1]), hidden = []\<rparr>),
                       (3, \<lparr>pay = PArray (as_from [RArray 4]), hidden = []\<rparr>),
                       (4, \<lparr>pay = PArray (as_from [RNil]), hidden = []\<rparr>)],
              ext = (\<lambda>a. if a = 3 then 1 else 0)\<rparr>,
      preg = registry_init\<lparr>recording := True, published := 4,
               chunks := [[NArray 1, NArray 2, NArray 3, NArray 4]]\<rparr>\<rparr>"

lemma demo_snapshot: "snapshot_addrs 0 demo_process = [1, 2, 3, 4]"
  by code_simp

lemma demo_process_ok: "process_ok rows_map 0 demo_process"
proof -
  have "heap_wf (pheap demo_process)" by (simp add: heap_wf_def demo_process_def)
  moreover have "map (\<lambda>a. length (node_reports rows_map (pheap demo_process) a)) [1, 2, 3, 4] = [1, 1, 1, 0]"
    by code_simp
  then have "graph_fits rows_map (pheap demo_process) [1, 2, 3, 4]" by (simp add: graph_fits_def)
  moreover have "registry_inv (preg demo_process)"
    by (simp add: demo_process_def registry_inv_def registry_init_def CHUNK_def)
  ultimately show ?thesis by (simp add: process_ok_def demo_snapshot)
qed

lemma demo_owned:
  assumes "(b, n) \<in> set (objs (pheap demo_process))"
  shows "owned rows_map n = (if b = 1 then [2] else if b = 2 then [1] else if b = 3 then [4] else [])
    \<and> reported rows_map (pay n) = owned rows_map n \<and> b \<in> {1, 2, 3, 4}"
  using assms
  by (auto simp: demo_process_def owned_def gc_cells_def as_from_def map_filter_Cons reported_def
      gc_visit_walk_values as_slice_def value_addr_def)

lemma demo_reach: "reach rows_map (pheap demo_process) a \<longleftrightarrow> a = 3 \<or> a = 4"
proof
  assume "reach rows_map (pheap demo_process) a"
  then show "a = 3 \<or> a = 4"
  proof (induction rule: reach.induct)
    case (reach_root a)
    then show ?case by (simp add: demo_process_def split: if_splits)
  next
    case (reach_step b n a)
    then show ?case using demo_owned by fastforce
  qed
next
  have r3: "reach rows_map (pheap demo_process) 3"
    by (rule reach_root) (simp_all add: demo_process_def is_live_def)
  have "reach rows_map (pheap demo_process) 4"
    by (rule reach_step[OF r3, of "\<lparr>pay = PArray (as_from [RArray 4]), hidden = []\<rparr>"])
      (simp_all add: demo_process_def is_live_def owned_def as_from_def map_filter_Cons)
  then show "a = 3 \<or> a = 4 \<Longrightarrow> reach rows_map (pheap demo_process) a" using r3 by blast
qed

theorem collect_keeps_reachable_witness:
  "\<exists>p' k. collect rows_map True False 0 demo_process = Some (p', k) \<and>
     (4, \<lparr>pay = PArray (as_from [RNil]), hidden = []\<rparr>) \<in> set (objs (pheap p'))"
proof -
  have "(4, \<lparr>pay = PArray (as_from [RNil]), hidden = []\<rparr>) \<in> set (objs (pheap demo_process))"
    by (simp add: demo_process_def)
  then show ?thesis
    using collect_keeps_reachable[OF demo_process_ok, of True False] demo_reach[of 4] by blast
qed

text \<open>
  C2. The pass is exact on a heap it can see all of: when every allocation is registered, nothing is
  hidden, and no ring runs through Procs and Ranges alone, then after a collection that was allowed to
  run the allocations left are precisely those the program can reach -- every garbage cycle is freed --
  and the returned number is the number of registered nodes that were not reachable.
\<close>

theorem collect_exact:
  assumes "process_ok M t p" "recording (preg p)" "sole \<or> stopped" "im_rows M (im_default M) = []"
    and "transparent M (pheap p) (snapshot_addrs t p)"
    and "acyclic (pinned_rel M (pheap p) (set (snapshot_addrs t p)))"
    and "objs (pheap p) \<noteq> []"
  shows "\<exists>p' k. collect M sole stopped t p = Some (p', k) \<and>
    (\<forall>a. is_live (pheap p') a \<longleftrightarrow> reach M (pheap p) a) \<and>
    k = card {a \<in> set (snapshot_addrs t p). \<not> reach M (pheap p) a}"
proof -
  let ?h = "pheap p" and ?as = "snapshot_addrs t p"
  let ?D = "dead_set M ?h ?as"
  have ok: "heap_wf ?h" "distinct ?as" "\<forall>a \<in> set ?as. is_live ?h a"
    using assms(1) snapshot_addrs_ok[OF assms(1)] by (auto simp: process_ok_def)
  have all: "is_live ?h a \<Longrightarrow> a \<in> set ?as" for a
    using assms(5) by (auto simp: transparent_def is_live_def)
  then have ne: "?as \<noteq> []" using assms(7) by (fastforce simp: is_live_def neq_Nil_conv)
  have D: "a \<in> ?D \<longleftrightarrow> a \<in> set ?as \<and> \<not> reach M ?h a" for a
    using transparent_live_reach[OF ok(1,2) assms(5) ok(3)] reach_not_dead[OF ok(1,2)]
    by (auto simp: dead_set_def)
  have "pinned_rel M ?h ?D \<subseteq> pinned_rel M ?h (set ?as)" by (auto simp: pinned_rel_def D)
  then have "\<forall>a \<in> ?D. \<not> is_live (swept_process M t p) a"
    using dead_freed[OF ok(1,2) assms(4)] assms(6) acyclic_subset by (auto simp: swept_process_def)
  moreover have "is_live (swept_process M t p) a \<Longrightarrow> is_live ?h a" for a
  proof -
    have "fst ` set (objs (swept_process M t p)) \<subseteq> fst ` set (objs (swept M ?D ?h))"
      using reap_subset[of M "swept M ?D ?h"] unfolding swept_process_def by blast
    then show "is_live (swept_process M t p) a \<Longrightarrow> is_live ?h a" by (auto simp: is_live_def)
  qed
  moreover have "reach M ?h a \<Longrightarrow> is_live (swept_process M t p) a" for a
    using reach_survives[OF ok(1,2)] reach_is_live[of M ?h a]
    by (force simp: swept_process_def is_live_def)
  ultimately have "is_live (swept_process M t p) a \<longleftrightarrow> reach M ?h a" for a using D all by blast
  moreover have "?D = {a \<in> set ?as. \<not> reach M ?h a}" using D by blast
  ultimately show ?thesis using collect_eq[OF assms(1-3) ne] by auto
qed

theorem collect_exact_witness:
  "\<exists>p' k. collect rows_map True False 0 demo_process = Some (p', k) \<and>
     \<not> is_live (pheap p') 1 \<and> \<not> is_live (pheap p') 2 \<and> is_live (pheap p') 4 \<and> k = 2"
proof -
  have t: "transparent rows_map (pheap demo_process) (snapshot_addrs 0 demo_process)"
    unfolding transparent_def demo_snapshot using demo_owned by auto
  have "pinned_rel rows_map (pheap demo_process) (set (snapshot_addrs 0 demo_process)) = {}"
    by (auto simp: pinned_rel_def demo_process_def immutable_payload_def)
  then have a: "acyclic (pinned_rel rows_map (pheap demo_process) (set (snapshot_addrs 0 demo_process)))"
    by (simp add: acyclic_def)
  have "{a \<in> set (snapshot_addrs 0 demo_process). \<not> reach rows_map (pheap demo_process) a} = {1, 2}"
    by (auto simp: demo_snapshot demo_reach)
  then have "card {a \<in> set (snapshot_addrs 0 demo_process). \<not> reach rows_map (pheap demo_process) a} = 2"
    by simp
  moreover have "recording (preg demo_process)" "objs (pheap demo_process) \<noteq> []"
    "im_rows (rows_map :: (nat hash_row list, nat) index_map) (im_default rows_map) = []"
    by (simp_all add: demo_process_def rows_map_def)
  ultimately show ?thesis
    using collect_exact[OF demo_process_ok _ _ _ t a, of True False] by (auto simp: demo_reach)
qed



definition pending_ok :: "nat \<Rightarrow> registry \<Rightarrow> bool" where
  "pending_ok k r \<longleftrightarrow> pending r = word_of_nat (k + (if due r then 1 else 0))"

lemma pending_ok_arm: "pending_ok k r \<Longrightarrow> pending_ok k (arm_collection r)"
  by (simp add: pending_ok_def arm_collection_def note_posted_def)

lemma pending_ok_publish:
  assumes "pending_ok k r"
  shows "pending_ok k (publish lv c r)"
proof -
  obtain cs live where C: "compact_locked lv (chunks r @ [c]) = (cs, live)" by fastforce
  have "pending_ok k (r\<lparr>chunks := x, published := y\<rparr>)"
    "pending_ok k (r\<lparr>chunks := x, published := y, compact_at := z\<rparr>)" for x y z
    using assms by (simp_all add: pending_ok_def)
  then show ?thesis using assms C by (simp add: publish_def Let_def pending_ok_arm)
qed

text \<open>
  An armed collection is noticed and consumed exactly once.  Publishing past the threshold posts one
  interrupt however often it is asked again; with \<open>k\<close> other interrupts outstanding the counter is
  \<open>k + 1\<close> while a collection is due, so below the \<^verbatim>\<open>u32\<close> limit the fast-path check sees it; the
  safepoint takes the counter back to \<open>k\<close>, counts one collection, and does nothing when none is due.
\<close>

theorem collection_request:
  assumes "pending_ok k r" "k + 1 < 2 ^ 32"
  shows "pending_ok k (record_node lv t n r) \<and>
    (due (arm_collection r) \<and> arm_collection (arm_collection r) = arm_collection r) \<and>
    (due r \<longrightarrow> pending r \<noteq> 0) \<and>
    (\<forall>M sole stopped (p :: ('m, 'k) process) count. preg p = r \<longrightarrow>
       (\<not> due r \<longrightarrow> service_due M sole stopped t d (p, count) = Some (p, count)) \<and>
       (due r \<longrightarrow> service_due M sole stopped t True (p, count)
          = Some (p\<lparr>preg := r\<lparr>due := False, pending := word_of_nat k\<rparr>\<rparr>, count + 1)))"
proof (intro conjI allI impI)
  let ?r = "r\<lparr>total_allocated := total_allocated r + 1\<rparr>"
  have "pending_ok k ?r" "pending_ok k (?r\<lparr>local_buf := f\<rparr>)" for f
    using assms by (simp_all add: pending_ok_def)
  then show "pending_ok k (record_node lv t n r)"
    by (simp add: record_node_def Let_def pending_ok_publish)
  show "due (arm_collection r)" "arm_collection (arm_collection r) = arm_collection r"
    by (simp_all add: arm_collection_def note_posted_def)
  show "pending r \<noteq> 0" if "due r"
  proof -
    have "unat (word_of_nat (k + 1) :: 32 word) = k + 1" using assms(2) by (rule unat_word_of_nat32)
    then show ?thesis using assms(1) that by (auto simp: pending_ok_def)
  qed
qed (use assms in \<open>auto simp: service_due_def run_collection_def note_consumed_def pending_ok_def\<close>)

theorem collection_request_witness:
  "due (arm_collection registry_init) \<and> pending_ok 0 (record_node (\<lambda>_. True) 0 (NArray 1) registry_init)"
proof -
  have "pending_ok 0 registry_init" by (simp add: pending_ok_def registry_init_def)
  moreover have "0 + 1 < (2::nat) ^ 32" by simp
  ultimately show ?thesis
    using collection_request[of 0 registry_init "\<lambda>_. True" 0 "NArray 1" True] by blast
qed

end
