(* ===== verification/Mro.thy ===== *)
theory Mro
  imports Prelude Value "HOL-Library.Sublist"
begin

text \<open>
  Method resolution order: the linearization the compiler computes
  (\<^verbatim>\<open>crates/zeo/src/analyze/mro.rs\<close>: \<^verbatim>\<open>compute_ancestors\<close>, \<^verbatim>\<open>chain_of\<close>, \<^verbatim>\<open>mix_into\<close>), the one the ABI
  declares for core classes (\<^verbatim>\<open>crates/zeo-abi/src/hierarchy.rs\<close>), and the \<^verbatim>\<open>super\<close> walk over a chain at
  run time (\<^verbatim>\<open>crates/zeo-rt/src/dispatch/walk.rs\<close>).  A Rust index or insertion out of range is the value
  \<^term>\<open>None\<close>.
\<close>

subsection \<open>Linearization\<close>

text \<open>The two fields of \<^verbatim>\<open>ClassInfo\<close> the linearization reads; \<^verbatim>\<open>true\<close> in \<open>mixin_order\<close> is a prepend.\<close>

record class_info =
  parent :: "class_id option"
  mixin_order :: "(class_id \<times> bool) list"

fun mix_into :: "class_id list \<Rightarrow> nat \<Rightarrow> nat \<Rightarrow> class_id list \<Rightarrow> bool \<Rightarrow> (class_id list \<times> nat) option" where
  "mix_into chain origin ins [] is_prepend = Some (chain, origin)"
| "mix_into chain origin ins (m # sub) is_prepend =
     (case (if is_prepend then position ((=) m) (take origin chain) else position ((=) m) chain) of
        Some p \<Rightarrow> mix_into chain origin (p + 1) sub is_prepend
      | None \<Rightarrow>
          (case vec_insert chain ins m of
             None \<Rightarrow> None
           | Some chain' \<Rightarrow>
               mix_into chain' (if is_prepend then origin + 1 else origin) (ins + 1) sub is_prepend))"

definition mixin :: "class_id list \<Rightarrow> nat \<Rightarrow> class_id list \<Rightarrow> bool \<Rightarrow> (class_id list \<times> nat) option" where
  "mixin chain origin sub is_prepend =
     mix_into chain origin (if is_prepend then 0 else origin + 1) sub is_prepend"

text \<open>
  \<^verbatim>\<open>chain_of\<close> and its loop over the mixins.  The recursion path \<open>active\<close> holds distinct registered ids, so
  it cannot grow for ever.
\<close>

definition unvisited :: "class_info list \<Rightarrow> class_id list \<Rightarrow> nat" where
  "unvisited cs active = card ({..<length cs} - set active)"

lemma unvisited_snoc:
  "c < length cs \<Longrightarrow> c \<notin> set active \<Longrightarrow> unvisited cs (active @ [c]) < unvisited cs active"
  unfolding unvisited_def by (rule psubset_card_mono) auto

function chain_of :: "class_info list \<Rightarrow> class_id \<Rightarrow> class_id list \<Rightarrow> class_id list option"
  and mix_all :: "class_info list \<Rightarrow> (class_id \<times> bool) list \<Rightarrow> class_id list
     \<Rightarrow> class_id list \<times> nat \<Rightarrow> (class_id list \<times> nat) option" where
  "chain_of cs class_id active =
     (if class_id \<in> set active then Some []
      else if class_id < length cs then
        (let active' = active @ [class_id];
             info = cs ! class_id
         in case (case parent info of None \<Rightarrow> Some [] | Some p \<Rightarrow> chain_of cs p active') of
              None \<Rightarrow> None
            | Some upper \<Rightarrow> map_option fst (mix_all cs (mixin_order info) active' (class_id # upper, 0)))
      else None)"
| "mix_all cs [] active s = Some s"
| "mix_all cs (m # ms) active s =
     (case chain_of cs (fst m) active of
        None \<Rightarrow> None
      | Some sub \<Rightarrow>
          (case mixin (fst s) (snd s) sub (snd m) of
             None \<Rightarrow> None
           | Some s' \<Rightarrow> mix_all cs ms active s'))"
  by pat_completeness auto
termination
  by (relation "measures
      [\<lambda>x. case x of Inl (cs, c, active) \<Rightarrow> unvisited cs active | Inr (cs, ms, active, s) \<Rightarrow> unvisited cs active,
       \<lambda>x. case x of Inl _ \<Rightarrow> 0 | Inr (cs, ms, active, s) \<Rightarrow> Suc (length ms)]")
    (auto simp: unvisited_snoc)

declare chain_of.simps [simp del]

definition compute_ancestors :: "class_info list \<Rightarrow> class_id \<Rightarrow> class_id list option" where
  "compute_ancestors cs class_id = chain_of cs class_id []"

subsection \<open>Core classes\<close>

text \<open>The three tables of the ABI, as rows of (id, superclass, includes).\<close>

record core_tables =
  builtins :: "(class_id \<times> class_id option \<times> class_id list) list"
  exception_classes :: "(class_id \<times> class_id option) list"
  exception_includes :: "(class_id \<times> class_id list) list"

definition OBJECT_CLASS :: class_id where
  "OBJECT_CLASS = 0"

definition core_class_edges ::
  "core_tables \<Rightarrow> class_id \<Rightarrow> class_id list \<Rightarrow> class_id \<Rightarrow> class_id option \<times> class_id list" where
  "core_class_edges T object_superclass object_includes c =
     (if c = OBJECT_CLASS then (Some object_superclass, object_includes)
      else case List.find (\<lambda>b. fst b = c) (builtins T) of
        Some b \<Rightarrow> snd b
      | None \<Rightarrow>
          (case List.find (\<lambda>e. fst e = c) (exception_classes T) of
             Some e \<Rightarrow>
               (snd e, case List.find (\<lambda>i. fst i = c) (exception_includes T) of
                         None \<Rightarrow> [] | Some i \<Rightarrow> snd i)
           | None \<Rightarrow> (None, [])))"

text \<open>
  \<^verbatim>\<open>expand_core\<close>, with the depth of the recursion as fuel; the length of the list of known ids is enough
  (\<^verbatim>\<open>expand_core_total\<close>), so \<^term>\<open>None\<close> is never the answer of \<open>declared_ancestors\<close>.
\<close>

fun expand_core ::
  "nat \<Rightarrow> (class_id \<Rightarrow> class_id option \<times> class_id list) \<Rightarrow> class_id \<Rightarrow> class_id list \<Rightarrow> class_id list option"
  and expand_all ::
  "nat \<Rightarrow> (class_id \<Rightarrow> class_id option \<times> class_id list) \<Rightarrow> class_id list \<Rightarrow> class_id list \<Rightarrow> class_id list option" where
  "expand_core n edges c out =
     (if c \<in> set out then Some out
      else case n of
        0 \<Rightarrow> None
      | Suc k \<Rightarrow>
          (case edges c of (superclass, includes) \<Rightarrow>
             expand_all k edges (rev includes @ (case superclass of None \<Rightarrow> [] | Some p \<Rightarrow> [p])) (out @ [c])))"
| "expand_all n edges [] out = Some out"
| "expand_all n edges (c # cs) out =
     (case expand_core n edges c out of None \<Rightarrow> None | Some out' \<Rightarrow> expand_all n edges cs out')"

subsection \<open>The super walk\<close>

text \<open>
  What one position of a chain answers for a name: \<open>undefd\<close> and \<open>removed\<close> from the run-time overlay, then
  the overlay's own method, the registered own implementation, and the receiver-generic rows.
\<close>

record 'b position_rows =
  undefd :: "class_id \<Rightarrow> bool"
  removed :: "class_id \<Rightarrow> bool"
  overlay_own :: "class_id \<Rightarrow> 'b option"
  super_target :: "class_id \<Rightarrow> 'b option"
  generic_row :: "class_id \<Rightarrow> 'b option"

record mro_resume =
  defining :: class_id
  next_at :: nat

definition note_chain :: "class_id list \<Rightarrow> bool \<Rightarrow> bool" where
  "note_chain chain dups = (dups \<or> \<not> distinct chain)"

definition super_resume ::
  "bool \<Rightarrow> mro_resume option \<Rightarrow> class_id list \<Rightarrow> class_id \<Rightarrow> nat option" where
  "super_resume dups cell ancestors c =
     (case cell of
        Some r \<Rightarrow>
          if dups \<and> defining r = c then Some (next_at r)
          else map_option (\<lambda>p. p + 1) (position ((=) c) ancestors)
      | None \<Rightarrow> map_option (\<lambda>p. p + 1) (position ((=) c) ancestors))"

definition row_at :: "bool \<Rightarrow> bool \<Rightarrow> 'b position_rows \<Rightarrow> class_id \<Rightarrow> 'b option" where
  "row_at live is_object R c =
     (case (if is_object \<and> live then overlay_own R c else None) of
        Some b \<Rightarrow> Some b
      | None \<Rightarrow>
          (case (if is_object then super_target R c else None) of
             Some b \<Rightarrow> Some b
           | None \<Rightarrow> generic_row R c))"

definition publish_resume :: "bool \<Rightarrow> class_id \<Rightarrow> nat \<Rightarrow> mro_resume option" where
  "publish_resume dups c at = (if dups then Some \<lparr>defining = c, next_at = at + 1\<rparr> else None)"

text \<open>\<^verbatim>\<open>send_walking_in\<close>: the body it enters, the position and the resume cell it publishes; \<^term>\<open>None\<close> is
  the missing-method error.\<close>

function send_walking_in ::
  "bool \<Rightarrow> bool \<Rightarrow> bool \<Rightarrow> 'b position_rows \<Rightarrow> class_id list \<Rightarrow> nat
     \<Rightarrow> (nat \<times> 'b \<times> mro_resume option) option" where
  "send_walking_in dups live is_object R ancestors at =
     (if at \<ge> length ancestors then None
      else if live \<and> undefd R (ancestors ! at) then None
      else if live \<and> removed R (ancestors ! at) then send_walking_in dups live is_object R ancestors (at + 1)
      else case row_at live is_object R (ancestors ! at) of
        Some b \<Rightarrow> Some (at, b, publish_resume dups (ancestors ! at) at)
      | None \<Rightarrow> send_walking_in dups live is_object R ancestors (at + 1))"
  by pat_completeness auto
termination
  by (relation "measure (\<lambda>(d, l, ob, R, ancestors, at). length ancestors - at)") auto

declare send_walking_in.simps [simp del]

text \<open>\<^verbatim>\<open>send_super_from\<close> on an object: resume in the class chain, else in its singleton chain, else from the top.\<close>

definition send_super_from ::
  "bool \<Rightarrow> bool \<Rightarrow> bool \<Rightarrow> 'b position_rows \<Rightarrow> mro_resume option \<Rightarrow> class_id list \<Rightarrow> class_id list \<Rightarrow> class_id
     \<Rightarrow> (nat \<times> 'b \<times> mro_resume option) option" where
  "send_super_from dups live is_object R cell ancestors singleton c =
     (case super_resume dups cell ancestors c of
        Some start \<Rightarrow> send_walking_in dups live is_object R ancestors start
      | None \<Rightarrow>
          (case super_resume dups cell singleton c of
             Some start \<Rightarrow> send_walking_in dups live is_object R singleton start
           | None \<Rightarrow> send_walking_in dups live is_object R ancestors 0))"

subsection \<open>One mixin\<close>

lemma position_eq_None [simp]: "position ((=) m) xs = None \<longleftrightarrow> m \<notin> set xs"
  by (auto simp: position_None)

lemma position_notin [simp]: "m \<notin> set xs \<Longrightarrow> position ((=) m) xs = None"
  by simp

lemma subseq_insert: "subseq xs (take i xs @ m # drop i xs)"
  using list_emb_append_mono[of "(=)" "take i xs" "take i xs" "drop i xs" "m # drop i xs"] by auto

lemma set_insert_at: "set (take i xs @ m # drop i xs) = insert m (set xs)"
  by (metis Un_insert_right append_take_drop_id list.simps(15) set_append)

lemma distinct_insert_at:
  "distinct xs \<Longrightarrow> m \<notin> set xs \<Longrightarrow> distinct (take i xs @ m # drop i xs)"
  by (auto simp: set_take_disj_set_drop_if_distinct dest: in_set_takeD in_set_dropD)

text \<open>\<^verbatim>\<open>include\<close>: nothing leaves its order, nothing is added twice, and nothing panics.\<close>

lemma include_ok:
  "ins \<le> length chain \<Longrightarrow>
     \<exists>chain'. mix_into chain origin ins sub False = Some (chain', origin) \<and>
       subseq chain chain' \<and> set chain' = set chain \<union> set sub \<and> (distinct chain \<longrightarrow> distinct chain')"
proof (induction sub arbitrary: chain ins)
  case (Cons m sub)
  show ?case
  proof (cases "position ((=) m) chain")
    case (Some p)
    then have "p + 1 \<le> length chain" "m \<in> set chain" using position_SomeD[OF Some] by auto
    then show ?thesis using Cons.IH[of "p + 1" chain] Some by auto
  next
    case None
    let ?c = "take ins chain @ m # drop ins chain"
    have "ins + 1 \<le> length ?c" using Cons.prems by simp
    then obtain chain' where C: "mix_into ?c origin (ins + 1) sub False = Some (chain', origin)"
      "subseq ?c chain'" "set chain' = set ?c \<union> set sub" "distinct ?c \<longrightarrow> distinct chain'"
      using Cons.IH by blast
    have "mix_into chain origin ins (m # sub) False = Some (chain', origin)"
      using None Cons.prems C(1) by (simp add: vec_insert_def)
    moreover have "subseq chain chain'" by (rule subseq_order.order_trans[OF subseq_insert C(2)])
    moreover have "set chain' = set chain \<union> set (m # sub)" using C(3) by (simp only: set_insert_at) simp
    moreover have "distinct chain \<longrightarrow> distinct chain'" using C(4) None distinct_insert_at[of chain m ins] by simp
    ultimately show ?thesis by blast
  qed
qed simp

text \<open>\<^verbatim>\<open>prepend\<close>: only the prepend area, in front of \<open>origin\<close>, changes.\<close>

lemma prepend_ok:
  "ins \<le> origin \<Longrightarrow> origin \<le> length chain \<Longrightarrow>
     \<exists>pre. mix_into chain origin ins sub True = Some (pre @ drop origin chain, length pre) \<and>
       subseq (take origin chain) pre \<and> set pre = set (take origin chain) \<union> set sub \<and>
       (distinct (take origin chain) \<longrightarrow> distinct pre)"
proof (induction sub arbitrary: chain ins origin)
  case Nil
  then show ?case by (intro exI[of _ "take origin chain"]) simp
next
  case (Cons m sub)
  show ?case
  proof (cases "position ((=) m) (take origin chain)")
    case (Some p)
    then have "p + 1 \<le> origin" "m \<in> set (take origin chain)"
      using position_SomeD[OF Some] Cons.prems by (auto simp: in_set_conv_nth)
    then show ?thesis using Cons.IH[of "p + 1" origin chain] Some Cons.prems by auto
  next
    case None
    let ?c = "take ins chain @ m # drop ins chain"
    let ?a = "take ins (take origin chain) @ m # drop ins (take origin chain)"
    have a: "take (origin + 1) ?c = ?a" "drop (origin + 1) ?c = drop origin chain"
      using Cons.prems by (simp_all add: min_def take_Cons' drop_take Suc_diff_le)
    obtain pre where C: "mix_into ?c (origin + 1) (ins + 1) sub True = Some (pre @ drop origin chain, length pre)"
      "subseq ?a pre" "set pre = set ?a \<union> set sub" "distinct ?a \<longrightarrow> distinct pre"
      using Cons.IH[of "ins + 1" "origin + 1" ?c] Cons.prems a by auto
    have "mix_into chain origin ins (m # sub) True = Some (pre @ drop origin chain, length pre)"
      using None Cons.prems C(1) by (simp add: vec_insert_def)
    moreover have "subseq (take origin chain) pre"
      by (rule subseq_order.order_trans[OF subseq_insert C(2)])
    moreover have "set pre = set (take origin chain) \<union> set (m # sub)" using C(3) by (simp only: set_insert_at) simp
    moreover have "distinct (take origin chain) \<longrightarrow> distinct pre"
      using C(4) None distinct_insert_at[of "take origin chain" m ins] by simp
    ultimately show ?thesis by blast
  qed
qed

lemma mixin_ok:
  assumes "origin < length chain"
  shows "\<exists>chain' origin'. mixin chain origin sub is_prepend = Some (chain', origin') \<and>
     origin' < length chain' \<and> subseq chain chain' \<and> set chain' = set chain \<union> set sub"
proof (cases is_prepend)
  case False
  then obtain chain' where C: "mixin chain origin sub is_prepend = Some (chain', origin)"
    "subseq chain chain'" "set chain' = set chain \<union> set sub"
    using include_ok[of "origin + 1" chain origin sub] assms by (auto simp: mixin_def)
  then show ?thesis using assms list_emb_length[OF C(2)] by auto
next
  case True
  then obtain pre where C: "mixin chain origin sub is_prepend = Some (pre @ drop origin chain, length pre)"
    "subseq (take origin chain) pre" "set pre = set (take origin chain) \<union> set sub"
    using prepend_ok[of 0 origin chain sub] assms by (auto simp: mixin_def)
  have "subseq (take origin chain @ drop origin chain) (pre @ drop origin chain)"
    using C(2) by (intro list_emb_append_mono) auto
  moreover have "set (pre @ drop origin chain) = set chain \<union> set sub"
    using C(3) by (metis append_take_drop_id set_append sup.assoc sup.commute)
  ultimately show ?thesis using C(1) assms by auto
qed

text \<open>A module none of whose chain is present yet lands as a block: after the class, or in front of it.\<close>

lemma include_fresh:
  "distinct sub \<Longrightarrow> set sub \<inter> set chain = {} \<Longrightarrow> ins \<le> length chain \<Longrightarrow>
     mix_into chain origin ins sub False = Some (take ins chain @ sub @ drop ins chain, origin)"
proof (induction sub arbitrary: chain ins)
  case (Cons m sub)
  let ?c = "take ins chain @ m # drop ins chain"
  have "set sub \<inter> set ?c = {}" using Cons.prems by (auto dest: in_set_takeD in_set_dropD)
  then have "mix_into ?c origin (ins + 1) sub False
      = Some (take (ins + 1) ?c @ sub @ drop (ins + 1) ?c, origin)"
    using Cons.IH[of ?c "ins + 1"] Cons.prems by simp
  then show ?case using Cons.prems by (auto simp: vec_insert_def)
qed simp

lemma prepend_fresh:
  "distinct sub \<Longrightarrow> set sub \<inter> set (take origin chain) = {} \<Longrightarrow> ins \<le> origin \<Longrightarrow> origin \<le> length chain \<Longrightarrow>
     mix_into chain origin ins sub True
       = Some (take ins chain @ sub @ drop ins chain, origin + length sub)"
proof (induction sub arbitrary: chain ins origin)
  case (Cons m sub)
  let ?c = "take ins chain @ m # drop ins chain"
  have "take (origin + 1) ?c = take ins chain @ m # take (origin - ins) (drop ins chain)"
    using Cons.prems by (simp add: min_def take_Cons' Suc_diff_le)
  moreover have "set (take ins chain) \<union> set (take (origin - ins) (drop ins chain)) \<subseteq> set (take origin chain)"
    using Cons.prems by (metis drop_take set_append append_take_drop_id take_take min.absorb1 order_refl)
  ultimately have "set sub \<inter> set (take (origin + 1) ?c) = {}" using Cons.prems by auto
  then have "mix_into ?c (origin + 1) (ins + 1) sub True
      = Some (take (ins + 1) ?c @ sub @ drop (ins + 1) ?c, origin + 1 + length sub)"
    using Cons.IH[of "origin + 1" ?c "ins + 1"] Cons.prems by simp
  then show ?case using Cons.prems by (auto simp: vec_insert_def)
qed simp

subsection \<open>Whole chains\<close>

definition tables_ok :: "class_info list \<Rightarrow> bool" where
  "tables_ok cs \<longleftrightarrow>
     (\<forall>info \<in> set cs. (\<forall>p. parent info = Some p \<longrightarrow> p < length cs) \<and>
        (\<forall>(m, b) \<in> set (mixin_order info). m < length cs))"

text \<open>The superclass, and every mixed-in module: one step of \<open>is_a\<close>.\<close>

definition is_a :: "class_info list \<Rightarrow> (class_id \<times> class_id) set" where
  "is_a cs = {(c, d). c < length cs \<and> (parent (cs ! c) = Some d \<or> d \<in> fst ` set (mixin_order (cs ! c)))}"

lemma tables_okD:
  assumes "tables_ok cs" "c < length cs"
  shows "parent (cs ! c) = Some p \<Longrightarrow> p < length cs" "m \<in> set (mixin_order (cs ! c)) \<Longrightarrow> fst m < length cs"
  using assms nth_mem[OF assms(2)] by (force simp: tables_ok_def)+

lemma chain_total:
  "tables_ok cs \<Longrightarrow> c < length cs \<Longrightarrow>
     \<exists>chain. chain_of cs c active = Some chain \<and> set chain \<subseteq> {..<length cs} \<and>
       (\<forall>a \<in> set chain. (c, a) \<in> (is_a cs)\<^sup>*) \<and> (c \<notin> set active \<longrightarrow> c \<in> set chain)"
  "tables_ok cs \<Longrightarrow> (\<forall>m \<in> set ms. fst m < length cs) \<Longrightarrow> snd s < length (fst s) \<Longrightarrow>
     \<exists>s'. mix_all cs ms active s = Some s' \<and> subseq (fst s) (fst s') \<and> snd s' < length (fst s') \<and>
       (\<forall>a \<in> set (fst s'). a \<in> set (fst s) \<or> a < length cs \<and> (\<exists>m \<in> set ms. (fst m, a) \<in> (is_a cs)\<^sup>*))"
proof (induction cs c active and cs ms active s rule: chain_of_mix_all.induct)
  case (1 cs c active)
  show ?case
  proof (cases "c \<in> set active")
    case True
    then show ?thesis by (simp add: chain_of.simps[of cs c active])
  next
    case False
    let ?info = "cs ! c" and ?act = "active @ [c]"
    note ih = 1(1,2)[OF False 1(4) refl refl]
    have step: "(c, d) \<in> is_a cs" if "parent ?info = Some d \<or> d \<in> fst ` set (mixin_order ?info)" for d
      using that 1(4) by (auto simp: is_a_def)
    obtain upper where U: "(case parent ?info of None \<Rightarrow> Some [] | Some p \<Rightarrow> chain_of cs p ?act) = Some upper"
      "set upper \<subseteq> {..<length cs}" "\<forall>a \<in> set upper. (c, a) \<in> (is_a cs)\<^sup>*"
    proof (cases "parent ?info")
      case None
      then show ?thesis using that[of "[]"] by simp
    next
      case (Some p)
      then obtain ch where "chain_of cs p ?act = Some ch" "set ch \<subseteq> {..<length cs}"
        "\<forall>a \<in> set ch. (p, a) \<in> (is_a cs)\<^sup>*"
        using ih(1)[OF Some 1(3)] tables_okD(1)[OF 1(3,4)] by blast
      then show ?thesis using that[of ch] Some step[of p] converse_rtrancl_into_rtrancl by fastforce
    qed
    obtain s' where S: "mix_all cs (mixin_order ?info) ?act (c # upper, 0) = Some s'"
      "subseq (c # upper) (fst s')"
      "\<forall>a \<in> set (fst s'). a \<in> set (c # upper) \<or> a < length cs \<and> (\<exists>m \<in> set (mixin_order ?info). (fst m, a) \<in> (is_a cs)\<^sup>*)"
      using ih(2)[OF U(1) 1(3)] tables_okD(2)[OF 1(3,4)] by fastforce
    have "chain_of cs c active = Some (fst s')"
      using False 1(4) U(1) S(1) by (simp add: chain_of.simps[of cs c active] Let_def)
    moreover have "c \<in> set (fst s')" using list_emb_set[OF S(2), of c] by auto
    moreover have "(c, a) \<in> (is_a cs)\<^sup>*" if a: "a \<in> set (fst s')" for a
    proof -
      consider "a = c" | "a \<in> set upper" | m where "m \<in> set (mixin_order ?info)" "(fst m, a) \<in> (is_a cs)\<^sup>*"
        using S(3)[rule_format, OF a] by auto
      then show ?thesis
      proof cases
        case (3 m)
        then have "(c, fst m) \<in> is_a cs" using step by blast
        then show ?thesis using 3(2) by (rule converse_rtrancl_into_rtrancl)
      qed (use U(3) in auto)
    qed
    moreover have "set (fst s') \<subseteq> {..<length cs}" using S(3) U(2) 1(4) by auto
    ultimately show ?thesis by blast
  qed
next
  case (2 cs active s)
  then show ?case by (intro exI[of _ s]) simp
next
  case (3 cs m ms active s)
  have m: "fst m < length cs" using 3(4) by simp
  obtain sub where sub: "chain_of cs (fst m) active = Some sub" "set sub \<subseteq> {..<length cs}"
    "\<forall>a \<in> set sub. (fst m, a) \<in> (is_a cs)\<^sup>*"
    using 3(1)[OF 3(3) m] by blast
  obtain s1 where s1: "mixin (fst s) (snd s) sub (snd m) = Some s1" "snd s1 < length (fst s1)"
    "subseq (fst s) (fst s1)" "set (fst s1) = set (fst s) \<union> set sub"
    using mixin_ok[OF 3(5), of sub "snd m"] by auto
  obtain s' where s': "mix_all cs ms active s1 = Some s'" "subseq (fst s1) (fst s')" "snd s' < length (fst s')"
    "\<forall>a \<in> set (fst s'). a \<in> set (fst s1) \<or> a < length cs \<and> (\<exists>m \<in> set ms. (fst m, a) \<in> (is_a cs)\<^sup>*)"
    using 3(2)[OF sub(1) s1(1) 3(3)] 3(4) s1(2) by auto
  have "mix_all cs (m # ms) active s = Some s'" using sub(1) s1(1) s'(1) by simp
  moreover have "subseq (fst s) (fst s')" using s1(3) s'(2) subseq_order.order_trans by blast
  moreover have "\<forall>a \<in> set (fst s'). a \<in> set (fst s) \<or>
      a < length cs \<and> (\<exists>k \<in> set (m # ms). (fst k, a) \<in> (is_a cs)\<^sup>*)"
    using s'(4) s1(4) sub(2,3) by auto
  ultimately show ?case using s'(3) by blast
qed

text \<open>
  Files define a class before they name it as a superclass or a mixin.  Then the recursion guard never
  fires and the chain is the one the unguarded recursion describes.
\<close>

definition file_ordered :: "class_info list \<Rightarrow> bool" where
  "file_ordered cs \<longleftrightarrow>
     (\<forall>c < length cs. (\<forall>p. parent (cs ! c) = Some p \<longrightarrow> p < c) \<and> (\<forall>m \<in> set (mixin_order (cs ! c)). fst m < c))"

lemma file_ordered_tables:
  assumes "file_ordered cs"
  shows "tables_ok cs"
  unfolding tables_ok_def
proof
  fix info assume "info \<in> set cs"
  then obtain c where "c < length cs" "info = cs ! c" by (auto simp: in_set_conv_nth)
  then show "(\<forall>p. parent info = Some p \<longrightarrow> p < length cs) \<and> (\<forall>(m, b) \<in> set (mixin_order info). m < length cs)"
    using assms less_trans by (fastforce simp: file_ordered_def)
qed

lemma mix_all_active:
  "(\<forall>m \<in> set ms. chain_of cs (fst m) active = chain_of cs (fst m) []) \<Longrightarrow>
     mix_all cs ms active s = mix_all cs ms [] s"
  by (induction ms arbitrary: s) (auto split: option.split)

lemma chain_active:
  assumes "file_ordered cs"
  shows "(\<forall>a \<in> set active. c < a) \<Longrightarrow> chain_of cs c active = chain_of cs c []"
proof (induction c arbitrary: active rule: less_induct)
  case (less c)
  show ?case
  proof (cases "c < length cs")
    case True
    let ?info = "cs ! c"
    have o: "\<And>p. parent ?info = Some p \<Longrightarrow> p < c" "\<And>m. m \<in> set (mixin_order ?info) \<Longrightarrow> fst m < c"
      using assms True by (auto simp: file_ordered_def)
    have "parent ?info = Some p \<Longrightarrow> chain_of cs p (active @ [c]) = chain_of cs p []"
      "parent ?info = Some p \<Longrightarrow> chain_of cs p [c] = chain_of cs p []" for p
      using less.IH[of p "active @ [c]"] less.IH[of p "[c]"] o(1)[of p] less.prems by fastforce+
    moreover have "chain_of cs (fst m) (active @ [c]) = chain_of cs (fst m) []"
      "chain_of cs (fst m) [c] = chain_of cs (fst m) []" if "m \<in> set (mixin_order ?info)" for m
      using less.IH[of "fst m" "active @ [c]"] less.IH[of "fst m" "[c]"] o(2)[OF that] less.prems by fastforce+
    then have "mix_all cs (mixin_order ?info) (active @ [c]) s = mix_all cs (mixin_order ?info) [c] s" for s
      using mix_all_active[of "mixin_order ?info" cs] by metis
    moreover have "c \<notin> set active" using less.prems by auto
    ultimately show ?thesis using True
      by (simp add: chain_of.simps[of cs c active] chain_of.simps[of cs c "[]"] Let_def split: option.split)
  qed (use less.prems in \<open>auto simp: chain_of.simps[of cs c]\<close>)
qed

text \<open>The recursion equation of \<^verbatim>\<open>compute_ancestors\<close> on a file-ordered program.\<close>

lemma compute_ancestors_rec:
  assumes fo: "file_ordered cs" and c: "c < length cs"
  shows "\<exists>upper. (case parent (cs ! c) of None \<Rightarrow> Some [] | Some p \<Rightarrow> compute_ancestors cs p) = Some upper \<and>
     compute_ancestors cs c = map_option fst (mix_all cs (mixin_order (cs ! c)) [] (c # upper, 0))"
proof -
  let ?info = "cs ! c"
  have o: "\<And>p. parent ?info = Some p \<Longrightarrow> p < c" "\<And>m. m \<in> set (mixin_order ?info) \<Longrightarrow> fst m < c"
    using fo c by (auto simp: file_ordered_def)
  have P: "(case parent ?info of None \<Rightarrow> Some [] | Some p \<Rightarrow> chain_of cs p [c])
      = (case parent ?info of None \<Rightarrow> Some [] | Some p \<Rightarrow> compute_ancestors cs p)"
    using o chain_active[OF fo, of "[c]"] by (simp add: compute_ancestors_def split: option.split)
  have "\<exists>upper. (case parent ?info of None \<Rightarrow> Some [] | Some p \<Rightarrow> compute_ancestors cs p) = Some upper"
  proof (cases "parent ?info")
    case (Some p)
    then have "p < length cs" using o(1) c by fastforce
    then show ?thesis using chain_total(1)[OF file_ordered_tables[OF fo], of p "[]"] Some
      by (auto simp: compute_ancestors_def)
  qed simp
  then obtain upper where "(case parent ?info of None \<Rightarrow> Some [] | Some p \<Rightarrow> compute_ancestors cs p) = Some upper" ..
  moreover have "mix_all cs (mixin_order ?info) [c] s = mix_all cs (mixin_order ?info) [] s" for s
    using o chain_active[OF fo, of "[c]"] by (intro mix_all_active) simp
  ultimately show ?thesis using P c
    by (simp add: compute_ancestors_def[of cs c] chain_of.simps[of cs c "[]"] Let_def)
qed

lemma mix_all_set:
  assumes "mix_all cs ms [] s = Some s'" "snd s < length (fst s)"
  shows "subseq (fst s) (fst s') \<and>
    (\<forall>m \<in> set ms. \<exists>sub. compute_ancestors cs (fst m) = Some sub \<and> set sub \<subseteq> set (fst s'))"
  using assms
proof (induction ms arbitrary: s)
  case (Cons m ms)
  obtain sub s1 where S: "chain_of cs (fst m) [] = Some sub" "mixin (fst s) (snd s) sub (snd m) = Some s1"
    "mix_all cs ms [] s1 = Some s'"
    using Cons.prems(1) by (auto split: option.splits)
  have s1: "snd s1 < length (fst s1)" "subseq (fst s) (fst s1)" "set sub \<subseteq> set (fst s1)"
    using mixin_ok[OF Cons.prems(2), of sub "snd m"] S(2) by auto
  have "subseq (fst s1) (fst s')" using Cons.IH[OF S(3) s1(1)] by blast
  then have "set (fst s1) \<subseteq> set (fst s')" "subseq (fst s) (fst s')"
    using list_emb_set[of "(=)" "fst s1" "fst s'"] subseq_order.order_trans[OF s1(2)] by auto
  moreover have "compute_ancestors cs (fst m) = Some sub" using S(1) by (simp add: compute_ancestors_def)
  ultimately show ?case using Cons.IH[OF S(3) s1(1)] s1(3) by auto
qed simp

lemma is_a_less:
  assumes "file_ordered cs" "(c, d) \<in> is_a cs"
  shows "d < c"
  using assms by (auto simp: is_a_def file_ordered_def)

lemma ancestors_total:
  assumes "file_ordered cs" "c < length cs"
  obtains chain where "compute_ancestors cs c = Some chain" "set chain \<subseteq> {a. (c, a) \<in> (is_a cs)\<^sup>*}" "c \<in> set chain"
  using chain_total(1)[OF file_ordered_tables[OF assms(1)] assms(2), of "[]"]
  by (auto simp: compute_ancestors_def)

lemma ancestors_step:
  assumes fo: "file_ordered cs" and c: "c < length cs" and C: "compute_ancestors cs c = Some chain"
    and s: "(c, d) \<in> is_a cs"
  shows "d < c \<and> (\<exists>sub. compute_ancestors cs d = Some sub \<and> set sub \<subseteq> set chain \<and>
    (parent (cs ! c) = Some d \<longrightarrow> subseq sub chain))"
proof -
  obtain upper where U: "(case parent (cs ! c) of None \<Rightarrow> Some [] | Some p \<Rightarrow> compute_ancestors cs p) = Some upper"
    "compute_ancestors cs c = map_option fst (mix_all cs (mixin_order (cs ! c)) [] (c # upper, 0))"
    using compute_ancestors_rec[OF fo c] by blast
  then have "map_option fst (mix_all cs (mixin_order (cs ! c)) [] (c # upper, 0)) = Some chain" using C by simp
  then obtain s' where S: "mix_all cs (mixin_order (cs ! c)) [] (c # upper, 0) = Some s'" "chain = fst s'"
    by auto
  have M: "subseq (c # upper) chain"
    "\<forall>m \<in> set (mixin_order (cs ! c)). \<exists>sub. compute_ancestors cs (fst m) = Some sub \<and> set sub \<subseteq> set chain"
    using mix_all_set[OF S(1)] S(2) by auto
  have "d < c" using s fo by (auto simp: is_a_def file_ordered_def)
  moreover have "\<exists>sub. compute_ancestors cs d = Some sub \<and> set sub \<subseteq> set chain \<and> subseq sub chain"
    if "parent (cs ! c) = Some d"
  proof -
    have "compute_ancestors cs d = Some upper" using U(1) that by simp
    moreover have "subseq upper chain" by (rule subseq_Cons'[OF M(1)])
    moreover have "set upper \<subseteq> set chain" using list_emb_set[OF M(1)] by auto
    ultimately show ?thesis by blast
  qed
  moreover have "\<exists>sub. compute_ancestors cs d = Some sub \<and> set sub \<subseteq> set chain"
    if "parent (cs ! c) \<noteq> Some d"
    using s M(2) that by (auto simp: is_a_def)
  ultimately show ?thesis by blast
qed

lemma ancestors_complete_aux:
  assumes fo: "file_ordered cs" and r: "(c, a) \<in> (is_a cs)\<^sup>*"
  shows "c < length cs \<Longrightarrow> compute_ancestors cs c = Some chain \<Longrightarrow> a \<in> set chain"
  using r
proof (induction arbitrary: chain rule: converse_rtrancl_induct)
  case base
  then show ?case using ancestors_total[OF fo base(1)] by (metis option.inject)
next
  case (step c d)
  then obtain sub where "d < c" "compute_ancestors cs d = Some sub" "set sub \<subseteq> set chain"
    using ancestors_step[OF fo step.prems step.hyps(1)] by blast
  then show ?case using step.IH step.prems by (meson less_trans subsetD)
qed

text \<open>Without a \<^verbatim>\<open>prepend\<close> the chain is free of repetitions and starts with the class.\<close>

lemma include_hd:
  "mix_into chain origin ins sub False = Some (chain', origin') \<Longrightarrow> 0 < ins \<Longrightarrow> chain \<noteq> [] \<Longrightarrow>
     hd chain' = hd chain"
proof (induction sub arbitrary: chain ins)
  case (Cons m sub)
  show ?case
  proof (cases "position ((=) m) chain")
    case (Some p)
    then show ?thesis using Cons.IH[of chain "p + 1"] Cons.prems by simp
  next
    case None
    then have "mix_into (take ins chain @ m # drop ins chain) origin (ins + 1) sub False = Some (chain', origin')"
      using Cons.prems(1) by (simp add: vec_insert_def split: if_splits)
    then show ?thesis using Cons.IH[of "take ins chain @ m # drop ins chain" "ins + 1"] Cons.prems(2,3) by simp
  qed
qed simp

lemma mix_all_include:
  assumes "mix_all cs ms [] s = Some s'" "\<forall>m \<in> set ms. \<not> snd m" "snd s < length (fst s)"
  shows "(distinct (fst s) \<longrightarrow> distinct (fst s')) \<and> hd (fst s') = hd (fst s)"
  using assms
proof (induction ms arbitrary: s)
  case (Cons m ms)
  obtain sub s1 where S: "mixin (fst s) (snd s) sub (snd m) = Some s1" "mix_all cs ms [] s1 = Some s'"
    using Cons.prems(1) by (auto split: option.splits)
  have m: "mix_into (fst s) (snd s) (snd s + 1) sub False = Some s1"
    using S(1) Cons.prems(2) by (simp add: mixin_def)
  then have d: "distinct (fst s) \<longrightarrow> distinct (fst s1)"
    using include_ok[of "snd s + 1" "fst s" "snd s" sub] Cons.prems(3) by auto
  have "hd (fst s1) = hd (fst s)"
    using include_hd[of "fst s" "snd s" "snd s + 1" sub "fst s1" "snd s1"] m Cons.prems(3) by fastforce
  moreover have "snd s1 < length (fst s1)" using mixin_ok[OF Cons.prems(3), of sub "snd m"] S(1) by auto
  ultimately show ?case using Cons.IH[OF S(2)] Cons.prems(2) d by auto
qed simp

lemma ancestors_include_only:
  assumes fo: "file_ordered cs" and np: "\<forall>info \<in> set cs. \<forall>m \<in> set (mixin_order info). \<not> snd m"
  shows "c < length cs \<Longrightarrow> compute_ancestors cs c = Some chain \<Longrightarrow> distinct chain \<and> hd chain = c"
proof (induction c arbitrary: chain rule: less_induct)
  case (less c)
  obtain upper where U: "(case parent (cs ! c) of None \<Rightarrow> Some [] | Some p \<Rightarrow> compute_ancestors cs p) = Some upper"
    "compute_ancestors cs c = map_option fst (mix_all cs (mixin_order (cs ! c)) [] (c # upper, 0))"
    using compute_ancestors_rec[OF fo less.prems(1)] by blast
  have "distinct upper \<and> (\<forall>a \<in> set upper. a < c)"
  proof (cases "parent (cs ! c)")
    case (Some p)
    then have p: "p < c" "compute_ancestors cs p = Some upper"
      using U(1) fo less.prems(1) by (auto simp: file_ordered_def)
    then have "set upper \<subseteq> {a. (p, a) \<in> (is_a cs)\<^sup>*}"
      using ancestors_total[OF fo, of p] less.prems(1) by (metis less_trans option.inject)
    moreover have "a \<le> p" if "(p, a) \<in> (is_a cs)\<^sup>*" for a
      using that is_a_less[OF fo] by (induction rule: rtrancl_induct) (auto intro: less_imp_le less_le_trans)
    ultimately show ?thesis using less.IH[OF p(1)] p less.prems(1) by fastforce
  qed (use U(1) in simp)
  moreover have "map_option fst (mix_all cs (mixin_order (cs ! c)) [] (c # upper, 0)) = Some chain"
    using U(2) less.prems(2) by simp
  then obtain s' where S: "mix_all cs (mixin_order (cs ! c)) [] (c # upper, 0) = Some s'" "chain = fst s'"
    by auto
  ultimately show ?case
    using mix_all_include[OF S(1)] S(2) np nth_mem[OF less.prems(1)] by auto
qed

subsection \<open>Core classes\<close>

definition core_rel :: "(class_id \<Rightarrow> class_id option \<times> class_id list) \<Rightarrow> (class_id \<times> class_id) set" where
  "core_rel edges = {(c, d). fst (edges c) = Some d \<or> d \<in> set (snd (edges c))}"

text \<open>
  With fuel for every id not yet out, the expansion returns: it extends \<open>out\<close> by new ids, all reachable
  from the start, and afterwards every id it added has its successors out too.
\<close>

definition core_closed :: "class_id set \<Rightarrow> (class_id \<Rightarrow> class_id option \<times> class_id list) \<Rightarrow> bool" where
  "core_closed ids edges \<longleftrightarrow> finite ids \<and> (\<forall>c \<in> ids. \<forall>d. (c, d) \<in> core_rel edges \<longrightarrow> d \<in> ids)"

lemma expand_total:
  "core_closed ids edges \<Longrightarrow> c \<in> ids \<Longrightarrow> card (ids - set out) \<le> n \<Longrightarrow> distinct out \<Longrightarrow>
      \<exists>new. expand_core n edges c out = Some (out @ new) \<and> distinct (out @ new) \<and> c \<in> set (out @ new) \<and>
        set new \<subseteq> ids \<and> (\<forall>a \<in> set new. (c, a) \<in> (core_rel edges)\<^sup>*) \<and>
        (\<forall>a \<in> set new. \<forall>d. (a, d) \<in> core_rel edges \<longrightarrow> d \<in> set (out @ new))"
  "core_closed ids edges \<Longrightarrow> set cs \<subseteq> ids \<Longrightarrow> card (ids - set out) \<le> n \<Longrightarrow> distinct out \<Longrightarrow>
      \<exists>new. expand_all n edges cs out = Some (out @ new) \<and> distinct (out @ new) \<and> set cs \<subseteq> set (out @ new) \<and>
        set new \<subseteq> ids \<and> (\<forall>a \<in> set new. \<exists>c \<in> set cs. (c, a) \<in> (core_rel edges)\<^sup>*) \<and>
        (\<forall>a \<in> set new. \<forall>d. (a, d) \<in> core_rel edges \<longrightarrow> d \<in> set (out @ new))"
proof (induction n edges c out and n edges cs out rule: expand_core_expand_all.induct)
  case (1 n edges c out)
  show ?case
  proof (cases "c \<in> set out")
    case False
    have fin: "finite ids" using 1(2) by (simp add: core_closed_def)
    have "card (ids - set out) \<noteq> 0" using fin 1(3) False by auto
    then obtain k where k: "n = Suc k" using 1(4) by (cases n) auto
    obtain super incs where e: "edges c = (super, incs)" by (cases "edges c")
    let ?L = "rev incs @ (case super of None \<Rightarrow> [] | Some p \<Rightarrow> [p])"
    have L: "(c, d) \<in> core_rel edges \<longleftrightarrow> d \<in> set ?L" for d
      using e by (auto simp: core_rel_def split: option.splits)
    have "set ?L \<subseteq> ids" using 1(2,3) L by (auto simp: core_closed_def)
    moreover have "ids - set (out @ [c]) = (ids - set out) - {c}" by auto
    then have "card (ids - set (out @ [c])) \<le> k" using 1(3,4) k fin False by simp
    ultimately obtain new where N: "expand_all k edges ?L (out @ [c]) = Some ((out @ [c]) @ new)"
      "distinct ((out @ [c]) @ new)" "set ?L \<subseteq> set ((out @ [c]) @ new)" "set new \<subseteq> ids"
      "\<forall>a \<in> set new. \<exists>d \<in> set ?L. (d, a) \<in> (core_rel edges)\<^sup>*"
      "\<forall>a \<in> set new. \<forall>d. (a, d) \<in> core_rel edges \<longrightarrow> d \<in> set ((out @ [c]) @ new)"
      using 1(1)[OF False k e[symmetric] 1(2)] 1(5) False by auto
    have "expand_core n edges c out = Some (out @ c # new)" using False k e N(1) by simp
    moreover have "(c, a) \<in> (core_rel edges)\<^sup>*" if a: "a \<in> set new" for a
    proof -
      obtain d where "d \<in> set ?L" "(d, a) \<in> (core_rel edges)\<^sup>*" using N(5) a by blast
      then show ?thesis using L converse_rtrancl_into_rtrancl by metis
    qed
    then have "\<forall>a \<in> set (c # new). (c, a) \<in> (core_rel edges)\<^sup>*" by simp
    moreover have "\<forall>a \<in> set (c # new). \<forall>d. (a, d) \<in> core_rel edges \<longrightarrow> d \<in> set (out @ c # new)"
      using N(3,6) L by auto
    ultimately show ?thesis using N(2,4) 1(3) by (intro exI[of _ "c # new"]) (simp del: expand_core.simps)
  qed (use 1 in simp)
next
  case (2 n edges out)
  then show ?case by simp
next
  case (3 n edges c cs out)
  have c: "c \<in> ids" "set cs \<subseteq> ids" using 3(4) by auto
  obtain new1 where N1: "expand_core n edges c out = Some (out @ new1)" "distinct (out @ new1)"
    "c \<in> set (out @ new1)" "set new1 \<subseteq> ids" "\<forall>a \<in> set new1. (c, a) \<in> (core_rel edges)\<^sup>*"
    "\<forall>a \<in> set new1. \<forall>d. (a, d) \<in> core_rel edges \<longrightarrow> d \<in> set (out @ new1)"
    using 3(1)[OF 3(3) c(1) 3(5,6)] by blast
  have "card (ids - set (out @ new1)) \<le> card (ids - set out)"
    using 3(3) by (intro card_mono) (auto simp: core_closed_def)
  then obtain new2 where N2: "expand_all n edges cs (out @ new1) = Some ((out @ new1) @ new2)"
    "distinct ((out @ new1) @ new2)" "set cs \<subseteq> set ((out @ new1) @ new2)" "set new2 \<subseteq> ids"
    "\<forall>a \<in> set new2. \<exists>d \<in> set cs. (d, a) \<in> (core_rel edges)\<^sup>*"
    "\<forall>a \<in> set new2. \<forall>d. (a, d) \<in> core_rel edges \<longrightarrow> d \<in> set ((out @ new1) @ new2)"
    using 3(2)[OF N1(1) 3(3) c(2) _ N1(2)] 3(5) by auto
  have "expand_all n edges (c # cs) out = Some (out @ new1 @ new2)" using N1(1) N2(1) by simp
  moreover have "\<forall>a \<in> set (new1 @ new2). \<forall>d. (a, d) \<in> core_rel edges \<longrightarrow> d \<in> set (out @ new1 @ new2)"
    using N1(6) N2(6) by auto
  ultimately show ?case using N1 N2 by (intro exI[of _ "new1 @ new2"]) auto
qed

text \<open>\<^verbatim>\<open>declared_ancestors\<close>: the ids of the tables bound the depth of the recursion.\<close>

definition core_ids :: "core_tables \<Rightarrow> class_id \<Rightarrow> class_id list \<Rightarrow> class_id \<Rightarrow> class_id list" where
  "core_ids T object_superclass object_includes c =
     [c, OBJECT_CLASS, object_superclass] @ object_includes
       @ concat (map (\<lambda>(b, s, is). b # is @ (case s of None \<Rightarrow> [] | Some p \<Rightarrow> [p])) (builtins T))
       @ concat (map (\<lambda>(b, s). b # (case s of None \<Rightarrow> [] | Some p \<Rightarrow> [p])) (exception_classes T))
       @ concat (map snd (exception_includes T))"

definition declared_ancestors :: "core_tables \<Rightarrow> class_id \<Rightarrow> class_id list \<Rightarrow> class_id \<Rightarrow> class_id list option" where
  "declared_ancestors T object_superclass object_includes c =
     expand_core (length (core_ids T object_superclass object_includes c))
       (core_class_edges T object_superclass object_includes) c []"

lemma in_concat_map: "x \<in> set xs \<Longrightarrow> e \<in> set (f x) \<Longrightarrow> e \<in> set (concat (map f xs))"
  by auto

lemma core_edges_closed:
  assumes "(d, e) \<in> core_rel (core_class_edges T os ois)"
  shows "e \<in> set (core_ids T os ois c)"
proof (cases "d = OBJECT_CLASS")
  case True
  then show ?thesis using assms by (auto simp: core_rel_def core_class_edges_def core_ids_def)
next
  case no: False
  show ?thesis
  proof (cases "List.find (\<lambda>b. fst b = d) (builtins T)")
    case (Some b)
    then have "e \<in> set (case b of (b, s, is) \<Rightarrow> b # is @ (case s of None \<Rightarrow> [] | Some p \<Rightarrow> [p]))"
      using assms no by (cases b) (auto simp: core_rel_def core_class_edges_def split: option.splits)
    then show ?thesis
      using in_concat_map[OF conjunct1[OF find_SomeD[OF Some]], of e
          "\<lambda>(b, s, is). b # is @ (case s of None \<Rightarrow> [] | Some p \<Rightarrow> [p])"]
      by (simp only: core_ids_def set_append Un_iff) blast
  next
    case None
    show ?thesis
    proof (cases "List.find (\<lambda>x. fst x = d) (exception_classes T)")
      case (Some x)
      have "e \<in> set (case x of (b, s) \<Rightarrow> b # (case s of None \<Rightarrow> [] | Some p \<Rightarrow> [p]))
          \<or> (\<exists>i. List.find (\<lambda>i. fst i = d) (exception_includes T) = Some i \<and> e \<in> set (snd i))"
        using assms no None Some
        by (cases x; cases "List.find (\<lambda>i. fst i = d) (exception_includes T)")
          (auto simp: core_rel_def core_class_edges_def split: option.splits)
      then show ?thesis
      proof
        assume "e \<in> set (case x of (b, s) \<Rightarrow> b # (case s of None \<Rightarrow> [] | Some p \<Rightarrow> [p]))"
        then have "e \<in> set (concat (map (\<lambda>(b, s). b # (case s of None \<Rightarrow> [] | Some p \<Rightarrow> [p])) (exception_classes T)))"
          by (rule in_concat_map[OF conjunct1[OF find_SomeD[OF Some]]])
        then show ?thesis by (simp only: core_ids_def set_append Un_iff) blast
      next
        assume "\<exists>i. List.find (\<lambda>i. fst i = d) (exception_includes T) = Some i \<and> e \<in> set (snd i)"
        then obtain i where i: "List.find (\<lambda>i. fst i = d) (exception_includes T) = Some i" "e \<in> set (snd i)" by blast
        have "e \<in> set (concat (map snd (exception_includes T)))"
          using find_SomeD[OF i(1)] i(2) by auto
        then show ?thesis by (simp only: core_ids_def set_append Un_iff) simp
      qed
    qed (use assms no None in \<open>simp add: core_rel_def core_class_edges_def\<close>)
  qed
qed

lemma declared_ancestors_ok:
  "\<exists>chain. declared_ancestors T os ois c = Some chain \<and> distinct chain \<and>
     set chain = {a. (c, a) \<in> (core_rel (core_class_edges T os ois))\<^sup>*}"
proof -
  let ?e = "core_class_edges T os ois" and ?ids = "set (core_ids T os ois c)"
  have cl: "core_closed ?ids ?e" using core_edges_closed by (auto simp: core_closed_def)
  have ci: "c \<in> ?ids" by (simp add: core_ids_def)
  have cd: "card (?ids - set []) \<le> length (core_ids T os ois c)" by (simp add: card_length)
  have dn: "distinct ([] :: class_id list)" by simp
  obtain new where N: "declared_ancestors T os ois c = Some new" "distinct new" "c \<in> set new"
    "\<forall>a \<in> set new. (c, a) \<in> (core_rel ?e)\<^sup>*" "\<forall>a \<in> set new. \<forall>d. (a, d) \<in> core_rel ?e \<longrightarrow> d \<in> set new"
    using expand_total(1)[OF cl ci cd dn] unfolding declared_ancestors_def append_Nil by blast
  have "a \<in> set new" if "(c, a) \<in> (core_rel ?e)\<^sup>*" for a
    using that
  proof (induction rule: rtrancl_induct)
    case (step b d)
    then show ?case using N(5) by blast
  qed (rule N(3))
  then have "set new = {a. (c, a) \<in> (core_rel ?e)\<^sup>*}" using N(4) by blast
  then show ?thesis using N(1,2) by blast
qed

subsection \<open>The super walk\<close>

text \<open>The positions at which a walk over the chain finds a body, up to an \<^verbatim>\<open>undef_method\<close>.\<close>

definition has_body :: "bool \<Rightarrow> bool \<Rightarrow> 'b position_rows \<Rightarrow> class_id \<Rightarrow> bool" where
  "has_body live is_object R c \<longleftrightarrow> \<not> (live \<and> removed R c) \<and> row_at live is_object R c \<noteq> None"

definition body_positions :: "bool \<Rightarrow> bool \<Rightarrow> 'b position_rows \<Rightarrow> class_id list \<Rightarrow> nat \<Rightarrow> nat list" where
  "body_positions live is_object R ancestors start =
     filter (\<lambda>i. has_body live is_object R (ancestors ! i) \<and>
               (\<forall>j. start \<le> j \<longrightarrow> j \<le> i \<longrightarrow> live \<longrightarrow> \<not> undefd R (ancestors ! j)))
       [start..<length ancestors]"

lemma body_positions_step:
  assumes "at < length ancestors"
  shows "body_positions live ob R ancestors at =
    (if live \<and> undefd R (ancestors ! at) then []
     else (if has_body live ob R (ancestors ! at) then [at] else []) @ body_positions live ob R ancestors (at + 1))"
proof -
  have u: "[at..<length ancestors] = at # [at + 1..<length ancestors]" using assms by (simp add: upt_conv_Cons)
  have q: "(\<forall>j. at \<le> j \<longrightarrow> j \<le> i \<longrightarrow> live \<longrightarrow> \<not> undefd R (ancestors ! j)) \<longleftrightarrow>
      \<not> (live \<and> undefd R (ancestors ! at)) \<and> (\<forall>j. at + 1 \<le> j \<longrightarrow> j \<le> i \<longrightarrow> live \<longrightarrow> \<not> undefd R (ancestors ! j))"
    if "at \<le> i" for i
    using that by (auto simp: le_eq_less_or_eq[of at] Suc_le_eq)
  have r: "filter (\<lambda>i. has_body live ob R (ancestors ! i) \<and>
       (\<forall>j. at \<le> j \<longrightarrow> j \<le> i \<longrightarrow> live \<longrightarrow> \<not> undefd R (ancestors ! j))) [at + 1..<length ancestors]
     = (if live \<and> undefd R (ancestors ! at) then [] else body_positions live ob R ancestors (at + 1))"
  proof (cases "live \<and> undefd R (ancestors ! at)")
    case True
    then show ?thesis by (fastforce simp: filter_empty_conv)
  next
    case False
    have "filter (\<lambda>i. has_body live ob R (ancestors ! i) \<and>
         (\<forall>j. at \<le> j \<longrightarrow> j \<le> i \<longrightarrow> live \<longrightarrow> \<not> undefd R (ancestors ! j))) [at + 1..<length ancestors]
       = body_positions live ob R ancestors (at + 1)"
      unfolding body_positions_def
    proof (rule filter_cong[OF refl])
      fix i assume "i \<in> set [at + 1..<length ancestors]"
      then have "at \<le> i" by simp
      from q[OF this] False
      show "(has_body live ob R (ancestors ! i) \<and> (\<forall>j. at \<le> j \<longrightarrow> j \<le> i \<longrightarrow> live \<longrightarrow> \<not> undefd R (ancestors ! j)))
        = (has_body live ob R (ancestors ! i) \<and> (\<forall>j. at + 1 \<le> j \<longrightarrow> j \<le> i \<longrightarrow> live \<longrightarrow> \<not> undefd R (ancestors ! j)))"
        by blast
    qed
    then show ?thesis unfolding if_not_P[OF False] .
  qed
  show ?thesis
    unfolding body_positions_def[of live ob R ancestors at] u filter.simps r
    using q[of at] by (auto simp: body_positions_def)
qed

lemma send_walking_first:
  "send_walking_in dups live ob R ancestors at =
     (case body_positions live ob R ancestors at of
        [] \<Rightarrow> None
      | i # _ \<Rightarrow> Some (i, the (row_at live ob R (ancestors ! i)), publish_resume dups (ancestors ! i) i))"
proof (induction dups live ob R ancestors at rule: send_walking_in.induct)
  case (1 dups live ob R ancestors at)
  show ?case
  proof (cases "at < length ancestors")
    case False
    then show ?thesis by (simp add: send_walking_in.simps[of _ _ _ _ _ at] body_positions_def)
  next
    case True
    then show ?thesis
      using 1 body_positions_step[OF True, of live ob R]
      by (subst send_walking_in.simps) (auto simp: has_body_def split: option.splits)
  qed
qed

text \<open>
  A body that calls \<^verbatim>\<open>super\<close>, whose target calls \<^verbatim>\<open>super\<close>, and so on: the positions visited.  The fuel is
  the number of positions left.
\<close>

fun super_trace ::
  "nat \<Rightarrow> bool \<Rightarrow> bool \<Rightarrow> bool \<Rightarrow> 'b position_rows \<Rightarrow> class_id list \<Rightarrow> nat \<Rightarrow> nat list" where
  "super_trace 0 dups live ob R ancestors start = []"
| "super_trace (Suc n) dups live ob R ancestors start =
     (case send_walking_in dups live ob R ancestors start of
        None \<Rightarrow> []
      | Some (at, body, cell) \<Rightarrow>
          at # (case super_resume dups cell ancestors (ancestors ! at) of
                  None \<Rightarrow> []
                | Some s \<Rightarrow> super_trace n dups live ob R ancestors s))"

lemma position_distinct: "distinct xs \<Longrightarrow> i < length xs \<Longrightarrow> position ((=) (xs ! i)) xs = Some i"
proof (induction xs arbitrary: i)
  case (Cons x xs)
  then show ?case by (cases i) auto
qed simp

lemma super_resume_published:
  assumes "note_chain ancestors dups = dups" "at < length ancestors"
  shows "super_resume dups (publish_resume dups (ancestors ! at) at) ancestors (ancestors ! at) = Some (at + 1)"
  using assms position_distinct[of ancestors at]
  by (auto simp: super_resume_def publish_resume_def note_chain_def)

lemma body_positions_head:
  "body_positions live ob R ancestors start = i # ks \<Longrightarrow>
     start \<le> i \<and> i < length ancestors \<and> body_positions live ob R ancestors (i + 1) = ks"
proof (induction "length ancestors - start" arbitrary: start)
  case 0
  then show ?case by (simp add: body_positions_def)
next
  case (Suc k)
  then have s: "start < length ancestors" by simp
  show ?case
  proof (cases "has_body live ob R (ancestors ! start)")
    case True
    then show ?thesis using body_positions_step[OF s, of live ob R] Suc.prems s by (auto split: if_splits)
  next
    case False
    then have "body_positions live ob R ancestors (start + 1) = i # ks"
      using body_positions_step[OF s, of live ob R] Suc.prems by (auto split: if_splits)
    moreover have "k = length ancestors - (start + 1)" using Suc.hyps(2) by simp
    ultimately have "start + 1 \<le> i \<and> i < length ancestors \<and> body_positions live ob R ancestors (i + 1) = ks"
      using Suc.hyps(1) by blast
    then show ?thesis by simp
  qed
qed

lemma super_trace_all:
  assumes "note_chain ancestors dups = dups"
  shows "length ancestors - start \<le> n \<Longrightarrow>
     super_trace n dups live ob R ancestors start = body_positions live ob R ancestors start"
proof (induction n arbitrary: start)
  case 0
  then show ?case by (simp add: body_positions_def)
next
  case (Suc n)
  show ?case
  proof (cases "body_positions live ob R ancestors start")
    case Nil
    then show ?thesis by (simp add: send_walking_first)
  next
    case (Cons i ks)
    then have i: "start \<le> i" "i < length ancestors" "body_positions live ob R ancestors (i + 1) = ks"
      using body_positions_head[OF Cons] by auto
    then show ?thesis
      using Cons Suc super_resume_published[OF assms i(2)] by (simp add: send_walking_first)
  qed
qed

subsection \<open>Properties\<close>


text \<open>Class 3 inherits from class 0 and includes module 2, which includes module 1.\<close>

definition demo_classes :: "class_info list" where
  "demo_classes =
     [\<lparr>parent = None, mixin_order = []\<rparr>, \<lparr>parent = None, mixin_order = []\<rparr>,
      \<lparr>parent = None, mixin_order = [(1, False)]\<rparr>, \<lparr>parent = Some 0, mixin_order = [(2, False)]\<rparr>]"

lemma demo_file_ordered: "file_ordered demo_classes"
  unfolding file_ordered_def demo_classes_def by (auto simp: less_Suc_eq)


text \<open>
  C32. The linearization always terminates with a chain, even when the class table is cyclic (a class among
  its own superclasses, a module that includes itself): with every referenced id registered, no index or
  insertion is out of range, the class is in its chain, and the chain only holds registered ids.
\<close>

theorem ancestors_of_cyclic_table:
  assumes "tables_ok cs" "c < length cs"
  shows "\<exists>chain. compute_ancestors cs c = Some chain \<and> c \<in> set chain \<and> set chain \<subseteq> {..<length cs}"
  using chain_total(1)[OF assms, of "[]"] by (auto simp: compute_ancestors_def)

definition cyclic_classes :: "class_info list" where
  "cyclic_classes = [\<lparr>parent = Some 1, mixin_order = [(0, True)]\<rparr>, \<lparr>parent = Some 0, mixin_order = []\<rparr>]"

theorem ancestors_of_cyclic_table_witness:
  "\<exists>chain. compute_ancestors cyclic_classes 0 = Some chain \<and> 0 \<in> set chain \<and> set chain \<subseteq> {..<length cyclic_classes}"
  by (rule ancestors_of_cyclic_table) (simp_all add: tables_ok_def cyclic_classes_def)

text \<open>
  Where a mixin lands.  A module whose chain is all new is inserted as a block, in its own order: right
  after the class for \<^verbatim>\<open>include\<close>, in front of everything for \<^verbatim>\<open>prepend\<close> (even when the same modules are already
  below the class).  Document order decides: \<^verbatim>\<open>include A; prepend A\<close> gives A twice, \<^verbatim>\<open>prepend A; include A\<close> once.
\<close>

theorem mixin_placement:
  assumes "distinct sub" "origin < length chain"
  shows "(set sub \<inter> set chain = {} \<longrightarrow>
      mixin chain origin sub False = Some (take (origin + 1) chain @ sub @ drop (origin + 1) chain, origin)) \<and>
    (set sub \<inter> set (take origin chain) = {} \<longrightarrow>
      mixin chain origin sub True = Some (sub @ chain, origin + length sub)) \<and>
    compute_ancestors [\<lparr>parent = None, mixin_order = []\<rparr>, \<lparr>parent = None, mixin_order = [(0, False), (0, True)]\<rparr>] 1
      = Some [0, 1, 0] \<and>
    compute_ancestors [\<lparr>parent = None, mixin_order = []\<rparr>, \<lparr>parent = None, mixin_order = [(0, True), (0, False)]\<rparr>] 1
      = Some [0, 1]"
proof (intro conjI impI)
  assume "set sub \<inter> set chain = {}"
  then show "mixin chain origin sub False = Some (take (origin + 1) chain @ sub @ drop (origin + 1) chain, origin)"
    using include_fresh[OF assms(1), of chain "origin + 1" origin] assms(2) by (simp add: mixin_def)
next
  assume "set sub \<inter> set (take origin chain) = {}"
  then show "mixin chain origin sub True = Some (sub @ chain, origin + length sub)"
    using prepend_fresh[OF assms(1), of origin chain 0] assms(2) by (simp add: mixin_def)
qed (code_simp, code_simp)

theorem mixin_placement_witness:
  "mixin [7, 9] 0 [1, 2] False = Some ([7, 1, 2, 9], 0) \<and> mixin [7, 1] 0 [1, 2] True = Some ([1, 2, 7, 1], 2)"
  using mixin_placement[of "[1, 2]" 0 "[7, 9]"] mixin_placement[of "[1, 2]" 0 "[7, 1]"] by simp

text \<open>
  An \<^verbatim>\<open>include\<close> after a \<^verbatim>\<open>prepend\<close> can land in front of the class: when the included module's own chain
  passes through an already prepended module, the insertion point moves into the prepend area and
  \<open>origin\<close> is not moved with it, so the position taken for the class's own no longer holds the class.
\<close>

theorem include_through_prepended_module:
  "mixin [0, 5] 1 [3, 0, 4] False = Some ([0, 4, 5, 3], 1) \<and> [0, 5] ! 1 = (5 :: nat) \<and> [0, 4, 5, 3] ! 1 \<noteq> (5 :: nat)"
  by code_simp

text \<open>
  C11. A chain of \<^verbatim>\<open>super\<close> calls visits every definition exactly once, in chain order, and stops at an
  \<^verbatim>\<open>undef_method\<close>: with the duplicate flag armed whenever the chain holds a class twice, resuming after the
  copy that is running leads to the next definition, for a module that is both included and prepended
  too; a walk that finds none is the missing-method error.
\<close>

theorem super_visits_each_definition_once:
  assumes "note_chain ancestors dups = dups"
  shows "super_trace (length ancestors) dups live ob R ancestors start = body_positions live ob R ancestors start \<and>
    sorted (body_positions live ob R ancestors start) \<and> distinct (body_positions live ob R ancestors start) \<and>
    (send_walking_in dups live ob R ancestors start = None \<longleftrightarrow> body_positions live ob R ancestors start = [])"
  using super_trace_all[OF assms, of start "length ancestors" live ob R]
  by (auto simp: send_walking_first body_positions_def sorted_wrt_filter split: list.splits)

theorem super_visits_each_definition_once_witness:
  "super_trace 3 True False True
     \<lparr>undefd = (\<lambda>_. False), removed = (\<lambda>_. False), overlay_own = (\<lambda>_. None),
      super_target = (\<lambda>c. if c = 0 then Some ''m'' else None), generic_row = (\<lambda>_. None)\<rparr> [0, 1, 0] 0 = [0, 2]"
proof -
  let ?R = "\<lparr>undefd = (\<lambda>_. False), removed = (\<lambda>_. False), overlay_own = (\<lambda>_. None),
      super_target = (\<lambda>c. if c = 0 then Some ''m'' else None), generic_row = (\<lambda>_. None)\<rparr>"
  have "body_positions False True ?R [0, 1, 0] 0 = [0, 2]"
    by (simp add: body_positions_def has_body_def row_at_def upt_rec)
  then show ?thesis
    using super_visits_each_definition_once[of "[0, 1, 0]" True False True ?R 0] by (simp add: note_chain_def numeral_3_eq_3)
qed

text \<open>
  The ABI's declared ancestors of a core class, for any tables: the expansion always returns, without a
  repetition, exactly the classes and modules the class is declared to descend from.
\<close>

theorem core_ancestors_exact:
  "\<exists>chain. declared_ancestors T object_superclass object_includes c = Some chain \<and> distinct chain \<and>
     set chain = {a. (c, a) \<in> (core_rel (core_class_edges T object_superclass object_includes))\<^sup>*}"
  by (rule declared_ancestors_ok)

end
