(* ===== verification/Strings.thy ===== *)
theory Strings
  imports Prelude
begin

text \<open>
  What the gem crate uses of Rust's \<^verbatim>\<open>str\<close>: strings are lists of Unicode scalar values, and \<open>lit\<close> turns
  a literal into one.  Character classes, trimming, splitting, joining, decimal numbers, and the facts
  that relate them.
\<close>

type_synonym str = "nat list"

definition lit :: "string \<Rightarrow> str" where
  "lit s = map of_char s"

subsection \<open>Character classes\<close>

definition is_white_space :: "nat \<Rightarrow> bool" where
  "is_white_space c \<longleftrightarrow>
     9 \<le> c \<and> c \<le> 13 \<or> c = 32 \<or> c = 133 \<or> c = 160 \<or> c = 5760 \<or> 8192 \<le> c \<and> c \<le> 8202 \<or>
     c = 8232 \<or> c = 8233 \<or> c = 8239 \<or> c = 8287 \<or> c = 12288"

definition is_ascii_digit :: "nat \<Rightarrow> bool" where
  "is_ascii_digit c \<longleftrightarrow> 48 \<le> c \<and> c \<le> 57"

definition is_ascii_alphabetic :: "nat \<Rightarrow> bool" where
  "is_ascii_alphabetic c \<longleftrightarrow> 65 \<le> c \<and> c \<le> 90 \<or> 97 \<le> c \<and> c \<le> 122"

definition is_ascii_alphanumeric :: "nat \<Rightarrow> bool" where
  "is_ascii_alphanumeric c \<longleftrightarrow> is_ascii_digit c \<or> is_ascii_alphabetic c"

definition utf8_len :: "nat \<Rightarrow> nat" where
  "utf8_len c = (if c < 128 then 1 else if c < 2048 then 2 else if c < 65536 then 3 else 4)"

definition byte_len :: "str \<Rightarrow> nat" where
  "byte_len s = sum_list (map utf8_len s)"

lemma digit_alnum [simp]: "is_ascii_digit c \<Longrightarrow> is_ascii_alphanumeric c"
  by (simp add: is_ascii_alphanumeric_def)

lemma alpha_alnum [simp]: "is_ascii_alphabetic c \<Longrightarrow> is_ascii_alphanumeric c"
  by (simp add: is_ascii_alphanumeric_def)

lemma digit_not_alpha [simp]: "is_ascii_digit c \<Longrightarrow> \<not> is_ascii_alphabetic c"
  by (auto simp: is_ascii_digit_def is_ascii_alphabetic_def)

lemma alnum_not_ws [simp]: "is_ascii_alphanumeric c \<Longrightarrow> \<not> is_white_space c"
  by (auto simp: is_ascii_alphanumeric_def is_ascii_digit_def is_ascii_alphabetic_def is_white_space_def)

lemma space_ws [simp]: "is_white_space 32"
  by (simp add: is_white_space_def)

subsection \<open>Trimming\<close>

definition trim_start :: "str \<Rightarrow> str" where
  "trim_start s = dropWhile is_white_space s"

definition trim_end :: "str \<Rightarrow> str" where
  "trim_end s = rev (dropWhile is_white_space (rev s))"

definition trim :: "str \<Rightarrow> str" where
  "trim s = trim_end (trim_start s)"

definition trimmed :: "str \<Rightarrow> bool" where
  "trimmed s \<longleftrightarrow> (s \<noteq> [] \<longrightarrow> \<not> is_white_space (hd s) \<and> \<not> is_white_space (last s))"

lemma trim_start_hd: "trim_start s \<noteq> [] \<Longrightarrow> \<not> is_white_space (hd (trim_start s))"
  by (simp add: trim_start_def hd_dropWhile)

lemma trim_end_last: "trim_end s \<noteq> [] \<Longrightarrow> \<not> is_white_space (last (trim_end s))"
  by (simp add: trim_end_def last_rev hd_dropWhile)

lemma trim_end_prefix: "\<exists>t. s = trim_end s @ t \<and> (\<forall>c \<in> set t. is_white_space c)"
proof -
  have "s = rev (takeWhile is_white_space (rev s) @ dropWhile is_white_space (rev s))" by simp
  also have "\<dots> = trim_end s @ rev (takeWhile is_white_space (rev s))" by (simp only: trim_end_def rev_append)
  finally show ?thesis by (intro exI conjI) (auto dest: set_takeWhileD)
qed

lemma trimmed_trim: "trimmed (trim s)"
proof -
  obtain t where t: "trim_start s = trim s @ t" using trim_end_prefix[of "trim_start s"] by (auto simp: trim_def)
  show ?thesis
  proof (cases "trim s = []")
    case False
    then have "hd (trim_start s) = hd (trim s)" "trim_start s \<noteq> []" by (simp_all add: t)
    then show ?thesis using trim_start_hd[of s] trim_end_last[of "trim_start s"] False
      by (simp add: trimmed_def trim_def)
  qed (simp add: trimmed_def)
qed

lemma trim_start_id: "s = [] \<or> \<not> is_white_space (hd s) \<Longrightarrow> trim_start s = s"
  by (cases s) (auto simp: trim_start_def)

lemma trim_end_id: "s = [] \<or> \<not> is_white_space (last s) \<Longrightarrow> trim_end s = s"
  by (cases s rule: rev_cases) (auto simp: trim_end_def)

lemma trim_trimmed: "trimmed s \<Longrightarrow> trim s = s"
  by (auto simp: trimmed_def trim_def trim_start_id trim_end_id)

lemma trim_space_left [simp]: "trim (32 # s) = trim s"
  by (simp add: trim_def trim_start_def)

lemma trim_space_right: "s \<noteq> [] \<Longrightarrow> trimmed s \<Longrightarrow> trim (s @ [32]) = s"
  by (cases s) (auto simp: trim_def trim_start_def trim_end_def trimmed_def dropWhile_append3
      split: if_splits, metis dropWhile.simps(2) hd_rev list.collapse rev_is_Nil_conv rev_rev_ident rev.simps(2))

subsection \<open>Splitting and joining\<close>

fun split_on :: "nat \<Rightarrow> str \<Rightarrow> str list" where
  "split_on c [] = [[]]"
| "split_on c (x # xs) =
     (if x = c then [] # split_on c xs
      else case split_on c xs of [] \<Rightarrow> [[x]] | w # ws \<Rightarrow> (x # w) # ws)"

fun split_once :: "nat \<Rightarrow> str \<Rightarrow> (str \<times> str) option" where
  "split_once c [] = None"
| "split_once c (x # xs) =
     (if x = c then Some ([], xs) else map_option (\<lambda>(a, b). (x # a, b)) (split_once c xs))"

fun split_once_str :: "str \<Rightarrow> str \<Rightarrow> (str \<times> str) option" where
  "split_once_str p [] = (if p = [] then Some ([], []) else None)"
| "split_once_str p (x # xs) =
     (if take (length p) (x # xs) = p then Some ([], drop (length p) (x # xs))
      else map_option (\<lambda>(a, b). (x # a, b)) (split_once_str p xs))"

fun join :: "str \<Rightarrow> str list \<Rightarrow> str" where
  "join sep [] = []"
| "join sep [w] = w"
| "join sep (w # v # ws) = w @ sep @ join sep (v # ws)"

definition strip_suffix :: "nat \<Rightarrow> str \<Rightarrow> str option" where
  "strip_suffix c s = (if s \<noteq> [] \<and> last s = c then Some (butlast s) else None)"

definition split_at_find :: "(nat \<Rightarrow> bool) \<Rightarrow> str \<Rightarrow> str \<times> str" where
  "split_at_find P s = (takeWhile (\<lambda>c. \<not> P c) s, dropWhile (\<lambda>c. \<not> P c) s)"

lemma split_on_nonempty [simp]: "split_on c s \<noteq> []"
  by (cases s) (auto split: list.splits)

lemma join_Cons: "ws \<noteq> [] \<Longrightarrow> join sep (w # ws) = w @ sep @ join sep ws"
  by (cases ws) auto

lemma join_hd: "join sep ((x # w) # ws) = x # join sep (w # ws)"
  by (cases ws) auto

lemma join_split [str_simps]: "join [c] (split_on c s) = s"
proof (induction s)
  case (Cons x xs)
  then show ?case by (cases "split_on c xs") (auto simp: join_Cons join_hd split: list.splits)
qed simp

lemma split_on_pieces: "w \<in> set (split_on c s) \<Longrightarrow> c \<notin> set w"
  by (induction s arbitrary: w) (auto split: list.splits if_splits)

lemma split_on_chars: "w \<in> set (split_on c s) \<Longrightarrow> set w \<subseteq> set s"
proof (induction s arbitrary: w)
  case (Cons x s)
  obtain v vs where v: "split_on c s = v # vs" by (cases "split_on c s") auto
  then have sv: "set v \<subseteq> set s" using Cons.IH[of v] by simp
  have "w = [] \<or> w = x # v \<or> w \<in> set (split_on c s)" using Cons.prems v by (auto split: if_splits)
  then show ?case using Cons.IH[of w] sv by (elim disjE) (simp_all, blast+)
qed simp

lemma split_on_none [str_simps]: "c \<notin> set s \<Longrightarrow> split_on c s = [s]"
  by (induction s) auto

lemma split_on_append: "c \<notin> set w \<Longrightarrow> split_on c (w @ c # s) = w # split_on c s"
  by (induction w) auto

lemma split_join [str_simps]:
  "ws \<noteq> [] \<Longrightarrow> (\<forall>w \<in> set ws. c \<notin> set w) \<Longrightarrow> split_on c (join [c] ws) = ws"
proof (induction ws)
  case (Cons w ws)
  then show ?case by (cases "ws = []") (auto simp: split_on_none split_on_append join_Cons)
qed simp

lemma set_join: "set (join sep ws) \<subseteq> (\<Union>w \<in> set ws. set w) \<union> set sep"
  by (induction sep ws rule: join.induct) auto

lemma split_once_None: "split_once c s = None \<longleftrightarrow> c \<notin> set s"
  by (induction s) auto

lemma split_once_append [str_simps]: "c \<notin> set a \<Longrightarrow> split_once c (a @ c # b) = Some (a, b)"
  by (induction a) auto

lemma split_once_Some: "split_once c s = Some (a, b) \<Longrightarrow> s = a @ c # b \<and> c \<notin> set a"
  by (induction s arbitrary: a) (auto split: if_splits)

lemma split_once_str_append:
  assumes "p \<noteq> []" "hd p \<notin> set a"
  shows "split_once_str p (a @ p @ b) = Some (a, b)"
  using assms by (induction a) (cases p; auto)+

subsection \<open>Decimal numbers\<close>

fun dec :: "nat \<Rightarrow> str" where
  "dec n = (if n < 10 then [48 + n] else dec (n div 10) @ [48 + n mod 10])"

declare dec.simps [simp del]

definition dec_val :: "str \<Rightarrow> nat" where
  "dec_val s = foldl (\<lambda>a c. a * 10 + (c - 48)) 0 s"

definition parse_u64 :: "str \<Rightarrow> 64 word option" where
  "parse_u64 s =
     (if s \<noteq> [] \<and> list_all is_ascii_digit s \<and> dec_val s < 2 ^ 64 then Some (word_of_nat (dec_val s)) else None)"

lemma dec_nonempty [simp]: "dec n \<noteq> []"
  by (subst dec.simps) simp

lemma dec_digits: "list_all is_ascii_digit (dec n)"
proof (induction n rule: dec.induct)
  case (1 n)
  have "n mod 10 < 10" by simp
  then have "n mod 10 \<le> 9" by linarith
  then have "is_ascii_digit (48 + n mod 10)" "n < 10 \<Longrightarrow> is_ascii_digit (48 + n)"
    by (simp_all add: is_ascii_digit_def)
  then show ?case using 1 by (subst dec.simps) auto
qed

lemma dec_val_dec [simp]: "dec_val (dec n) = n"
proof (induction n rule: dec.induct)
  case (1 n)
  show ?case
  proof (cases "n < 10")
    case False
    then have "dec_val (dec n) = dec_val (dec (n div 10)) * 10 + n mod 10"
      by (subst dec.simps) (simp add: dec_val_def)
    then show ?thesis using 1[OF False] by simp
  qed (simp add: dec.simps dec_val_def)
qed

lemma parse_u64_dec: "parse_u64 (dec (unat w)) = Some w"
  using unsigned_less[of w] by (simp add: parse_u64_def dec_digits)

end
