(* ===== verification/GemVersion.thy ===== *)
theory GemVersion
  imports Strings "HOL-Library.List_Lexorder"
begin

text \<open>
  \<^verbatim>\<open>Gem::Version\<close> and \<^verbatim>\<open>Gem::Requirement\<close> (\<^verbatim>\<open>crates/zeo-gem/src/version.rs\<close>): scanning a version into
  digit and letter runs, the canonical form, the ordering, \<^verbatim>\<open>release\<close> and \<^verbatim>\<open>bump\<close>, and requirements with
  their parser and printer.  A numeric segment is a \<^verbatim>\<open>u64\<close>.
\<close>

subsection \<open>Segments\<close>

datatype ordering = Less | Equal | Greater

datatype segment = Num "64 word" | Text str

text \<open>\<^verbatim>\<open>Ord::cmp\<close> of numbers and of strings.\<close>

definition ord_cmp :: "'a::linorder \<Rightarrow> 'a \<Rightarrow> ordering" where
  "ord_cmp a b = (if a < b then Less else if a = b then Equal else Greater)"

fun segment_cmp :: "segment \<Rightarrow> segment \<Rightarrow> ordering" where
  "segment_cmp (Num a) (Num b) = ord_cmp a b"
| "segment_cmp (Text a) (Text b) = ord_cmp a b"
| "segment_cmp (Text a) (Num b) = Less"
| "segment_cmp (Num a) (Text b) = Greater"

definition is_zero :: "segment \<Rightarrow> bool" where
  "is_zero s \<longleftrightarrow> s = Num 0"

primrec is_text :: "segment \<Rightarrow> bool" where
  "is_text (Num n) = False"
| "is_text (Text t) = True"

function scan :: "str \<Rightarrow> segment list" where
  "scan [] = []"
| "scan (c # cs) =
     (if is_ascii_digit c then
        (case parse_u64 (takeWhile is_ascii_digit (c # cs)) of
           Some n \<Rightarrow> Num n
         | None \<Rightarrow> Text (takeWhile is_ascii_digit (c # cs))) # scan (dropWhile is_ascii_digit (c # cs))
      else if is_ascii_alphabetic c then
        Text (takeWhile is_ascii_alphabetic (c # cs)) # scan (dropWhile is_ascii_alphabetic (c # cs))
      else scan cs)"
  by pat_completeness auto
termination
  by (relation "measure length") (auto simp: le_imp_less_Suc length_dropWhile_le)

definition drop_trailing_zeros :: "segment list \<Rightarrow> segment list" where
  "drop_trailing_zeros segs =
     take (case rposition (\<lambda>s. \<not> is_zero s) segs of None \<Rightarrow> 0 | Some i \<Rightarrow> i + 1) segs"

definition split_point :: "segment list \<Rightarrow> nat" where
  "split_point segs = (case position is_text segs of None \<Rightarrow> length segs | Some i \<Rightarrow> i)"

definition canonical :: "segment list \<Rightarrow> segment list" where
  "canonical segs =
     drop_trailing_zeros (take (split_point segs) segs) @ drop_trailing_zeros (drop (split_point segs) segs)"

definition trim_letters :: "segment list \<Rightarrow> segment list" where
  "trim_letters segs = take (split_point segs) segs"

subsection \<open>Versions\<close>

record version =
  vtext :: str
  vsegments :: "segment list"
  vcanonical :: "segment list"

datatype gem_error =
    MalformedVersion str
  | UnknownOperator str
  | UnknownSection str
  | LineBeforeSection str
  | NotKeyValue str
  | EdgeWithoutSpec str
  | NoClosingParen str
  | NoName str
  | BadSpecLine str
  | ChecksumNoVersion str
  | ChecksumNoParen str
  | NotAlgorithmHex str
  | NotHexadecimal str

definition is_correct :: "str \<Rightarrow> bool" where
  "is_correct text =
     (if text = [] then True
      else let (head, tail) = (case split_once 45 text of Some (h, t) \<Rightarrow> (h, Some t) | None \<Rightarrow> (text, None))
        in (case split_on 46 head of
              [] \<Rightarrow> False
            | first # parts \<Rightarrow>
                first \<noteq> [] \<and> list_all is_ascii_digit first \<and>
                list_all (\<lambda>p. p \<noteq> [] \<and> list_all is_ascii_alphanumeric p) parts) \<and>
           (case tail of
              None \<Rightarrow> True
            | Some t \<Rightarrow>
                list_all (\<lambda>p. p \<noteq> [] \<and> list_all (\<lambda>b. is_ascii_alphanumeric b \<or> b = 45) p) (split_on 46 t)))"

definition version_of :: "str \<Rightarrow> version" where
  "version_of text = \<lparr>vtext = text, vsegments = scan text, vcanonical = canonical (scan text)\<rparr>"

definition version_parse :: "str \<Rightarrow> gem_error + version" where
  "version_parse text0 =
     (let text = trim text0 in
      if \<not> is_correct text then Inl (MalformedVersion text)
      else Inr (version_of (if text = [] then lit ''0'' else text)))"

primrec segment_text :: "segment \<Rightarrow> str" where
  "segment_text (Num n) = dec (unat n)"
| "segment_text (Text t) = t"

definition from_segments :: "segment list \<Rightarrow> version" where
  "from_segments segs =
     (let text = join (lit ''.'') (map segment_text segs)
      in version_of (if text = [] then lit ''0'' else text))"

definition is_prerelease :: "version \<Rightarrow> bool" where
  "is_prerelease v = list_ex is_ascii_alphabetic (vtext v)"

definition release :: "version \<Rightarrow> version" where
  "release v = (if \<not> is_prerelease v then v else from_segments (trim_letters (vsegments v)))"

text \<open>\<^verbatim>\<open>*n += 1\<close> on a \<^verbatim>\<open>u64\<close>: it wraps in a release build.\<close>

definition bump :: "version \<Rightarrow> version" where
  "bump v =
     (let segs = trim_letters (vsegments v);
          segs1 = (if length segs > 1 then butlast segs else segs)
      in from_segments
           (if segs1 = [] then [Num 1]
            else case last segs1 of
              Num n \<Rightarrow> butlast segs1 @ [Num (n + 1)]
            | Text t \<Rightarrow> [Num 1]))"

text \<open>\<^verbatim>\<open>Ord for Version\<close>: position by position, a missing segment being zero.\<close>

fun cmp_padded :: "segment list \<Rightarrow> segment list \<Rightarrow> ordering" where
  "cmp_padded [] [] = Equal"
| "cmp_padded (x # xs) [] = (case segment_cmp x (Num 0) of Equal \<Rightarrow> cmp_padded xs [] | r \<Rightarrow> r)"
| "cmp_padded [] (y # ys) = (case segment_cmp (Num 0) y of Equal \<Rightarrow> cmp_padded [] ys | r \<Rightarrow> r)"
| "cmp_padded (x # xs) (y # ys) = (case segment_cmp x y of Equal \<Rightarrow> cmp_padded xs ys | r \<Rightarrow> r)"

definition version_cmp :: "version \<Rightarrow> version \<Rightarrow> ordering" where
  "version_cmp v w = cmp_padded (vcanonical v) (vcanonical w)"

definition version_eq :: "version \<Rightarrow> version \<Rightarrow> bool" where
  "version_eq v w \<longleftrightarrow> version_cmp v w = Equal"

subsection \<open>Requirements\<close>

datatype req_op = OpEq | OpNe | OpGt | OpLt | OpGte | OpLte | OpTwiddle

definition op_parse :: "str \<Rightarrow> req_op option" where
  "op_parse t =
     (if t = lit ''='' then Some OpEq
      else if t = lit ''!='' then Some OpNe
      else if t = lit ''>'' then Some OpGt
      else if t = lit ''<'' then Some OpLt
      else if t = lit ''>='' then Some OpGte
      else if t = lit ''<='' then Some OpLte
      else if t = lit ''~>'' then Some OpTwiddle
      else None)"

primrec op_str :: "req_op \<Rightarrow> str" where
  "op_str OpEq = lit ''=''"
| "op_str OpNe = lit ''!=''"
| "op_str OpGt = lit ''>''"
| "op_str OpLt = lit ''<''"
| "op_str OpGte = lit ''>=''"
| "op_str OpLte = lit ''<=''"
| "op_str OpTwiddle = lit ''~>''"

type_synonym requirement = "(req_op \<times> version) list"

definition parse_clause :: "str \<Rightarrow> gem_error + (req_op \<times> version)" where
  "parse_clause part =
     (let (op0, ver) = split_at_find is_ascii_digit part;
          op = trim op0
      in case (if op = [] then Inr OpEq
               else case op_parse op of Some r \<Rightarrow> Inr r | None \<Rightarrow> Inl (UnknownOperator op)) of
           Inl e \<Rightarrow> Inl e
         | Inr r \<Rightarrow> (case version_parse ver of Inl e \<Rightarrow> Inl e | Inr v \<Rightarrow> Inr (r, v)))"

fun parse_clauses :: "str list \<Rightarrow> gem_error + requirement" where
  "parse_clauses [] = Inr []"
| "parse_clauses (p # ps) =
     (let part = trim p in
      if part = [] then parse_clauses ps
      else case parse_clause part of
        Inl e \<Rightarrow> Inl e
      | Inr c \<Rightarrow> (case parse_clauses ps of Inl e \<Rightarrow> Inl e | Inr cs \<Rightarrow> Inr (c # cs)))"

definition requirement_parse :: "str \<Rightarrow> gem_error + requirement" where
  "requirement_parse text = parse_clauses (split_on 44 text)"

definition clause_holds :: "version \<Rightarrow> req_op \<times> version \<Rightarrow> bool" where
  "clause_holds v c =
     (let bound = snd c in
      case fst c of
        OpEq \<Rightarrow> version_cmp v bound = Equal
      | OpNe \<Rightarrow> version_cmp v bound \<noteq> Equal
      | OpGt \<Rightarrow> version_cmp v bound = Greater
      | OpLt \<Rightarrow> version_cmp v bound = Less
      | OpGte \<Rightarrow> version_cmp v bound \<noteq> Less
      | OpLte \<Rightarrow> version_cmp v bound \<noteq> Greater
      | OpTwiddle \<Rightarrow> version_cmp v bound \<noteq> Less \<and> version_cmp (release v) (bump bound) = Less)"

definition satisfied_by :: "requirement \<Rightarrow> version \<Rightarrow> bool" where
  "satisfied_by r v = (if r = [] then True else list_all (clause_holds v) r)"

definition is_default :: "requirement \<Rightarrow> bool" where
  "is_default r \<longleftrightarrow> r = [] \<or> length r = 1 \<and> fst (r ! 0) = OpGte \<and> vtext (snd (r ! 0)) = lit ''0''"

definition clause_text :: "req_op \<times> version \<Rightarrow> str" where
  "clause_text c = op_str (fst c) @ lit '' '' @ vtext (snd c)"

definition requirement_text :: "requirement \<Rightarrow> str" where
  "requirement_text r = join (lit '', '') (map clause_text r)"

subsection \<open>The order of segments\<close>

lemma ord_cmp_simps [simp]:
  "ord_cmp a b = Less \<longleftrightarrow> a < b" "ord_cmp a b = Equal \<longleftrightarrow> a = b" "ord_cmp a b = Greater \<longleftrightarrow> b < a"
  by (auto simp: ord_cmp_def)

instantiation segment :: linorder
begin

definition less_eq_segment :: "segment \<Rightarrow> segment \<Rightarrow> bool" where
  "less_eq_segment a b \<longleftrightarrow> segment_cmp a b \<noteq> Greater"

definition less_segment :: "segment \<Rightarrow> segment \<Rightarrow> bool" where
  "less_segment a b \<longleftrightarrow> segment_cmp a b = Less"

instance
proof
  fix x y z :: segment
  show "x < y \<longleftrightarrow> x \<le> y \<and> \<not> y \<le> x"
    by (cases x; cases y) (auto simp: less_eq_segment_def less_segment_def)
  show "x \<le> x" by (cases x) (auto simp: less_eq_segment_def)
  show "x \<le> y \<Longrightarrow> y \<le> z \<Longrightarrow> x \<le> z"
    by (cases x; cases y; cases z) (auto simp: less_eq_segment_def)
  show "x \<le> y \<Longrightarrow> y \<le> x \<Longrightarrow> x = y"
    by (cases x; cases y) (auto simp: less_eq_segment_def)
  show "x \<le> y \<or> y \<le> x"
    by (cases x; cases y) (auto simp: less_eq_segment_def)
qed

end

lemma segment_cmp_ord: "segment_cmp a b = ord_cmp a b"
  by (cases a; cases b) (auto simp: ord_cmp_def less_segment_def)

lemma text_less_num: "Text t < Num n"
  by (simp add: less_segment_def)

subsection \<open>The order of versions\<close>

definition pad :: "segment list \<Rightarrow> nat \<Rightarrow> segment" where
  "pad xs i = (if i < length xs then xs ! i else Num 0)"

lemma pad_simps [simp]: "pad (x # xs) 0 = x" "pad (x # xs) (Suc i) = pad xs i"
  by (simp_all add: pad_def)

lemma pad_Nil: "pad [] = (\<lambda>i. Num 0)"
  by (simp add: fun_eq_iff pad_def)

lemma all_nat_Suc: "(\<forall>i. P i) \<longleftrightarrow> P 0 \<and> (\<forall>i. P (Suc i))"
  by (metis not0_implies_Suc)

lemma ex_nat_Suc: "(\<exists>i. P i) \<longleftrightarrow> P 0 \<or> (\<exists>i. P (Suc i))"
  by (metis not0_implies_Suc)

definition first_less :: "(nat \<Rightarrow> segment) \<Rightarrow> (nat \<Rightarrow> segment) \<Rightarrow> bool" where
  "first_less f g \<longleftrightarrow> (\<exists>i. f i < g i \<and> (\<forall>j < i. f j = g j))"

lemma first_less_step:
  "first_less f g \<longleftrightarrow> f 0 < g 0 \<or> f 0 = g 0 \<and> first_less (\<lambda>i. f (Suc i)) (\<lambda>i. g (Suc i))"
  unfolding first_less_def by (subst ex_nat_Suc) (auto simp: less_Suc_eq_0_disj)

lemma first_less_irrefl: "\<not> first_less f f"
  by (simp add: first_less_def)

lemma first_less_trans: "first_less f g \<Longrightarrow> first_less g h \<Longrightarrow> first_less f h"
proof -
  assume "first_less f g" "first_less g h"
  then obtain i j where i: "f i < g i" "\<forall>k < i. f k = g k" and j: "g j < h j" "\<forall>k < j. g k = h k"
    by (auto simp: first_less_def)
  have "f (min i j) < h (min i j)" using i j by (cases i j rule: linorder_cases) (auto simp: min_def)
  moreover have "\<forall>k < min i j. f k = h k" using i(2) j(2) by auto
  ultimately show ?thesis by (auto simp: first_less_def)
qed

lemma first_less_total: "first_less f g \<or> f = g \<or> first_less g f"
proof (cases "f = g")
  case False
  then obtain i where "f i \<noteq> g i" by blast
  then obtain k where k: "f k \<noteq> g k" "\<forall>j < k. f j = g j" using exists_least_iff[of "\<lambda>i. f i \<noteq> g i"] by blast
  then have "f k < g k \<or> g k < f k" by auto
  then show ?thesis using k(2) unfolding first_less_def by metis
qed simp

lemma cmp_padded_char:
  "(cmp_padded xs ys = Equal \<longleftrightarrow> pad xs = pad ys) \<and> (cmp_padded xs ys = Less \<longleftrightarrow> first_less (pad xs) (pad ys))"
proof (induction xs ys rule: cmp_padded.induct)
  case 1
  show ?case by (simp add: first_less_irrefl)
next
  case (2 x xs)
  have "pad (x # xs) = pad [] \<longleftrightarrow> x = Num 0 \<and> pad xs = pad []"
    unfolding fun_eq_iff by (subst all_nat_Suc) (simp add: pad_Nil)
  moreover have "first_less (pad (x # xs)) (pad []) \<longleftrightarrow> x < Num 0 \<or> x = Num 0 \<and> first_less (pad xs) (pad [])"
    by (subst first_less_step) (simp add: pad_Nil)
  ultimately show ?case using 2 by (auto simp: segment_cmp_ord ord_cmp_def split: ordering.splits)
next
  case (3 y ys)
  have "pad [] = pad (y # ys) \<longleftrightarrow> Num 0 = y \<and> pad [] = pad ys"
    unfolding fun_eq_iff by (subst all_nat_Suc) (simp add: pad_Nil)
  moreover have "first_less (pad []) (pad (y # ys)) \<longleftrightarrow> Num 0 < y \<or> Num 0 = y \<and> first_less (pad []) (pad ys)"
    by (subst first_less_step) (simp add: pad_Nil)
  ultimately show ?case using 3 by (auto simp: segment_cmp_ord ord_cmp_def split: ordering.splits)
next
  case (4 x xs y ys)
  have "pad (x # xs) = pad (y # ys) \<longleftrightarrow> x = y \<and> pad xs = pad ys"
    unfolding fun_eq_iff by (subst all_nat_Suc) simp
  moreover have "first_less (pad (x # xs)) (pad (y # ys)) \<longleftrightarrow> x < y \<or> x = y \<and> first_less (pad xs) (pad ys)"
    by (subst first_less_step) simp
  ultimately show ?case using 4 by (auto simp: segment_cmp_ord ord_cmp_def split: ordering.splits)
qed

lemma cmp_padded_Equal: "cmp_padded xs ys = Equal \<longleftrightarrow> pad xs = pad ys"
  and cmp_padded_Less: "cmp_padded xs ys = Less \<longleftrightarrow> first_less (pad xs) (pad ys)"
  using cmp_padded_char by auto

lemma cmp_padded_Greater: "cmp_padded xs ys = Greater \<longleftrightarrow> first_less (pad ys) (pad xs)"
  using cmp_padded_Equal[of xs ys] cmp_padded_Less[of xs ys] first_less_total[of "pad xs" "pad ys"]
    first_less_trans first_less_irrefl
  by (metis (full_types) ordering.exhaust ordering.distinct)

lemmas cmp_padded_iffs = cmp_padded_Equal cmp_padded_Less cmp_padded_Greater

subsection \<open>Canonical form\<close>

lemma drop_trailing_zeros_Nil [simp]: "drop_trailing_zeros [] = []"
  by (simp add: drop_trailing_zeros_def)

lemma drop_trailing_zeros_snoc:
  "drop_trailing_zeros (xs @ [x]) = (if is_zero x then drop_trailing_zeros xs else xs @ [x])"
proof (cases "is_zero x")
  case True
  have "rposition (\<lambda>s. \<not> is_zero s) (xs @ [x]) = rposition (\<lambda>s. \<not> is_zero s) xs"
    using True by (auto simp: rposition_def option.map_comp comp_def intro!: option.map_cong
        dest: position_less)
  then show ?thesis using True
    by (auto simp: drop_trailing_zeros_def rposition_def split: option.splits dest: position_less)
qed (simp add: drop_trailing_zeros_def rposition_def)

lemma drop_trailing_zeros_append:
  "\<exists>n. xs = drop_trailing_zeros xs @ replicate n (Num 0)"
proof (induction xs rule: rev_induct)
  case (snoc x xs)
  then obtain n where "xs = drop_trailing_zeros xs @ replicate n (Num 0)" by blast
  then have z: "is_zero x \<Longrightarrow> xs @ [x] = drop_trailing_zeros (xs @ [x]) @ replicate (Suc n) (Num 0)"
    by (metis append.assoc drop_trailing_zeros_snoc is_zero_def replicate_append_same replicate_Suc)
  show ?case
  proof (cases "is_zero x")
    case True
    from z[OF True] show ?thesis by (rule exI)
  next
    case False
    then show ?thesis by (intro exI[of _ 0]) (simp add: drop_trailing_zeros_snoc)
  qed
qed simp

lemma drop_trailing_zeros_last: "drop_trailing_zeros xs \<noteq> [] \<Longrightarrow> last (drop_trailing_zeros xs) \<noteq> Num 0"
  by (induction xs rule: rev_induct) (auto simp: drop_trailing_zeros_snoc is_zero_def)

lemma pad_append_zeros: "pad (xs @ replicate n (Num 0)) = pad xs"
  by (auto simp: pad_def fun_eq_iff nth_append)

lemma pad_drop_trailing_zeros [simp]: "pad (drop_trailing_zeros xs) = pad xs"
  using drop_trailing_zeros_append[of xs] pad_append_zeros by metis

text \<open>A list without a trailing zero is determined by its padding.\<close>

definition no_trailing_zero :: "segment list \<Rightarrow> bool" where
  "no_trailing_zero xs \<longleftrightarrow> (xs \<noteq> [] \<longrightarrow> last xs \<noteq> Num 0)"

lemma no_trailing_zero_length:
  assumes "pad xs = pad ys" "no_trailing_zero ys"
  shows "length ys \<le> length xs"
proof (rule ccontr)
  assume l: "\<not> length ys \<le> length xs"
  then have ne: "ys \<noteq> []" by auto
  moreover have "pad ys (length ys - 1) = last ys" using ne by (simp add: pad_def last_conv_nth)
  moreover have "\<not> length ys - 1 < length xs" using l by linarith
  then have "pad xs (length ys - 1) = Num 0" by (simp only: pad_def if_False)
  ultimately show False using assms by (simp add: no_trailing_zero_def)
qed

lemma pad_inj:
  assumes "pad xs = pad ys" "no_trailing_zero xs" "no_trailing_zero ys"
  shows "xs = ys"
proof (rule nth_equalityI)
  show l: "length xs = length ys"
    using no_trailing_zero_length[of xs ys] no_trailing_zero_length[of ys xs] assms by simp
  show "xs ! i = ys ! i" if "i < length xs" for i
    using fun_cong[OF assms(1), of i] that l by (simp add: pad_def)
qed

lemma canonical_no_trailing_zero: "no_trailing_zero (canonical segs)"
  using drop_trailing_zeros_last by (auto simp: no_trailing_zero_def canonical_def last_append)

subsection \<open>Scanning what was printed\<close>

declare scan.simps(2) [simp del]

lemma takeWhile_block:
  "list_all P xs \<Longrightarrow> ys = [] \<or> \<not> P (hd ys) \<Longrightarrow> takeWhile P (xs @ ys) = xs \<and> dropWhile P (xs @ ys) = ys"
  by (cases ys) (auto simp: list_all_iff takeWhile_append dropWhile_append3)

lemma scan_dec:
  assumes "rest = [] \<or> \<not> is_ascii_digit (hd rest)"
  shows "scan (dec (unat n) @ rest) = Num n # scan rest"
proof -
  obtain c cs where d: "dec (unat n) = c # cs" by (cases "dec (unat n)") auto
  then have c: "is_ascii_digit c" using dec_digits[of "unat n"] by simp
  have w: "takeWhile is_ascii_digit (c # cs @ rest) = dec (unat n)"
    "dropWhile is_ascii_digit (c # cs @ rest) = rest"
    using takeWhile_block[OF dec_digits assms, of "unat n"] unfolding d append_Cons by (rule conjunct1, rule conjunct2)
  have "scan (c # cs @ rest) = Num n # scan rest" unfolding scan.simps(2) w using c by (simp add: parse_u64_dec)
  then show ?thesis by (simp add: d)
qed

lemma scan_dot: "scan (46 # s) = scan s"
  by (simp add: scan.simps(2) is_ascii_digit_def is_ascii_alphabetic_def)

lemma lit_dot: "lit ''.'' = [46]" and lit_zero: "lit ''0'' = [48]"
  by (simp_all add: lit_def)

lemma scan_nums: "scan (join [46] (map segment_text (map Num ns))) = map Num ns"
proof (induction ns)
  case (Cons n ns)
  show ?case
  proof (cases ns)
    case Nil
    then show ?thesis using scan_dec[of "[]" n] by simp
  next
    case (Cons m ms)
    have "scan (dec (unat n) @ 46 # join [46] (map segment_text (map Num ns))) = Num n # map Num ns"
      using scan_dec[of "46 # join [46] (map segment_text (map Num ns))" n] Cons.IH
      by (simp add: is_ascii_digit_def scan_dot)
    then show ?thesis using Cons by simp
  qed
qed simp

lemma scan_zero: "scan [48] = [Num 0]"
  using scan_dec[of "[]" 0] by (simp add: dec.simps)

lemma split_point_nums [simp]: "split_point (map Num ns) = length ns"
  by (auto simp: split_point_def position_None split: option.splits dest: position_SomeD)

lemma canonical_nums: "canonical (map Num ns) = drop_trailing_zeros (map Num ns)"
  by (simp add: canonical_def)

lemma trim_letters_nums:
  obtains ns where "trim_letters segs = map Num ns"
    "segs = map Num ns \<or> (\<exists>t rest. segs = map Num ns @ Text t # rest)"
proof -
  have "\<exists>ns. trim_letters segs = map Num ns \<and> (segs = map Num ns \<or> (\<exists>t rest. segs = map Num ns @ Text t # rest))"
  proof (induction segs)
    case (Cons x segs)
    then obtain ns where IH: "trim_letters segs = map Num ns"
      "segs = map Num ns \<or> (\<exists>t rest. segs = map Num ns @ Text t # rest)" by blast
    show ?case
    proof (cases x)
      case (Num n)
      then have "trim_letters (x # segs) = x # trim_letters segs"
        by (auto simp: trim_letters_def split_point_def split: option.splits)
      then show ?thesis using IH Num by (intro exI[of _ "n # ns"]) auto
    next
      case (Text t)
      then have "trim_letters (x # segs) = []" by (simp add: trim_letters_def split_point_def)
      then show ?thesis using Text by (intro exI[of _ "[]"]) auto
    qed
  qed (simp add: trim_letters_def)
  then show ?thesis using that by blast
qed

lemma split_point_text: "split_point (map Num ns @ Text t # rest) = length ns"
proof -
  have "position is_text (map Num ns) = None" by (auto simp: position_None)
  then show ?thesis by (simp add: split_point_def position_append)
qed

lemma drop_trailing_zeros_text: "\<exists>rest'. drop_trailing_zeros (Text t # rest) = Text t # rest'"
proof (induction rest rule: rev_induct)
  case Nil
  show ?case using drop_trailing_zeros_snoc[of "[]" "Text t"] by (simp add: is_zero_def)
next
  case (snoc x rest)
  then show ?case using drop_trailing_zeros_snoc[of "Text t # rest" x] by auto
qed

text \<open>A letter run after the numbers makes the version smaller than the numbers alone.\<close>

lemma canonical_text_less:
  "first_less (pad (canonical (map Num ns @ Text t # rest))) (pad (map Num ns))"
proof -
  let ?z = "drop_trailing_zeros (map Num ns)"
  obtain rest' where "drop_trailing_zeros (Text t # rest) = Text t # rest'"
    using drop_trailing_zeros_text by blast
  then have c: "canonical (map Num ns @ Text t # rest) = ?z @ Text t # rest'"
    by (simp add: canonical_def split_point_text)
  have "pad (?z @ Text t # rest') (length ?z) < pad ?z (length ?z)"
    by (simp add: pad_def text_less_num del: pad_drop_trailing_zeros)
  moreover have "\<forall>j < length ?z. pad (?z @ Text t # rest') j = pad ?z j"
    by (simp add: pad_def nth_append del: pad_drop_trailing_zeros)
  ultimately have "first_less (pad (?z @ Text t # rest')) (pad ?z)" unfolding first_less_def by blast
  then show ?thesis by (simp add: c)
qed

lemma pad_from_nums: "pad (vcanonical (from_segments (map Num ns))) = pad (map Num ns)"
proof (cases ns)
  case Nil
  have "pad (canonical [Num 0]) = pad []"
    using canonical_nums[of "[0]"] by (auto simp: pad_def fun_eq_iff)
  then show ?thesis using Nil by (simp add: from_segments_def version_of_def lit_zero scan_zero)
next
  case (Cons n ms)
  have "join [46] (map segment_text (map Num ns)) \<noteq> []"
    using Cons by (cases ms) simp_all
  then show ?thesis
    by (simp add: from_segments_def version_of_def lit_dot scan_nums canonical_nums del: map_map)
qed

text \<open>A version is never above the version its numbers alone make.\<close>

lemma canonical_le_nums:
  assumes "trim_letters segs = map Num ns"
  shows "pad (canonical segs) = pad (map Num ns) \<or> first_less (pad (canonical segs)) (pad (map Num ns))"
proof -
  obtain ms where ms: "trim_letters segs = map Num ms"
    "segs = map Num ms \<or> (\<exists>t rest. segs = map Num ms @ Text t # rest)"
    by (rule trim_letters_nums)
  then have "map Num ms = map Num ns" using assms by simp
  then show ?thesis using ms(2) canonical_text_less canonical_nums pad_drop_trailing_zeros by metis
qed

lemma scan_text_if_alpha:
  "list_ex is_ascii_alphabetic s \<Longrightarrow> \<exists>x \<in> set (scan s). is_text x"
proof (induction s rule: scan.induct)
  case (2 c cs)
  show ?case
  proof (cases "is_ascii_digit c")
    case True
    have "list_ex is_ascii_alphabetic (dropWhile is_ascii_digit (c # cs))"
    proof -
      obtain a where a: "a \<in> set (c # cs)" "is_ascii_alphabetic a" using "2.prems" by (auto simp: list_ex_iff)
      then have "a \<notin> set (takeWhile is_ascii_digit (c # cs))" by (auto dest: set_takeWhileD)
      then have "a \<in> set (dropWhile is_ascii_digit (c # cs))" using a(1)
        by (metis Un_iff set_append takeWhile_dropWhile_id)
      then show ?thesis using a(2) by (auto simp: list_ex_iff)
    qed
    then show ?thesis using 2(1)[OF True] True by (simp add: scan.simps(2))
  next
    case False
    then show ?thesis using 2 by (cases "is_ascii_alphabetic c") (auto simp: scan.simps(2))
  qed
qed simp

lemma pad_release:
  assumes "v = version_of text" "trim_letters (vsegments v) = map Num ns"
  shows "pad (vcanonical (release v)) = pad (map Num ns) \<or> first_less (pad (vcanonical (release v))) (pad (map Num ns))"
proof (cases "is_prerelease v")
  case True
  then show ?thesis using assms by (simp add: release_def pad_from_nums)
next
  case False
  then show ?thesis using canonical_le_nums[of "scan text" ns] assms by (simp add: release_def version_of_def)
qed

lemma le_release:
  assumes "v = version_of text"
  shows "pad (vcanonical v) = pad (vcanonical (release v)) \<or> first_less (pad (vcanonical v)) (pad (vcanonical (release v)))"
proof (cases "is_prerelease v")
  case True
  obtain ns where ns: "trim_letters (vsegments v) = map Num ns" by (rule trim_letters_nums)
  then show ?thesis using True canonical_le_nums[of "scan text" ns] assms
    by (simp add: release_def version_of_def pad_from_nums)
qed (simp add: release_def)

subsection \<open>Bumping\<close>

text \<open>The number \<^verbatim>\<open>bump\<close> increments, and that it does not wrap.\<close>

definition bump_kept :: "64 word list \<Rightarrow> 64 word list" where
  "bump_kept ns = (if length ns > 1 then butlast ns else ns)"

definition bump_fits :: "version \<Rightarrow> bool" where
  "bump_fits v \<longleftrightarrow>
     (\<forall>ns. trim_letters (vsegments v) = map Num ns \<longrightarrow> bump_kept ns \<noteq> [] \<longrightarrow> last (bump_kept ns) \<noteq> - 1)"

lemma bump_nums:
  assumes "trim_letters (vsegments v) = map Num ns"
  shows "bump v = from_segments
    (map Num (if bump_kept ns = [] then [1] else butlast (bump_kept ns) @ [last (bump_kept ns) + 1]))"
proof -
  have k: "(if length (map Num ns) > 1 then butlast (map Num ns) else map Num ns) = map Num (bump_kept ns)"
    by (simp add: bump_kept_def map_butlast)
  show ?thesis
    unfolding bump_def Let_def assms k by (simp add: last_map map_butlast)
qed

lemma word_less_inc:
  fixes w :: "64 word"
  assumes "w \<noteq> - 1"
  shows "w < w + 1"
proof -
  have "1 + w \<noteq> 0" using assms by (metis add.commute eq_neg_iff_add_eq_0)
  then have "unat (1 + w) = Suc (unat w)" by (rule unatSuc)
  then show ?thesis by (simp add: word_less_nat_alt add.commute)
qed

lemma first_less_bumped:
  assumes "bump_kept ns \<noteq> [] \<longrightarrow> last (bump_kept ns) \<noteq> - 1"
  shows "first_less (pad (map Num ns))
    (pad (map Num (if bump_kept ns = [] then [1] else butlast (bump_kept ns) @ [last (bump_kept ns) + 1])))"
proof (cases "bump_kept ns = []")
  case True
  then have "ns = []" by (cases ns rule: rev_cases) (auto simp: bump_kept_def split: if_splits)
  moreover have "Num 0 < Num 1" by (simp add: less_segment_def)
  ultimately show ?thesis using True unfolding first_less_def by (intro exI[of _ 0]) (simp add: pad_def)
next
  case False
  obtain k where k: "k < length ns" "bump_kept ns = take (Suc k) ns"
  proof (cases "length ns > 1")
    case True
    then show ?thesis using that[of "length ns - 2"] by (simp add: bump_kept_def butlast_conv_take Suc_diff_Suc numeral_2_eq_2)
  next
    case f: False
    then show ?thesis using that[of 0] False by (cases ns) (simp_all add: bump_kept_def)
  qed
  then have last: "last (bump_kept ns) = ns ! k" and bl: "butlast (bump_kept ns) = take k ns"
    by (simp_all add: take_Suc_conv_app_nth)
  have less: "ns ! k < ns ! k + 1"
    using assms False last word_less_inc by simp
  have "pad (map Num ns) k < pad (map Num (take k ns @ [ns ! k + 1])) k"
    using less k(1) by (simp add: pad_def nth_append less_segment_def)
  moreover have "\<forall>j < k. pad (map Num ns) j = pad (map Num (take k ns @ [ns ! k + 1])) j"
    using k(1) by (auto simp: pad_def nth_append)
  ultimately show ?thesis using False unfolding first_less_def last bl by auto
qed

lemma release_below_bump:
  assumes "v = version_of t" "bump_fits v"
  shows "first_less (pad (vcanonical (release v))) (pad (vcanonical (bump v)))"
proof -
  obtain ns where ns: "trim_letters (vsegments v) = map Num ns" by (rule trim_letters_nums)
  have "first_less (pad (map Num ns)) (pad (vcanonical (bump v)))"
    using first_less_bumped[of ns] assms(2) ns unfolding bump_nums[OF ns] pad_from_nums bump_fits_def by blast
  then show ?thesis using pad_release[OF assms(1) ns] first_less_trans by metis
qed

subsection \<open>Correct version texts\<close>

lemma list_allD: "list_all P xs \<Longrightarrow> x \<in> set xs \<Longrightarrow> P x"
  by (simp add: list_all_iff)

lemma correct_split:
  assumes "is_correct t" "t \<noteq> []"
  obtains head first parts where "split_on 46 head = first # parts" "first \<noteq> []" "list_all is_ascii_digit first"
    "list_all (\<lambda>p. list_all is_ascii_alphanumeric p) parts"
    "t = head \<or> (\<exists>tail. t = head @ 45 # tail \<and> (\<forall>c \<in> set tail. is_ascii_alphanumeric c \<or> c = 45 \<or> c = 46))"
proof (cases "split_once 45 t")
  case None
  then show ?thesis using assms that[of t]
    by (auto simp: is_correct_def list_all_iff split: list.splits)
next
  case (Some x)
  obtain h tail where x: "x = (h, tail)" by (cases x)
  have p: "list_all (\<lambda>p. p \<noteq> [] \<and> list_all (\<lambda>b. is_ascii_alphanumeric b \<or> b = 45) p) (split_on 46 tail)"
    using assms Some x by (simp add: is_correct_def)
  have "is_ascii_alphanumeric c \<or> c = 45 \<or> c = 46" if "c \<in> set tail" for c
    using that set_join[of "[46]" "split_on 46 tail"] list_allD[OF p] by (auto simp: join_split list_all_iff)
  moreover have "t = h @ 45 # tail" using split_once_Some Some x by blast
  ultimately show ?thesis using assms that[of h] Some x
    by (auto simp: is_correct_def list_all_iff split: list.splits)
qed

lemma correct_chars:
  assumes "is_correct t" "c \<in> set t"
  shows "is_ascii_alphanumeric c \<or> c = 45 \<or> c = 46"
proof -
  have "t \<noteq> []" using assms(2) by auto
  then obtain head first parts where H: "split_on 46 head = first # parts" "list_all is_ascii_digit first"
    "list_all (\<lambda>p. list_all is_ascii_alphanumeric p) parts"
    "t = head \<or> (\<exists>tail. t = head @ 45 # tail \<and> (\<forall>c \<in> set tail. is_ascii_alphanumeric c \<or> c = 45 \<or> c = 46))"
    using correct_split[OF assms(1)] by metis
  have "is_ascii_alphanumeric c \<or> c = 46" if "c \<in> set head" for c
  proof -
    have "join [46] (first # parts) = head" using join_split[of 46 head] H(1) by simp
    then have "set head \<subseteq> (\<Union>w \<in> set (first # parts). set w) \<union> {46}"
      using set_join[of "[46]" "first # parts"] by simp
    then show ?thesis using that H(2,3) by (auto simp: list_all_iff)
  qed
  moreover have "c \<in> set head \<or> c = 45 \<or> is_ascii_alphanumeric c \<or> c = 46"
    using H(4) assms(2) by (elim disjE exE conjE) auto
  ultimately show ?thesis by blast
qed

lemma correct_hd:
  assumes "is_correct t" "t \<noteq> []"
  shows "is_ascii_digit (hd t)"
proof -
  obtain head first parts where H: "split_on 46 head = first # parts" "first \<noteq> []" "list_all is_ascii_digit first"
    "t = head \<or> (\<exists>tail. t = head @ 45 # tail)"
    using correct_split[OF assms] by metis
  have "head = join [46] (first # parts)" using join_split[of 46 head] H(1) by simp
  then have "hd head = hd first" "head \<noteq> []" using H(2) by (cases parts; simp)+
  then show ?thesis using H(3,4) H(2) by (cases first) auto
qed

lemma correct_trimmed:
  assumes "is_correct t"
  shows "trimmed t"
proof -
  have "\<not> is_white_space c" if "c \<in> set t" for c
  proof -
    have "\<not> is_white_space 45" "\<not> is_white_space 46" by (simp_all add: is_white_space_def)
    then show ?thesis using correct_chars[OF assms that] by auto
  qed
  then show ?thesis by (simp add: trimmed_def)
qed

text \<open>What the parser returns can be parsed again from its text.\<close>

definition wf_version :: "version \<Rightarrow> bool" where
  "wf_version v \<longleftrightarrow> vtext v \<noteq> [] \<and> is_correct (vtext v) \<and> v = version_of (vtext v)"

lemma is_correct_zero: "is_correct (lit ''0'')"
  by (simp add: lit_def is_correct_def is_ascii_digit_def)

lemma version_parse_wf: "version_parse t = Inr v \<Longrightarrow> wf_version v"
  using is_correct_zero
  by (auto simp: version_parse_def Let_def wf_version_def version_of_def lit_zero split: if_splits)

lemma wf_version_parse: "wf_version v \<Longrightarrow> version_parse (vtext v) = Inr v"
  by (simp add: version_parse_def Let_def wf_version_def trim_trimmed correct_trimmed)

subsection \<open>Requirements\<close>

lemma op_parse_str: "op_parse (op_str op) = Some op"
  by (cases op) (simp_all add: op_parse_def lit_def)

lemma op_str_chars: "op_str op \<noteq> [] \<and> trimmed (op_str op) \<and> (\<forall>c \<in> set (op_str op). \<not> is_ascii_digit c \<and> c \<noteq> 44 \<and> \<not> is_white_space c)"
  by (cases op) (simp_all add: lit_def trimmed_def is_white_space_def is_ascii_digit_def)

lemma parse_clause_text:
  assumes "wf_version (snd c)"
  shows "parse_clause (clause_text c) = Inr c"
proof -
  let ?o = "op_str (fst c)" and ?t = "vtext (snd c)"
  have nd: "list_all (\<lambda>x. \<not> is_ascii_digit x) (?o @ [32])"
    using op_str_chars[of "fst c"] by (simp add: list_all_iff is_ascii_digit_def)
  have hd: "?t = [] \<or> \<not> \<not> is_ascii_digit (hd ?t)" using correct_hd[of ?t] assms by (simp add: wf_version_def)
  have ct: "clause_text c = (?o @ [32]) @ ?t" by (simp add: clause_text_def lit_def)
  have "split_at_find is_ascii_digit (clause_text c) = (?o @ [32], ?t)"
    unfolding split_at_find_def ct using takeWhile_block[OF nd hd] by simp
  moreover have "trim (?o @ [32]) = ?o" using op_str_chars[of "fst c"] trim_space_right by blast
  ultimately show ?thesis
    using op_str_chars[of "fst c"] op_parse_str[of "fst c"] wf_version_parse[OF assms]
    by (simp add: parse_clause_def)
qed

lemma clause_text_shape:
  assumes "wf_version (snd c)"
  shows "44 \<notin> set (clause_text c) \<and> trim (clause_text c) = clause_text c \<and> clause_text c \<noteq> []"
proof -
  let ?t = "vtext (snd c)"
  have "c' \<noteq> 44 \<and> \<not> is_white_space c'" if "c' \<in> set ?t" for c'
    using correct_chars[of ?t c'] assms that
    by (auto simp: wf_version_def is_white_space_def is_ascii_alphanumeric_def is_ascii_digit_def is_ascii_alphabetic_def)
  then show ?thesis
    using op_str_chars[of "fst c"] assms
    by (auto simp: clause_text_def lit_def trimmed_def wf_version_def intro!: trim_trimmed)
qed

lemma parse_clauses_text:
  assumes "\<forall>c \<in> set r. wf_version (snd c)"
  shows "parse_clauses (map (\<lambda>c. 32 # clause_text c) r) = Inr r"
  using assms by (induction r) (auto simp: clause_text_shape parse_clause_text)

lemma split_requirement_text:
  assumes "\<forall>c \<in> set (c # r). wf_version (snd c)"
  shows "split_on 44 (requirement_text (c # r)) = clause_text c # map (\<lambda>c. 32 # clause_text c) r"
  using assms
proof (induction r arbitrary: c)
  case Nil
  then show ?case using clause_text_shape[of c] by (simp add: requirement_text_def split_on_none)
next
  case (Cons d r)
  have rt: "requirement_text (c # d # r) = clause_text c @ 44 # 32 # requirement_text (d # r)"
    by (simp add: requirement_text_def lit_def)
  have "split_on 44 (32 # requirement_text (d # r)) = (32 # clause_text d) # map (\<lambda>c. 32 # clause_text c) r"
    using Cons.IH[of d] Cons.prems by simp
  then show ?case unfolding rt using clause_text_shape[of c] Cons.prems by (simp add: split_on_append)
qed

lemma parse_clauses_wf: "parse_clauses ps = Inr r \<Longrightarrow> \<forall>c \<in> set r. wf_version (snd c)"
proof (induction ps arbitrary: r)
  case (Cons p ps)
  show ?case
  proof (cases "trim p = []")
    case True
    then show ?thesis using Cons by simp
  next
    case False
    then obtain c cs where C: "parse_clause (trim p) = Inr c" "parse_clauses ps = Inr cs" "r = c # cs"
      using Cons.prems by (auto simp: Let_def split: sum.splits)
    have "wf_version (snd c)" using C(1) version_parse_wf
      by (auto simp: parse_clause_def Let_def split: prod.splits sum.splits option.splits if_splits)
    then show ?thesis using Cons.IH[OF C(2)] C(3) by simp
  qed
qed simp

subsection \<open>Properties\<close>

text \<open>
  C20. The ordering of versions is a total order, and equality is equality of the canonical segments, so
  that it agrees with the hash: reflexive, transitive, total, reversing when the arguments are swapped;
  two parsed versions compare equal exactly when their canonical forms are the same list.
\<close>

theorem version_total_order:
  "version_cmp u u = Equal \<and>
   (version_cmp u v = Less \<longrightarrow> version_cmp v w = Less \<longrightarrow> version_cmp u w = Less) \<and>
   (version_cmp u v = Equal \<longrightarrow> version_cmp u w = version_cmp v w) \<and>
   (version_cmp u v = Less \<longleftrightarrow> version_cmp v u = Greater) \<and>
   (wf_version u \<longrightarrow> wf_version v \<longrightarrow> (version_cmp u v = Equal \<longleftrightarrow> vcanonical u = vcanonical v))"
proof (intro conjI impI)
  show "version_cmp u u = Equal" by (simp add: version_cmp_def cmp_padded_iffs)
  show "version_cmp u w = Less" if "version_cmp u v = Less" "version_cmp v w = Less"
    using that first_less_trans unfolding version_cmp_def cmp_padded_Less by blast
  show "version_cmp u w = version_cmp v w" if "version_cmp u v = Equal"
    using that cmp_padded_iffs[of "vcanonical u" "vcanonical w"] cmp_padded_iffs[of "vcanonical v" "vcanonical w"]
    unfolding version_cmp_def cmp_padded_Equal by (metis (full_types) ordering.exhaust)
  show "version_cmp u v = Less \<longleftrightarrow> version_cmp v u = Greater"
    by (simp add: version_cmp_def cmp_padded_iffs)
  assume "wf_version u" "wf_version v"
  then have "no_trailing_zero (vcanonical u)" "no_trailing_zero (vcanonical v)"
    using canonical_no_trailing_zero unfolding wf_version_def version_of_def by (metis version.select_convs(3))+
  then show "version_cmp u v = Equal \<longleftrightarrow> vcanonical u = vcanonical v"
    unfolding version_cmp_def cmp_padded_Equal using pad_inj by metis
qed

theorem version_total_order_witness:
  "wf_version (version_of [49, 46, 48]) \<and> wf_version (version_of [49]) \<and>
   version_cmp (version_of [49, 46, 48]) (version_of [49]) = Equal \<and>
   vcanonical (version_of [49, 46, 48]) = vcanonical (version_of [49])"
proof -
  have w: "wf_version (version_of [49, 46, 48])" "wf_version (version_of [49])"
    by (simp_all add: wf_version_def version_of_def is_correct_def is_ascii_digit_def)
  have s: "scan [49] = [Num 1]" "scan [48] = [Num 0]" "scan [49, 46, 48] = [Num 1, Num 0]"
    using scan_dec[of "[]" 1] scan_dec[of "[]" 0] scan_dec[of "[46, 48]" 1]
    by (simp_all add: dec.simps scan_dot is_ascii_digit_def)
  have "vcanonical (version_of [49, 46, 48]) = vcanonical (version_of [49])"
    using canonical_nums[of "[1, 0]"] canonical_nums[of "[1]"] drop_trailing_zeros_snoc[of "[Num 1]" "Num 0"]
      by (simp add: version_of_def s is_zero_def)
  then show ?thesis using version_total_order[of "version_of [49, 46, 48]" "version_of [49]"] w by blast
qed

text \<open>
  A pre-release is older than the release it leads to: dropping the pre-release part of a version
  that has a letter gives a strictly greater one, and no version is greater than its release.
\<close>

theorem prerelease_below_release:
  assumes "wf_version v"
  shows "(is_prerelease v \<longrightarrow> version_cmp v (release v) = Less) \<and> version_cmp v (release v) \<noteq> Greater"
proof (intro conjI impI)
  have v: "v = version_of (vtext v)" using assms by (simp add: wf_version_def)
  then show "version_cmp v (release v) \<noteq> Greater"
    using le_release[OF v] first_less_trans first_less_irrefl unfolding version_cmp_def cmp_padded_Greater by metis
  assume pre: "is_prerelease v"
  obtain ns where ns: "trim_letters (vsegments v) = map Num ns"
    "vsegments v = map Num ns \<or> (\<exists>t rest. vsegments v = map Num ns @ Text t # rest)"
    by (rule trim_letters_nums)
  have seg: "vsegments v = scan (vtext v)" "vcanonical v = canonical (vsegments v)"
    using arg_cong[OF v, of vsegments] arg_cong[OF v, of vcanonical] by (simp_all add: version_of_def)
  have "\<exists>x \<in> set (vsegments v). is_text x"
    using scan_text_if_alpha pre seg(1) by (simp add: is_prerelease_def)
  then obtain t rest where "vsegments v = map Num ns @ Text t # rest" using ns(2) by auto
  then have "first_less (pad (vcanonical v)) (pad (map Num ns))" using canonical_text_less seg(2) by simp
  moreover have "pad (vcanonical (release v)) = pad (map Num ns)"
    using pre ns(1) by (simp add: release_def pad_from_nums)
  ultimately show "version_cmp v (release v) = Less" by (simp add: version_cmp_def cmp_padded_Less)
qed

theorem prerelease_below_release_witness:
  "version_cmp (version_of (lit ''1.a'')) (release (version_of (lit ''1.a''))) = Less"
proof -
  let ?v = "version_of (lit ''1.a'')"
  have "wf_version ?v"
    by (simp add: wf_version_def version_of_def lit_def is_correct_def is_ascii_digit_def
        is_ascii_alphanumeric_def is_ascii_alphabetic_def)
  moreover have "is_prerelease ?v"
    by (simp add: is_prerelease_def version_of_def lit_def is_ascii_alphabetic_def)
  ultimately show ?thesis using prerelease_below_release by blast
qed

text \<open>
  C33. The pessimistic operator: what \<^verbatim>\<open>~> v\<close> accepts is at least \<open>v\<close> and below the next version up
  (\<^verbatim>\<open>bump\<close>), pre-releases of that one excluded too; and \<open>v\<close> itself is accepted as long as the incremented
  segment is below the \<^verbatim>\<open>u64\<close> limit.
\<close>

theorem twiddle_range:
  assumes "wf_version v" "wf_version w"
  shows "(satisfied_by [(OpTwiddle, v)] w \<longrightarrow>
      version_cmp w v \<noteq> Less \<and> version_cmp w (bump v) = Less \<and> version_cmp (release w) (bump v) = Less) \<and>
    (bump_fits v \<longrightarrow> satisfied_by [(OpTwiddle, v)] v)"
proof (intro conjI impI)
  assume s: "satisfied_by [(OpTwiddle, v)] w"
  then show r: "version_cmp (release w) (bump v) = Less" and "version_cmp w v \<noteq> Less"
    by (simp_all add: satisfied_by_def clause_holds_def)
  have "w = version_of (vtext w)" using assms(2) by (simp add: wf_version_def)
  then show "version_cmp w (bump v) = Less"
    using r le_release[of w "vtext w"] first_less_trans unfolding version_cmp_def cmp_padded_Less by metis
next
  assume f: "bump_fits v"
  have v: "v = version_of (vtext v)" using assms(1) by (simp add: wf_version_def)
  have "version_cmp (release v) (bump v) = Less"
    using release_below_bump[OF v f] by (simp add: version_cmp_def cmp_padded_Less)
  moreover have "version_cmp v v \<noteq> Less" by (simp add: version_cmp_def cmp_padded_iffs first_less_irrefl)
  ultimately show "satisfied_by [(OpTwiddle, v)] v" by (simp add: satisfied_by_def clause_holds_def)
qed

theorem twiddle_range_witness: "satisfied_by [(OpTwiddle, version_of [55])] (version_of [55])"
proof -
  let ?v = "version_of [55]"
  have w: "wf_version ?v" by (simp add: wf_version_def version_of_def is_correct_def is_ascii_digit_def)
  have "scan [55] = [Num 7]" using scan_dec[of "[]" 7] by (simp add: dec.simps)
  then have "trim_letters (vsegments ?v) = [Num 7]"
    using split_point_nums[of "[7]"] by (simp add: version_of_def trim_letters_def)
  then have "bump_fits ?v" by (auto simp: bump_fits_def bump_kept_def)
  then show ?thesis using twiddle_range[OF w w] by blast
qed

text \<open>
  The increment of \<^verbatim>\<open>bump\<close> wraps: for a one-segment version \<open>n\<close> the next version is \<open>n + 1\<close> in 64 bits,
  so that the largest segment bumps to version \<open>0\<close> and \<^verbatim>\<open>~>\<close> of it accepts nothing, itself included.
\<close>

theorem bump_wraps:
  "bump (version_of (dec (unat (n :: 64 word)))) = version_of (dec (unat (n + 1))) \<and>
   vtext (bump (version_of (dec (unat (- 1 :: 64 word))))) = lit ''0'' \<and>
   \<not> satisfied_by [(OpTwiddle, version_of (dec (unat (- 1 :: 64 word))))] (version_of (dec (unat (- 1 :: 64 word))))"
proof -
  have seg: "vsegments (version_of (dec (unat m))) = [Num m]" for m :: "64 word"
    using scan_dec[of "[]" m] by (simp add: version_of_def)
  have tl: "trim_letters (vsegments (version_of (dec (unat m)))) = map Num [m]" for m :: "64 word"
    unfolding seg using split_point_nums[of "[m]"] by (simp add: trim_letters_def)
  have b: "bump (version_of (dec (unat m))) = version_of (dec (unat (m + 1)))" for m :: "64 word"
    using bump_nums[OF tl[of m]] by (simp add: bump_kept_def from_segments_def)
  let ?m = "version_of (dec (unat (- 1 :: 64 word)))"
  have z: "bump ?m = version_of (lit ''0'')" 
  proof -
    have "dec (unat (- 1 + 1 :: 64 word)) = lit ''0''" by (simp add: lit_zero dec.simps[of 0])
    then show ?thesis using b[of "- 1"] by simp
  qed
  have "\<not> is_prerelease ?m"
    using dec_digits[of "unat (- 1 :: 64 word)"] by (auto simp: is_prerelease_def version_of_def list_ex_iff list_all_iff)
  then have "release ?m = ?m" by (simp add: release_def)
  moreover have "pad (vcanonical (version_of (lit ''0''))) = pad []"
    using canonical_nums[of "[0]"] by (auto simp: version_of_def lit_zero scan_zero pad_def fun_eq_iff)
  moreover have "\<not> first_less (pad (vcanonical ?m)) (pad [])"
  proof -
    have "pad (vcanonical ?m) = pad [Num (- 1)]"
      using canonical_nums[of "[- 1]"] seg[of "- 1"] by (simp add: version_of_def)
    then show ?thesis by (auto simp: first_less_def pad_def less_segment_def split: if_splits)
  qed
  ultimately have "version_cmp (release ?m) (bump ?m) \<noteq> Less"
    by (simp only: z version_cmp_def cmp_padded_Less) simp
  then show ?thesis using b z by (simp add: satisfied_by_def clause_holds_def version_of_def)
qed

text \<open>
  Requirements round-trip through their text: printing what the parser returned and parsing it again
  gives the same clauses with the same versions.
\<close>

theorem requirement_roundtrip:
  assumes "requirement_parse t = Inr r"
  shows "requirement_parse (requirement_text r) = Inr r"
proof -
  have w: "\<forall>c \<in> set r. wf_version (snd c)" using parse_clauses_wf assms by (simp add: requirement_parse_def)
  show ?thesis
  proof (cases r)
    case Nil
    then show ?thesis by (simp add: requirement_parse_def requirement_text_def trim_def trim_start_def trim_end_def)
  next
    case (Cons c cs)
    then have "wf_version (snd c)" "\<forall>c \<in> set (c # cs). wf_version (snd c)" "\<forall>c \<in> set cs. wf_version (snd c)"
      using w by auto
    then show ?thesis
      unfolding requirement_parse_def Cons
      using split_requirement_text[of c cs] parse_clauses_text[of cs] clause_text_shape[of c] parse_clause_text[of c]
      by simp
  qed
qed

theorem requirement_roundtrip_witness:
  "requirement_parse (requirement_text [(OpEq, version_of [55])]) = Inr [(OpEq, version_of [55])]"
proof -
  have "requirement_parse [55] = Inr [(OpEq, version_of [55])]"
    by (simp add: requirement_parse_def parse_clause_def split_at_find_def version_parse_def is_correct_def
        trim_def trim_start_def trim_end_def is_white_space_def is_ascii_digit_def)
  then show ?thesis by (rule requirement_roundtrip)
qed

end
