(* ===== verification/GemPlatform.thy ===== *)
theory GemPlatform
  imports GemVersion
begin

text \<open>
  \<^verbatim>\<open>Gem::Platform\<close> (\<^verbatim>\<open>crates/zeo-gem/src/platform.rs\<close>): parsing a platform string, the target-triple table,
  printing, and whether a gem built for one platform runs on another.
\<close>

subsection \<open>Parsing and printing\<close>

datatype platform = PlatRuby | PlatSpecific "str option" str "str option"

definition VERSIONED_OS :: "str list" where
  "VERSIONED_OS =
     [lit ''darwin'', lit ''freebsd'', lit ''netbsd'', lit ''openbsd'', lit ''dragonfly'', lit ''solaris'',
      lit ''aix'', lit ''hpux'', lit ''mingw'']"

definition is_os_version :: "str \<Rightarrow> bool" where
  "is_os_version part \<longleftrightarrow>
     part \<noteq> [] \<and> list_all (\<lambda>b. is_ascii_digit b \<or> b = 46) part \<and> list_ex is_ascii_digit part"

definition is_i386 :: "str \<Rightarrow> bool" where
  "is_i386 cpu \<longleftrightarrow>
     byte_len cpu = 4 \<and> (case cpu of [a, b, c, d] \<Rightarrow> a = 105 \<and> is_ascii_digit b \<and> c = 56 \<and> d = 54 | _ \<Rightarrow> False)"

definition split_glued_os :: "str \<Rightarrow> str \<times> str option" where
  "split_glued_os t =
     (let (name, digits) = split_at_find is_ascii_digit t
      in if digits = [] \<or> name \<notin> set VERSIONED_OS then (t, None) else (name, Some digits))"

definition split_os :: "str list \<Rightarrow> str \<times> str option" where
  "split_os parts =
     (case parts of
        [] \<Rightarrow> ([], None)
      | [one] \<Rightarrow>
          (case split_once 45 one of
             Some (os, ver) \<Rightarrow> (os, Some ver)
           | None \<Rightarrow> split_glued_os one)
      | os # rest \<Rightarrow> (os, Some (join (lit ''-'') rest)))"

definition glue_libc :: "str list \<Rightarrow> str list" where
  "glue_libc parts =
     (if length parts > 2 \<and> \<not> is_os_version (last parts)
      then (let extra = last parts; ps = butlast parts
            in butlast ps @ [last ps @ lit ''-'' @ extra])
      else parts)"

definition fold_cpu :: "str \<Rightarrow> str" where
  "fold_cpu cpu = (if is_i386 cpu then lit ''x86'' else cpu)"

definition platform_parse :: "str \<Rightarrow> platform" where
  "platform_parse text0 =
     (let t = trim text0 in
      if t = [] \<or> t = lit ''ruby'' then PlatRuby
      else let parts = glue_libc (split_on 45 t);
               (cpu, rest) = (if length parts = 1 then (None, parts) else (Some (fold_cpu (hd parts)), tl parts));
               (os, ver) = split_os rest
           in PlatSpecific cpu os ver)"

definition platform_text :: "platform \<Rightarrow> str" where
  "platform_text p =
     (case p of
        PlatRuby \<Rightarrow> lit ''ruby''
      | PlatSpecific cpu os ver \<Rightarrow>
          (case cpu of None \<Rightarrow> [] | Some c \<Rightarrow> c @ lit ''-'') @ os
            @ (case ver of None \<Rightarrow> [] | Some v \<Rightarrow> lit ''-'' @ v))"

definition is_ruby :: "platform \<Rightarrow> bool" where
  "is_ruby p \<longleftrightarrow> p = PlatRuby"

definition from_target_triple :: "str \<Rightarrow> platform" where
  "from_target_triple triple =
     platform_parse
       (if triple = lit ''aarch64-apple-darwin'' then lit ''arm64-darwin''
        else if triple = lit ''x86_64-apple-darwin'' then lit ''x86_64-darwin''
        else if triple = lit ''x86_64-unknown-linux-gnu'' then lit ''x86_64-linux''
        else if triple = lit ''aarch64-unknown-linux-gnu'' then lit ''aarch64-linux''
        else if triple = lit ''x86_64-unknown-linux-musl'' then lit ''x86_64-linux-musl''
        else if triple = lit ''aarch64-unknown-linux-musl'' then lit ''aarch64-linux-musl''
        else triple)"

subsection \<open>Matching\<close>

definition any_cpu :: "str option \<Rightarrow> bool" where
  "any_cpu c \<longleftrightarrow> c = None \<or> c = Some (lit ''universal'')"

definition starts_with :: "str \<Rightarrow> str \<Rightarrow> bool" where
  "starts_with p s \<longleftrightarrow> take (length p) s = p"

definition cpu_ok :: "str option \<Rightarrow> str option \<Rightarrow> bool" where
  "cpu_ok a b \<longleftrightarrow>
     any_cpu a \<or> any_cpu b \<or> a = b \<or>
     (a = Some (lit ''arm'') \<and> (case b of None \<Rightarrow> False | Some c \<Rightarrow> starts_with (lit ''arm'') c))"

definition platform_matches :: "platform \<Rightarrow> platform \<Rightarrow> bool" where
  "platform_matches gem host =
     (case (gem, host) of
        (PlatRuby, _) \<Rightarrow> True
      | (PlatSpecific _ _ _, PlatRuby) \<Rightarrow> False
      | (PlatSpecific a_cpu a_os a_ver, PlatSpecific b_cpu b_os b_ver) \<Rightarrow>
          if \<not> cpu_ok a_cpu b_cpu \<or> a_os \<noteq> b_os then False
          else if a_os = lit ''linux'' \<and>
            (case b_ver of None \<Rightarrow> False
             | Some b \<Rightarrow> b = lit ''gnu'' @ (case a_ver of None \<Rightarrow> [] | Some a \<Rightarrow> a)) then True
          else (case (a_ver, b_ver) of
                  (None, _) \<Rightarrow> True
                | (_, None) \<Rightarrow> True
                | (Some a, Some b) \<Rightarrow> a = b))"

subsection \<open>Lemmas\<close>

lemma lit_dash: "lit ''-'' = [45]"
  by (simp add: lit_def)

lemma join_snoc: "xs \<noteq> [] \<Longrightarrow> join sep (xs @ [y]) = join sep xs @ sep @ y"
proof (induction xs)
  case (Cons x xs)
  then show ?case by (cases "xs = []") (auto simp: join_Cons)
qed simp

text \<open>With at least three parts the version is everything after the OS, however it is spelled.\<close>

lemma glue_shape:
  assumes "parts = c # os # tail" "tail \<noteq> []"
  shows "(\<exists>rest. glue_libc parts = c # os # rest \<and> rest \<noteq> [] \<and> join [45] rest = join [45] tail)
    \<or> (\<exists>x. tail = [x] \<and> glue_libc parts = [c, os @ [45] @ x])"
proof (cases "is_os_version (last parts)")
  case True
  then show ?thesis using assms by (auto simp: glue_libc_def)
next
  case False
  obtain ts x where t: "tail = ts @ [x]" using assms(2) by (cases tail rule: rev_cases) auto
  show ?thesis
  proof (cases ts rule: rev_cases)
    case Nil
    then show ?thesis using assms t False by (simp add: glue_libc_def lit_dash)
  next
    case (snoc us y)
    have "glue_libc parts = c # os # (us @ [y @ [45] @ x])"
      using assms t False snoc by (simp add: glue_libc_def lit_dash butlast_append)
    moreover have "join [45] (us @ [y @ [45] @ x]) = join [45] tail"
      unfolding t snoc using join_snoc[of "us @ [y]" "[45]" x] by (cases "us = []") (simp_all add: join_snoc)
    ultimately show ?thesis by auto
  qed
qed

lemma split_os_tail:
  assumes "rest \<noteq> []"
  shows "split_os (os # rest) = (os, Some (join [45] rest))"
  using assms by (cases rest) (simp_all add: split_os_def lit_dash)

lemma parse_three:
  assumes "split_on 45 t = c # os # tail" "tail \<noteq> []" "trimmed t"
  shows "platform_parse t = PlatSpecific (Some (fold_cpu c)) os (Some (join [45] tail))"
proof -
  have os: "45 \<notin> set os" using split_on_pieces[of os 45 t] assms(1) by simp
  have ne: "t \<noteq> []" "t \<noteq> lit ''ruby''" using assms(1,2) by (auto simp: lit_def)
  have g: "length (glue_libc (split_on 45 t)) \<noteq> 1 \<and> hd (glue_libc (split_on 45 t)) = c \<and>
      split_os (tl (glue_libc (split_on 45 t))) = (os, Some (join [45] tail))"
    using glue_shape[OF assms(1,2)]
  proof
    assume "\<exists>rest. glue_libc (split_on 45 t) = c # os # rest \<and> rest \<noteq> [] \<and> join [45] rest = join [45] tail"
    then show ?thesis by (auto simp: split_os_tail)
  next
    assume "\<exists>x. tail = [x] \<and> glue_libc (split_on 45 t) = [c, os @ [45] @ x]"
    then show ?thesis using os by (auto simp: split_os_def split_once_append)
  qed
  then show ?thesis using ne trim_trimmed[OF assms(3)] by (simp add: platform_parse_def Let_def)
qed

lemma parse_two:
  assumes "split_on 45 t = [c, os]" "trimmed t"
  shows "platform_parse t = PlatSpecific (Some (fold_cpu c)) (fst (split_glued_os os)) (snd (split_glued_os os))"
proof -
  have "45 \<notin> set os" using split_on_pieces[of os 45 t] assms(1) by simp
  then have "split_once 45 os = None" by (simp add: split_once_None)
  moreover have ne: "t \<noteq> []" "t \<noteq> lit ''ruby''" using assms(1) by (auto simp: lit_def)
  ultimately show ?thesis using trim_trimmed[OF assms(2)] assms(1)
    by (simp add: platform_parse_def glue_libc_def split_os_def split_beta)
qed

lemma fold_cpu_idem: "fold_cpu (fold_cpu c) = fold_cpu c"
  by (auto simp: fold_cpu_def is_i386_def lit_def)

lemma fold_cpu_chars: "45 \<notin> set c \<Longrightarrow> 45 \<notin> set (fold_cpu c)"
  by (auto simp: fold_cpu_def lit_def)

lemma fold_cpu_hd: "fold_cpu c = [] \<longleftrightarrow> c = []"
  by (auto simp: fold_cpu_def is_i386_def lit_def byte_len_def)

lemma trimmed_ends:
  "trimmed (a @ 45 # b) \<longleftrightarrow> (a = [] \<or> \<not> is_white_space (hd a)) \<and> (b = [] \<or> \<not> is_white_space (last b))"
  by (cases a) (auto simp: trimmed_def is_white_space_def)

lemma fold_cpu_head: "c = [] \<or> \<not> is_white_space (hd c) \<Longrightarrow> fold_cpu c = [] \<or> \<not> is_white_space (hd (fold_cpu c))"
  by (auto simp: fold_cpu_def lit_def is_white_space_def)

text \<open>Printing and parsing again a platform with a cpu.\<close>

lemma text_three:
  assumes s: "split_on 45 t = c # os # tail" "tail \<noteq> []" and t: "trimmed t"
  shows "platform_parse (fold_cpu c @ [45] @ os @ [45] @ join [45] tail)
    = PlatSpecific (Some (fold_cpu c)) os (Some (join [45] tail))"
proof -
  let ?u = "fold_cpu c @ [45] @ os @ [45] @ join [45] tail"
  have pieces: "45 \<notin> set w" if "w \<in> set (c # os # tail)" for w
    using split_on_pieces[of w 45 t] s(1) that by simp
  have jt: "t = c @ 45 # os @ 45 # join [45] tail"
    using join_split[of 45 t] s by (simp add: join_Cons)
  have ju: "?u = join [45] (fold_cpu c # os # tail)" using s(2) by (simp add: join_Cons)
  have "split_on 45 ?u = fold_cpu c # os # tail"
    unfolding ju using pieces fold_cpu_chars by (intro split_join) auto
  moreover have "trimmed ?u"
    using t fold_cpu_head[of c] unfolding jt by (simp add: trimmed_ends[of _ "os @ 45 # _"])
  ultimately show ?thesis using parse_three[of ?u "fold_cpu c" os tail] s(2) by (simp add: fold_cpu_idem)
qed

lemma text_two:
  assumes s: "split_on 45 t = [c, os]" and t: "trimmed t" and g: "split_glued_os os = (os, None)"
  shows "platform_parse (fold_cpu c @ [45] @ os) = PlatSpecific (Some (fold_cpu c)) os None"
proof -
  let ?u = "fold_cpu c @ [45] @ os"
  have pieces: "45 \<notin> set c" "45 \<notin> set os" using split_on_pieces[of _ 45 t] s by auto
  have jt: "t = c @ 45 # os" using join_split[of 45 t] s by simp
  have "split_on 45 ?u = [fold_cpu c, os]"
    using pieces fold_cpu_chars split_join[of "[fold_cpu c, os]" 45] by simp
  moreover have "trimmed ?u" using t fold_cpu_head[of c] unfolding jt by (simp add: trimmed_ends)
  ultimately show ?thesis using parse_two[of ?u "fold_cpu c" os] g by (simp add: fold_cpu_idem)
qed

lemma split_glued_cases:
  "split_glued_os os = (os, None) \<or>
   (\<exists>name digits. split_glued_os os = (name, Some digits) \<and> os = name @ digits \<and> digits \<noteq> [])"
  by (auto simp: split_glued_os_def split_at_find_def Let_def)

lemma trim_parse: "platform_parse t = platform_parse (trim t)"
  using trim_trimmed[OF trimmed_trim[of t]] by (simp only: platform_parse_def)

lemma parse_one_part:
  assumes "split_on 45 t = [w]" "trimmed t"
  shows "platform_parse t = PlatRuby \<or> (\<exists>os ver. platform_parse t = PlatSpecific None os ver)"
  using assms trim_trimmed[OF assms(2)] by (auto simp: platform_parse_def glue_libc_def Let_def split: prod.split)

lemma platform_text_stable:
  assumes p: "platform_parse t = PlatSpecific (Some cpu) os ver" and t: "trimmed t"
  shows "platform_parse (platform_text (PlatSpecific (Some cpu) os ver)) = PlatSpecific (Some cpu) os ver"
proof -
  obtain c ws where w: "split_on 45 t = c # ws" by (cases "split_on 45 t") auto
  show ?thesis
  proof (cases ws)
    case Nil
    then show ?thesis using parse_one_part[of t c] w t p by auto
  next
    case (Cons o1 tail)
    show ?thesis
    proof (cases "tail = []")
      case False
      have "platform_parse t = PlatSpecific (Some (fold_cpu c)) o1 (Some (join [45] tail))"
        using parse_three[of t c o1 tail] w Cons False t by simp
      then have e: "cpu = fold_cpu c" "os = o1" "ver = Some (join [45] tail)" using p by simp_all
      have "platform_text (PlatSpecific (Some cpu) os ver) = fold_cpu c @ [45] @ o1 @ [45] @ join [45] tail"
        unfolding e by (simp add: platform_text_def lit_dash)
      then show ?thesis using text_three[of t c o1 tail] w Cons False t e by simp
    next
      case True
      then have s: "split_on 45 t = [c, o1]" using w Cons by simp
      have pt: "platform_parse t
          = PlatSpecific (Some (fold_cpu c)) (fst (split_glued_os o1)) (snd (split_glued_os o1))"
        by (rule parse_two[OF s t])
      from split_glued_cases[of o1] show ?thesis
      proof
        assume g: "split_glued_os o1 = (o1, None)"
        then have e: "cpu = fold_cpu c" "os = o1" "ver = None" using p pt by simp_all
        have "platform_text (PlatSpecific (Some cpu) os ver) = fold_cpu c @ [45] @ o1"
          unfolding e by (simp add: platform_text_def lit_dash)
        then show ?thesis using text_two[OF s t g] e by simp
      next
        assume "\<exists>name digits. split_glued_os o1 = (name, Some digits) \<and> o1 = name @ digits \<and> digits \<noteq> []"
        then obtain name digits where g: "split_glued_os o1 = (name, Some digits)" "o1 = name @ digits" "digits \<noteq> []"
          by blast
        then have e: "cpu = fold_cpu c" "os = name" "ver = Some digits" using p pt by simp_all
        let ?u = "fold_cpu c @ [45] @ name @ [45] @ digits"
        have no: "45 \<notin> set c" "45 \<notin> set o1" using split_on_pieces[of _ 45 t] s by auto
        have "split_on 45 ?u = [fold_cpu c, name, digits]"
          using split_join[of "[fold_cpu c, name, digits]" 45] no g(2) fold_cpu_chars by simp
        moreover have "t = c @ 45 # o1" using join_split[of 45 t] s by simp
        then have "trimmed ?u"
          using t fold_cpu_head[of c] g(2,3) by (simp add: trimmed_ends[of _ "name @ 45 # _"] trimmed_ends[of _ "name @ digits"])
        ultimately have "platform_parse ?u = PlatSpecific (Some (fold_cpu c)) name (Some digits)"
          using parse_three[of ?u "fold_cpu c" name "[digits]"] by (simp add: fold_cpu_idem)
        moreover have "platform_text (PlatSpecific (Some cpu) os ver) = ?u"
          unfolding e by (simp add: platform_text_def lit_dash)
        ultimately show ?thesis using e by simp
      qed
    qed
  qed
qed

subsection \<open>Properties\<close>

lemmas platform_eval = platform_parse_def lit_def trim_def trim_start_def trim_end_def is_white_space_def
  glue_libc_def is_os_version_def is_ascii_digit_def split_os_def split_glued_os_def split_at_find_def
  VERSIONED_OS_def fold_cpu_def is_i386_def byte_len_def utf8_len_def

text \<open>
  A platform with a cpu survives printing: parsing the text of a parsed platform gives it back,
  whichever spelling the original had (a glued OS version, a re-joined libc, a folded 32-bit cpu name).
\<close>

theorem platform_roundtrip:
  assumes "platform_parse t = PlatSpecific (Some cpu) os ver"
  shows "platform_parse (platform_text (PlatSpecific (Some cpu) os ver)) = PlatSpecific (Some cpu) os ver"
  using platform_text_stable[of "trim t" cpu os ver] assms trim_parse[of t] trimmed_trim[of t] by simp

theorem platform_roundtrip_witness:
  "platform_parse (platform_text (PlatSpecific (Some (lit ''x86'')) (lit ''darwin'') (Some (lit ''9''))))
     = PlatSpecific (Some (lit ''x86'')) (lit ''darwin'') (Some (lit ''9''))"
proof -
  have "platform_parse (lit ''i386-darwin9'') = PlatSpecific (Some (lit ''x86'')) (lit ''darwin'') (Some (lit ''9''))"
    by (simp add: platform_eval)
  then show ?thesis by (rule platform_roundtrip)
qed

text \<open>
  A platform without a cpu does not survive printing when its OS carries a version: \<^verbatim>\<open>darwin23\<close> prints
  as \<^verbatim>\<open>darwin-23\<close>, which parses as the OS \<^verbatim>\<open>23\<close> on the cpu \<^verbatim>\<open>darwin\<close>, and \<^verbatim>\<open>mingw32\<close> loses its digits too.
\<close>

theorem platform_text_unstable:
  "platform_text (platform_parse (lit ''darwin23'')) = lit ''darwin-23'' \<and>
   platform_parse (lit ''darwin-23'') = PlatSpecific (Some (lit ''darwin'')) (lit ''23'') None \<and>
   platform_parse (lit ''mingw32'') = PlatSpecific None (lit ''mingw'') (Some (lit ''32''))"
  by (simp add: platform_eval platform_text_def)

text \<open>
  Matching: a source gem runs everywhere, a binary gem runs on the platform it was built for, never on a
  host that only runs source gems and never on another OS; a gem without an OS version runs on every version
  of a matching host; and the libc is told apart when both name one.
\<close>

theorem platform_match_laws:
  "platform_matches PlatRuby host \<and> platform_matches p p \<and>
   (platform_matches (PlatSpecific c os v) host \<longrightarrow> (\<exists>c' v'. host = PlatSpecific c' os v' \<and> cpu_ok c c')) \<and>
   (cpu_ok c c' \<longrightarrow> platform_matches (PlatSpecific c os None) (PlatSpecific c' os v')) \<and>
   \<not> platform_matches (PlatSpecific c (lit ''linux'') (Some (lit ''musl''))) (PlatSpecific c' (lit ''linux'') (Some (lit ''gnu'')))"
proof (intro conjI impI)
  show "platform_matches p p"
    by (cases p) (auto simp: platform_matches_def cpu_ok_def split: option.splits)
  show "\<exists>c' v'. host = PlatSpecific c' os v' \<and> cpu_ok c c'" if "platform_matches (PlatSpecific c os v) host"
    using that by (cases host) (auto simp: platform_matches_def split: if_splits)
  show "platform_matches (PlatSpecific c os None) (PlatSpecific c' os v')" if "cpu_ok c c'"
    using that by (simp add: platform_matches_def)
  show "\<not> platform_matches (PlatSpecific c (lit ''linux'') (Some (lit ''musl''))) (PlatSpecific c' (lit ''linux'') (Some (lit ''gnu'')))"
    by (simp add: platform_matches_def lit_def)
qed (simp add: platform_matches_def)

theorem platform_match_laws_witness:
  "platform_matches (PlatSpecific (Some (lit ''arm64'')) (lit ''darwin'') None)
     (PlatSpecific (Some (lit ''arm64'')) (lit ''darwin'') (Some (lit ''23'')))"
proof -
  have "cpu_ok (Some (lit ''arm64'')) (Some (lit ''arm64''))" by (simp add: cpu_ok_def)
  then show ?thesis
    using platform_match_laws[of PlatRuby PlatRuby "Some (lit ''arm64'')" "lit ''darwin''" None
        "Some (lit ''arm64'')" "Some (lit ''23'')"] by blast
qed

text \<open>
  A gem built for musl is accepted on the host the glibc triple names, because that host has no libc in
  its name and a missing host version accepts every gem version; and a 32-bit \<^verbatim>\<open>arm\<close> gem is accepted on an
  \<^verbatim>\<open>arm64\<close> host, whose name starts the same way.
\<close>

theorem foreign_libc_accepted:
  "platform_matches (platform_parse (lit ''x86_64-linux-musl'')) (from_target_triple (lit ''x86_64-unknown-linux-gnu'')) \<and>
   platform_matches (platform_parse (lit ''arm-darwin'')) (from_target_triple (lit ''aarch64-apple-darwin''))"
proof -
  have "from_target_triple (lit ''x86_64-unknown-linux-gnu'') = platform_parse (lit ''x86_64-linux'')"
    "from_target_triple (lit ''aarch64-apple-darwin'') = platform_parse (lit ''arm64-darwin'')"
    by (simp_all add: from_target_triple_def lit_def)
  moreover have "platform_parse (lit ''x86_64-linux-musl'') = PlatSpecific (Some (lit ''x86_64'')) (lit ''linux'') (Some (lit ''musl''))"
    "platform_parse (lit ''x86_64-linux'') = PlatSpecific (Some (lit ''x86_64'')) (lit ''linux'') None"
    "platform_parse (lit ''arm-darwin'') = PlatSpecific (Some (lit ''arm'')) (lit ''darwin'') None"
    "platform_parse (lit ''arm64-darwin'') = PlatSpecific (Some (lit ''arm64'')) (lit ''darwin'') None"
    by (simp_all add: platform_eval)
  ultimately show ?thesis by (simp add: platform_matches_def cpu_ok_def starts_with_def lit_def)
qed

end
