(* ===== verification/GemLockfile.thy ===== *)
theory GemLockfile
  imports GemPlatform
begin

text \<open>
  \<^verbatim>\<open>Gemfile.lock\<close> (\<^verbatim>\<open>crates/zeo-gem/src/lockfile.rs\<close>): the line-by-line reader as a state machine over the
  open section, the row parsers, the printer, and the queries the compiler asks.  Errors are values of
  \<^typ>\<open>gem_error\<close>; a Rust \<^verbatim>\<open>expect\<close> or slice panic is the value \<open>Panic\<close> of \<open>lock_result\<close>.
\<close>

datatype 'a lock_result = Ok 'a | Err gem_error | Panic

definition of_sum :: "gem_error + 'a \<Rightarrow> 'a lock_result" where
  "of_sum r = (case r of Inl e \<Rightarrow> Err e | Inr x \<Rightarrow> Ok x)"

primrec bind_result :: "'a lock_result \<Rightarrow> ('a \<Rightarrow> 'b lock_result) \<Rightarrow> 'b lock_result" where
  "bind_result (Ok x) f = f x"
| "bind_result (Err e) f = Err e"
| "bind_result Panic f = Panic"

subsection \<open>Sections\<close>

datatype section_kind =
    SecGit | SecPath | SecGem | SecPlugin | SecPlatforms | SecDependencies | SecChecksums
  | SecRubyVersion | SecBundledWith

definition section_parse :: "str \<Rightarrow> section_kind option" where
  "section_parse header =
     (if header = lit ''GIT'' then Some SecGit
      else if header = lit ''PATH'' then Some SecPath
      else if header = lit ''GEM'' then Some SecGem
      else if header = lit ''PLUGIN SOURCE'' then Some SecPlugin
      else if header = lit ''PLATFORMS'' then Some SecPlatforms
      else if header = lit ''DEPENDENCIES'' then Some SecDependencies
      else if header = lit ''CHECKSUMS'' then Some SecChecksums
      else if header = lit ''RUBY VERSION'' then Some SecRubyVersion
      else if header = lit ''BUNDLED WITH'' then Some SecBundledWith
      else None)"

primrec section_header :: "section_kind \<Rightarrow> str" where
  "section_header SecGit = lit ''GIT''"
| "section_header SecPath = lit ''PATH''"
| "section_header SecGem = lit ''GEM''"
| "section_header SecPlugin = lit ''PLUGIN SOURCE''"
| "section_header SecPlatforms = lit ''PLATFORMS''"
| "section_header SecDependencies = lit ''DEPENDENCIES''"
| "section_header SecChecksums = lit ''CHECKSUMS''"
| "section_header SecRubyVersion = lit ''RUBY VERSION''"
| "section_header SecBundledWith = lit ''BUNDLED WITH''"

definition is_source :: "section_kind \<Rightarrow> bool" where
  "is_source k \<longleftrightarrow> k \<in> {SecGit, SecPath, SecGem, SecPlugin}"

subsection \<open>The parsed lockfile\<close>

record dependency =
  dep_name :: str
  dep_requirement :: requirement
  pinned :: bool

record spec =
  spec_name :: str
  spec_version :: version
  spec_platform :: platform
  spec_deps :: "dependency list"

record source =
  source_kind :: section_kind
  meta :: "(str \<times> str) list"
  specs :: "spec list"

record digest =
  algorithm :: str
  digest_bytes :: "8 word list"

record checksum =
  sum_name :: str
  sum_version :: version
  sum_platform :: platform
  digests :: "digest list"

record lockfile =
  sources :: "source list"
  platforms :: "str list"
  dependencies :: "dependency list"
  checksums :: "checksum list"
  ruby_version :: "str option"
  bundled_with :: "str option"
  order :: "section_kind list"
  scalar_indent :: nat

definition source_get :: "source \<Rightarrow> str \<Rightarrow> str option" where
  "source_get s key = map_option snd (List.find (\<lambda>kv. fst kv = key) (meta s))"

definition source_remotes :: "source \<Rightarrow> str list" where
  "source_remotes s = map snd (filter (\<lambda>kv. fst kv = lit ''remote'') (meta s))"

definition full_name :: "str \<Rightarrow> version \<Rightarrow> platform \<Rightarrow> str" where
  "full_name name v p =
     (if is_ruby p then name @ lit ''-'' @ vtext v else name @ lit ''-'' @ vtext v @ lit ''-'' @ platform_text p)"

definition sha256 :: "checksum \<Rightarrow> 8 word list option" where
  "sha256 c = map_option digest_bytes (List.find (\<lambda>d. algorithm d = lit ''sha256'') (digests c))"

subsection \<open>Row parsers\<close>

definition parse_dependency :: "str \<Rightarrow> gem_error + dependency" where
  "parse_dependency line0 =
     (let (line, pin) = (case strip_suffix 33 line0 of Some rest \<Rightarrow> (rest, True) | None \<Rightarrow> (line0, False));
          parts = (case split_once_str (lit '' ('') line of
                     Some (head, rest) \<Rightarrow>
                       (case strip_suffix 41 rest of
                          None \<Rightarrow> Inl (NoClosingParen line)
                        | Some inner \<Rightarrow>
                            (case requirement_parse inner of Inl e \<Rightarrow> Inl e | Inr r \<Rightarrow> Inr (head, r)))
                   | None \<Rightarrow> Inr (line, []))
      in case parts of
           Inl e \<Rightarrow> Inl e
         | Inr (name0, r) \<Rightarrow>
             let name = trim name0
             in if name = [] then Inl (NoName line)
                else Inr \<lparr>dep_name = name, dep_requirement = r, pinned = pin\<rparr>)"

fun svp_parts :: "str list \<Rightarrow> str \<Rightarrow> str list \<Rightarrow> str \<times> str list" where
  "svp_parts [] v plat = (v, plat)"
| "svp_parts (p # ps) v plat =
     (if plat = [] \<and> (case p of [] \<Rightarrow> False | c # _ \<Rightarrow> is_ascii_digit c)
      then svp_parts ps (v @ lit ''-'' @ p) plat
      else svp_parts ps v (plat @ [p]))"

definition split_version_platform :: "str \<Rightarrow> str \<times> str option" where
  "split_version_platform inner =
     (case split_on 45 inner of
        [] \<Rightarrow> ([], None)
      | v0 # parts \<Rightarrow>
          (case svp_parts parts v0 [] of
             (v, plat) \<Rightarrow> (v, if plat = [] then None else Some (join (lit ''-'') plat))))"

definition platform_or_ruby :: "str option \<Rightarrow> platform" where
  "platform_or_ruby p = (case p of None \<Rightarrow> PlatRuby | Some t \<Rightarrow> platform_parse t)"

definition parse_spec :: "str \<Rightarrow> gem_error + spec" where
  "parse_spec line =
     (case split_once_str (lit '' ('') line of
        None \<Rightarrow> Inl (BadSpecLine line)
      | Some (name, rest) \<Rightarrow>
          (case strip_suffix 41 rest of
             None \<Rightarrow> Inl (BadSpecLine line)
           | Some inner \<Rightarrow>
               (case split_version_platform inner of
                  (v, plat) \<Rightarrow>
                    (case version_parse v of
                       Inl e \<Rightarrow> Inl e
                     | Inr ver \<Rightarrow>
                         Inr \<lparr>spec_name = name, spec_version = ver, spec_platform = platform_or_ruby plat,
                              spec_deps = []\<rparr>))))"

text \<open>
  \<^verbatim>\<open>from_hex\<close> slices the text two bytes at a time: a slice that cuts a multi-byte character panics, and the
  first pair that is not a number ends the collection.  \<^verbatim>\<open>u8::from_str_radix\<close> accepts a leading plus sign.
\<close>

definition hex_digit :: "nat \<Rightarrow> nat option" where
  "hex_digit c =
     (if is_ascii_digit c then Some (c - 48)
      else if 97 \<le> c \<and> c \<le> 102 then Some (c - 87)
      else if 65 \<le> c \<and> c \<le> 70 then Some (c - 55)
      else None)"

definition from_str_radix_pair :: "nat \<Rightarrow> nat \<Rightarrow> 8 word option" where
  "from_str_radix_pair c d =
     (if c = 43 then map_option word_of_nat (hex_digit d)
      else case (hex_digit c, hex_digit d) of
        (Some h, Some l) \<Rightarrow> Some (word_of_nat (16 * h + l))
      | _ \<Rightarrow> None)"

fun hex_pairs :: "str \<Rightarrow> 8 word list option lock_result" where
  "hex_pairs [] = Ok (Some [])"
| "hex_pairs [c] = (if utf8_len c = 2 then Ok None else Panic)"
| "hex_pairs (c # d # cs) =
     (if utf8_len c = 2 then Ok None
      else if utf8_len c \<noteq> 1 \<or> utf8_len d \<noteq> 1 then Panic
      else case from_str_radix_pair c d of
        None \<Rightarrow> Ok None
      | Some b \<Rightarrow> bind_result (hex_pairs cs) (\<lambda>r. Ok (map_option ((#) b) r)))"

definition from_hex :: "str \<Rightarrow> 8 word list option lock_result" where
  "from_hex t = (if byte_len t mod 2 \<noteq> 0 \<or> t = [] then Ok None else hex_pairs t)"

definition hex_char :: "nat \<Rightarrow> nat" where
  "hex_char n = (if n < 10 then 48 + n else 87 + n)"

definition to_hex :: "8 word list \<Rightarrow> str" where
  "to_hex bs = concat (map (\<lambda>b. [hex_char (unat b div 16), hex_char (unat b mod 16)]) bs)"

fun parse_digests :: "str list \<Rightarrow> digest list lock_result" where
  "parse_digests [] = Ok []"
| "parse_digests (field # fs) =
     (case split_once 61 field of
        None \<Rightarrow> Err (NotAlgorithmHex field)
      | Some (alg, hex) \<Rightarrow>
          bind_result (from_hex (trim hex)) (\<lambda>r.
            case r of
              None \<Rightarrow> Err (NotHexadecimal hex)
            | Some bs \<Rightarrow>
                bind_result (parse_digests fs) (\<lambda>ds. Ok (\<lparr>algorithm = trim alg, digest_bytes = bs\<rparr> # ds))))"

definition parse_checksum :: "str \<Rightarrow> checksum lock_result" where
  "parse_checksum line =
     (case split_once_str (lit '' ('') line of
        None \<Rightarrow> Err (ChecksumNoVersion line)
      | Some (head, inner0) \<Rightarrow>
          (case split_once 41 inner0 of
             None \<Rightarrow> Err (ChecksumNoParen line)
           | Some (inner, rest) \<Rightarrow>
               (case split_version_platform inner of
                  (v, plat) \<Rightarrow>
                    bind_result (parse_digests (filter (\<lambda>f. f \<noteq> []) (split_on 44 (trim rest)))) (\<lambda>ds.
                      bind_result (of_sum (version_parse v)) (\<lambda>ver.
                        Ok \<lparr>sum_name = trim head, sum_version = ver, sum_platform = platform_or_ruby plat,
                            digests = ds\<rparr>)))))"

subsection \<open>The reader\<close>

record parser =
  lock :: lockfile
  cur_section :: "section_kind option"
  in_specs :: bool

definition parser_new :: parser where
  "parser_new =
     \<lparr>lock = \<lparr>sources = [], platforms = [], dependencies = [], checksums = [], ruby_version = None,
              bundled_with = None, order = [], scalar_indent = 2\<rparr>,
      cur_section = None, in_specs = False\<rparr>"

definition open_section :: "parser \<Rightarrow> str \<Rightarrow> parser lock_result" where
  "open_section p line =
     (case section_parse (trim line) of
        None \<Rightarrow> Err (UnknownSection (trim line))
      | Some k \<Rightarrow>
          let l = (lock p)\<lparr>order := order (lock p) @ [k]\<rparr>;
              l' = (if is_source k
                    then l\<lparr>sources := sources l @ [\<lparr>source_kind = k, meta = [], specs = []\<rparr>]\<rparr> else l)
          in Ok (p\<lparr>cur_section := Some k, in_specs := False, lock := l'\<rparr>))"

definition push_dep :: "spec \<Rightarrow> dependency \<Rightarrow> spec" where
  "push_dep sp d = sp\<lparr>spec_deps := spec_deps sp @ [d]\<rparr>"

definition source_line :: "parser \<Rightarrow> str \<Rightarrow> nat \<Rightarrow> parser lock_result" where
  "source_line p body indent =
     (if sources (lock p) = [] then Panic
      else let src = last (sources (lock p));
               put = (\<lambda>s. p\<lparr>lock := (lock p)\<lparr>sources := butlast (sources (lock p)) @ [s]\<rparr>\<rparr>)
        in if \<not> in_specs p then
             if body = lit ''specs:'' then Ok (p\<lparr>in_specs := True\<rparr>)
             else (case split_once 58 body of
                     None \<Rightarrow> Err (NotKeyValue body)
                   | Some (key, val) \<Rightarrow> Ok (put (src\<lparr>meta := meta src @ [(trim key, trim val)]\<rparr>)))
           else if indent = 6 then
             bind_result (of_sum (parse_dependency body)) (\<lambda>d.
               if specs src = [] then Err (EdgeWithoutSpec body)
               else Ok (put (src\<lparr>specs := butlast (specs src) @ [push_dep (last (specs src)) d]\<rparr>)))
           else
             bind_result (of_sum (parse_spec body)) (\<lambda>sp. Ok (put (src\<lparr>specs := specs src @ [sp]\<rparr>))))"

definition content :: "parser \<Rightarrow> str \<Rightarrow> parser lock_result" where
  "content p line =
     (let body = trim_start line;
          indent = byte_len line - byte_len body;
          l = lock p
      in case cur_section p of
           None \<Rightarrow> Err (LineBeforeSection line)
         | Some k \<Rightarrow>
             if is_source k then source_line p body indent
             else (case k of
                     SecPlatforms \<Rightarrow> Ok (p\<lparr>lock := l\<lparr>platforms := platforms l @ [body]\<rparr>\<rparr>)
                   | SecDependencies \<Rightarrow>
                       bind_result (of_sum (parse_dependency body)) (\<lambda>d.
                         Ok (p\<lparr>lock := l\<lparr>dependencies := dependencies l @ [d]\<rparr>\<rparr>))
                   | SecChecksums \<Rightarrow>
                       bind_result (parse_checksum body) (\<lambda>c.
                         Ok (p\<lparr>lock := l\<lparr>checksums := checksums l @ [c]\<rparr>\<rparr>))
                   | SecRubyVersion \<Rightarrow>
                       Ok (p\<lparr>lock := l\<lparr>scalar_indent := indent, ruby_version := Some body\<rparr>\<rparr>)
                   | SecBundledWith \<Rightarrow>
                       Ok (p\<lparr>lock := l\<lparr>scalar_indent := indent, bundled_with := Some body\<rparr>\<rparr>)
                   | _ \<Rightarrow> Ok p))"

definition step_line :: "parser \<Rightarrow> str \<Rightarrow> parser lock_result" where
  "step_line p raw =
     (let line = trim_end raw in
      if line = [] then Ok p
      else if hd line \<noteq> 32 then open_section p line
      else content p line)"

fun run_lines :: "parser \<Rightarrow> str list \<Rightarrow> parser lock_result" where
  "run_lines p [] = Ok p"
| "run_lines p (raw # raws) = bind_result (step_line p raw) (\<lambda>q. run_lines q raws)"

text \<open>\<^verbatim>\<open>str::lines\<close>: split at newlines, a carriage return before one dropped, no empty line at the end.\<close>

definition strip_cr :: "str \<Rightarrow> str" where
  "strip_cr s = (case strip_suffix 13 s of Some r \<Rightarrow> r | None \<Rightarrow> s)"

definition lines :: "str \<Rightarrow> str list" where
  "lines t =
     (let ws = split_on 10 t in map strip_cr (butlast ws) @ (if last ws = [] then [] else [last ws]))"

definition lockfile_parse :: "str \<Rightarrow> lockfile lock_result" where
  "lockfile_parse t = bind_result (run_lines parser_new (lines t)) (\<lambda>p. Ok (lock p))"

subsection \<open>The printer\<close>

definition join_version_platform :: "version \<Rightarrow> platform \<Rightarrow> str" where
  "join_version_platform v p = (if is_ruby p then vtext v else vtext v @ lit ''-'' @ platform_text p)"

definition dependency_text :: "dependency \<Rightarrow> str" where
  "dependency_text d =
     dep_name d
     @ (if dep_requirement d = [] then [] else lit '' ('' @ requirement_text (dep_requirement d) @ lit '')'')
     @ (if pinned d then lit ''!'' else [])"

definition writeln :: "str \<Rightarrow> str" where
  "writeln s = s @ [10]"

definition spec_text :: "spec \<Rightarrow> str" where
  "spec_text sp = spec_name sp @ lit '' ('' @ join_version_platform (spec_version sp) (spec_platform sp) @ lit '')''"

definition spec_block :: "spec \<Rightarrow> str" where
  "spec_block sp =
     writeln (replicate 4 32 @ spec_text sp)
     @ concat (map (\<lambda>d. writeln (replicate 6 32 @ dependency_text d)) (spec_deps sp))"

definition source_block :: "source \<Rightarrow> str" where
  "source_block s =
     concat (map (\<lambda>kv. writeln (lit ''  '' @ fst kv @ lit '': '' @ snd kv)) (meta s))
     @ writeln (lit ''  specs:'')
     @ concat (map spec_block (specs s))"

fun digests_text :: "nat \<Rightarrow> digest list \<Rightarrow> str" where
  "digests_text i [] = []"
| "digests_text i (d # ds) =
     (if i = 0 then lit '' '' else lit '','') @ algorithm d @ lit ''='' @ to_hex (digest_bytes d)
     @ digests_text (i + 1) ds"

definition checksum_text :: "checksum \<Rightarrow> str" where
  "checksum_text c =
     sum_name c @ lit '' ('' @ join_version_platform (sum_version c) (sum_platform c) @ lit '')''
     @ digests_text 0 (digests c)"

definition scalar_block :: "nat \<Rightarrow> str option \<Rightarrow> str" where
  "scalar_block n v = (case v of None \<Rightarrow> [] | Some t \<Rightarrow> writeln (replicate n 32 @ t))"

fun section_body :: "lockfile \<Rightarrow> section_kind \<Rightarrow> source list \<Rightarrow> (str \<times> source list) option" where
  "section_body l SecPlatforms rest = Some (concat (map (\<lambda>p. writeln (lit ''  '' @ p)) (platforms l)), rest)"
| "section_body l SecDependencies rest =
     Some (concat (map (\<lambda>d. writeln (lit ''  '' @ dependency_text d)) (dependencies l)), rest)"
| "section_body l SecChecksums rest =
     Some (concat (map (\<lambda>c. writeln (lit ''  '' @ checksum_text c)) (checksums l)), rest)"
| "section_body l SecRubyVersion rest = Some (scalar_block (scalar_indent l) (ruby_version l), rest)"
| "section_body l SecBundledWith rest = Some (scalar_block (scalar_indent l) (bundled_with l), rest)"
| "section_body l _ [] = None"
| "section_body l _ (s # rest) = Some (source_block s, rest)"

fun display_from :: "lockfile \<Rightarrow> nat \<Rightarrow> section_kind list \<Rightarrow> source list \<Rightarrow> str option" where
  "display_from l i [] rest = Some []"
| "display_from l i (k # ks) rest =
     (case section_body l k rest of
        None \<Rightarrow> None
      | Some (body, rest') \<Rightarrow>
          map_option (\<lambda>t. (if i > 0 then writeln [] else []) @ writeln (section_header k) @ body @ t)
            (display_from l (i + 1) ks rest'))"

text \<open>\<^verbatim>\<open>None\<close> is the panic of the \<^verbatim>\<open>expect\<close> on a source header with no source left.\<close>

definition display :: "lockfile \<Rightarrow> str option" where
  "display l = display_from l 0 (order l) (sources l)"

subsection \<open>Queries\<close>

definition all_specs :: "lockfile \<Rightarrow> (source \<times> spec) list" where
  "all_specs l = concat (map (\<lambda>s. map (Pair s) (specs s)) (sources l))"

definition remote :: "source \<Rightarrow> str option" where
  "remote s = source_get s (lit ''remote'')"

definition revision :: "source \<Rightarrow> str option" where
  "revision s = source_get s (lit ''revision'')"

definition gem_remote :: "lockfile \<Rightarrow> str option" where
  "gem_remote l = Option.bind (List.find (\<lambda>s. source_kind s = SecGem) (sources l)) remote"

definition checksum_for :: "lockfile \<Rightarrow> str \<Rightarrow> checksum option" where
  "checksum_for l n =
     List.find (\<lambda>c. full_name (sum_name c) (sum_version c) (sum_platform c) = n) (checksums l)"

definition roots :: "lockfile \<Rightarrow> str list" where
  "roots l = foldl (\<lambda>out d. if dep_name d \<in> set out then out else out @ [dep_name d]) [] (dependencies l)"

definition or_else :: "'a option \<Rightarrow> 'a option \<Rightarrow> 'a option" where
  "or_else a b = (case a of Some x \<Rightarrow> Some x | None \<Rightarrow> b)"

definition spec_for :: "lockfile \<Rightarrow> str \<Rightarrow> platform \<Rightarrow> spec option" where
  "spec_for l name host =
     (let rows = filter (\<lambda>s. spec_name s = name) (map snd (all_specs l))
      in or_else (List.find (\<lambda>s. \<not> is_ruby (spec_platform s) \<and> platform_matches (spec_platform s) host) rows)
           (or_else (List.find (\<lambda>s. is_ruby (spec_platform s)) rows)
              (case rows of [] \<Rightarrow> None | s # _ \<Rightarrow> Some s)))"

datatype gem_source = Rubygems | GitSource | PathSource

definition gem_source_of :: "section_kind \<Rightarrow> gem_source" where
  "gem_source_of k = (case k of SecGit \<Rightarrow> GitSource | SecPath \<Rightarrow> PathSource | _ \<Rightarrow> Rubygems)"

record locked_gem =
  lg_name :: str
  lg_version :: str
  lg_platform :: "str option"
  lg_source :: gem_source
  lg_deps :: "str list"

definition locked_of :: "source \<Rightarrow> spec \<Rightarrow> locked_gem" where
  "locked_of s sp =
     \<lparr>lg_name = spec_name sp, lg_version = vtext (spec_version sp),
      lg_platform = (if is_ruby (spec_platform sp) then None else Some (platform_text (spec_platform sp))),
      lg_source = gem_source_of (source_kind s), lg_deps = map dep_name (spec_deps sp)\<rparr>"

text \<open>
  The \<^verbatim>\<open>BTreeMap\<close> of \<open>resolved\<close> is an association list kept in key order; Rust orders \<^verbatim>\<open>str\<close> by bytes, which
  for UTF-8 is the order of the scalar values.
\<close>

fun btree_insert :: "str \<Rightarrow> 'a \<Rightarrow> (str \<times> 'a) list \<Rightarrow> (str \<times> 'a) list" where
  "btree_insert k v [] = [(k, v)]"
| "btree_insert k v ((k', v') # m) =
     (if k = k' then (k, v) # m
      else if ord_class.lexordp k k' then (k, v) # (k', v') # m
      else (k', v') # btree_insert k v m)"

definition keep_row :: "(str \<times> locked_gem) list \<Rightarrow> source \<times> spec \<Rightarrow> (str \<times> locked_gem) list" where
  "keep_row gems row =
     (let gem = locked_of (fst row) (snd row); key = spec_name (snd row)
      in case map_of gems key of
           Some kept \<Rightarrow>
             if lg_platform kept = None \<and> lg_platform gem \<noteq> None then gems else btree_insert key gem gems
         | None \<Rightarrow> btree_insert key gem gems)"

definition resolved :: "lockfile \<Rightarrow> locked_gem list" where
  "resolved l = map snd (foldl keep_row [] (all_specs l))"

subsection \<open>Sections and digests read back\<close>

lemma section_parse_header [simp]: "section_parse (section_header k) = Some k"
  by (cases k) (simp_all add: section_parse_def lit_def)

lemma section_header_shape: "section_header k \<noteq> [] \<and> trimmed (section_header k) \<and> 10 \<notin> set (section_header k)"
  by (cases k) (simp_all add: lit_def trimmed_def is_white_space_def)

lemma hex_digit_char [simp]: "n < 16 \<Longrightarrow> hex_digit (hex_char n) = Some n"
  by (auto simp: hex_digit_def hex_char_def is_ascii_digit_def)

lemma hex_char_shape [simp]:
  "n < 16 \<Longrightarrow> hex_char n \<noteq> 43 \<and> utf8_len (hex_char n) = 1 \<and> is_ascii_alphanumeric (hex_char n)"
  by (auto simp: hex_char_def utf8_len_def is_ascii_alphanumeric_def is_ascii_digit_def is_ascii_alphabetic_def)

lemma byte_div_16 [simp]: "unat (b :: 8 word) div 16 < 16"
  using unsigned_less[of b, where 'a = nat] by simp

lemma to_hex_Nil [simp]: "to_hex [] = []"
  by (simp add: to_hex_def)

lemma to_hex_Cons [simp]: "to_hex (b # bs) = hex_char (unat b div 16) # hex_char (unat b mod 16) # to_hex bs"
  by (simp add: to_hex_def)

lemma hex_pairs_to_hex: "hex_pairs (to_hex bs) = Ok (Some bs)"
  by (induction bs) (simp_all add: from_str_radix_pair_def)

lemma byte_len_to_hex: "byte_len (to_hex bs) = 2 * length bs"
  by (induction bs) (simp_all add: byte_len_def)

lemma from_hex_to_hex: "bs \<noteq> [] \<Longrightarrow> from_hex (to_hex bs) = Ok (Some bs)"
  using hex_pairs_to_hex[of bs] byte_len_to_hex[of bs] by (cases bs) (simp_all add: from_hex_def)

lemma to_hex_alnum: "c \<in> set (to_hex bs) \<Longrightarrow> is_ascii_alphanumeric c"
  by (induction bs) auto

subsection \<open>The version and platform of a row\<close>

definition digit_led :: "str \<Rightarrow> bool" where
  "digit_led p = (case p of [] \<Rightarrow> False | c # _ \<Rightarrow> is_ascii_digit c)"

lemma split_on_append2: "split_on c (a @ c # b) = split_on c a @ split_on c b"
  by (induction a) (auto split: list.splits)

lemma svp_parts_platform: "plat \<noteq> [] \<Longrightarrow> svp_parts ps v plat = (v, plat @ ps)"
  by (induction ps arbitrary: plat) auto

lemma svp_parts_version:
  "list_all digit_led ps \<Longrightarrow> svp_parts (ps @ qs) v [] = svp_parts qs (v @ concat (map ((#) 45) ps)) []"
  by (induction ps arbitrary: v) (auto simp: digit_led_def lit_dash)

lemma join_dashes: "v @ concat (map ((#) 45) ps) = join [45] (v # ps)"
  by (induction ps arbitrary: v) (auto simp: join_Cons join_hd)

definition plain_version :: "version \<Rightarrow> bool" where
  "plain_version v \<longleftrightarrow> wf_version v \<and> list_all digit_led (tl (split_on 45 (vtext v)))"

definition plain_platform :: "platform \<Rightarrow> bool" where
  "plain_platform p \<longleftrightarrow>
     p = PlatRuby \<or>
     platform_parse (platform_text p) = p \<and> \<not> digit_led (hd (split_on 45 (platform_text p))) \<and>
     list_all (\<lambda>c. \<not> is_white_space c \<and> c \<noteq> 41) (platform_text p)"

lemma is_ruby_iff [simp]: "is_ruby p \<longleftrightarrow> p = PlatRuby"
  by (cases p) (simp_all add: is_ruby_def)

lemma split_join_version_platform:
  assumes "plain_version v" "plain_platform p"
  shows "split_version_platform (join_version_platform v p)
    = (vtext v, if p = PlatRuby then None else Some (platform_text p))"
proof -
  obtain v0 ps where v: "split_on 45 (vtext v) = v0 # ps" by (cases "split_on 45 (vtext v)") auto
  have d: "list_all digit_led ps" using assms(1) v by (simp add: plain_version_def)
  have j: "join [45] (v0 # ps) = vtext v" using join_split[of 45 "vtext v"] v by simp
  show ?thesis
  proof (cases "p = PlatRuby")
    case True
    then show ?thesis using v svp_parts_version[OF d, of "[]" v0] j
      by (simp add: split_version_platform_def join_version_platform_def join_dashes)
  next
    case False
    obtain q qs where q: "split_on 45 (platform_text p) = q # qs" by (cases "split_on 45 (platform_text p)") auto
    have nq: "\<not> digit_led q" using assms(2) False q by (simp add: plain_platform_def)
    then have "svp_parts (q # qs) (vtext v) [] = (vtext v, q # qs)"
      using svp_parts_platform[of "[q]" qs "vtext v"] by (simp add: digit_led_def)
    moreover have "join [45] (q # qs) = platform_text p" using join_split[of 45 "platform_text p"] q by simp
    ultimately show ?thesis using False v q svp_parts_version[OF d, of "q # qs" v0] j
      by (simp add: split_version_platform_def join_version_platform_def join_dashes lit_dash split_on_append2)
  qed
qed

lemma platform_or_ruby_text:
  "plain_platform p \<Longrightarrow> platform_or_ruby (if p = PlatRuby then None else Some (platform_text p)) = p"
  by (auto simp: platform_or_ruby_def plain_platform_def)

lemma ws_chars: "\<not> is_white_space 45" "\<not> is_white_space 46" "\<not> is_white_space 41" "\<not> is_white_space 33"
  "is_white_space 10" "\<not> is_white_space 58"
  by (simp_all add: is_white_space_def)

lemma join_version_platform_chars:
  assumes "plain_version v" "plain_platform p" "c \<in> set (join_version_platform v p)"
  shows "\<not> is_white_space c \<and> c \<noteq> 41"
proof -
  have a: "\<not> is_ascii_alphanumeric 41"
    by (simp add: is_ascii_alphanumeric_def is_ascii_digit_def is_ascii_alphabetic_def)
  have "\<not> is_white_space c \<and> c \<noteq> 41" if "c \<in> set (vtext v)" for c
    using correct_chars[of "vtext v" c] that assms(1) a alnum_not_ws[of c]
    by (auto simp: plain_version_def wf_version_def ws_chars)
  moreover have "\<not> is_white_space c \<and> c \<noteq> 41" if "c \<in> set (platform_text p)" "p \<noteq> PlatRuby" for c
    using that assms(2) by (auto simp: plain_platform_def list_all_iff)
  ultimately show ?thesis using assms(3)
    by (auto simp: join_version_platform_def lit_dash ws_chars split: if_splits)
qed

subsection \<open>Rows read back\<close>

definition no_ws :: "str \<Rightarrow> bool" where
  "no_ws s \<longleftrightarrow> s \<noteq> [] \<and> list_all (\<lambda>c. \<not> is_white_space c) s"

lemma no_ws_facts:
  assumes "no_ws s"
  shows "s \<noteq> []" "trimmed s" "32 \<notin> set s" "10 \<notin> set s" "\<not> is_white_space (hd s)" "trim s = s"
  using assms by (auto simp: no_ws_def list_all_iff trimmed_def ws_chars intro!: trim_trimmed)

text \<open>A body that the reader sees exactly as it was written: not empty, no blanks at the ends, one line.\<close>

definition one_line :: "str \<Rightarrow> bool" where
  "one_line s \<longleftrightarrow> s \<noteq> [] \<and> trimmed s \<and> 10 \<notin> set s"

definition wf_spec :: "spec \<Rightarrow> bool" where
  "wf_spec sp \<longleftrightarrow> no_ws (spec_name sp) \<and> plain_version (spec_version sp) \<and> plain_platform (spec_platform sp)"

definition wf_dep :: "dependency \<Rightarrow> bool" where
  "wf_dep d \<longleftrightarrow> no_ws (dep_name d) \<and> last (dep_name d) \<noteq> 33 \<and> list_all (\<lambda>c. wf_version (snd c)) (dep_requirement d)"

definition wf_digest :: "digest \<Rightarrow> bool" where
  "wf_digest d \<longleftrightarrow> trimmed (algorithm d) \<and> 10 \<notin> set (algorithm d) \<and> 44 \<notin> set (algorithm d) \<and>
     61 \<notin> set (algorithm d) \<and> digest_bytes d \<noteq> []"

definition wf_checksum :: "checksum \<Rightarrow> bool" where
  "wf_checksum c \<longleftrightarrow> no_ws (sum_name c) \<and> plain_version (sum_version c) \<and> plain_platform (sum_platform c) \<and>
     list_all wf_digest (digests c)"

lemma lit_open: "lit '' ('' = [32, 40]" and lit_close: "lit '')'' = [41]" and lit_bang: "lit ''!'' = [33]"
  by (simp_all add: lit_def)

lemma parse_spec_text:
  assumes "wf_spec sp"
  shows "parse_spec (spec_text sp) = Inr (sp\<lparr>spec_deps := []\<rparr>) \<and> one_line (spec_text sp)"
proof -
  let ?j = "join_version_platform (spec_version sp) (spec_platform sp)"
  have n: "no_ws (spec_name sp)" and v: "plain_version (spec_version sp)" and p: "plain_platform (spec_platform sp)"
    using assms by (simp_all add: wf_spec_def)
  have t: "spec_text sp = spec_name sp @ [32, 40] @ (?j @ [41])" by (simp add: spec_text_def lit_open lit_close)
  have "split_once_str [32, 40] (spec_text sp) = Some (spec_name sp, ?j @ [41])"
    unfolding t by (rule split_once_str_append) (simp_all add: no_ws_facts[OF n])
  moreover have "version_parse (vtext (spec_version sp)) = Inr (spec_version sp)"
    using v wf_version_parse by (simp add: plain_version_def)
  ultimately have "parse_spec (spec_text sp) = Inr (sp\<lparr>spec_deps := []\<rparr>)"
    using split_join_version_platform[OF v p] platform_or_ruby_text[OF p]
    by (simp add: parse_spec_def lit_open strip_suffix_def)
  moreover have "10 \<notin> set ?j" using join_version_platform_chars[OF v p] ws_chars by blast
  then have "one_line (spec_text sp)"
    using no_ws_facts[OF n] unfolding t one_line_def trimmed_def by (simp add: ws_chars)
  ultimately show ?thesis by blast
qed

lemma requirement_parse_text:
  assumes "list_all (\<lambda>c. wf_version (snd c)) r" "r \<noteq> []"
  shows "requirement_parse (requirement_text r) = Inr r"
proof -
  obtain c cs where r: "r = c # cs" using assms(2) by (cases r) auto
  have w: "\<forall>c \<in> set (c # cs). wf_version (snd c)" using assms(1) r by (auto simp: list_all_iff)
  then have cs: "\<forall>c \<in> set cs. wf_version (snd c)" and c: "wf_version (snd c)" by auto
  show ?thesis unfolding requirement_parse_def r split_requirement_text[OF w]
    using parse_clauses_text[OF cs] parse_clause_text[OF c] clause_text_shape[OF c] by simp
qed

lemma clause_text_one_line: "wf_version (snd c) \<Longrightarrow> 10 \<notin> set (clause_text c)"
  using correct_chars[of "vtext (snd c)" 10] op_str_chars[of "fst c"]
  by (auto simp: clause_text_def wf_version_def lit_def ws_chars is_ascii_alphanumeric_def
      is_ascii_digit_def is_ascii_alphabetic_def)

lemma requirement_text_one_line: "list_all (\<lambda>c. wf_version (snd c)) r \<Longrightarrow> 10 \<notin> set (requirement_text r)"
  using set_join[of "lit '', ''" "map clause_text r"] clause_text_one_line
  by (force simp: requirement_text_def list_all_iff lit_def)

lemma split_once_str_absent: "p \<noteq> [] \<Longrightarrow> hd p \<notin> set s \<Longrightarrow> split_once_str p s = None"
  by (induction s) (auto simp: take_Cons' neq_Nil_conv)

lemma parse_dependency_unpinned:
  assumes "wf_dep d" "\<not> pinned d"
  shows "parse_dependency (dependency_text d) = Inr d"
proof -
  have n: "no_ws (dep_name d)" and l: "last (dep_name d) \<noteq> 33"
    and w: "list_all (\<lambda>c. wf_version (snd c)) (dep_requirement d)" using assms(1) by (simp_all add: wf_dep_def)
  show ?thesis
  proof (cases "dep_requirement d = []")
    case True
    have "split_once_str [32, 40] (dep_name d) = None"
      using no_ws_facts(3)[OF n] by (simp add: split_once_str_absent)
    then show ?thesis using True assms(2) l no_ws_facts[OF n]
      by (simp add: parse_dependency_def dependency_text_def strip_suffix_def lit_open)
  next
    case False
    let ?r = "requirement_text (dep_requirement d)"
    have t: "dependency_text d = dep_name d @ [32, 40] @ (?r @ [41])"
      using False assms(2) by (simp add: dependency_text_def lit_open lit_close)
    have "split_once_str [32, 40] (dependency_text d) = Some (dep_name d, ?r @ [41])"
      unfolding t by (rule split_once_str_append) (simp_all add: no_ws_facts[OF n])
    moreover have "strip_suffix 33 (dependency_text d) = None" unfolding t by (simp add: strip_suffix_def)
    ultimately show ?thesis using requirement_parse_text[OF w False] assms(2) no_ws_facts[OF n]
      by (simp add: parse_dependency_def lit_open strip_suffix_def)
  qed
qed

lemma parse_dependency_pinned:
  assumes "parse_dependency s = Inr d" "\<not> pinned d" 
  shows "parse_dependency (s @ [33]) = Inr (d\<lparr>pinned := True\<rparr>)"
proof -
  have "strip_suffix 33 s = None"
    using assms by (auto simp: parse_dependency_def Let_def split: option.splits sum.splits prod.splits if_splits)
  then show ?thesis using assms
    by (auto simp: parse_dependency_def Let_def strip_suffix_def split: option.splits sum.splits prod.splits if_splits)
qed

lemma parse_dependency_text:
  assumes "wf_dep d"
  shows "parse_dependency (dependency_text d) = Inr d"
proof (cases "pinned d")
  case True
  have u: "parse_dependency (dependency_text (d\<lparr>pinned := False\<rparr>)) = Inr (d\<lparr>pinned := False\<rparr>)"
    using parse_dependency_unpinned[of "d\<lparr>pinned := False\<rparr>"] assms by (simp add: wf_dep_def)
  have "dependency_text d = dependency_text (d\<lparr>pinned := False\<rparr>) @ [33]"
    using True by (simp add: dependency_text_def lit_bang)
  then show ?thesis using parse_dependency_pinned[OF u] True by simp
qed (simp add: parse_dependency_unpinned assms)

lemma dependency_text_one_line:
  assumes "wf_dep d"
  shows "one_line (dependency_text d)"
proof -
  have n: "no_ws (dep_name d)" and w: "list_all (\<lambda>c. wf_version (snd c)) (dep_requirement d)"
    using assms by (simp_all add: wf_dep_def)
  show ?thesis using no_ws_facts[OF n] requirement_text_one_line[OF w]
    by (simp add: one_line_def trimmed_def dependency_text_def lit_open lit_close lit_bang ws_chars)
qed

subsection \<open>Checksum rows\<close>

definition digest_text :: "digest \<Rightarrow> str" where
  "digest_text d = algorithm d @ 61 # to_hex (digest_bytes d)"

lemma digests_text_join:
  "digests_text (Suc i) ds = concat (map (\<lambda>d. 44 # digest_text d) ds)"
  "digests_text 0 (d # ds) = 32 # join [44] (map digest_text (d # ds))"
proof -
  show "digests_text (Suc i) ds = concat (map (\<lambda>d. 44 # digest_text d) ds)" for i
    by (induction ds arbitrary: i) (simp_all add: lit_def digest_text_def)
  then have "digests_text (Suc 0) ds = concat (map (\<lambda>d. 44 # digest_text d) ds)" .
  moreover have "w @ concat (map (\<lambda>d. 44 # digest_text d) ds) = join [44] (w # map digest_text ds)" for w
    by (induction ds arbitrary: w) (auto simp: join_Cons join_hd)
  ultimately show "digests_text 0 (d # ds) = 32 # join [44] (map digest_text (d # ds))"
    by (simp add: lit_def digest_text_def[symmetric])
      (metis append_Cons append_assoc digest_text_def)
qed

lemma digest_text_shape:
  assumes "wf_digest d"
  shows "digest_text d \<noteq> []" "44 \<notin> set (digest_text d)" "10 \<notin> set (digest_text d)" "trimmed (digest_text d)"
proof -
  have "c \<noteq> 44 \<and> c \<noteq> 10 \<and> \<not> is_white_space c" if "c \<in> set (to_hex (digest_bytes d))" for c
    using to_hex_alnum[OF that]
    by (auto simp: is_ascii_alphanumeric_def is_ascii_digit_def is_ascii_alphabetic_def is_white_space_def)
  moreover have "to_hex (digest_bytes d) \<noteq> []" using assms by (cases "digest_bytes d") (auto simp: wf_digest_def)
  moreover have "\<not> is_white_space 61" by (simp add: is_white_space_def)
  ultimately show "digest_text d \<noteq> []" "44 \<notin> set (digest_text d)" "10 \<notin> set (digest_text d)"
    "trimmed (digest_text d)"
    using assms by (auto simp: digest_text_def wf_digest_def trimmed_def hd_append)
qed

lemma to_hex_trim: "trim (to_hex bs) = to_hex bs"
proof (rule trim_trimmed)
  have "\<not> is_white_space c" if "c \<in> set (to_hex bs)" for c using to_hex_alnum[OF that] by simp
  then show "trimmed (to_hex bs)" by (simp add: trimmed_def)
qed

lemma parse_digests_text: "list_all wf_digest ds \<Longrightarrow> parse_digests (map digest_text ds) = Ok ds"
proof (induction ds)
  case (Cons d ds)
  have "split_once 61 (digest_text d) = Some (algorithm d, to_hex (digest_bytes d))"
    using Cons.prems by (simp add: digest_text_def wf_digest_def split_once_append)
  then show ?case using Cons from_hex_to_hex[of "digest_bytes d"]
    by (simp add: to_hex_trim trim_trimmed wf_digest_def)
qed simp

lemma trimmed_join:
  assumes "ws \<noteq> []" "\<And>w. w \<in> set ws \<Longrightarrow> w \<noteq> [] \<and> trimmed w"
  shows "trimmed (join sep ws) \<and> join sep ws \<noteq> []"
proof -
  have "join sep ws \<noteq> [] \<and> hd (join sep ws) = hd (hd ws) \<and> last (join sep ws) = last (last ws)"
    using assms(1,2) by (induction sep ws rule: join.induct) auto
  then show ?thesis using assms(2)[of "hd ws"] assms(2)[of "last ws"] assms(1) by (simp add: trimmed_def)
qed

lemma trimmed_digests:
  assumes "list_all wf_digest ds" "ds \<noteq> []"
  shows "trimmed (join [44] (map digest_text ds)) \<and> join [44] (map digest_text ds) \<noteq> []"
proof (rule trimmed_join)
  fix w assume "w \<in> set (map digest_text ds)"
  then show "w \<noteq> [] \<and> trimmed w" using assms(1) digest_text_shape(1,4) by (auto simp: list_all_iff)
qed (simp add: assms(2))

lemma digests_text_fields:
  assumes "list_all wf_digest ds"
  shows "filter (\<lambda>f. f \<noteq> []) (split_on 44 (trim (digests_text 0 ds))) = map digest_text ds"
proof (cases ds)
  case Nil
  then show ?thesis by (simp add: trim_def trim_start_def trim_end_def)
next
  case (Cons d es)
  have "trimmed (join [44] (map digest_text ds))"
    using trimmed_digests[OF assms] Cons by blast
  then have "trim (digests_text 0 ds) = join [44] (map digest_text ds)"
    using digests_text_join(2)[of d es] Cons trim_trimmed by simp
  moreover have "split_on 44 (join [44] (map digest_text ds)) = map digest_text ds"
    using digest_text_shape assms Cons by (intro split_join) (auto simp: list_all_iff)
  ultimately show ?thesis using digest_text_shape(1) assms by (auto simp: list_all_iff filter_id_conv)
qed

lemma checksum_text_read:
  assumes "wf_checksum c"
  shows "parse_checksum (checksum_text c) = Ok c \<and> one_line (checksum_text c)"
proof -
  let ?j = "join_version_platform (sum_version c) (sum_platform c)"
  have n: "no_ws (sum_name c)" and v: "plain_version (sum_version c)" and p: "plain_platform (sum_platform c)"
    and d: "list_all wf_digest (digests c)" using assms by (simp_all add: wf_checksum_def)
  have j: "41 \<notin> set ?j" "10 \<notin> set ?j" using join_version_platform_chars[OF v p] ws_chars by blast+
  have t: "checksum_text c = sum_name c @ [32, 40] @ (?j @ 41 # digests_text 0 (digests c))"
    by (simp add: checksum_text_def lit_open lit_close)
  have "split_once_str [32, 40] (checksum_text c) = Some (sum_name c, ?j @ 41 # digests_text 0 (digests c))"
    unfolding t by (rule split_once_str_append) (simp_all add: no_ws_facts[OF n])
  moreover have "version_parse (vtext (sum_version c)) = Inr (sum_version c)"
    using v wf_version_parse by (simp add: plain_version_def)
  ultimately have "parse_checksum (checksum_text c) = Ok c"
    using split_join_version_platform[OF v p] platform_or_ruby_text[OF p] parse_digests_text[OF d]
      digests_text_fields[OF d] no_ws_facts[OF n] j
    by (simp add: parse_checksum_def lit_open split_once_append of_sum_def)
  moreover have "10 \<notin> set (digests_text 0 (digests c)) \<and>
      (digests c \<noteq> [] \<longrightarrow> \<not> is_white_space (last (digests_text 0 (digests c))))"
  proof (cases "digests c")
    case (Cons e es)
    let ?w = "map digest_text (e # es)"
    have "trimmed (join [44] ?w) \<and> join [44] ?w \<noteq> []"
      using trimmed_digests[OF d] unfolding Cons by blast
    moreover have "10 \<notin> set (join [44] ?w)"
      using set_join[of "[44]" ?w] digest_text_shape(3) d Cons by (auto simp: list_all_iff)
    ultimately show ?thesis unfolding Cons digests_text_join(2) by (simp add: trimmed_def)
  qed simp
  then have "one_line (checksum_text c)"
    using no_ws_facts[OF n] j(2) unfolding t one_line_def trimmed_def
    by (cases "digests c = []") (auto simp: ws_chars lit_def digests_text_join last_append neq_Nil_conv)
  ultimately show ?thesis by blast
qed

subsection \<open>Reading what was written, line by line\<close>

definition reads :: "parser \<Rightarrow> str \<Rightarrow> parser \<Rightarrow> bool" where
  "reads p s q \<longleftrightarrow> (\<forall>rest. run_lines p (lines (s @ rest)) = run_lines q (lines rest))"

lemma reads_nil [simp]: "reads p [] p"
  by (simp add: reads_def)

lemma reads_append: "reads p s q \<Longrightarrow> reads q t r \<Longrightarrow> reads p (s @ t) r"
  by (simp add: reads_def)

lemma trim_end_snoc: "is_white_space c \<Longrightarrow> trim_end (s @ [c]) = trim_end s"
  by (simp add: trim_end_def)

lemma step_line_strip_cr: "step_line p (strip_cr a) = step_line p a"
proof (cases "a \<noteq> [] \<and> last a = 13")
  case True
  then have "a = butlast a @ [13]" by (metis append_butlast_last_id)
  then have "trim_end a = trim_end (butlast a)" using trim_end_snoc[of 13 "butlast a"] by (simp add: is_white_space_def)
  then show ?thesis using True by (simp add: strip_cr_def strip_suffix_def step_line_def)
qed (auto simp: strip_cr_def strip_suffix_def)

lemma lines_cons: "10 \<notin> set a \<Longrightarrow> lines (writeln a @ s) = strip_cr a # lines s"
  by (simp add: lines_def writeln_def split_on_append Let_def)

lemma reads_line: "10 \<notin> set a \<Longrightarrow> step_line p a = Ok q \<Longrightarrow> reads p (writeln a) q"
  by (simp add: reads_def lines_cons step_line_strip_cr)

lemma reads_blank: "reads p (writeln []) p"
  by (rule reads_line) (simp_all add: step_line_def trim_end_def)

lemma reads_run: "reads p s q \<Longrightarrow> run_lines p (lines s) = Ok q"
  by (auto simp: reads_def lines_def dest: spec[of _ "[]"])

text \<open>A parser inside a section, and what a non-blank line does to it.\<close>

definition inside :: "lockfile \<Rightarrow> section_kind \<Rightarrow> bool \<Rightarrow> parser" where
  "inside l k b = \<lparr>lock = l, cur_section = Some k, in_specs = b\<rparr>"

lemma inside_sel [simp]: "lock (inside l k b) = l" "cur_section (inside l k b) = Some k" "in_specs (inside l k b) = b"
  "(inside l k b)\<lparr>lock := l'\<rparr> = inside l' k b" "(inside l k b)\<lparr>in_specs := b'\<rparr> = inside l k b'"
  by (simp_all add: inside_def)

lemma byte_len_spaces [simp]: "byte_len (replicate n 32 @ s) - byte_len s = n"
  by (simp add: byte_len_def utf8_len_def sum_list_replicate)

lemma trim_start_spaces: "trim_start (replicate n 32 @ s) = trim_start s"
  by (induction n) (simp_all add: trim_start_def)

lemma step_content:
  assumes "one_line s" "n > 0"
  shows "step_line p (replicate n 32 @ s) = content p (replicate n 32 @ s)"
    and "trim_start (replicate n 32 @ s) = s" and "10 \<notin> set (replicate n 32 @ s)"
proof -
  have "trim_end (replicate n 32 @ s) = replicate n 32 @ s"
    using assms by (intro trim_end_id) (simp add: one_line_def trimmed_def)
  then show "step_line p (replicate n 32 @ s) = content p (replicate n 32 @ s)"
    using assms by (simp add: step_line_def hd_append)
  show "trim_start (replicate n 32 @ s) = s"
    using assms(1) by (simp add: trim_start_spaces one_line_def trimmed_def trim_start_id)
  show "10 \<notin> set (replicate n 32 @ s)" using assms by (simp add: one_line_def)
qed

lemma content_inside:
  assumes "one_line s" "n > 0" "is_source k"
  shows "step_line (inside l k b) (replicate n 32 @ s) = source_line (inside l k b) s n"
  using step_content[OF assms(1,2)] assms(3) by (simp add: content_def Let_def)

lemma lit_spaces: "lit ''  '' = replicate 2 32"
  by (simp add: lit_def numeral_2_eq_2)

subsection \<open>Source blocks\<close>

definition wf_meta :: "str \<times> str \<Rightarrow> bool" where
  "wf_meta kv \<longleftrightarrow> trimmed (fst kv) \<and> trimmed (snd kv) \<and> 58 \<notin> set (fst kv) \<and> 10 \<notin> set (fst kv) \<and> 10 \<notin> set (snd kv) \<and>
     kv \<noteq> (lit ''specs'', [])"

definition wf_source :: "source \<Rightarrow> bool" where
  "wf_source s \<longleftrightarrow> is_source (source_kind s) \<and> list_all wf_meta (meta s) \<and>
     list_all (\<lambda>sp. wf_spec sp \<and> list_all wf_dep (spec_deps sp)) (specs s)"

definition with_source :: "lockfile \<Rightarrow> source list \<Rightarrow> source \<Rightarrow> lockfile" where
  "with_source l before s = l\<lparr>sources := before @ [s]\<rparr>"

lemma with_source_sel [simp]:
  "sources (with_source l before s) = before @ [s]"
  "(with_source l before s)\<lparr>sources := before @ [s']\<rparr> = with_source l before s'"
  by (simp_all add: with_source_def)

lemma meta_step:
  assumes "wf_meta kv" "is_source k"
  shows "step_line (inside (with_source l before s) k False) (lit ''  '' @ fst kv @ lit '': '' @ snd kv)
     = Ok (inside (with_source l before (s\<lparr>meta := meta s @ [kv]\<rparr>)) k False)"
proof -
  define body where "body = fst kv @ 58 # (if snd kv = [] then [] else 32 # snd kv)"
  let ?line = "lit ''  '' @ fst kv @ lit '': '' @ snd kv"
  have w: "trimmed (fst kv)" "trimmed (snd kv)" "58 \<notin> set (fst kv)" "10 \<notin> set (fst kv)" "10 \<notin> set (snd kv)"
    "kv \<noteq> (lit ''specs'', [])" using assms(1) by (simp_all add: wf_meta_def)
  have ol: "one_line body"
    using w by (cases "fst kv") (auto simp: body_def one_line_def trimmed_def ws_chars)
  have "?line = (if snd kv = [] then replicate 2 32 @ body @ [32] else replicate 2 32 @ body)"
    by (simp add: body_def lit_def numeral_2_eq_2)
  then have "step_line p ?line = step_line p (replicate 2 32 @ body)" for p
    using trim_end_snoc[of 32 "replicate 2 32 @ body"] by (simp add: step_line_def del: append_assoc)
      (simp add: step_line_def)
  moreover have "body \<noteq> lit ''specs:''"
  proof
    assume "body = lit ''specs:''"
    then have e: "split_once 58 body = Some (lit ''specs'', [])" by (simp add: lit_def)
    moreover have "split_once 58 body = Some (fst kv, if snd kv = [] then [] else 32 # snd kv)"
      using w(3) by (simp add: body_def split_once_append)
    ultimately show False using w(6) by (cases kv) (auto split: if_splits)
  qed
  moreover have "split_once 58 body = Some (fst kv, if snd kv = [] then [] else 32 # snd kv)"
    using w(3) by (simp add: body_def split_once_append)
  moreover have "trim (if snd kv = [] then [] else 32 # snd kv) = snd kv" using trim_trimmed[OF w(2)] by (cases "snd kv") simp_all
  ultimately show ?thesis using content_inside[OF ol, of 2 k] assms(2) trim_trimmed[OF w(1)]
    by (simp add: source_line_def Let_def)
qed

lemma reads_meta:
  assumes "list_all wf_meta kvs" "is_source k"
  shows "reads (inside (with_source l before s) k False)
     (concat (map (\<lambda>kv. writeln (lit ''  '' @ fst kv @ lit '': '' @ snd kv)) kvs))
     (inside (with_source l before (s\<lparr>meta := meta s @ kvs\<rparr>)) k False)"
  using assms(1)
proof (induction kvs arbitrary: s)
  case (Cons kv kvs)
  then have kv: "wf_meta kv" by simp
  let ?line = "lit ''  '' @ fst kv @ lit '': '' @ snd kv"
  have "10 \<notin> set ?line" using kv by (simp add: wf_meta_def lit_def)
  then have "reads (inside (with_source l before s) k False) (writeln ?line)
      (inside (with_source l before (s\<lparr>meta := meta s @ [kv]\<rparr>)) k False)"
    using meta_step[OF kv assms(2)] by (rule reads_line)
  from reads_append[OF this Cons.IH[of "s\<lparr>meta := meta s @ [kv]\<rparr>"]] show ?case using Cons.prems by simp
qed simp

lemma reads_specs_line:
  assumes "is_source k"
  shows "reads (inside (with_source l before s) k False) (writeln (lit ''  specs:''))
    (inside (with_source l before s) k True)"
proof -
  have o: "one_line (lit ''specs:'')" by (simp add: one_line_def trimmed_def lit_def is_white_space_def)
  have e: "lit ''  specs:'' = replicate 2 32 @ lit ''specs:''" by (simp add: lit_def numeral_2_eq_2)
  show ?thesis unfolding e using content_inside[OF o, of 2 k] assms step_content(3)[OF o, of 2]
    by (intro reads_line) (simp_all add: source_line_def Let_def)
qed

lemma reads_deps:
  assumes "list_all wf_dep ds" "is_source k"
  shows "reads (inside (with_source l before (s\<lparr>specs := sps @ [sp]\<rparr>)) k True)
     (concat (map (\<lambda>d. writeln (replicate 6 32 @ dependency_text d)) ds))
     (inside (with_source l before (s\<lparr>specs := sps @ [sp\<lparr>spec_deps := spec_deps sp @ ds\<rparr>]\<rparr>)) k True)"
  using assms(1)
proof (induction ds arbitrary: sp)
  case (Cons d ds)
  then have d: "wf_dep d" by simp
  have "step_line (inside (with_source l before (s\<lparr>specs := sps @ [sp]\<rparr>)) k True) (replicate 6 32 @ dependency_text d)
      = Ok (inside (with_source l before (s\<lparr>specs := sps @ [sp\<lparr>spec_deps := spec_deps sp @ [d]\<rparr>]\<rparr>)) k True)"
    using content_inside[OF dependency_text_one_line[OF d], of 6 k] assms(2) parse_dependency_text[OF d]
    by (simp add: source_line_def Let_def of_sum_def push_dep_def)
  then have "reads (inside (with_source l before (s\<lparr>specs := sps @ [sp]\<rparr>)) k True) (writeln (replicate 6 32 @ dependency_text d))
      (inside (with_source l before (s\<lparr>specs := sps @ [sp\<lparr>spec_deps := spec_deps sp @ [d]\<rparr>]\<rparr>)) k True)"
    using step_content(3)[OF dependency_text_one_line[OF d], of 6] by (intro reads_line) simp_all
  from reads_append[OF this Cons.IH] show ?case using Cons.prems by simp
qed simp

lemma reads_spec_blocks:
  assumes "list_all (\<lambda>sp. wf_spec sp \<and> list_all wf_dep (spec_deps sp)) new" "is_source k"
  shows "reads (inside (with_source l before s) k True) (concat (map spec_block new))
     (inside (with_source l before (s\<lparr>specs := specs s @ new\<rparr>)) k True)"
  using assms(1)
proof (induction new arbitrary: s)
  case (Cons sp new)
  then have sp: "wf_spec sp" and ds: "list_all wf_dep (spec_deps sp)" by simp_all
  note ps = parse_spec_text[OF sp]
  let ?at = "\<lambda>xs. inside (with_source l before (s\<lparr>specs := specs s @ xs\<rparr>)) k True"
  have "step_line (?at []) (replicate 4 32 @ spec_text sp) = Ok (?at [sp\<lparr>spec_deps := []\<rparr>])"
    using content_inside[of "spec_text sp" 4 k] ps assms(2) by (simp add: source_line_def Let_def of_sum_def)
  then have "reads (?at []) (writeln (replicate 4 32 @ spec_text sp)) (?at [sp\<lparr>spec_deps := []\<rparr>])"
    using step_content(3)[of "spec_text sp" 4] ps by (intro reads_line) simp_all
  from reads_append[OF this reads_deps[OF ds assms(2)]]
  have "reads (?at []) (spec_block sp) (?at [sp])" by (simp add: spec_block_def)
  from reads_append[OF this, of "concat (map spec_block new)"] Cons.IH[of "s\<lparr>specs := specs s @ [sp]\<rparr>"] Cons.prems
  show ?case by simp
qed simp

lemma reads_source:
  assumes "wf_source s"
  shows "reads (inside (with_source l before \<lparr>source_kind = source_kind s, meta = [], specs = []\<rparr>) (source_kind s) False)
     (source_block s) (inside (with_source l before s) (source_kind s) True)"
proof -
  let ?k = "source_kind s" and ?e = "\<lparr>source_kind = source_kind s, meta = [], specs = []\<rparr>"
  have k: "is_source ?k" and m: "list_all wf_meta (meta s)"
    and sp: "list_all (\<lambda>sp. wf_spec sp \<and> list_all wf_dep (spec_deps sp)) (specs s)"
    using assms by (simp_all add: wf_source_def)
  note r = reads_append[OF reads_meta[OF m k] reads_append[OF reads_specs_line[OF k] reads_spec_blocks[OF sp k]]]
  show ?thesis using r[of l before ?e] by (cases s) (simp add: source_block_def)
qed

subsection \<open>Whole files\<close>

text \<open>A lockfile as the reader leaves it: one source per source header, no other header twice, nothing in a
  section that has no header, rows that read back.\<close>

definition wf_scalar :: "lockfile \<Rightarrow> section_kind \<Rightarrow> str option \<Rightarrow> bool" where
  "wf_scalar l k v = (case v of None \<Rightarrow> True | Some t \<Rightarrow> one_line t \<and> k \<in> set (order l) \<and> scalar_indent l > 0)"

definition wf_lock :: "lockfile \<Rightarrow> bool" where
  "wf_lock l \<longleftrightarrow>
     map source_kind (sources l) = filter is_source (order l) \<and> distinct (filter (\<lambda>k. \<not> is_source k) (order l)) \<and>
     list_all wf_source (sources l) \<and>
     list_all one_line (platforms l) \<and> (SecPlatforms \<in> set (order l) \<or> platforms l = []) \<and>
     list_all wf_dep (dependencies l) \<and> (SecDependencies \<in> set (order l) \<or> dependencies l = []) \<and>
     list_all wf_checksum (checksums l) \<and> (SecChecksums \<in> set (order l) \<or> checksums l = []) \<and>
     wf_scalar l SecRubyVersion (ruby_version l) \<and> wf_scalar l SecBundledWith (bundled_with l) \<and>
     (ruby_version l = None \<and> bundled_with l = None \<longrightarrow> scalar_indent l = 2)"

lemma reads_rows:
  assumes "\<And>x p. x \<in> set xs \<Longrightarrow> R p \<Longrightarrow> one_line (f x) \<and> content p (replicate 2 32 @ f x) = Ok (g p x) \<and> R (g p x)"
    and "R p"
  shows "reads p (concat (map (\<lambda>x. writeln (lit ''  '' @ f x)) xs)) (foldl g p xs)"
  using assms
proof (induction xs arbitrary: p)
  case (Cons x xs)
  have o: "one_line (f x)" and c: "content p (replicate 2 32 @ f x) = Ok (g p x)" and r: "R (g p x)"
    using Cons.prems(1)[of x p] Cons.prems(2) by simp_all
  have "reads p (writeln (lit ''  '' @ f x)) (g p x)"
    using step_content[OF o, of 2] c by (intro reads_line) (simp_all add: lit_spaces)
  moreover have "reads (g p x) (concat (map (\<lambda>x. writeln (lit ''  '' @ f x)) xs)) (foldl g (g p x) xs)"
    using Cons.prems(1) r by (intro Cons.IH) auto
  ultimately show ?case using reads_append by simp
qed simp

lemma reads_platforms:
  assumes "list_all one_line ps"
  shows "reads (inside l SecPlatforms b) (concat (map (\<lambda>p. writeln (lit ''  '' @ p)) ps))
     (inside (l\<lparr>platforms := platforms l @ ps\<rparr>) SecPlatforms b)"
proof -
  let ?g = "\<lambda>p x. inside ((lock p)\<lparr>platforms := platforms (lock p) @ [x]\<rparr>) SecPlatforms b"
  have "reads (inside l SecPlatforms b) (concat (map (\<lambda>p. writeln (lit ''  '' @ p)) ps)) (foldl ?g (inside l SecPlatforms b) ps)"
    by (rule reads_rows[where R = "\<lambda>p. \<exists>l. p = inside l SecPlatforms b"])
      (use assms step_content(2) in \<open>auto simp: list_all_iff content_def is_source_def Let_def\<close>)
  moreover have "foldl ?g (inside l SecPlatforms b) ps = inside (l\<lparr>platforms := platforms l @ ps\<rparr>) SecPlatforms b"
    by (induction ps arbitrary: l) simp_all
  ultimately show ?thesis by simp
qed

lemma reads_dependencies:
  assumes "list_all wf_dep ds"
  shows "reads (inside l SecDependencies b) (concat (map (\<lambda>d. writeln (lit ''  '' @ dependency_text d)) ds))
     (inside (l\<lparr>dependencies := dependencies l @ ds\<rparr>) SecDependencies b)"
proof -
  let ?g = "\<lambda>p x. inside ((lock p)\<lparr>dependencies := dependencies (lock p) @ [x]\<rparr>) SecDependencies b"
  have "reads (inside l SecDependencies b) (concat (map (\<lambda>d. writeln (lit ''  '' @ dependency_text d)) ds))
      (foldl ?g (inside l SecDependencies b) ds)"
    by (rule reads_rows[where R = "\<lambda>p. \<exists>l. p = inside l SecDependencies b"])
      (use assms step_content(2) dependency_text_one_line parse_dependency_text
        in \<open>auto simp: list_all_iff content_def is_source_def Let_def of_sum_def\<close>)
  moreover have "foldl ?g (inside l SecDependencies b) ds = inside (l\<lparr>dependencies := dependencies l @ ds\<rparr>) SecDependencies b"
    by (induction ds arbitrary: l) simp_all
  ultimately show ?thesis by simp
qed

lemma reads_checksums:
  assumes "list_all wf_checksum cs"
  shows "reads (inside l SecChecksums b) (concat (map (\<lambda>c. writeln (lit ''  '' @ checksum_text c)) cs))
     (inside (l\<lparr>checksums := checksums l @ cs\<rparr>) SecChecksums b)"
proof -
  let ?g = "\<lambda>p x. inside ((lock p)\<lparr>checksums := checksums (lock p) @ [x]\<rparr>) SecChecksums b"
  have "reads (inside l SecChecksums b) (concat (map (\<lambda>c. writeln (lit ''  '' @ checksum_text c)) cs))
      (foldl ?g (inside l SecChecksums b) cs)"
    by (rule reads_rows[where R = "\<lambda>p. \<exists>l. p = inside l SecChecksums b"])
      (use assms step_content(2) checksum_text_read in \<open>auto simp: list_all_iff content_def is_source_def Let_def\<close>)
  moreover have "foldl ?g (inside l SecChecksums b) cs = inside (l\<lparr>checksums := checksums l @ cs\<rparr>) SecChecksums b"
    by (induction cs arbitrary: l) simp_all
  ultimately show ?thesis by simp
qed

lemma reads_scalar:
  assumes "one_line t" "n > 0"
  shows "reads (inside l SecRubyVersion b) (writeln (replicate n 32 @ t))
       (inside (l\<lparr>scalar_indent := n, ruby_version := Some t\<rparr>) SecRubyVersion b)"
    and "reads (inside l SecBundledWith b) (writeln (replicate n 32 @ t))
       (inside (l\<lparr>scalar_indent := n, bundled_with := Some t\<rparr>) SecBundledWith b)"
  using step_content[OF assms] by (auto intro!: reads_line simp: content_def is_source_def Let_def)

text \<open>What the reader has when it has read the sections of \<open>ks\<close>.\<close>

definition upto :: "lockfile \<Rightarrow> section_kind list \<Rightarrow> lockfile" where
  "upto l ks =
     \<lparr>sources = take (length (filter is_source ks)) (sources l),
      platforms = (if SecPlatforms \<in> set ks then platforms l else []),
      dependencies = (if SecDependencies \<in> set ks then dependencies l else []),
      checksums = (if SecChecksums \<in> set ks then checksums l else []),
      ruby_version = (if SecRubyVersion \<in> set ks then ruby_version l else None),
      bundled_with = (if SecBundledWith \<in> set ks then bundled_with l else None),
      order = ks,
      scalar_indent = (if SecRubyVersion \<in> set ks \<and> ruby_version l \<noteq> None \<or> SecBundledWith \<in> set ks \<and> bundled_with l \<noteq> None
                       then scalar_indent l else 2)\<rparr>"

definition opened :: "lockfile \<Rightarrow> section_kind list \<Rightarrow> section_kind \<Rightarrow> lockfile" where
  "opened l ks k =
     (let m = (upto l ks)\<lparr>order := ks @ [k]\<rparr>
      in if is_source k then with_source m (sources m) \<lparr>source_kind = k, meta = [], specs = []\<rparr> else m)"

lemma open_step:
  assumes "lock p = upto l ks"
  shows "reads p (writeln (section_header k)) (inside (opened l ks k) k False)"
proof (rule reads_line)
  have h: "section_header k \<noteq> []" "trimmed (section_header k)" "10 \<notin> set (section_header k)"
    using section_header_shape[of k] by simp_all
  show "10 \<notin> set (section_header k)" by (rule h(3))
  have "trim_end (section_header k) = section_header k" using h by (intro trim_end_id) (simp add: trimmed_def)
  moreover have "hd (section_header k) \<noteq> 32" using h(1,2) by (auto simp: trimmed_def)
  ultimately show "step_line p (section_header k) = Ok (inside (opened l ks k) k False)"
    using h assms trim_trimmed[OF h(2)]
    by (simp add: step_line_def open_section_def Let_def opened_def inside_def with_source_def upto_def)
qed

lemma is_source_simps [simp]:
  "is_source SecGit" "is_source SecPath" "is_source SecGem" "is_source SecPlugin"
  "\<not> is_source SecPlatforms" "\<not> is_source SecDependencies" "\<not> is_source SecChecksums"
  "\<not> is_source SecRubyVersion" "\<not> is_source SecBundledWith"
  by (simp_all add: is_source_def)

lemma section_step_plain:
  assumes w: "wf_lock l" and o: "order l = ks @ k # rest" and k: "\<not> is_source k"
  shows "\<exists>t. (\<forall>ss. section_body l k ss = Some (t, ss)) \<and> reads (inside (opened l ks k) k False) t (inside (upto l (ks @ [k])) k False)"
proof -
  have nk: "k \<notin> set ks"
    using w k unfolding wf_lock_def o by (auto simp: distinct_append)
  have ok: "list_all one_line (platforms l)" "list_all wf_dep (dependencies l)" "list_all wf_checksum (checksums l)"
    "wf_scalar l SecRubyVersion (ruby_version l)" "wf_scalar l SecBundledWith (bundled_with l)"
    using w by (simp_all add: wf_lock_def)
  show ?thesis
  proof (cases k)
    case SecPlatforms
    then show ?thesis using reads_platforms[OF ok(1), of "opened l ks k" False] nk
      by (simp add: opened_def upto_def Let_def)
  next
    case SecDependencies
    then show ?thesis using reads_dependencies[OF ok(2), of "opened l ks k" False] nk
      by (simp add: opened_def upto_def Let_def)
  next
    case SecChecksums
    then show ?thesis using reads_checksums[OF ok(3), of "opened l ks k" False] nk
      by (simp add: opened_def upto_def Let_def)
  next
    case SecRubyVersion
    then show ?thesis using reads_scalar(1)[of _ "scalar_indent l" "opened l ks k" False] nk ok(4)
      by (cases "ruby_version l") (auto simp: opened_def upto_def Let_def scalar_block_def wf_scalar_def)
  next
    case SecBundledWith
    then show ?thesis using reads_scalar(2)[of _ "scalar_indent l" "opened l ks k" False] nk ok(5)
      by (cases "bundled_with l") (auto simp: opened_def upto_def Let_def scalar_block_def wf_scalar_def)
  qed (use k in simp_all)
qed

lemma section_body_source: "is_source k \<Longrightarrow> section_body l k (s # ss) = Some (source_block s, ss)"
  by (cases k) simp_all

lemma section_step_source:
  assumes w: "wf_lock l" and o: "order l = ks @ k # rest" and k: "is_source k"
    and ss: "ss = drop (length (filter is_source ks)) (sources l)"
  shows "\<exists>s ss'. ss = s # ss' \<and> ss' = drop (length (filter is_source (ks @ [k]))) (sources l) \<and>
    reads (inside (opened l ks k) k False) (source_block s) (inside (upto l (ks @ [k])) k True)"
proof -
  let ?n = "length (filter is_source ks)"
  have m: "map source_kind (sources l) = filter is_source (ks @ k # rest)" using w o by (simp add: wf_lock_def)
  have len: "?n < length (sources l)" using arg_cong[OF m, of length] k by simp
  define s where "s = sources l ! ?n"
  have "source_kind s = map source_kind (sources l) ! ?n" using len by (simp add: s_def)
  also have "\<dots> = k" unfolding m using k by (simp add: nth_append)
  finally have sk: "source_kind s = k" .
  have "wf_source s" using w len by (simp add: wf_lock_def s_def list_all_length)
  note r = reads_source[OF this, of "(upto l ks)\<lparr>order := ks @ [k]\<rparr>" "take ?n (sources l)", unfolded sk]
  have a: "opened l ks k = with_source ((upto l ks)\<lparr>order := ks @ [k]\<rparr>) (take ?n (sources l)) \<lparr>source_kind = k, meta = [], specs = []\<rparr>"
    using k by (simp add: opened_def Let_def upto_def)
  have nk: "SecPlatforms \<noteq> k" "SecDependencies \<noteq> k" "SecChecksums \<noteq> k" "SecRubyVersion \<noteq> k" "SecBundledWith \<noteq> k"
    using k by auto
  have "take (Suc ?n) (sources l) = take ?n (sources l) @ [s]" unfolding s_def using len by (rule take_Suc_conv_app_nth)
  then have b: "with_source ((upto l ks)\<lparr>order := ks @ [k]\<rparr>) (take ?n (sources l)) s = upto l (ks @ [k])"
    using k nk by (simp add: upto_def with_source_def)
  have "reads (inside (opened l ks k) k False) (source_block s) (inside (upto l (ks @ [k])) k True)"
    using r unfolding a b .
  moreover have "ss = s # drop (Suc ?n) (sources l)" unfolding ss s_def using len by (rule Cons_nth_drop_Suc[symmetric])
  ultimately show ?thesis using k by simp
qed

lemma display_reads:
  assumes w: "wf_lock l"
  shows "order l = ks @ ks' \<Longrightarrow> lock p = upto l ks \<Longrightarrow> ss = drop (length (filter is_source ks)) (sources l) \<Longrightarrow>
    \<exists>t q. display_from l i ks' ss = Some t \<and> reads p t q \<and> lock q = upto l (ks @ ks')"
proof (induction ks' arbitrary: ks p ss i)
  case Nil
  then show ?case by (intro exI[of _ "[]"] exI[of _ p]) simp
next
  case (Cons k ks')
  obtain body ss' q where b: "section_body l k ss = Some (body, ss')"
    "reads (inside (opened l ks k) k False) body q" "lock q = upto l (ks @ [k])"
    "ss' = drop (length (filter is_source (ks @ [k]))) (sources l)"
  proof (cases "is_source k")
    case True
    then show ?thesis using section_step_source[OF w Cons.prems(1) True Cons.prems(3)] that
      by (auto simp: section_body_source)
  next
    case False
    then obtain t where "section_body l k ss = Some (t, ss)"
      "reads (inside (opened l ks k) k False) t (inside (upto l (ks @ [k])) k False)"
      using section_step_plain[OF w Cons.prems(1) False] by auto
    then show ?thesis using that[of t ss "inside (upto l (ks @ [k])) k False"] Cons.prems(3) False by simp
  qed
  obtain t r where t: "display_from l (i + 1) ks' ss' = Some t" "reads q t r" "lock r = upto l ((ks @ [k]) @ ks')"
    using Cons.IH[of "ks @ [k]" q ss' "i + 1"] Cons.prems(1) b(3,4) by auto
  have "reads p ((if i > 0 then writeln [] else []) @ writeln (section_header k) @ body @ t) r"
    by (rule reads_append[OF _ reads_append[OF open_step[OF Cons.prems(2)] reads_append[OF b(2) t(2)]]])
      (simp add: reads_blank)
  then show ?case using b(1) t(1,3) by (intro exI[of _ r] exI conjI) (simp_all)
qed

lemma upto_all: "wf_lock l \<Longrightarrow> upto l (order l) = l"
proof -
  assume w: "wf_lock l"
  then have "length (filter is_source (order l)) = length (sources l)"
    unfolding wf_lock_def by (metis length_map)
  then show ?thesis using w
    by (cases l) (auto simp: upto_def wf_lock_def wf_scalar_def split: option.splits)
qed

lemma display_parse:
  assumes "wf_lock l"
  shows "\<exists>t. display l = Some t \<and> lockfile_parse t = Ok l"
proof -
  have "lock parser_new = upto l []" by (simp add: parser_new_def upto_def)
  then obtain t q where t: "display_from l 0 (order l) (sources l) = Some t" "reads parser_new t q" "lock q = upto l (order l)"
    using display_reads[OF assms, of "[]" "order l" parser_new "sources l" 0] by auto
  then show ?thesis using upto_all[OF assms] reads_run[OF t(2)] by (simp add: display_def lockfile_parse_def)
qed

subsection \<open>The reader's invariant\<close>

definition reader_inv :: "parser \<Rightarrow> bool" where
  "reader_inv p \<longleftrightarrow>
     map source_kind (sources (lock p)) = filter is_source (order (lock p)) \<and>
     (\<forall>k. cur_section p = Some k \<longrightarrow> is_source k \<longrightarrow> sources (lock p) \<noteq> [])"

lemma bind_result_eq:
  "bind_result r f = Ok y \<longleftrightarrow> (\<exists>x. r = Ok x \<and> f x = Ok y)"
  "bind_result r f = Panic \<longleftrightarrow> r = Panic \<or> (\<exists>x. r = Ok x \<and> f x = Panic)"
  by (cases r; auto)+

lemma of_sum_eq: "of_sum r = Ok x \<longleftrightarrow> r = Inr x" "of_sum r \<noteq> Panic"
  by (auto simp: of_sum_def split: sum.splits)

lemma open_section_inv: "reader_inv p \<Longrightarrow> open_section p line = Ok q \<Longrightarrow> reader_inv q"
  by (auto simp: reader_inv_def open_section_def Let_def split: option.splits if_splits)

lemma kinds_update_last:
  assumes "ss \<noteq> []" "source_kind s = source_kind (last ss)"
  shows "map source_kind (butlast ss @ [s]) = map source_kind ss"
  using assms by (metis append_butlast_last_id list.simps(8,9) map_append)

lemma source_line_frame:
  assumes "source_line p body n = Ok q" "sources (lock p) \<noteq> []"
  shows "sources (lock q) \<noteq> [] \<and> map source_kind (sources (lock q)) = map source_kind (sources (lock p)) \<and>
    order (lock q) = order (lock p) \<and> cur_section q = cur_section p"
  using assms kinds_update_last[OF assms(2)]
  by (auto simp: source_line_def Let_def bind_result_eq of_sum_eq split: if_splits option.splits)

lemma source_line_no_panic:
  assumes "sources (lock p) \<noteq> []"
  shows "source_line p body n \<noteq> Panic"
proof (cases "in_specs p")
  case True
  then show ?thesis using assms by (simp add: source_line_def Let_def bind_result_eq of_sum_eq)
next
  case False
  then show ?thesis using assms by (auto simp: source_line_def Let_def split: option.splits)
qed

lemma content_inv:
  assumes "reader_inv p" "content p line = Ok q"
  shows "reader_inv q"
proof (cases "\<exists>k. cur_section p = Some k \<and> is_source k")
  case True
  then have ne: "sources (lock p) \<noteq> []" and s: "source_line p (trim_start line) (byte_len line - byte_len (trim_start line)) = Ok q"
    using assms by (auto simp: reader_inv_def content_def Let_def)
  show ?thesis using source_line_frame[OF s ne] assms(1) by (auto simp: reader_inv_def)
next
  case False
  then obtain k where k: "cur_section p = Some k" "\<not> is_source k" using assms(2)
    by (cases "cur_section p") (auto simp: content_def Let_def)
  then show ?thesis using assms
    by (cases k) (auto simp: reader_inv_def content_def Let_def bind_result_eq)
qed

lemma step_line_inv: "reader_inv p \<Longrightarrow> step_line p raw = Ok q \<Longrightarrow> reader_inv q"
  using open_section_inv[of p "trim_end raw" q] content_inv[of p "trim_end raw" q]
  by (simp add: step_line_def Let_def split: if_splits)

lemma step_line_panic:
  assumes "reader_inv p" "step_line p raw = Panic"
  shows "parse_checksum (trim_start (trim_end raw)) = Panic"
proof -
  have c: "content p (trim_end raw) = Panic"
    using assms(2) by (auto simp: step_line_def Let_def open_section_def split: if_splits option.splits)
  then obtain k where k: "cur_section p = Some k" by (cases "cur_section p") (auto simp: content_def Let_def)
  have "\<not> is_source k"
  proof
    assume a: "is_source k"
    then have "sources (lock p) \<noteq> []" using assms(1) k by (simp add: reader_inv_def)
    then show False using c k a source_line_no_panic by (simp add: content_def Let_def)
  qed
  then show ?thesis using c k by (cases k) (auto simp: content_def Let_def bind_result_eq of_sum_eq)
qed

lemma run_lines_inv:
  assumes "reader_inv p"
  shows "(run_lines p ls = Ok q \<longrightarrow> reader_inv q) \<and>
    (run_lines p ls = Panic \<longrightarrow> (\<exists>raw \<in> set ls. parse_checksum (trim_start (trim_end raw)) = Panic))"
  using assms
proof (induction ls arbitrary: p)
  case (Cons raw ls)
  show ?case
  proof (cases "step_line p raw")
    case (Ok r)
    then show ?thesis using Cons.IH[OF step_line_inv[OF Cons.prems Ok]] by auto
  next
    case Panic
    then show ?thesis using step_line_panic[OF Cons.prems] by auto
  qed simp
qed auto

lemma display_from_total:
  "map source_kind ss = filter is_source ks \<Longrightarrow> display_from l i ks ss \<noteq> None"
proof (induction ks arbitrary: ss i)
  case (Cons k ks)
  show ?case
  proof (cases "is_source k")
    case True
    then obtain s ss' where "ss = s # ss'" "map source_kind ss' = filter is_source ks" using Cons.prems by auto
    then show ?thesis using Cons.IH[of ss' "i + 1"] True by (simp add: section_body_source)
  next
    case False
    then obtain t where "section_body l k ss = Some (t, ss)" by (cases k) auto
    then show ?thesis using Cons.IH[of ss "i + 1"] Cons.prems False by simp
  qed
qed simp

subsection \<open>Queries\<close>

lemma find_Some_set: "List.find P xs = Some x \<Longrightarrow> x \<in> set xs \<and> P x"
  by (auto simp: find_Some_iff)

lemma find_None_set: "List.find P xs = None \<longleftrightarrow> (\<forall>x \<in> set xs. \<not> P x)"
  by (auto simp: find_None_iff)

lemma lexordp_linear: "ord_class.lexordp (a :: str) b \<or> a = b \<or> ord_class.lexordp b a"
  by (rule lexordp_linear)

lemma lexordp_trans_str: "ord_class.lexordp (a :: str) b \<Longrightarrow> ord_class.lexordp b c \<Longrightarrow> ord_class.lexordp a c"
  by (rule lexordp_trans)

definition key_order :: "(str \<times> 'a) list \<Rightarrow> bool" where
  "key_order m = sorted_wrt ord_class.lexordp (map fst m)"

lemma btree_insert_keys: "set (map fst (btree_insert k v m)) = insert k (set (map fst m))"
proof (induction m)
  case (Cons e m)
  then show ?case by (cases e) (simp, blast)
qed simp

lemma btree_insert_sorted: "key_order m \<Longrightarrow> key_order (btree_insert k v m)"
proof (induction m)
  case (Cons e m)
  obtain k' v' where e: "e = (k', v')" by (cases e)
  have s: "\<forall>x \<in> set (map fst m). ord_class.lexordp k' x" "key_order m" using Cons.prems by (simp_all add: e key_order_def)
  consider "k = k'" | "k \<noteq> k'" "ord_class.lexordp k k'" | "k \<noteq> k'" "\<not> ord_class.lexordp k k'" "ord_class.lexordp k' k"
    using lexordp_linear[of k k'] by blast
  then show ?case
  proof cases
    case 1
    then show ?thesis using s by (simp add: e key_order_def)
  next
    case 2
    then have "\<forall>x \<in> set (map fst m). ord_class.lexordp k x" using s(1) lexordp_trans_str by blast
    then show ?thesis using s 2 by (simp add: e key_order_def)
  next
    case 3
    then show ?thesis using s Cons.IH btree_insert_keys[of k v m] by (simp add: e key_order_def)
  qed
qed (simp add: key_order_def)

lemma btree_insert_map_of: "map_of (btree_insert k v m) = (map_of m)(k \<mapsto> v)"
  by (induction m) (auto simp: fun_upd_twist)

lemma key_order_distinct: "key_order m \<Longrightarrow> distinct (map fst m)"
proof (induction m)
  case (Cons e m)
  have "\<forall>x \<in> set m. ord_class.lexordp (fst e) (fst x)" using Cons.prems by (simp add: key_order_def)
  then have "fst e \<notin> set (map fst m)" using lexordp_irreflexive' by fastforce
  then show ?case using Cons by (simp add: key_order_def)
qed simp

text \<open>What one more row does to the map of \<open>resolved\<close>.\<close>

definition is_row :: "(source \<times> spec) list \<Rightarrow> str \<Rightarrow> locked_gem \<Rightarrow> bool" where
  "is_row rows k g \<longleftrightarrow> (\<exists>r \<in> set rows. spec_name (snd r) = k \<and> g = locked_of (fst r) (snd r))"

definition source_row :: "(source \<times> spec) list \<Rightarrow> str \<Rightarrow> bool" where
  "source_row rows k \<longleftrightarrow> (\<exists>r \<in> set rows. spec_name (snd r) = k \<and> spec_platform (snd r) = PlatRuby)"

definition kept :: "(source \<times> spec) list \<Rightarrow> (str \<times> locked_gem) list \<Rightarrow> bool" where
  "kept rows m \<longleftrightarrow>
     key_order m \<and> set (map fst m) = (spec_name \<circ> snd) ` set rows \<and>
     (\<forall>k g. map_of m k = Some g \<longrightarrow> is_row rows k g \<and> (source_row rows k \<longrightarrow> lg_platform g = None))"

lemma locked_platform [simp]: "lg_platform (locked_of s sp) = None \<longleftrightarrow> spec_platform sp = PlatRuby"
  by (simp add: locked_of_def)

lemma is_row_snoc: "is_row rows k g \<Longrightarrow> is_row (rows @ [r]) k g"
  by (auto simp: is_row_def)

lemma source_row_snoc:
  "source_row (rows @ [r]) k \<longleftrightarrow> source_row rows k \<or> spec_name (snd r) = k \<and> spec_platform (snd r) = PlatRuby"
  by (auto simp: source_row_def)

lemma kept_step:
  assumes "kept rows m"
  shows "kept (rows @ [r]) (keep_row m r)"
proof -
  let ?k = "spec_name (snd r)" and ?g = "locked_of (fst r) (snd r)"
  have K: "key_order m" "set (map fst m) = (spec_name \<circ> snd) ` set rows"
    "\<And>k g. map_of m k = Some g \<Longrightarrow> is_row rows k g \<and> (source_row rows k \<longrightarrow> lg_platform g = None)"
    using assms by (auto simp: kept_def)
  have row: "is_row (rows @ [r]) ?k ?g" by (auto simp: is_row_def)
  show ?thesis
  proof (cases "\<exists>g. map_of m ?k = Some g \<and> lg_platform g = None \<and> lg_platform ?g \<noteq> None")
    case True
    then have e: "keep_row m r = m" by (auto simp: keep_row_def Let_def)
    have "?k \<in> set (map fst m)" using True by (metis map_of_eq_None_iff option.distinct(1) set_map)
    moreover have "spec_platform (snd r) \<noteq> PlatRuby" using True by auto
    ultimately show ?thesis unfolding e kept_def
      using K is_row_snoc source_row_snoc by (auto simp: insert_absorb)
  next
    case False
    then have e: "keep_row m r = btree_insert ?k ?g m"
      by (auto simp: keep_row_def Let_def split: option.splits)
    have "lg_platform ?g = None" if "source_row (rows @ [r]) ?k"
    proof (rule ccontr)
      assume b: "lg_platform ?g \<noteq> None"
      then have s: "source_row rows ?k" using that by (simp add: source_row_snoc)
      then have "?k \<in> set (map fst m)" unfolding K(2) source_row_def image_def comp_def mem_Collect_eq by metis
      then obtain g where "map_of m ?k = Some g" by (metis (no_types) map_of_eq_None_iff not_None_eq set_map)
      then show False using K(3) s b False by blast
    qed
    then have "is_row (rows @ [r]) k g \<and> (source_row (rows @ [r]) k \<longrightarrow> lg_platform g = None)"
      if "map_of (btree_insert ?k ?g m) k = Some g" for k g
      using that row K(3)[of k g] is_row_snoc[of rows k g r] source_row_snoc[of rows r k]
      by (auto simp: btree_insert_map_of split: if_splits)
    moreover have "set (map fst (btree_insert ?k ?g m)) = (spec_name \<circ> snd) ` set (rows @ [r])"
      unfolding btree_insert_keys K(2) by auto
    ultimately show ?thesis unfolding e kept_def using btree_insert_sorted[OF K(1)] by blast
  qed
qed

lemma kept_fold: "kept done m \<Longrightarrow> kept (done @ rows) (foldl keep_row m rows)"
proof (induction rows arbitrary: "done" m)
  case (Cons r rows)
  from Cons.IH[OF kept_step[OF Cons.prems, of r]] show ?case by simp
qed simp

lemma kept_resolved: "kept (all_specs l) (foldl keep_row [] (all_specs l))"
proof -
  have "kept [] []" by (simp add: kept_def key_order_def)
  from kept_fold[OF this] show ?thesis by simp
qed

lemma roots_fold:
  "distinct out \<Longrightarrow> distinct (foldl (\<lambda>out d. if dep_name d \<in> set out then out else out @ [dep_name d]) out ds)
    \<and> set (foldl (\<lambda>out d. if dep_name d \<in> set out then out else out @ [dep_name d]) out ds)
      = set out \<union> dep_name ` set ds"
  by (induction ds arbitrary: out) (auto simp: insert_absorb)

lemma all_specs_names: "(spec_name \<circ> snd) ` set (all_specs l) = {spec_name sp |s sp. s \<in> set (sources l) \<and> sp \<in> set (specs s)}"
  by (force simp: all_specs_def image_def)

text \<open>A small lockfile with a row in each kind of section.\<close>

definition small_lock :: lockfile where
  "small_lock =
     \<lparr>sources =
        [\<lparr>source_kind = SecGem, meta = [(lit ''remote'', lit ''https://rubygems.org/'')],
          specs =
            [\<lparr>spec_name = lit ''racc'', spec_version = version_of [49], spec_platform = PlatRuby,
              spec_deps = [\<lparr>dep_name = lit ''rake'', dep_requirement = [(OpGte, version_of [49])], pinned = False\<rparr>]\<rparr>]\<rparr>],
      platforms = [lit ''ruby''],
      dependencies = [\<lparr>dep_name = lit ''racc'', dep_requirement = [], pinned = True\<rparr>],
      checksums =
        [\<lparr>sum_name = lit ''racc'', sum_version = version_of [49], sum_platform = PlatRuby,
          digests = [\<lparr>algorithm = lit ''sha256'', digest_bytes = [171]\<rparr>]\<rparr>],
      ruby_version = None, bundled_with = Some (lit ''2.5.6''),
      order = [SecGem, SecPlatforms, SecDependencies, SecChecksums, SecBundledWith], scalar_indent = 3\<rparr>"

subsection \<open>Properties\<close>

text \<open>
  C9. A lockfile survives the round trip: the text that the printer writes for a well-formed lockfile (sources
  with their metadata, specs and edges, platforms, dependencies with requirements and pins, checksums, the two
  scalars with their indent, sections in any order) is read back as exactly that lockfile.
\<close>

theorem lockfile_roundtrip:
  assumes "wf_lock l"
  shows "\<exists>t. display l = Some t \<and> lockfile_parse t = Ok l"
  using assms by (rule display_parse)

theorem lockfile_roundtrip_witness:
  "\<exists>t. display small_lock = Some t \<and> lockfile_parse t = Ok small_lock"
proof -
  have v: "wf_version (version_of [49])"
    by (simp add: wf_version_def version_of_def is_correct_def is_ascii_digit_def)
  then have pv: "plain_version (version_of [49])" by (simp add: plain_version_def version_of_def)
  have "wf_lock small_lock"
    by (simp add: small_lock_def wf_lock_def wf_source_def wf_meta_def wf_spec_def wf_dep_def wf_checksum_def
        wf_digest_def wf_scalar_def plain_platform_def no_ws_def one_line_def trimmed_def lit_def is_white_space_def v pv)
  then show ?thesis by (rule lockfile_roundtrip)
qed

text \<open>
  C34. The reader's two \<^verbatim>\<open>expect\<close>s hold: what it returns has one source per source header, in order, so the
  printer never runs out of sources; and the only way it can panic is inside a checksum row.
\<close>

theorem reader_never_loses_its_source:
  "(lockfile_parse t = Ok l \<longrightarrow>
      map source_kind (sources l) = filter is_source (order l) \<and> (\<exists>s. display l = Some s)) \<and>
   (lockfile_parse t = Panic \<longrightarrow>
      list_ex (\<lambda>raw. parse_checksum (trim_start (trim_end raw)) = Panic) (lines t))"
proof -
  have i: "reader_inv parser_new" by (simp add: reader_inv_def parser_new_def)
  show ?thesis
  proof (intro conjI impI)
    assume "lockfile_parse t = Ok l"
    then obtain p where p: "run_lines parser_new (lines t) = Ok p" "l = lock p"
      by (auto simp: lockfile_parse_def bind_result_eq)
    then show k: "map source_kind (sources l) = filter is_source (order l)"
      using run_lines_inv[OF i] by (auto simp: reader_inv_def)
    show "\<exists>s. display l = Some s"
      using display_from_total[OF k] by (simp add: display_def)
  next
    assume "lockfile_parse t = Panic"
    then have "run_lines parser_new (lines t) = Panic" by (auto simp: lockfile_parse_def bind_result_eq)
    then show "list_ex (\<lambda>raw. parse_checksum (trim_start (trim_end raw)) = Panic) (lines t)"
      using run_lines_inv[OF i] by (auto simp: list_ex_iff)
  qed
qed

lemmas reader_eval = lockfile_parse_def lines_def parser_new_def step_line_def trim_end_def trim_start_def trim_def
  open_section_def section_parse_def content_def strip_cr_def strip_suffix_def lit_def is_white_space_def Let_def

theorem reader_never_loses_its_source_witness:
  "\<exists>s. display (parser.lock (inside ((parser.lock parser_new)\<lparr>order := [SecGem],
      sources := [\<lparr>source_kind = SecGem, meta = [], specs = []\<rparr>]\<rparr>) SecGem False)) = Some s"
proof -
  let ?l = "(parser.lock parser_new)\<lparr>order := [SecGem], sources := [\<lparr>source_kind = SecGem, meta = [], specs = []\<rparr>]\<rparr>"
  have "lockfile_parse (lit ''GEM'') = Ok ?l" by (simp add: reader_eval)
  then show ?thesis using reader_never_loses_its_source[of "lit ''GEM''" ?l] by simp
qed

text \<open>
  A checksum row whose digest has a character outside ASCII stops the reader with a panic, not with the
  error it has for a digest that is not hexadecimal; and a digest pair such as \<^verbatim>\<open>+f\<close> is accepted as a byte.
\<close>

theorem checksum_digest_panics:
  "parse_checksum (lit ''a (1) sha256=a'' @ [233] @ lit ''1'') = Panic \<and>
   from_hex (lit ''+f'') = Ok (Some [15]) \<and> from_hex (lit ''zz'') = Ok None"
  by (simp add: parse_checksum_def lit_def split_version_platform_def trim_def trim_start_def trim_end_def
      is_white_space_def from_hex_def byte_len_def utf8_len_def from_str_radix_pair_def hex_digit_def is_ascii_digit_def)

text \<open>
  The spec that is installed for a host: it is a row of that gem; a binary row that matches the host when
  there is one, else a source row when there is one, else the first row; and a gem with a row always gets one.
\<close>

theorem spec_for_choice:
  "(spec_for l name host = None \<longleftrightarrow> name \<notin> {spec_name sp |s sp. s \<in> set (sources l) \<and> sp \<in> set (specs s)}) \<and>
   (spec_for l name host = Some sp \<longrightarrow>
      (\<exists>s \<in> set (sources l). sp \<in> set (specs s)) \<and> spec_name sp = name \<and>
      ((spec_platform sp \<noteq> PlatRuby \<and> platform_matches (spec_platform sp) host) \<or>
       \<not> (\<exists>s sp'. s \<in> set (sources l) \<and> sp' \<in> set (specs s) \<and> spec_name sp' = name \<and>
            spec_platform sp' \<noteq> PlatRuby \<and> platform_matches (spec_platform sp') host) \<and>
       (spec_platform sp = PlatRuby \<or>
        \<not> (\<exists>s sp'. s \<in> set (sources l) \<and> sp' \<in> set (specs s) \<and> spec_name sp' = name \<and> spec_platform sp' = PlatRuby))))"
proof -
  define rows where "rows = filter (\<lambda>s. spec_name s = name) (map snd (all_specs l))"
  define b where "b = List.find (\<lambda>s. \<not> is_ruby (spec_platform s) \<and> platform_matches (spec_platform s) host) rows"
  define r where "r = List.find (\<lambda>s. is_ruby (spec_platform s)) rows"
  have rows: "x \<in> set rows \<longleftrightarrow> (\<exists>s \<in> set (sources l). x \<in> set (specs s)) \<and> spec_name x = name" for x
    by (force simp: rows_def all_specs_def)
  have f: "spec_for l name host = or_else b (or_else r (case rows of [] \<Rightarrow> None | s # _ \<Rightarrow> Some s))"
    by (simp add: spec_for_def rows_def b_def r_def Let_def)
  have b: "b = Some x \<Longrightarrow> x \<in> set rows \<and> spec_platform x \<noteq> PlatRuby \<and> platform_matches (spec_platform x) host"
    "b = None \<Longrightarrow> x \<in> set rows \<Longrightarrow> spec_platform x = PlatRuby \<or> \<not> platform_matches (spec_platform x) host" for x
    unfolding b_def by (auto dest!: find_Some_set simp: find_None_set)
  have r: "r = Some x \<Longrightarrow> x \<in> set rows \<and> spec_platform x = PlatRuby"
    "r = None \<Longrightarrow> x \<in> set rows \<Longrightarrow> spec_platform x \<noteq> PlatRuby" for x
    unfolding r_def by (auto dest!: find_Some_set simp: find_None_set)
  show ?thesis
  proof (intro conjI impI)
    have "spec_for l name host = None \<longleftrightarrow> rows = []"
      using b(1) r(1) unfolding f by (cases b; cases r; cases rows) (auto simp: or_else_def)
    also have "\<dots> \<longleftrightarrow> (\<forall>x. x \<notin> set rows)" by (cases rows) auto
    finally show "spec_for l name host = None \<longleftrightarrow> name \<notin> {spec_name sp |s sp. s \<in> set (sources l) \<and> sp \<in> set (specs s)}"
      unfolding rows by auto
  next
    assume sp: "spec_for l name host = Some sp"
    then have "b = Some sp \<or> b = None \<and> r = Some sp \<or> b = None \<and> r = None \<and> sp \<in> set rows"
      unfolding f by (cases b; cases r; cases rows) (auto simp: or_else_def)
    then have c: "sp \<in> set rows \<and> ((spec_platform sp \<noteq> PlatRuby \<and> platform_matches (spec_platform sp) host) \<or>
       (\<forall>x \<in> set rows. spec_platform x = PlatRuby \<or> \<not> platform_matches (spec_platform x) host) \<and>
       (spec_platform sp = PlatRuby \<or> (\<forall>x \<in> set rows. spec_platform x \<noteq> PlatRuby)))"
      using b r by blast
    then show "\<exists>s \<in> set (sources l). sp \<in> set (specs s)" "spec_name sp = name" using rows by blast+
    show "(spec_platform sp \<noteq> PlatRuby \<and> platform_matches (spec_platform sp) host) \<or>
       \<not> (\<exists>s sp'. s \<in> set (sources l) \<and> sp' \<in> set (specs s) \<and> spec_name sp' = name \<and>
            spec_platform sp' \<noteq> PlatRuby \<and> platform_matches (spec_platform sp') host) \<and>
       (spec_platform sp = PlatRuby \<or>
        \<not> (\<exists>s sp'. s \<in> set (sources l) \<and> sp' \<in> set (specs s) \<and> spec_name sp' = name \<and> spec_platform sp' = PlatRuby))"
      using c rows by blast
  qed
qed

theorem spec_for_choice_witness:
  "spec_for small_lock (lit ''racc'') (PlatSpecific None (lit ''linux'') None) \<noteq> None \<and>
   spec_name (the (spec_for small_lock (lit ''racc'') (PlatSpecific None (lit ''linux'') None))) = lit ''racc''"
proof -
  let ?h = "PlatSpecific None (lit ''linux'') None"
  let ?sp = "hd (specs (hd (sources small_lock)))"
  have "spec_for small_lock (lit ''racc'') ?h = Some ?sp"
    by (simp add: spec_for_def small_lock_def all_specs_def or_else_def)
  then show ?thesis using spec_for_choice[of small_lock "lit ''racc''" ?h ?sp] by simp
qed

text \<open>
  The compiler's view of a lockfile has exactly one row per gem name, in increasing order of the names,
  each a row of the lockfile, and the source row whenever the lockfile offers one; the roots are the names of
  the dependencies without repetition.
\<close>

theorem resolved_view:
  "sorted_wrt ord_class.lexordp (map lg_name (resolved l)) \<and>
   set (map lg_name (resolved l)) = {spec_name sp |s sp. s \<in> set (sources l) \<and> sp \<in> set (specs s)} \<and>
   (g \<in> set (resolved l) \<longrightarrow>
      is_row (all_specs l) (lg_name g) g \<and> (source_row (all_specs l) (lg_name g) \<longrightarrow> lg_platform g = None)) \<and>
   distinct (roots l) \<and> set (roots l) = dep_name ` set (dependencies l)"
proof -
  define m where "m = foldl keep_row [] (all_specs l)"
  have K: "key_order m" "set (map fst m) = (spec_name \<circ> snd) ` set (all_specs l)"
    "\<And>k g. map_of m k = Some g \<Longrightarrow> is_row (all_specs l) k g \<and> (source_row (all_specs l) k \<longrightarrow> lg_platform g = None)"
    using kept_resolved[of l] by (auto simp: kept_def m_def)
  have "distinct (map fst m)" using K(1) by (rule key_order_distinct)
  then have mem: "(k, g) \<in> set m \<Longrightarrow> map_of m k = Some g" for k g by simp
  have names: "lg_name g = k" if "(k, g) \<in> set m" for k g
    using K(3)[OF mem[OF that]] by (auto simp: is_row_def locked_of_def)
  then have "map lg_name (map snd m) = map fst m" by (auto intro!: map_cong)
  then have n: "map lg_name (resolved l) = map fst m" by (simp add: resolved_def m_def)
  have g: "is_row (all_specs l) (lg_name g) g \<and> (source_row (all_specs l) (lg_name g) \<longrightarrow> lg_platform g = None)"
    if "g \<in> set (resolved l)"
  proof -
    have "g \<in> snd ` set m" using that by (simp add: resolved_def m_def)
    then obtain k where "(k, g) \<in> set m" by force
    then show ?thesis using K(3) mem names by metis
  qed
  show ?thesis
    using K(1) g roots_fold[of "[]" "dependencies l"] unfolding n K(2) all_specs_names
    by (simp add: key_order_def roots_def)
qed

theorem resolved_view_witness:
  "lg_platform (hd (resolved small_lock)) = None"
proof -
  have s: "source_row (all_specs small_lock) (lit ''racc'')"
    by (simp add: source_row_def small_lock_def all_specs_def)
  have r: "resolved small_lock = [locked_of (hd (sources small_lock)) (hd (specs (hd (sources small_lock))))]"
    by (simp add: resolved_def small_lock_def all_specs_def keep_row_def)
  moreover have "lg_name (hd (resolved small_lock)) = lit ''racc''" unfolding r by (simp add: locked_of_def small_lock_def)
  ultimately show ?thesis using resolved_view[of small_lock "hd (resolved small_lock)"] s by simp
qed

text \<open>
  A section that appears twice does not survive: its rows are kept in one list, and the printer writes the
  whole list under each of the two headers.
\<close>

theorem repeated_section_doubles:
  "\<exists>l. lockfile_parse (lit ''PLATFORMS'' @ [10] @ lit ''  a'' @ [10] @ lit ''PLATFORMS'' @ [10] @ lit ''  b'') = Ok l \<and>
     platforms l = [lit ''a'', lit ''b''] \<and>
     display l = Some (lit ''PLATFORMS'' @ [10] @ lit ''  a'' @ [10] @ lit ''  b'' @ [10, 10] @
                       lit ''PLATFORMS'' @ [10] @ lit ''  a'' @ [10] @ lit ''  b'' @ [10])"
  by (simp add: reader_eval is_source_def display_def writeln_def)

end
