(* ===== verification/Interrupts.thy ===== *)
theory Interrupts
  imports Prelude
begin

unbundle bit_operations_syntax

text \<open>
  Interrupt delivery (\<^verbatim>\<open>crates/zeo-rt/src/concurrency/gvl.rs\<close>, the payload slots of \<^verbatim>\<open>thread.rs\<close> and the due flag of
  \<^verbatim>\<open>gc/mod.rs\<close>): the bits of a \<^verbatim>\<open>ThreadCtx\<close>, the process-wide counter that generated code loads at every
  checkpoint, and the checkpoint itself.  Each operation is given as a whole (\<open>post\<close>, \<open>take_int\<close>, \<open>thread_kill\<close>,
  \<open>thread_raise\<close>, \<open>deliver_pending\<close>, \<open>arm_collection\<close>, \<open>service_due\<close>) and as the two atomic accesses it consists of, which other threads
  can come between (\<open>int_step\<close>).
\<close>

type_synonym tid = nat

definition INT_TIMER :: "32 word" where "INT_TIMER = 1"
definition INT_PENDING :: "32 word" where "INT_PENDING = push_bit 1 1"
definition INT_GC :: "32 word" where "INT_GC = push_bit 2 1"

lemmas int_bits = INT_TIMER_def INT_PENDING_def INT_GC_def

definition int_bit_list :: "32 word list" where
  "int_bit_list = [INT_TIMER, INT_PENDING, INT_GC]"

datatype 'e interrupt_kind = Kill | Raise 'e

record 'e shared =
  ints :: "tid \<Rightarrow> 32 word"
  woke :: "tid \<Rightarrow> bool"
  interrupt :: "tid \<Rightarrow> 'e interrupt_kind option"
  was_killed :: "tid \<Rightarrow> bool"
  body_entered :: "tid \<Rightarrow> bool"
  ctx_registered :: "tid \<Rightarrow> bool"
  due :: bool
  pending_global :: "32 word"

subsection \<open>The atomic accesses\<close>

definition fetch_or :: "tid \<Rightarrow> 32 word \<Rightarrow> 'e shared \<Rightarrow> 32 word \<times> 'e shared" where
  "fetch_or c b s = (ints s c, s\<lparr>ints := (ints s)(c := ints s c OR b)\<rparr>)"

definition fetch_and_not :: "tid \<Rightarrow> 32 word \<Rightarrow> 'e shared \<Rightarrow> 32 word \<times> 'e shared" where
  "fetch_and_not c b s = (ints s c, s\<lparr>ints := (ints s)(c := ints s c AND NOT b)\<rparr>)"

definition note_posted :: "'e shared \<Rightarrow> 'e shared" where
  "note_posted s = s\<lparr>pending_global := pending_global s + 1\<rparr>"

definition note_consumed :: "'e shared \<Rightarrow> 'e shared" where
  "note_consumed s = s\<lparr>pending_global := pending_global s - 1\<rparr>"

definition wake :: "tid \<Rightarrow> 'e shared \<Rightarrow> 'e shared" where
  "wake c s = s\<lparr>woke := (woke s)(c := True)\<rparr>"

subsection \<open>The operations, undisturbed\<close>

definition post :: "tid \<Rightarrow> 32 word \<Rightarrow> 'e shared \<Rightarrow> 'e shared" where
  "post c b s =
     (let (prev, s1) = fetch_or c b s;
          s2 = (if prev AND b = 0 then note_posted s1 else s1)
      in wake c s2)"

definition take_int :: "tid \<Rightarrow> 32 word \<Rightarrow> 'e shared \<Rightarrow> bool \<times> 'e shared" where
  "take_int c b s =
     (let (prev, s1) = fetch_and_not c b s; had = (prev AND b \<noteq> 0)
      in (had, if had then note_consumed s1 else s1))"

definition pending :: "tid \<Rightarrow> 32 word \<Rightarrow> 'e shared \<Rightarrow> bool" where
  "pending c b s \<longleftrightarrow> ints s c AND b \<noteq> 0"

definition interrupts_pending_anywhere :: "'e shared \<Rightarrow> bool" where
  "interrupts_pending_anywhere s \<longleftrightarrow> pending_global s \<noteq> 0"

text \<open>
  \<^verbatim>\<open>Thread#kill\<close> and \<^verbatim>\<open>Thread#raise\<close>: fill the target's slot, count it when it was empty, wake the target if it has
  registered a context to sleep on.
\<close>

definition register_current_ctx :: "tid \<Rightarrow> 'e shared \<Rightarrow> 'e shared" where
  "register_current_ctx t s = s\<lparr>ctx_registered := (ctx_registered s)(t := True)\<rparr>"

definition wake_target :: "tid \<Rightarrow> 'e shared \<Rightarrow> 'e shared" where
  "wake_target t s = (if ctx_registered s t then wake t s else s)"

definition fill_interrupt :: "tid \<Rightarrow> 'e interrupt_kind \<Rightarrow> 'e shared \<Rightarrow> 'e shared" where
  "fill_interrupt t k s =
     (let s1 = s\<lparr>interrupt := (interrupt s)(t := Some k)\<rparr>
      in if interrupt s t = None then note_posted s1 else s1)"

definition thread_raise :: "tid \<Rightarrow> 'e \<Rightarrow> 'e shared \<Rightarrow> 'e shared" where
  "thread_raise t e s = wake_target t (fill_interrupt t (Raise e) s)"

definition thread_kill :: "tid \<Rightarrow> 'e shared \<Rightarrow> 'e shared" where
  "thread_kill t s =
     wake_target t (fill_interrupt t Kill (s\<lparr>was_killed := (was_killed s)(t := True)\<rparr>))"

definition deliver_pending :: "tid \<Rightarrow> 'e shared \<Rightarrow> 'e interrupt_kind option \<times> 'e shared" where
  "deliver_pending t s =
     (let s1 = s\<lparr>interrupt := (interrupt s)(t := None)\<rparr>
      in (interrupt s t, if interrupt s t \<noteq> None then note_consumed s1 else s1))"

text \<open>A spawned thread's first emitted checkpoint only marks that its body has been entered.\<close>

definition emitted_checkpoint :: "tid \<Rightarrow> 'e shared \<Rightarrow> 'e interrupt_kind option \<times> 'e shared" where
  "emitted_checkpoint t s =
     (let s1 = s\<lparr>body_entered := (body_entered s)(t := True)\<rparr>
      in if \<not> body_entered s t then (None, s1) else deliver_pending t s1)"

definition arm_collection :: "'e shared \<Rightarrow> 'e shared" where
  "arm_collection s = (let s1 = s\<lparr>due := True\<rparr> in if due s then s1 else note_posted s1)"

definition service_due :: "'e shared \<Rightarrow> bool \<times> 'e shared" where
  "service_due s = (let s1 = s\<lparr>due := False\<rparr> in if due s then (True, note_consumed s1) else (False, s1))"

text \<open>The sleeper's side: consume a wake, else time out.\<close>

definition sleep_poll :: "tid \<Rightarrow> 'e shared \<Rightarrow> bool \<times> 'e shared" where
  "sleep_poll c s = (woke s c, s\<lparr>woke := (woke s)(c := False)\<rparr>)"

subsection \<open>The interleaving\<close>

text \<open>
  What an actor still owes the counter: nothing, an increment (it has just set a flag nobody had set), or a
  decrement (it has just cleared one).
\<close>

datatype owes = Nothing | Add | Sub

definition settle :: "(tid \<Rightarrow> owes) \<Rightarrow> tid \<Rightarrow> owes \<Rightarrow> bool \<Rightarrow> tid \<Rightarrow> owes" where
  "settle pcs a d newly = (if newly then pcs(a := d) else pcs)"

inductive int_step ::
  "tid set \<Rightarrow> 'e shared \<times> (tid \<Rightarrow> owes) \<Rightarrow> 'e shared \<times> (tid \<Rightarrow> owes) \<Rightarrow> bool" for T where
  post_bit: "\<lbrakk>a \<in> T; c \<in> T; b \<in> set int_bit_list; pcs a = Nothing; fetch_or c b s = (prev, s')\<rbrakk>
    \<Longrightarrow> int_step T (s, pcs) (s', settle pcs a Add (prev AND b = 0))"
| take_bit: "\<lbrakk>a \<in> T; c \<in> T; b \<in> set int_bit_list; pcs a = Nothing; fetch_and_not c b s = (prev, s')\<rbrakk>
    \<Longrightarrow> int_step T (s, pcs) (s', settle pcs a Sub (prev AND b \<noteq> 0))"
| fill_slot: "\<lbrakk>a \<in> T; t \<in> T; pcs a = Nothing\<rbrakk>
    \<Longrightarrow> int_step T (s, pcs) (s\<lparr>interrupt := (interrupt s)(t := Some k)\<rparr>, settle pcs a Add (interrupt s t = None))"
| take_slot: "\<lbrakk>a \<in> T; t \<in> T; pcs a = Nothing\<rbrakk>
    \<Longrightarrow> int_step T (s, pcs) (s\<lparr>interrupt := (interrupt s)(t := None)\<rparr>, settle pcs a Sub (interrupt s t \<noteq> None))"
| arm: "\<lbrakk>a \<in> T; pcs a = Nothing\<rbrakk>
    \<Longrightarrow> int_step T (s, pcs) (s\<lparr>due := True\<rparr>, settle pcs a Add (\<not> due s))"
| service: "\<lbrakk>a \<in> T; pcs a = Nothing\<rbrakk>
    \<Longrightarrow> int_step T (s, pcs) (s\<lparr>due := False\<rparr>, settle pcs a Sub (due s))"
| add: "\<lbrakk>a \<in> T; pcs a = Add\<rbrakk> \<Longrightarrow> int_step T (s, pcs) (note_posted s, pcs(a := Nothing))"
| sub: "\<lbrakk>a \<in> T; pcs a = Sub\<rbrakk> \<Longrightarrow> int_step T (s, pcs) (note_consumed s, pcs(a := Nothing))"
| wake_up: "c \<in> T \<Longrightarrow> int_step T (s, pcs) (wake c s, pcs)"
| slept: "c \<in> T \<Longrightarrow> int_step T (s, pcs) (snd (sleep_poll c s), pcs)"
| mark: "int_step T (s, pcs) (s\<lparr>was_killed := k, body_entered := e, ctx_registered := r\<rparr>, pcs)"

definition int_init :: "'e shared" where
  "int_init = \<lparr>ints = (\<lambda>_. 0), woke = (\<lambda>_. False), interrupt = (\<lambda>_. None), was_killed = (\<lambda>_. False),
     body_entered = (\<lambda>_. False), ctx_registered = (\<lambda>_. False), due = False, pending_global = 0\<rparr>"

subsection \<open>Counting flags\<close>

definition bit_count :: "32 word \<Rightarrow> nat" where
  "bit_count w = length (filter (\<lambda>b. w AND b \<noteq> 0) int_bit_list)"

definition flag_count :: "tid set \<Rightarrow> 'e shared \<Rightarrow> nat" where
  "flag_count T s =
     (\<Sum>t \<in> T. bit_count (ints s t) + of_bool (interrupt s t \<noteq> None)) + of_bool (due s)"

definition owing :: "tid set \<Rightarrow> (tid \<Rightarrow> owes) \<Rightarrow> owes \<Rightarrow> nat" where
  "owing T pcs d = card {a \<in> T. pcs a = d}"

definition balanced :: "tid set \<Rightarrow> 'e shared \<times> (tid \<Rightarrow> owes) \<Rightarrow> bool" where
  "balanced T sp \<longleftrightarrow>
     pending_global (fst sp) + of_nat (owing T (snd sp) Add) = of_nat (flag_count T (fst sp)) + of_nat (owing T (snd sp) Sub)"

lemma int_bits_and [simp]:
  "INT_TIMER AND INT_PENDING = 0" "INT_TIMER AND INT_GC = 0" "INT_PENDING AND INT_GC = 0"
  "INT_PENDING AND INT_TIMER = 0" "INT_GC AND INT_TIMER = 0" "INT_GC AND INT_PENDING = 0"
  "INT_TIMER \<noteq> 0" "INT_PENDING \<noteq> 0" "INT_GC \<noteq> 0"
  by (simp_all add: int_bits)

lemma or_bit_test:
  "b \<in> set int_bit_list \<Longrightarrow> b' \<in> set int_bit_list \<Longrightarrow> (w OR b) AND b' = 0 \<longleftrightarrow> b \<noteq> b' \<and> w AND b' = 0"
  by (auto simp: int_bit_list_def bit.conj_disj_distrib2 or_eq_0_iff)

lemma and_not_bit_test:
  "b \<in> set int_bit_list \<Longrightarrow> b' \<in> set int_bit_list \<Longrightarrow> (w AND NOT b) AND b' = 0 \<longleftrightarrow> b = b' \<or> w AND b' = 0"
proof -
  assume b: "b \<in> set int_bit_list" "b' \<in> set int_bit_list"
  have "NOT b AND b' = (if b = b' then 0 else b')"
    using b by (auto simp: int_bit_list_def int_bits)
  then show ?thesis using b by (auto simp: and.assoc int_bit_list_def)
qed

lemma bit_count_or:
  "b \<in> set int_bit_list \<Longrightarrow> bit_count (w OR b) = bit_count w + of_bool (w AND b = 0)"
  using or_bit_test[of b INT_TIMER w] or_bit_test[of b INT_PENDING w] or_bit_test[of b INT_GC w]
  by (auto simp: bit_count_def int_bit_list_def int_bits)

lemma bit_count_and_not:
  "b \<in> set int_bit_list \<Longrightarrow> bit_count w = bit_count (w AND NOT b) + of_bool (w AND b \<noteq> 0)"
  using and_not_bit_test[of b INT_TIMER w] and_not_bit_test[of b INT_PENDING w] and_not_bit_test[of b INT_GC w]
  by (auto simp: bit_count_def int_bit_list_def int_bits)

lemma sum_fun_upd:
  fixes f :: "'b \<Rightarrow> tid \<Rightarrow> nat"
  assumes "finite T" "c \<in> T"
  shows "(\<Sum>t \<in> T. f ((g(c := v)) t) t) + f (g c) c = (\<Sum>t \<in> T. f (g t) t) + f v c"
proof -
  have "(\<Sum>t \<in> T - {c}. f ((g(c := v)) t) t) = (\<Sum>t \<in> T - {c}. f (g t) t)" by (rule sum.cong) auto
  then show ?thesis
    using sum.remove[OF assms, of "\<lambda>t. f ((g(c := v)) t) t"] sum.remove[OF assms, of "\<lambda>t. f (g t) t"] by simp
qed

lemma flag_count_ints:
  assumes "finite T" "c \<in> T"
  shows "flag_count T (s\<lparr>ints := (ints s)(c := w)\<rparr>) + bit_count (ints s c) = flag_count T s + bit_count w"
  using sum_fun_upd[OF assms, of "\<lambda>w t. bit_count w + of_bool (interrupt s t \<noteq> None)" "ints s" w]
  by (simp add: flag_count_def)

lemma flag_count_slot:
  assumes "finite T" "t \<in> T"
  shows "flag_count T (s\<lparr>interrupt := (interrupt s)(t := k)\<rparr>) + of_bool (interrupt s t \<noteq> None)
    = flag_count T s + of_bool (k \<noteq> None)"
  using sum_fun_upd[OF assms, of "\<lambda>k t. bit_count (ints s t) + of_bool (k \<noteq> None)" "interrupt s" k]
  by (simp add: flag_count_def)

lemma owing_upd:
  assumes "finite T" "a \<in> T"
  shows "owing T (pcs(a := d)) d' + of_bool (pcs a = d') = owing T pcs d' + of_bool (d = d')"
proof -
  have o: "owing T p d' = (\<Sum>t \<in> T. of_bool (p t = d'))" for p
    using assms(1) by (simp add: owing_def sum.If_cases of_bool_def Int_def)
  show ?thesis unfolding o using sum_fun_upd[OF assms, of "\<lambda>x t. of_bool (x = d')" pcs d] by simp
qed

text \<open>Setting or clearing a flag moves the flag count and the debt of the actor together.\<close>

lemma balanced_flag:
  assumes "balanced T (s, pcs)" "finite T" "a \<in> T" "pcs a = Nothing" "pending_global s' = pending_global s"
    and "d = Add \<and> flag_count T s' = flag_count T s + of_bool newly \<or>
      d = Sub \<and> flag_count T s = flag_count T s' + of_bool newly"
  shows "balanced T (s', settle pcs a d newly)"
proof (cases newly)
  case True
  have "owing T (pcs(a := d)) Add = owing T pcs Add + of_bool (d = Add)"
    "owing T (pcs(a := d)) Sub = owing T pcs Sub + of_bool (d = Sub)"
    using owing_upd[OF assms(2,3), of pcs d] assms(4) by (metis add.right_neutral of_bool_eq(1) owes.distinct(1,3))+
  then show ?thesis using assms(1,5,6) True
    by (elim disjE) (auto simp: balanced_def settle_def algebra_simps)
next
  case False
  then show ?thesis using assms(1,5,6) by (auto simp: balanced_def settle_def)
qed

lemma balanced_pay:
  assumes "balanced T (s, pcs)" "finite T" "a \<in> T" "pcs a = d"
    and "d = Add \<and> s' = note_posted s \<or> d = Sub \<and> s' = note_consumed s"
  shows "balanced T (s', pcs(a := Nothing))"
proof -
  have "owing T (pcs(a := Nothing)) Add + of_bool (d = Add) = owing T pcs Add"
    "owing T (pcs(a := Nothing)) Sub + of_bool (d = Sub) = owing T pcs Sub"
    using owing_upd[OF assms(2,3), of pcs Nothing] assms(4) by (metis add.right_neutral of_bool_eq(1) owes.distinct(1,3))+
  then have o: "of_nat (owing T pcs Add) = (of_nat (owing T (pcs(a := Nothing)) Add) :: 32 word) + of_bool (d = Add)"
    "of_nat (owing T pcs Sub) = (of_nat (owing T (pcs(a := Nothing)) Sub) :: 32 word) + of_bool (d = Sub)"
    by (metis of_nat_add of_nat_of_bool)+
  have "flag_count T (note_posted s) = flag_count T s" "flag_count T (note_consumed s) = flag_count T s"
    by (simp_all add: flag_count_def note_posted_def note_consumed_def)
  then show ?thesis using assms(1,5) o
    by (elim disjE) (auto simp: balanced_def note_posted_def note_consumed_def algebra_simps)
qed

lemma int_step_balanced:
  assumes "int_step T x y" "finite T" "balanced T x"
  shows "balanced T y"
  using assms(1,3)
proof (induction rule: int_step.induct)
  case (post_bit a c b pcs s prev s')
  then show ?case using flag_count_ints[OF assms(2) \<open>c \<in> T\<close>, of s "ints s c OR b"] bit_count_or[of b "ints s c"]
    by (intro balanced_flag[OF post_bit.prems assms(2)]) (auto simp: fetch_or_def)
next
  case (take_bit a c b pcs s prev s')
  then show ?case using flag_count_ints[OF assms(2) \<open>c \<in> T\<close>, of s "ints s c AND NOT b"] bit_count_and_not[of b "ints s c"]
    by (intro balanced_flag[OF take_bit.prems assms(2)]) (auto simp: fetch_and_not_def)
next
  case (fill_slot a t pcs s k)
  then show ?case using flag_count_slot[OF assms(2) \<open>t \<in> T\<close>, of s "Some k"]
    by (intro balanced_flag[OF fill_slot.prems assms(2)]) auto
next
  case (take_slot a t pcs s)
  then show ?case using flag_count_slot[OF assms(2) \<open>t \<in> T\<close>, of s None]
    by (intro balanced_flag[OF take_slot.prems assms(2)]) auto
next
  case (arm a pcs s)
  then show ?case by (intro balanced_flag[OF arm.prems assms(2)]) (auto simp: flag_count_def)
next
  case (service a pcs s)
  then show ?case by (intro balanced_flag[OF service.prems assms(2)]) (auto simp: flag_count_def)
next
  case (add a pcs s)
  then show ?case by (intro balanced_pay[OF add.prems assms(2)]) auto
next
  case (sub a pcs s)
  then show ?case by (intro balanced_pay[OF sub.prems assms(2)]) auto
next
  case (wake_up c s pcs)
  then show ?case by (simp add: balanced_def flag_count_def wake_def)
next
  case (slept c s pcs)
  then show ?case by (simp add: balanced_def flag_count_def sleep_poll_def)
next
  case (mark s pcs k e r)
  then show ?case by (simp add: balanced_def flag_count_def)
qed

lemma balanced_init: "balanced T (int_init, \<lambda>_. Nothing)"
  by (simp add: balanced_def int_init_def flag_count_def owing_def bit_count_def)

lemma reachable_balanced:
  assumes "(int_step T)\<^sup>*\<^sup>* x y" "finite T" "balanced T x"
  shows "balanced T y"
  using assms by (induction rule: rtranclp_induct) (auto intro: int_step_balanced)

lemma flag_count_bound:
  assumes "finite T"
  shows "flag_count T s \<le> 4 * card T + 1"
proof -
  have "bit_count w \<le> 3" for w
    using length_filter_le[of "\<lambda>b. w AND b \<noteq> 0" int_bit_list] by (simp add: bit_count_def int_bit_list_def)
  then have "bit_count (ints s t) + of_bool (interrupt s t \<noteq> None) \<le> 4" for t
    using add_mono[of "bit_count (ints s t)" 3 "of_bool (interrupt s t \<noteq> None)" 1] by simp
  then have "(\<Sum>t \<in> T. bit_count (ints s t) + of_bool (interrupt s t \<noteq> None)) \<le> (\<Sum>t \<in> T. 4)"
    by (intro sum_mono)
  then show ?thesis by (simp add: flag_count_def)
qed

text \<open>A whole operation is a run of the atomic steps of its caller.\<close>

lemma post_is_run:
  assumes "a \<in> T" "c \<in> T" "b \<in> set int_bit_list" "pcs a = Nothing"
  shows "(int_step T)\<^sup>*\<^sup>* (s, pcs) (post c b s, pcs)"
proof -
  obtain prev s1 where f: "fetch_or c b s = (prev, s1)" by (cases "fetch_or c b s")
  have "int_step T (s, pcs) (s1, settle pcs a Add (prev AND b = 0))" using int_step.post_bit[of a T c b pcs] assms f by blast
  moreover have "(int_step T)\<^sup>*\<^sup>* (s1, settle pcs a Add (prev AND b = 0)) (if prev AND b = 0 then note_posted s1 else s1, pcs)"
    using int_step.add[of a T "pcs(a := Add)" s1] assms by (auto simp: settle_def fun_upd_idem)
  moreover have "int_step T (if prev AND b = 0 then note_posted s1 else s1, pcs) (post c b s, pcs)"
    by (auto simp: post_def f Let_def intro: int_step.wake_up[OF assms(2)])
  ultimately show ?thesis by (meson converse_rtranclp_into_rtranclp rtranclp.rtrancl_into_rtrancl)
qed

lemma take_is_run:
  assumes "a \<in> T" "c \<in> T" "b \<in> set int_bit_list" "pcs a = Nothing"
  shows "(int_step T)\<^sup>*\<^sup>* (s, pcs) (snd (take_int c b s), pcs)"
proof -
  obtain prev s1 where f: "fetch_and_not c b s = (prev, s1)" by (cases "fetch_and_not c b s")
  have "int_step T (s, pcs) (s1, settle pcs a Sub (prev AND b \<noteq> 0))" using int_step.take_bit[of a T c b pcs] assms f by blast
  moreover have "(int_step T)\<^sup>*\<^sup>* (s1, settle pcs a Sub (prev AND b \<noteq> 0)) (snd (take_int c b s), pcs)"
    using int_step.sub[of a T "pcs(a := Sub)" s1] assms by (auto simp: settle_def fun_upd_idem take_int_def f Let_def)
  ultimately show ?thesis by (meson converse_rtranclp_into_rtranclp)
qed

lemma fill_interrupt_is_run:
  assumes "a \<in> T" "t \<in> T" "pcs a = Nothing"
  shows "(int_step T)\<^sup>*\<^sup>* (s, pcs) (fill_interrupt t k s, pcs)"
proof -
  let ?s1 = "s\<lparr>interrupt := (interrupt s)(t := Some k)\<rparr>"
  have "int_step T (s, pcs) (?s1, settle pcs a Add (interrupt s t = None))"
    using int_step.fill_slot[of a T t pcs] assms by blast
  moreover have "(int_step T)\<^sup>*\<^sup>* (?s1, settle pcs a Add (interrupt s t = None)) (fill_interrupt t k s, pcs)"
    using int_step.add[of a T "pcs(a := Add)" ?s1] assms by (auto simp: settle_def fun_upd_idem fill_interrupt_def Let_def)
  ultimately show ?thesis by (meson converse_rtranclp_into_rtranclp)
qed

lemma wake_target_is_run: "t \<in> T \<Longrightarrow> (int_step T)\<^sup>*\<^sup>* (s, pcs) (wake_target t s, pcs)"
  by (auto simp: wake_target_def intro: int_step.wake_up)

lemma thread_raise_is_run:
  "a \<in> T \<Longrightarrow> t \<in> T \<Longrightarrow> pcs a = Nothing \<Longrightarrow> (int_step T)\<^sup>*\<^sup>* (s, pcs) (thread_raise t e s, pcs)"
  unfolding thread_raise_def by (rule rtranclp_trans[OF fill_interrupt_is_run wake_target_is_run])

lemma thread_kill_is_run:
  assumes "a \<in> T" "t \<in> T" "pcs a = Nothing"
  shows "(int_step T)\<^sup>*\<^sup>* (s, pcs) (thread_kill t s, pcs)"
proof -
  let ?s0 = "s\<lparr>was_killed := (was_killed s)(t := True)\<rparr>"
  have "int_step T (s, pcs) (?s0, pcs)"
    using int_step.mark[where T = T and s = s and pcs = pcs and k = "(was_killed s)(t := True)" and e = "body_entered s" and r = "ctx_registered s"] by simp
  then show ?thesis unfolding thread_kill_def
    using rtranclp_trans[OF fill_interrupt_is_run[of a T t pcs ?s0 Kill] wake_target_is_run[OF assms(2)]] assms
    by (meson converse_rtranclp_into_rtranclp)
qed

lemma deliver_pending_is_run:
  assumes "a \<in> T" "t \<in> T" "pcs a = Nothing"
  shows "(int_step T)\<^sup>*\<^sup>* (s, pcs) (snd (deliver_pending t s), pcs)"
proof -
  let ?s1 = "s\<lparr>interrupt := (interrupt s)(t := None)\<rparr>"
  have "int_step T (s, pcs) (?s1, settle pcs a Sub (interrupt s t \<noteq> None))"
    using int_step.take_slot[of a T t pcs] assms by blast
  moreover have "(int_step T)\<^sup>*\<^sup>* (?s1, settle pcs a Sub (interrupt s t \<noteq> None)) (snd (deliver_pending t s), pcs)"
    using int_step.sub[of a T "pcs(a := Sub)" ?s1] assms by (auto simp: settle_def fun_upd_idem deliver_pending_def Let_def)
  ultimately show ?thesis by (meson converse_rtranclp_into_rtranclp)
qed

lemma collection_flag_is_run:
  assumes "a \<in> T" "pcs a = Nothing"
  shows "(int_step T)\<^sup>*\<^sup>* (s, pcs) (arm_collection s, pcs)" "(int_step T)\<^sup>*\<^sup>* (s, pcs) (snd (service_due s), pcs)"
proof -
  have "int_step T (s, pcs) (s\<lparr>due := True\<rparr>, settle pcs a Add (\<not> due s))"
    using int_step.arm[of a T pcs] assms by blast
  moreover have "(int_step T)\<^sup>*\<^sup>* (s\<lparr>due := True\<rparr>, settle pcs a Add (\<not> due s)) (arm_collection s, pcs)"
    using int_step.add[of a T "pcs(a := Add)" "s\<lparr>due := True\<rparr>"] assms
    by (auto simp: settle_def fun_upd_idem arm_collection_def Let_def)
  ultimately show "(int_step T)\<^sup>*\<^sup>* (s, pcs) (arm_collection s, pcs)" by (meson converse_rtranclp_into_rtranclp)
  have "int_step T (s, pcs) (s\<lparr>due := False\<rparr>, settle pcs a Sub (due s))"
    using int_step.service[of a T pcs] assms by blast
  moreover have "(int_step T)\<^sup>*\<^sup>* (s\<lparr>due := False\<rparr>, settle pcs a Sub (due s)) (snd (service_due s), pcs)"
    using int_step.sub[of a T "pcs(a := Sub)" "s\<lparr>due := False\<rparr>"] assms
    by (auto simp: settle_def fun_upd_idem service_due_def Let_def)
  ultimately show "(int_step T)\<^sup>*\<^sup>* (s, pcs) (snd (service_due s), pcs)" by (meson converse_rtranclp_into_rtranclp)
qed

text \<open>A killed or interrupted thread gets its interrupt at its next delivering checkpoint, and only once.\<close>

lemma kill_delivered:
  "deliver_pending t (thread_kill t s) = (Some Kill, snd (deliver_pending t (thread_kill t s)))"
  "fst (deliver_pending t (snd (deliver_pending t s))) = None"
  by (simp_all add: deliver_pending_def thread_kill_def wake_target_def fill_interrupt_def note_posted_def wake_def
      note_consumed_def Let_def)

lemma first_checkpoint_defers:
  "\<not> body_entered s t \<Longrightarrow> fst (emitted_checkpoint t s) = None \<and> body_entered (snd (emitted_checkpoint t s)) t \<and>
     interrupt (snd (emitted_checkpoint t s)) t = interrupt s t"
  by (simp add: emitted_checkpoint_def Let_def)

subsection \<open>Properties\<close>

text \<open>
  C8. The counter that every checkpoint loads is exact: in every interleaving of posts, takes, kills, raises,
  deliveries and collection requests it equals the number of undelivered flags, up to the increments and
  decrements that are between the two halves of an operation; when no operation is under way it is that number,
  so the fast path skips the slow path exactly when nothing is undelivered anywhere.
\<close>

theorem pending_counter_exact:
  assumes "(int_step T)\<^sup>*\<^sup>* (int_init, \<lambda>_. Nothing) (s, pcs)" "finite T" "4 * card T + 1 < 2 ^ 32"
  shows "pending_global s + of_nat (owing T pcs Add) = of_nat (flag_count T s) + of_nat (owing T pcs Sub) \<and>
    ((\<forall>a \<in> T. pcs a = Nothing) \<longrightarrow>
       unat (pending_global s) = flag_count T s \<and> (interrupts_pending_anywhere s \<longleftrightarrow> flag_count T s > 0))"
proof -
  have b: "balanced T (s, pcs)" using reachable_balanced[OF assms(1,2) balanced_init] .
  have "unat (pending_global s) = flag_count T s" if "\<forall>a \<in> T. pcs a = Nothing"
  proof -
    have "{a \<in> T. pcs a = Add} = {}" "{a \<in> T. pcs a = Sub} = {}" using that by auto
    then have "owing T pcs Add = 0" "owing T pcs Sub = 0" unfolding owing_def by (simp_all only: card.empty)
    then have "pending_global s = of_nat (flag_count T s)" using b by (simp add: balanced_def)
    moreover have "flag_count T s < 2 ^ 32" using flag_count_bound[OF assms(2), of s] assms(3) by linarith
    ultimately show ?thesis by (simp add: unsigned_of_nat take_bit_nat_eq_self)
  qed
  moreover have "interrupts_pending_anywhere s \<longleftrightarrow> unat (pending_global s) > 0"
    using unat_0_iff[of "pending_global s"] by (auto simp: interrupts_pending_anywhere_def)
  ultimately show ?thesis using b by (simp add: balanced_def)
qed

theorem pending_counter_exact_witness:
  "unat (pending_global (post 0 INT_GC (post 0 INT_GC (int_init :: nat shared)))) = 1"
proof -
  let ?T = "{0} :: tid set" and ?p = "\<lambda>_. Nothing" and ?s = "post 0 INT_GC (post 0 INT_GC (int_init :: nat shared))"
  have "(int_step ?T)\<^sup>*\<^sup>* (int_init, ?p) (?s, ?p)"
    using post_is_run[of 0 ?T 0 INT_GC ?p int_init] post_is_run[of 0 ?T 0 INT_GC ?p "post 0 INT_GC int_init"]
    by (auto simp: int_bit_list_def intro: rtranclp_trans)
  from pending_counter_exact[OF this] have "unat (pending_global ?s) = flag_count ?T ?s" by simp
  then show ?thesis
    by (simp add: flag_count_def bit_count_def int_bit_list_def post_def fetch_or_def note_posted_def wake_def
        int_init_def int_bits Let_def)
qed

text \<open>
  A context has no destructor: when the thread of a context with a bit set ends, the bit is gone and its count is not.
  \<open>drop_ctx\<close> is the end of the last reference to a context.
\<close>

definition drop_ctx :: "tid \<Rightarrow> 'e shared \<Rightarrow> 'e shared" where
  "drop_ctx c s = s\<lparr>ints := (ints s)(c := 0), woke := (woke s)(c := False)\<rparr>"

theorem dead_context_strands_the_counter:
  "interrupts_pending_anywhere (drop_ctx c (post c INT_TIMER (int_init :: 'e shared))) \<and>
   ints (drop_ctx c (post c INT_TIMER (int_init :: 'e shared))) = (\<lambda>_. 0) \<and>
   interrupt (drop_ctx c (post c INT_TIMER (int_init :: 'e shared))) = (\<lambda>_. None) \<and>
   \<not> due (drop_ctx c (post c INT_TIMER (int_init :: 'e shared)))"
  by (auto simp: drop_ctx_def post_def fetch_or_def note_posted_def wake_def int_init_def interrupts_pending_anywhere_def
      INT_TIMER_def Let_def fun_eq_iff)

end
