(* ===== verification/Machines.thy ===== *)
theory Machines
  imports Prelude
begin

text \<open>
  Runs of labelled step relations, and the two proof rules the concurrent components share: an invariant that the
  initial states have and every step keeps (\<open>invariant_machine\<close>), and a forward simulation between two machines with
  the same labels (\<open>forward_simulation\<close>).
\<close>

inductive run :: "('s \<Rightarrow> 'e \<Rightarrow> 's \<Rightarrow> bool) \<Rightarrow> 's \<Rightarrow> 'e list \<Rightarrow> 's \<Rightarrow> bool" for step where
  run_nil: "run step x [] x"
| run_snoc: "run step x es y \<Longrightarrow> step y e z \<Longrightarrow> run step x (es @ [e]) z"

inductive_simps run_nil_simps [simp]: "run step x [] y"

lemma run_cons:
  assumes "run step y es z" "step x e y"
  shows "run step x (e # es) z"
  using assms
proof (induction rule: run.induct)
  case (run_nil y)
  then show ?case using run.run_snoc[OF run.run_nil, of step x e y] by simp
next
  case (run_snoc y es w e' z)
  then show ?case using run.run_snoc[of step x "e # es" w e' z] by simp
qed

lemma run_append:
  assumes "run step y fs z" "run step x es y"
  shows "run step x (es @ fs) z"
  using assms
proof (induction rule: run.induct)
  case (run_snoc y fs w e z)
  then show ?case using run.run_snoc[of step x "es @ fs" w e z] by simp
qed simp

locale invariant_machine =
  fixes step :: "'s \<Rightarrow> 'e \<Rightarrow> 's \<Rightarrow> bool"
    and start :: "'s \<Rightarrow> bool"
    and inv :: "'s \<Rightarrow> bool"
  assumes start_inv: "start x \<Longrightarrow> inv x"
    and step_inv: "inv x \<Longrightarrow> step x e y \<Longrightarrow> inv y"
begin

lemma run_inv: "run step x es y \<Longrightarrow> inv x \<Longrightarrow> inv y"
  by (induction rule: run.induct) (auto intro: step_inv)

lemma reachable_inv: "start x \<Longrightarrow> run step x es y \<Longrightarrow> inv y"
  using start_inv run_inv by blast

end

locale forward_simulation =
  fixes cstep :: "'s \<Rightarrow> 'e \<Rightarrow> 's \<Rightarrow> bool"
    and astep :: "'a \<Rightarrow> 'e \<Rightarrow> 'a \<Rightarrow> bool"
    and rel :: "'s \<Rightarrow> 'a \<Rightarrow> bool"
  assumes simulates: "rel x a \<Longrightarrow> cstep x e y \<Longrightarrow> \<exists>b. astep a e b \<and> rel y b"
begin

lemma run_simulates: "run cstep x es y \<Longrightarrow> rel x a \<Longrightarrow> \<exists>b. run astep a es b \<and> rel y b"
proof (induction rule: run.induct)
  case (run_snoc x es y e z)
  then show ?case using simulates by (meson run.run_snoc)
qed (auto intro: run.run_nil)

end

end
