(* ===== verification/Gvl.thy ===== *)
theory Gvl
  imports Interrupts Machines
begin

text \<open>
  The scheduling lock (\<^verbatim>\<open>crates/zeo-rt/src/concurrency/gvl.rs\<close>, \<^verbatim>\<open>Gvl\<close>): tickets as 64-bit words, the holder, the
  registry of attached threads, and the operations.  \<open>acquire\<close> blocks, so it is two transitions of its caller: drawing
  a ticket, and entering when the ticket is served.  \<open>gvl_step\<close> interleaves the operations of any number of threads; an
  abstract first-in first-out lock is the specification it refines.  The registry holds weak references: whether the
  context of a thread still exists is the argument \<open>alive\<close>.
\<close>

record gvl =
  armed :: bool
  next_ticket :: "64 word"
  now_serving :: "64 word"
  holder :: "tid option"
  members :: "tid list"

definition with_armed :: "bool \<Rightarrow> gvl" where
  "with_armed b = \<lparr>armed = b, next_ticket = 0, now_serving = 0, holder = None, members = []\<rparr>"

definition from_env :: "string option \<Rightarrow> gvl" where
  "from_env v = with_armed (v = Some ''1'' \<or> v = Some ''true'' \<or> v = Some ''on'')"

definition arm :: "tid \<Rightarrow> gvl \<Rightarrow> gvl" where
  "arm t g = (if armed g then g else g\<lparr>next_ticket := 1, now_serving := 0, holder := Some t, armed := True\<rparr>)"

definition attach :: "(tid \<Rightarrow> bool) \<Rightarrow> tid \<Rightarrow> gvl \<Rightarrow> gvl" where
  "attach alive c g = g\<lparr>members := filter alive (members g) @ [c]\<rparr>"

definition live_members :: "(tid \<Rightarrow> bool) \<Rightarrow> gvl \<Rightarrow> nat" where
  "live_members alive g = length (filter alive (members g))"

definition holds :: "tid \<Rightarrow> gvl \<Rightarrow> bool" where
  "holds t g \<longleftrightarrow> armed g \<and> holder g = Some t"

definition take_ticket :: "gvl \<Rightarrow> 64 word \<times> gvl" where
  "take_ticket g = (next_ticket g, g\<lparr>next_ticket := next_ticket g + 1\<rparr>)"

definition enter :: "tid \<Rightarrow> gvl \<Rightarrow> gvl" where
  "enter t g = g\<lparr>holder := Some t\<rparr>"

definition release :: "tid \<Rightarrow> gvl \<Rightarrow> gvl" where
  "release t g =
     (if \<not> armed g then g
      else if holder g \<noteq> Some t then g
      else g\<lparr>holder := None, now_serving := now_serving g + 1\<rparr>)"

text \<open>Whether \<open>hold_reentrant\<close> takes the lock: armed, and not held by the caller already.\<close>

definition hold_reentrant :: "tid \<Rightarrow> gvl \<Rightarrow> bool" where
  "hold_reentrant t g \<longleftrightarrow> armed g \<and> \<not> holds t g"

definition post_all :: "(tid \<Rightarrow> bool) \<Rightarrow> 32 word \<Rightarrow> tid list \<Rightarrow> 'e shared \<Rightarrow> 'e shared" where
  "post_all alive b ms s = fold (\<lambda>c s. if alive c then post c b s else s) ms s"

definition timer_tick :: "(tid \<Rightarrow> bool) \<Rightarrow> gvl \<Rightarrow> 'e shared \<Rightarrow> 'e shared" where
  "timer_tick alive g s =
     (if \<not> armed g \<or> live_members alive g < 2 then s else post_all alive INT_TIMER (members g) s)"

definition post_gc_to_others :: "(tid \<Rightarrow> bool) \<Rightarrow> tid option \<Rightarrow> gvl \<Rightarrow> 'e shared \<Rightarrow> nat \<times> 'e shared" where
  "post_gc_to_others alive me g s =
     (let asked = filter (\<lambda>c. alive c \<and> me \<noteq> Some c) (members g)
      in (length asked, fold (\<lambda>c. post c INT_GC) asked s))"

subsection \<open>The interleaving\<close>

datatype place = Outside | Waiting "64 word" | Inside

datatype gvl_event = Arrive tid | Enter tid | Leave tid | Arm tid | Stray tid

inductive gvl_step ::
  "tid set \<Rightarrow> gvl \<times> (tid \<Rightarrow> place) \<Rightarrow> gvl_event \<Rightarrow> gvl \<times> (tid \<Rightarrow> place) \<Rightarrow> bool" for T where
  arrive: "\<lbrakk>t \<in> T; armed g; pc t = Outside; take_ticket g = (k, g')\<rbrakk>
    \<Longrightarrow> gvl_step T (g, pc) (Arrive t) (g', pc(t := Waiting k))"
| enters: "\<lbrakk>pc t = Waiting k; now_serving g = k\<rbrakk> \<Longrightarrow> gvl_step T (g, pc) (Enter t) (enter t g, pc(t := Inside))"
| leave: "pc t = Inside \<Longrightarrow> gvl_step T (g, pc) (Leave t) (release t g, pc(t := Outside))"
| arms: "\<lbrakk>t \<in> T; pc t = Outside; \<not> armed g\<rbrakk> \<Longrightarrow> gvl_step T (g, pc) (Arm t) (arm t g, pc(t := Inside))"
| stray_release: "pc t = Outside \<Longrightarrow> gvl_step T (g, pc) (Stray t) (release t g, pc)"
| stray_arm: "armed g \<Longrightarrow> gvl_step T (g, pc) (Stray t) (arm t g, pc)"
| stray_attach: "gvl_step T (g, pc) (Stray t) (attach alive t g, pc)"

subsection \<open>The specification\<close>

text \<open>A queue of threads in order of arrival and whether its head is inside.\<close>

fun fifo_step :: "tid list \<times> bool \<Rightarrow> gvl_event \<Rightarrow> tid list \<times> bool \<Rightarrow> bool" where
  "fifo_step (q, b) (Arrive t) x \<longleftrightarrow> t \<notin> set q \<and> x = (q @ [t], b)"
| "fifo_step (q, b) (Enter t) x \<longleftrightarrow> \<not> b \<and> q \<noteq> [] \<and> t = hd q \<and> x = (q, True)"
| "fifo_step (q, b) (Leave t) x \<longleftrightarrow> b \<and> q \<noteq> [] \<and> t = hd q \<and> x = (tl q, False)"
| "fifo_step (q, b) (Arm t) x \<longleftrightarrow> q = [] \<and> x = ([t], True)"
| "fifo_step (q, b) (Stray t) x \<longleftrightarrow> x = (q, b)"

definition place_of :: "64 word \<Rightarrow> bool \<Rightarrow> nat \<Rightarrow> place" where
  "place_of n b i = (if i = 0 \<and> b then Inside else Waiting (n + of_nat i))"

definition queued :: "tid set \<Rightarrow> gvl \<times> (tid \<Rightarrow> place) \<Rightarrow> tid list \<times> bool \<Rightarrow> bool" where
  "queued T x a \<longleftrightarrow>
     (let (g, pc) = x; (q, b) = a
      in finite T \<and> card T < 2 ^ 64 \<and> distinct q \<and> set q \<subseteq> T \<and> (b \<longrightarrow> q \<noteq> []) \<and> (armed g \<or> q = []) \<and>
         next_ticket g = now_serving g + of_nat (length q) \<and>
         holder g = (if b then Some (hd q) else None) \<and>
         (\<forall>t. t \<notin> set q \<longrightarrow> pc t = Outside) \<and> (\<forall>i < length q. pc (q ! i) = place_of (now_serving g) b i))"

definition gvl_start :: "tid set \<Rightarrow> gvl \<times> (tid \<Rightarrow> place) \<Rightarrow> bool" where
  "gvl_start T x \<longleftrightarrow> finite T \<and> card T < 2 ^ 64 \<and> (\<exists>b. x = (with_armed b, \<lambda>_. Outside))"

subsection \<open>Refinement\<close>

lemma queuedI:
  assumes "finite T" "card T < 2 ^ 64" "distinct q" "set q \<subseteq> T" "b \<longrightarrow> q \<noteq> []" "armed g \<or> q = []"
    "next_ticket g = now_serving g + of_nat (length q)" "holder g = (if b then Some (hd q) else None)"
    "\<And>t. t \<notin> set q \<Longrightarrow> pc t = Outside" "\<And>i. i < length q \<Longrightarrow> pc (q ! i) = place_of (now_serving g) b i"
  shows "queued T (g, pc) (q, b)"
  using assms by (simp add: queued_def)

lemma queuedD:
  assumes "queued T (g, pc) (q, b)"
  shows "finite T" "card T < 2 ^ 64" "distinct q" "set q \<subseteq> T" "b \<Longrightarrow> q \<noteq> []" "armed g \<or> q = []"
    "next_ticket g = now_serving g + of_nat (length q)" "holder g = (if b then Some (hd q) else None)"
    "\<And>t. t \<notin> set q \<Longrightarrow> pc t = Outside" "\<And>i. i < length q \<Longrightarrow> pc (q ! i) = place_of (now_serving g) b i"
  using assms by (simp_all add: queued_def)

lemma place_of_not_Outside [simp]: "place_of n b i \<noteq> Outside" "Outside \<noteq> place_of n b i"
  by (simp_all add: place_of_def)

lemma queue_short:
  assumes "queued T (g, pc) (q, b)"
  shows "length q < 2 ^ 64"
proof -
  have "length q = card (set q)" using queuedD(3)[OF assms] by (simp add: distinct_card)
  also have "\<dots> \<le> card T" using queuedD(1,4)[OF assms] by (rule card_mono)
  finally show ?thesis using queuedD(2)[OF assms] by linarith
qed

lemma of_nat_zero:
  assumes "(of_nat i :: 64 word) = 0" "i < 2 ^ 64"
  shows "i = 0"
proof -
  have "unat (of_nat i :: 64 word) = i" using assms(2) by (simp add: unsigned_of_nat take_bit_nat_eq_self)
  then show ?thesis using assms(1) by simp
qed

text \<open>Tickets are distinct as long as there are fewer than 2^64 threads, wrap-around included.\<close>

lemma served_is_head:
  assumes a: "queued T (g, pc) (q, b)" and p: "pc t = Waiting (now_serving g)"
  shows "q \<noteq> [] \<and> t = hd q \<and> \<not> b"
proof -
  have "t \<in> set q" using queuedD(9)[OF a, of t] p by auto
  then obtain i where i: "i < length q" "q ! i = t" by (auto simp: in_set_conv_nth)
  then have pl: "place_of (now_serving g) b i = Waiting (now_serving g)" using queuedD(10)[OF a i(1)] p by simp
  then have "(of_nat i :: 64 word) = 0" by (auto simp: place_of_def split: if_splits)
  moreover have "i < 2 ^ 64" using i(1) queue_short[OF a] by simp
  ultimately have "i = 0" by (rule of_nat_zero)
  then show ?thesis using i pl by (auto simp: hd_conv_nth place_of_def split: if_splits)
qed

lemma inside_is_head:
  assumes a: "queued T (g, pc) (q, b)" and p: "pc t = Inside"
  shows "q \<noteq> [] \<and> t = hd q \<and> b"
proof -
  have "t \<in> set q" using queuedD(9)[OF a, of t] p by auto
  then obtain i where i: "i < length q" "q ! i = t" by (auto simp: in_set_conv_nth)
  then have "i = 0 \<and> b" using queuedD(10)[OF a i(1)] p by (auto simp: place_of_def split: if_splits)
  then show ?thesis using i by (auto simp: hd_conv_nth)
qed

lemma queued_arrive:
  assumes a: "queued T (g, pc) (q, b)" and t: "t \<in> T" "armed g" "pc t = Outside"
  shows "t \<notin> set q \<and> queued T (snd (take_ticket g), pc(t := Waiting (next_ticket g))) (q @ [t], b)"
proof -
  note d = queuedD[OF a]
  have new: "t \<notin> set q"
  proof
    assume "t \<in> set q"
    then obtain i where "i < length q" "q ! i = t" by (auto simp: in_set_conv_nth)
    then show False using d(10)[of i] t(3) by simp
  qed
  have "(pc(t := Waiting (next_ticket g))) ((q @ [t]) ! i) = place_of (now_serving g) b i" if "i < length (q @ [t])" for i
  proof (cases "i < length q")
    case True
    moreover have "q ! i \<noteq> t" using new True nth_mem by blast
    ultimately show ?thesis using d(10) by (simp add: nth_append)
  next
    case False
    then have "i = length q" using that by simp
    then show ?thesis using d(5,7) by (auto simp: place_of_def)
  qed
  then show ?thesis using new d t
    by (auto intro!: queuedI simp: take_ticket_def)
qed

lemma queued_enter:
  assumes a: "queued T (g, pc) (q, b)" and p: "pc t = Waiting (now_serving g)"
  shows "queued T (enter t g, pc(t := Inside)) (q, True)"
proof -
  note d = queuedD[OF a]
  have h: "q \<noteq> []" "t = hd q" "\<not> b" using served_is_head[OF a p] by auto
  have "(pc(t := Inside)) (q ! i) = place_of (now_serving g) True i" if "i < length q" for i
  proof (cases "i = 0")
    case True
    then show ?thesis using h by (simp add: place_of_def hd_conv_nth)
  next
    case False
    then have "q ! i \<noteq> t" using d(3) h that by (simp add: hd_conv_nth nth_eq_iff_index_eq)
    then show ?thesis using d(10)[OF that] False by (simp add: place_of_def)
  qed
  then show ?thesis using d h by (auto intro!: queuedI simp: enter_def)
qed

lemma queued_leave:
  assumes a: "queued T (g, pc) (q, b)" and p: "pc t = Inside"
  shows "queued T (release t g, pc(t := Outside)) (tl q, False)"
proof -
  note d = queuedD[OF a]
  have h: "q \<noteq> []" "t = hd q" b using inside_is_head[OF a p] by auto
  obtain q' where q: "q = t # q'" using h by (cases q) auto
  have r: "release t g = g\<lparr>holder := None, now_serving := now_serving g + 1\<rparr>"
    using d(6,8) h by (simp add: release_def)
  have "(pc(t := Outside)) (q' ! i) = place_of (now_serving g + 1) False i" if "i < length q'" for i
  proof -
    have "q' ! i \<noteq> t" using d(3) q that by auto
    then show ?thesis using d(10)[of "Suc i"] q that by (simp add: place_of_def add.commute add.left_commute)
  qed
  moreover have "(pc(t := Outside)) u = Outside" if "u \<notin> set q'" for u using d(9)[of u] q that by auto
  ultimately show ?thesis unfolding r q list.sel using d q
    by (auto intro!: queuedI)
qed

lemma queued_arm:
  assumes a: "queued T (g, pc) (q, b)" and t: "t \<in> T" "\<not> armed g"
  shows "q = [] \<and> queued T (arm t g, pc(t := Inside)) ([t], True)"
  using queuedD[OF a] t by (auto intro!: queuedI simp: arm_def place_of_def)

lemma queued_stray:
  assumes a: "queued T (g, pc) (q, b)"
  shows "pc t = Outside \<Longrightarrow> release t g = g" "armed g \<Longrightarrow> arm t g = g" "queued T (attach alive t g, pc) (q, b)"
proof -
  note d = queuedD[OF a]
  show "release t g = g" if "pc t = Outside"
  proof -
    have "holder g \<noteq> Some t"
    proof
      assume "holder g = Some t"
      then have "q \<noteq> []" "t = q ! 0" using d(5,8) by (auto simp: hd_conv_nth split: if_splits)
      then show False using d(10)[of 0] that by simp
    qed
    then show ?thesis by (simp add: release_def)
  qed
  show "armed g \<Longrightarrow> arm t g = g" by (simp add: arm_def)
  show "queued T (attach alive t g, pc) (q, b)" using d by (auto intro!: queuedI simp: attach_def)
qed

lemma gvl_simulates:
  assumes "queued T x a" "gvl_step T x e y"
  shows "\<exists>a'. fifo_step a e a' \<and> queued T y a'"
proof -
  obtain q b where a: "a = (q, b)" by (cases a)
  from assms(2) assms(1)[unfolded a] show ?thesis unfolding a
  proof (induction rule: gvl_step.induct)
    case (arrive t g pc k g')
    then show ?case using queued_arrive[of T g pc q b t] by (auto simp: take_ticket_def)
  next
    case (enters pc t k g)
    then show ?case using queued_enter[of T g pc q b t] served_is_head[of T g pc q b t] by auto
  next
    case (leave pc t g)
    then show ?case using queued_leave[of T g pc q b t] inside_is_head[of T g pc q b t] by auto
  next
    case (arms t pc g)
    then show ?case using queued_arm[of T g pc q b t] by auto
  qed (auto simp: queued_stray)
qed

interpretation gvl_fifo: forward_simulation "gvl_step T" fifo_step "queued T" for T
  by unfold_locales (rule gvl_simulates)

lemma start_queued: "gvl_start T x \<Longrightarrow> queued T x ([], False)"
  by (auto simp: gvl_start_def with_armed_def intro!: queuedI)

text \<open>The order of arrival is the order of entry, in every run of the specification.\<close>

fun arrivals :: "gvl_event list \<Rightarrow> tid list" where
  "arrivals [] = []"
| "arrivals (Arrive t # es) = t # arrivals es"
| "arrivals (Arm t # es) = t # arrivals es"
| "arrivals (_ # es) = arrivals es"

fun entries :: "gvl_event list \<Rightarrow> tid list" where
  "entries [] = []"
| "entries (Enter t # es) = t # entries es"
| "entries (Arm t # es) = t # entries es"
| "entries (_ # es) = entries es"

lemma arrivals_append [simp]: "arrivals (es @ fs) = arrivals es @ arrivals fs"
  by (induction es rule: arrivals.induct) simp_all

lemma entries_append [simp]: "entries (es @ fs) = entries es @ entries fs"
  by (induction es rule: entries.induct) simp_all

lemma fifo_order:
  assumes "run fifo_step ([], False) es x"
  shows "(snd x \<longrightarrow> fst x \<noteq> []) \<and> arrivals es = entries es @ drop (of_bool (snd x)) (fst x)"
  using assms
proof (induction es arbitrary: x rule: rev_induct)
  case (snoc e es)
  obtain y where y: "run fifo_step ([], False) es y" "fifo_step y e x"
    using snoc.prems by (cases rule: run.cases) auto
  obtain q b where [simp]: "y = (q, b)" by (cases y)
  have IH: "b \<longrightarrow> q \<noteq> []" "arrivals es = entries es @ drop (of_bool b) q" using snoc.IH[OF y(1)] by auto
  show ?case using y(2) IH by (cases e) (auto simp: neq_Nil_conv)
qed simp

text \<open>A waiting thread can always be served: let those ahead of it enter and leave.\<close>

definition serve_event :: "gvl_event \<Rightarrow> bool" where
  "serve_event e \<longleftrightarrow> (\<exists>t. e = Enter t \<or> e = Leave t)"

lemma head_enters:
  assumes a: "queued T (g, pc) (t # q, False)"
  shows "gvl_step T (g, pc) (Enter t) (enter t g, pc(t := Inside)) \<and>
    queued T (enter t g, pc(t := Inside)) (t # q, True)"
proof -
  have p: "pc t = Waiting (now_serving g)" using queuedD(10)[OF a, of 0] by (simp add: place_of_def)
  then show ?thesis using queued_enter[OF a p] gvl_step.enters[of pc t "now_serving g" g T] by simp
qed

lemma head_leaves:
  assumes a: "queued T (g, pc) (t # q, True)"
  shows "gvl_step T (g, pc) (Leave t) (release t g, pc(t := Outside)) \<and>
    queued T (release t g, pc(t := Outside)) (q, False)"
proof -
  have p: "pc t = Inside" using queuedD(10)[OF a, of 0] by (simp add: place_of_def)
  then show ?thesis using queued_leave[OF a p] gvl_step.leave[of pc t T g] by simp
qed

lemma waiter_served:
  assumes "queued T x (q, b)" "t \<in> set q"
  shows "\<exists>es y. run (gvl_step T) x es y \<and> list_all serve_event es \<and> length es \<le> 2 * length q \<and> snd y t = Inside"
  using assms
proof (induction q arbitrary: x b)
  case (Cons u q)
  obtain g pc where x: "x = (g, pc)" by (cases x)
  obtain es1 y where y: "run (gvl_step T) x es1 y" "list_all serve_event es1" "length es1 \<le> 1" "queued T y (u # q, True)"
  proof (cases b)
    case True
    then show ?thesis using that[of "[]" x] Cons.prems(1) by (simp add: run.run_nil)
  next
    case False
    then show ?thesis using that[of "[Enter u]"] head_enters[of T g pc u q] Cons.prems(1) x
        run_cons[OF run.run_nil] by (fastforce simp: serve_event_def)
  qed
  obtain g' pc' where yy: "y = (g', pc')" by (cases y)
  show ?case
  proof (cases "t = u")
    case True
    then have "snd y t = Inside" using queuedD(10)[of T g' pc' "u # q" True 0] y(4) yy by (simp add: place_of_def)
    then show ?thesis using y by (intro exI[of _ es1] exI[of _ y]) auto
  next
    case False
    let ?z = "(release u g', pc'(u := Outside))"
    have l: "gvl_step T y (Leave u) ?z" "queued T ?z (q, False)" using head_leaves[of T g' pc' u q] y(4) yy by auto
    obtain es2 w where w: "run (gvl_step T) ?z es2 w" "list_all serve_event es2" "length es2 \<le> 2 * length q" "snd w t = Inside"
      using Cons.IH[OF l(2)] Cons.prems(2) False by auto
    have "run (gvl_step T) x (es1 @ Leave u # es2) w" using run_append[OF run_cons[of "gvl_step T", OF w(1) l(1)] y(1)] .
    moreover have "list_all serve_event (es1 @ Leave u # es2)" using y(2) w(2) by (simp add: serve_event_def)
    ultimately show ?thesis using w(3,4) y(3) by (intro exI[of _ "es1 @ Leave u # es2"] exI[of _ w]) auto
  qed
qed simp

subsection \<open>Properties\<close>

text \<open>
  C6. The armed lock refines a first-in first-out lock: however the threads interleave (arming in the middle of a
  run, releases by threads that do not hold it and ticket wrap-around included), the state is that of a queue in
  order of arrival, and the threads enter in the order in which they arrived, none overtaken.
\<close>

theorem gvl_refines_fifo:
  assumes "gvl_start T x" "run (gvl_step T) x es y"
  shows "\<exists>a. run fifo_step ([], False) es a \<and> queued T y a \<and>
    arrivals es = entries es @ drop (of_bool (snd a)) (fst a)"
proof -
  obtain a where a: "run fifo_step ([], False) es a" "queued T y a"
    using gvl_fifo.run_simulates[OF assms(2) start_queued[OF assms(1)]] by blast
  then show ?thesis using fifo_order[OF a(1)] by blast
qed

theorem gvl_refines_fifo_witness:
  "\<exists>y a. queued {0, 1} y a \<and> [0, 1] = [0] @ drop (of_bool (snd a)) (fst a)"
proof -
  let ?T = "{0, 1} :: tid set"
  let ?g = "with_armed True" and ?pc = "\<lambda>_ :: tid. Outside"
  let ?g1 = "?g\<lparr>next_ticket := 1\<rparr>" and ?pc1 = "?pc(0 := Waiting 0)"
  let ?g2 = "?g1\<lparr>next_ticket := 2\<rparr>" and ?pc2 = "?pc1(1 := Waiting 1)"
  have s: "gvl_start ?T (?g, ?pc)" by (auto simp: gvl_start_def)
  have "gvl_step ?T (?g, ?pc) (Arrive 0) (?g1, ?pc1)" "gvl_step ?T (?g1, ?pc1) (Arrive 1) (?g2, ?pc2)"
    by (auto intro!: gvl_step.intros simp: with_armed_def take_ticket_def)
  moreover have "gvl_step ?T (?g2, ?pc2) (Enter 0) (enter 0 ?g2, ?pc2(0 := Inside))"
    by (rule gvl_step.enters[of _ _ 0]) (simp_all add: with_armed_def)
  ultimately have "run (gvl_step ?T) (?g, ?pc) [Arrive 0, Arrive 1, Enter 0] (enter 0 ?g2, ?pc2(0 := Inside))"
    by (intro run_cons[OF run_cons[OF run_cons[OF run.run_nil]]])
  from gvl_refines_fifo[OF s this] show ?thesis by (auto simp only: arrivals.simps entries.simps)
qed

text \<open>
  C26. Mutual exclusion: at most one thread is inside the armed lock, it is the recorded holder, and a thread that
  is neither inside nor waiting cannot advance the queue.
\<close>

theorem gvl_mutual_exclusion:
  assumes "gvl_start T x" "run (gvl_step T) x es (g, pc)"
  shows "(pc t = Inside \<longrightarrow> holder g = Some t \<and> (pc u = Inside \<longrightarrow> u = t)) \<and>
    (holder g = Some t \<longrightarrow> pc t = Inside) \<and> (pc t = Outside \<longrightarrow> release t g = g)"
proof -
  obtain q b where a: "queued T (g, pc) (q, b)"
    using gvl_fifo.run_simulates[OF assms(2) start_queued[OF assms(1)]] by auto
  have "holder g = Some t \<longrightarrow> pc t = Inside"
    using queuedD(5,8)[OF a] queuedD(10)[OF a, of 0] by (auto simp: place_of_def hd_conv_nth split: if_splits)
  then show ?thesis using inside_is_head[OF a] queuedD(8)[OF a] queued_stray(1)[OF a] by auto
qed

theorem gvl_mutual_exclusion_witness:
  "holder (arm 3 (with_armed False)) = Some 3 \<and> release 5 (arm 3 (with_armed False)) = arm 3 (with_armed False)"
proof -
  let ?T = "{3, 5} :: tid set"
  have s: "gvl_start ?T (with_armed False, \<lambda>_. Outside)" by (auto simp: gvl_start_def)
  have "gvl_step ?T (with_armed False, \<lambda>_. Outside) (Arm 3) (arm 3 (with_armed False), (\<lambda>_. Outside)(3 := Inside))"
    by (auto intro!: gvl_step.intros simp: with_armed_def)
  then have r: "run (gvl_step ?T) (with_armed False, \<lambda>_. Outside) [Arm 3] (arm 3 (with_armed False), (\<lambda>_. Outside)(3 := Inside))"
    by (intro run_cons[OF run.run_nil])
  show ?thesis using gvl_mutual_exclusion[OF s r, of 3 3] gvl_mutual_exclusion[OF s r, of 5 5] by simp
qed



end
