(* ===== verification/SoleThread.thy ===== *)
theory SoleThread
  imports Gvl
begin

text \<open>
  Who may take the lock-free path (\<^verbatim>\<open>crates/zeo-rt/src/concurrency/gvl.rs\<close>: \<^verbatim>\<open>SOLE\<close>, \<^verbatim>\<open>MULTI_THREADED\<close>, the C-extension
  latch; \<^verbatim>\<open>crates/zeo-rt/src/cframes.rs\<close>).  The first half interleaves thread spawns, loads of C extensions and claims of
  any number of threads, one access to a shared flag at a time.  The second half follows one thread through C frames
  and coroutine switches.  Whether the environment refuses the claim is the argument \<open>refused\<close>.
\<close>

subsection \<open>The flags\<close>

datatype progress =
    Running
  | SpawnCleared | SpawnStored | SpawnArming | SpawnReady
  | CextStored | CextArming

record latch =
  multi_threaded :: bool
  cext_loaded :: bool
  cext_armed :: bool
  process_gvl :: gvl
  sole :: "tid \<Rightarrow> bool"
  live :: "tid set"
  at :: "tid \<Rightarrow> progress"

definition goto :: "tid \<Rightarrow> progress \<Rightarrow> latch \<Rightarrow> latch" where
  "goto t p l = l\<lparr>at := (at l)(t := p)\<rparr>"

definition set_sole :: "tid \<Rightarrow> bool \<Rightarrow> latch \<Rightarrow> latch" where
  "set_sole t b l = l\<lparr>sole := (sole l)(t := b)\<rparr>"

definition mark_sole_thread :: "bool \<Rightarrow> tid \<Rightarrow> latch \<Rightarrow> latch" where
  "mark_sole_thread refused t l = set_sole t (\<not> multi_threaded l \<and> \<not> refused) l"

definition clear_sole_thread :: "tid \<Rightarrow> latch \<Rightarrow> latch" where
  "clear_sole_thread t l = set_sole t False l"

definition hide_sole_thread :: "tid \<Rightarrow> latch \<Rightarrow> bool \<times> latch" where
  "hide_sole_thread t l = (sole l t, set_sole t False l)"

text \<open>\<open>arm_for_cext\<close> begins with the swap of its own flag; the winner arms the lock, everybody else is done.\<close>

definition swap_cext_armed :: "tid \<Rightarrow> progress \<Rightarrow> progress \<Rightarrow> latch \<Rightarrow> latch" where
  "swap_cext_armed t won fin l =
     (if cext_armed l then goto t fin l else goto t won (l\<lparr>cext_armed := True\<rparr>))"

definition arm_process :: "tid \<Rightarrow> latch \<Rightarrow> latch" where
  "arm_process t l = l\<lparr>process_gvl := arm t (process_gvl l)\<rparr>"

datatype latch_event = Claim tid | Spawner tid | Child tid tid | Loader tid | Exit tid

inductive latch_step :: "bool \<Rightarrow> latch \<Rightarrow> latch_event \<Rightarrow> latch \<Rightarrow> bool" for refused where
  mark: "\<lbrakk>t \<in> live l; at l t = Running\<rbrakk> \<Longrightarrow> latch_step refused l (Claim t) (mark_sole_thread refused t l)"
| clear: "t \<in> live l \<Longrightarrow> latch_step refused l (Claim t) (clear_sole_thread t l)"
| hide: "t \<in> live l \<Longrightarrow> latch_step refused l (Claim t) (snd (hide_sole_thread t l))"
| spawn_clears: "\<lbrakk>t \<in> live l; at l t = Running\<rbrakk>
    \<Longrightarrow> latch_step refused l (Spawner t) (goto t SpawnCleared (set_sole t False l))"
| spawn_stores: "at l t = SpawnCleared
    \<Longrightarrow> latch_step refused l (Spawner t) (goto t SpawnStored (l\<lparr>multi_threaded := True\<rparr>))"
| spawn_loads: "at l t = SpawnStored
    \<Longrightarrow> latch_step refused l (Spawner t)
          (if cext_loaded l then swap_cext_armed t SpawnArming SpawnReady l else goto t SpawnReady l)"
| spawn_arms: "at l t = SpawnArming \<Longrightarrow> latch_step refused l (Spawner t) (goto t SpawnReady (arm_process t l))"
| spawns: "\<lbrakk>at l t = SpawnReady; u \<notin> live l; u \<noteq> t\<rbrakk>
    \<Longrightarrow> latch_step refused l (Child t u) (goto t Running (l\<lparr>live := insert u (live l)\<rparr>))"
| cext_stores: "\<lbrakk>t \<in> live l; at l t = Running\<rbrakk>
    \<Longrightarrow> latch_step refused l (Loader t) (goto t CextStored (l\<lparr>cext_loaded := True\<rparr>))"
| cext_loads: "at l t = CextStored
    \<Longrightarrow> latch_step refused l (Loader t)
          (if multi_threaded l then swap_cext_armed t CextArming Running l else goto t Running l)"
| cext_arms: "at l t = CextArming \<Longrightarrow> latch_step refused l (Loader t) (goto t Running (arm_process t l))"
| exits: "\<lbrakk>t \<in> live l; at l t = Running\<rbrakk>
    \<Longrightarrow> latch_step refused l (Exit t) (set_sole t False (l\<lparr>live := live l - {t}\<rparr>))"

inductive_cases latch_stepE: "latch_step refused l e l'"

definition latch_start :: "tid \<Rightarrow> latch \<Rightarrow> bool" where
  "latch_start main l \<longleftrightarrow>
     (\<exists>b. l = \<lparr>multi_threaded = False, cext_loaded = False, cext_armed = False, process_gvl = with_armed b,
              sole = (\<lambda>_. False), live = {main}, at = (\<lambda>_. Running)\<rparr>)"

definition sole_ok :: "latch \<Rightarrow> tid \<Rightarrow> bool" where
  "sole_ok l t \<longleftrightarrow>
     (sole l t \<longrightarrow> t \<in> live l \<and> \<not> multi_threaded l \<and> at l t \<in> {Running, CextStored, CextArming}) \<and>
     (at l t \<in> {SpawnStored, SpawnArming, SpawnReady} \<longrightarrow> multi_threaded l) \<and>
     (t \<notin> live l \<longrightarrow> at l t = Running)"

definition sole_inv :: "tid \<Rightarrow> latch \<Rightarrow> bool" where
  "sole_inv main l \<longleftrightarrow> (\<not> multi_threaded l \<longrightarrow> live l \<subseteq> {main}) \<and> (\<forall>t. sole_ok l t)"

text \<open>Some other thread than \<open>t\<close> is at \<open>p\<close>.\<close>

definition elsewhere :: "latch \<Rightarrow> tid \<Rightarrow> progress \<Rightarrow> bool" where
  "elsewhere l t p \<longleftrightarrow> (\<exists>u. u \<noteq> t \<and> at l u = p)"

definition latch_inv :: "latch \<Rightarrow> bool" where
  "latch_inv l \<longleftrightarrow>
     (multi_threaded l \<and> cext_loaded l \<longrightarrow> cext_armed l \<or> (\<exists>t. at l t = SpawnStored) \<or> (\<exists>t. at l t = CextStored)) \<and>
     (cext_armed l \<longrightarrow> armed (process_gvl l) \<or> (\<exists>t. at l t = SpawnArming) \<or> (\<exists>t. at l t = CextArming))"

lemmas latch_defs = goto_def set_sole_def mark_sole_thread_def clear_sole_thread_def hide_sole_thread_def
  swap_cext_armed_def arm_process_def

text \<open>A step moves one thread; the others only see the shared flags.\<close>

lemma sole_inv_moves:
  assumes "sole_inv main l" "\<not> multi_threaded l' \<Longrightarrow> live l' \<subseteq> {main}"
    and "sole_ok l t \<Longrightarrow> sole_ok l' t" "\<And>u. u \<noteq> t \<Longrightarrow> sole_ok l u \<Longrightarrow> sole_ok l' u"
  shows "sole_inv main l'"
proof -
  have "sole_ok l' u" for u using assms(1) assms(3) assms(4)[of u] by (cases "u = t") (simp_all add: sole_inv_def)
  then show ?thesis using assms(2) by (simp add: sole_inv_def)
qed

lemma sole_inv_live: "sole_inv main l \<Longrightarrow> \<not> multi_threaded l \<Longrightarrow> live l \<subseteq> {main}" and
  sole_inv_ok: "sole_inv main l \<Longrightarrow> sole_ok l t"
  by (simp_all add: sole_inv_def)

lemma sole_inv_step:
  assumes "sole_inv main l" "latch_step refused l e l'"
  shows "sole_inv main l'"
  using assms(2,1)
proof (induction rule: latch_step.induct)
  case (mark t l)
  show ?case by (rule sole_inv_moves[OF mark.prems, of _ t])
      (use mark.hyps sole_inv_live[OF mark.prems] in \<open>auto simp: sole_ok_def latch_defs\<close>)
next
  case (clear t l)
  show ?case by (rule sole_inv_moves[OF clear.prems, of _ t])
      (use clear.hyps sole_inv_live[OF clear.prems] in \<open>auto simp: sole_ok_def latch_defs\<close>)
next
  case (hide t l)
  show ?case by (rule sole_inv_moves[OF hide.prems, of _ t])
      (use hide.hyps sole_inv_live[OF hide.prems] in \<open>auto simp: sole_ok_def latch_defs\<close>)
next
  case (spawn_clears t l)
  show ?case by (rule sole_inv_moves[OF spawn_clears.prems, of _ t])
      (use spawn_clears.hyps sole_inv_live[OF spawn_clears.prems] in \<open>auto simp: sole_ok_def latch_defs\<close>)
next
  case (spawn_stores l t)
  have t: "t \<in> live l" "\<not> sole l t" using sole_inv_ok[OF spawn_stores.prems, of t] spawn_stores.hyps
    by (auto simp: sole_ok_def)
  have none: "\<not> sole l u" for u
  proof
    assume u: "sole l u"
    then have "u \<in> live l" "\<not> multi_threaded l" using sole_inv_ok[OF spawn_stores.prems, of u] by (auto simp: sole_ok_def)
    then show False using t u sole_inv_live[OF spawn_stores.prems] by auto
  qed
  show ?case by (rule sole_inv_moves[OF spawn_stores.prems, of _ t])
      (use spawn_stores.hyps none in \<open>auto simp: sole_ok_def latch_defs\<close>)
next
  case (spawn_loads l t)
  show ?case by (rule sole_inv_moves[OF spawn_loads.prems, of _ t])
      (use spawn_loads.hyps sole_inv_live[OF spawn_loads.prems] in \<open>auto simp: sole_ok_def latch_defs split: if_splits\<close>)
next
  case (spawn_arms l t)
  show ?case by (rule sole_inv_moves[OF spawn_arms.prems, of _ t])
      (use spawn_arms.hyps sole_inv_live[OF spawn_arms.prems] in \<open>auto simp: sole_ok_def latch_defs\<close>)
next
  case (spawns l t u)
  then have "multi_threaded l" using sole_inv_ok[OF spawns.prems, of t] by (simp add: sole_ok_def)
  then show ?case by (intro sole_inv_moves[OF spawns.prems, of _ t])
      (use spawns.hyps in \<open>auto simp: sole_ok_def latch_defs\<close>)
next
  case (cext_stores t l)
  show ?case by (rule sole_inv_moves[OF cext_stores.prems, of _ t])
      (use cext_stores.hyps sole_inv_live[OF cext_stores.prems] in \<open>auto simp: sole_ok_def latch_defs\<close>)
next
  case (cext_loads l t)
  show ?case by (rule sole_inv_moves[OF cext_loads.prems, of _ t])
      (use cext_loads.hyps sole_inv_live[OF cext_loads.prems] in \<open>auto simp: sole_ok_def latch_defs split: if_splits\<close>)
next
  case (cext_arms l t)
  show ?case by (rule sole_inv_moves[OF cext_arms.prems, of _ t])
      (use cext_arms.hyps sole_inv_live[OF cext_arms.prems] in \<open>auto simp: sole_ok_def latch_defs\<close>)
next
  case (exits t l)
  show ?case by (rule sole_inv_moves[OF exits.prems, of _ t])
      (use exits.hyps sole_inv_live[OF exits.prems] in \<open>auto simp: sole_ok_def latch_defs\<close>)
qed

lemma armed_arm [simp]: "armed (arm t g)"
  by (simp add: arm_def)

lemma somewhere_split: "(\<exists>u. at l u = p) \<longleftrightarrow> at l t = p \<or> elsewhere l t p"
  by (auto simp: elsewhere_def)

lemma elsewhere_upd [simp]: "elsewhere (l\<lparr>at := (at l)(t := p)\<rparr>) t = elsewhere l t"
  "elsewhere (l\<lparr>multi_threaded := b\<rparr>) t = elsewhere l t" "elsewhere (l\<lparr>cext_loaded := b\<rparr>) t = elsewhere l t"
  "elsewhere (l\<lparr>cext_armed := b\<rparr>) t = elsewhere l t" "elsewhere (l\<lparr>process_gvl := g\<rparr>) t = elsewhere l t"
  "elsewhere (l\<lparr>sole := f\<rparr>) t = elsewhere l t" "elsewhere (l\<lparr>live := T\<rparr>) t = elsewhere l t"
  by (auto simp: elsewhere_def fun_eq_iff)

lemma elsewhere_goto [simp]: "elsewhere (goto t p l) t = elsewhere l t" "elsewhere (set_sole u b l) t = elsewhere l t"
  by (simp_all add: goto_def set_sole_def)

lemma elsewhere_at [simp]: "elsewhere (m\<lparr>at := (at l)(t := p)\<rparr>) t = elsewhere l t"
  by (auto simp: elsewhere_def fun_eq_iff)

lemma latch_inv_at:
  "latch_inv l \<longleftrightarrow>
     (multi_threaded l \<and> cext_loaded l \<longrightarrow>
        cext_armed l \<or> at l t = SpawnStored \<or> elsewhere l t SpawnStored \<or> at l t = CextStored \<or> elsewhere l t CextStored) \<and>
     (cext_armed l \<longrightarrow>
        armed (process_gvl l) \<or> at l t = SpawnArming \<or> elsewhere l t SpawnArming \<or> at l t = CextArming \<or> elsewhere l t CextArming)"
  unfolding latch_inv_def somewhere_split[of l _ t] by blast

lemma latch_inv_step:
  assumes "latch_inv l" "latch_step refused l e l'"
  shows "latch_inv l'"
  using assms(2,1)
proof (induction rule: latch_step.induct)
  case (spawn_loads l t)
  then show ?case unfolding latch_inv_at[of _ t] by (auto simp: latch_defs)
next
  case (cext_loads l t)
  then show ?case unfolding latch_inv_at[of _ t] by (auto simp: latch_defs)
next
  case (mark t l)
  then show ?case by (simp add: latch_inv_def latch_defs)
next
  case (clear t l)
  then show ?case by (simp add: latch_inv_def latch_defs)
next
  case (hide t l)
  then show ?case by (simp add: latch_inv_def latch_defs)
next
  case (exits t l)
  then show ?case by (simp add: latch_inv_def latch_defs)
next
  case (spawn_clears t l)
  then show ?case unfolding latch_inv_at[of _ t] by (auto simp: latch_defs)
next
  case (spawn_stores l t)
  then show ?case unfolding latch_inv_at[of _ t] by (auto simp: latch_defs)
next
  case (spawn_arms l t)
  then show ?case unfolding latch_inv_at[of _ t] by (auto simp: latch_defs)
next
  case (spawns l t u)
  then show ?case unfolding latch_inv_at[of _ t] by (auto simp: latch_defs)
next
  case (cext_stores t l)
  then show ?case unfolding latch_inv_at[of _ t] by (auto simp: latch_defs)
next
  case (cext_arms l t)
  then show ?case unfolding latch_inv_at[of _ t] by (auto simp: latch_defs)
qed

lemma latch_start_inv: "latch_start main l \<Longrightarrow> sole_inv main l" "latch_start main l \<Longrightarrow> latch_inv l"
  by (auto simp: latch_start_def sole_inv_def sole_ok_def latch_inv_def)

interpretation sole_machine: invariant_machine "latch_step refused" "latch_start main" "sole_inv main" for refused main
  by unfold_locales (erule latch_start_inv sole_inv_step, assumption?)+

interpretation latch_machine: invariant_machine "latch_step refused" "latch_start main" latch_inv for refused main
  by unfold_locales (erule latch_start_inv latch_inv_step, assumption?)+

subsection \<open>C frames and coroutines\<close>

text \<open>
  The frame count and the taken claim of the running stack, the pairs that resumers have put aside (innermost
  first), the pairs of suspended coroutines, and the thread's own claim.
\<close>

type_synonym saved = "nat \<times> bool"

record cframes =
  depth :: nat
  claim :: bool
  resumers :: "(nat \<times> saved) list"
  suspended :: "nat \<Rightarrow> saved option"
  running :: nat
  thread_sole :: bool

definition cf_save :: "cframes \<Rightarrow> saved" where
  "cf_save c = (depth c, claim c)"

definition cf_restore :: "saved \<Rightarrow> cframes \<Rightarrow> cframes" where
  "cf_restore s c = c\<lparr>depth := fst s, claim := snd s\<rparr>"

definition cf_enter :: "cframes \<Rightarrow> cframes" where
  "cf_enter c =
     (let c1 = c\<lparr>depth := depth c + 1\<rparr>
      in if depth c = 0 then c1\<lparr>claim := thread_sole c, thread_sole := False\<rparr> else c1)"

definition cf_leave :: "bool \<Rightarrow> cframes \<Rightarrow> cframes" where
  "cf_leave alone c =
     (let c1 = c\<lparr>depth := depth c - 1\<rparr>
      in if depth c - 1 = 0 then
           (let c2 = c1\<lparr>claim := False\<rparr> in if claim c then c2\<lparr>thread_sole := alone\<rparr> else c2)
         else c1)"

text \<open>
  \<open>resume\<close>: the switch guard puts the resumer's pair aside and the coroutine starts with none; one that had
  suspended restores its own.  \<open>yield\<close>: keep the own pair on the own stack; the guard gives the resumer its pair back.
\<close>

definition cf_resume :: "nat \<Rightarrow> cframes \<Rightarrow> cframes" where
  "cf_resume f c =
     (let c1 = cf_restore (0, False) (c\<lparr>resumers := (running c, cf_save c) # resumers c, running := f\<rparr>)
      in case suspended c f of
           None \<Rightarrow> c1
         | Some s \<Rightarrow> cf_restore s (c1\<lparr>suspended := (suspended c)(f := None)\<rparr>))"

definition cf_yield :: "cframes \<Rightarrow> cframes" where
  "cf_yield c =
     (case resumers c of
        [] \<Rightarrow> c
      | (r, s) # rs \<Rightarrow>
          cf_restore s (c\<lparr>resumers := rs, running := r, suspended := (suspended c)(running c \<mapsto> cf_save c)\<rparr>))"

definition cf_finish :: "cframes \<Rightarrow> cframes" where
  "cf_finish c =
     (case resumers c of [] \<Rightarrow> c | (r, s) # rs \<Rightarrow> cf_restore s (c\<lparr>resumers := rs, running := r\<rparr>))"

datatype cf_event = CEnter | CLeave bool | CResume nat | CYield | CFinish

text \<open>Frames open on any stack of the thread.\<close>

definition frame_open :: "cframes \<Rightarrow> bool" where
  "frame_open c \<longleftrightarrow> depth c > 0 \<or> (\<exists>r \<in> set (resumers c). fst (snd r) > 0) \<or> (\<exists>f s. suspended c f = Some s \<and> fst s > 0)"

inductive cf_step :: "bool \<Rightarrow> cframes \<Rightarrow> cf_event \<Rightarrow> cframes \<Rightarrow> bool" for nested where
  cf_enters: "cf_step nested c CEnter (cf_enter c)"
| cf_leaves: "depth c > 0 \<Longrightarrow> cf_step nested c (CLeave alone) (cf_leave alone c)"
| cf_resumes: "f \<notin> insert (running c) (fst ` set (resumers c)) \<Longrightarrow> cf_step nested c (CResume f) (cf_resume f c)"
| cf_yields: "nested \<longrightarrow> depth c = 0 \<Longrightarrow> cf_step nested c CYield (cf_yield c)"
| cf_finishes: "depth c = 0 \<Longrightarrow> cf_step nested c CFinish (cf_finish c)"

definition cf_start :: "cframes \<Rightarrow> bool" where
  "cf_start c \<longleftrightarrow> (\<exists>b. c = \<lparr>depth = 0, claim = False, resumers = [], suspended = (\<lambda>_. None), running = 0, thread_sole = b\<rparr>)"

text \<open>
  The stacks from the running one outwards: a claim sits on a stack with an open frame, and no stack further out has
  one.
\<close>

definition level_ok :: "saved \<Rightarrow> saved list \<Rightarrow> bool" where
  "level_ok s rest \<longleftrightarrow> (snd s \<longrightarrow> fst s > 0 \<and> list_all (\<lambda>r. r = (0, False)) rest)"

fun levels_ok :: "saved list \<Rightarrow> bool" where
  "levels_ok [] = True"
| "levels_ok (s # rest) = (level_ok s rest \<and> levels_ok rest)"

definition cf_levels :: "cframes \<Rightarrow> saved list" where
  "cf_levels c = cf_save c # map snd (resumers c)"

definition cf_inv :: "cframes \<Rightarrow> bool" where
  "cf_inv c \<longleftrightarrow>
     levels_ok (cf_levels c) \<and> (thread_sole c \<longrightarrow> list_all (\<lambda>r. r = (0, False)) (cf_levels c)) \<and>
     (\<forall>f s. suspended c f = Some s \<longrightarrow> s = (0, False))"

lemmas cf_defs = cf_inv_def cf_levels_def cf_save_def cf_restore_def cf_enter_def cf_leave_def cf_resume_def
  cf_yield_def cf_finish_def level_ok_def Let_def

lemma cf_inv_suspended: "cf_inv c \<Longrightarrow> suspended c f = Some s \<Longrightarrow> s = (0, False)"
  unfolding cf_inv_def by blast

lemma cf_inv_step:
  assumes "cf_inv c" "cf_step True c e c'"
  shows "cf_inv c'"
  using assms(2,1)
proof (induction rule: cf_step.induct)
  case (cf_enters c)
  then show ?case by (cases "depth c = 0"; cases "thread_sole c") (auto simp: cf_defs)
next
  case (cf_leaves c alone)
  then show ?case by (cases "depth c = 1"; cases "claim c") (auto simp: cf_defs)
next
  case (cf_resumes f c)
  then have "suspended c f = None \<or> suspended c f = Some (0, False)" by (cases "suspended c f") (auto simp: cf_inv_def)
  then show ?case using cf_resumes by (elim disjE) (auto simp: cf_defs split: if_splits)
next
  case (cf_yields c)
  show ?case
  proof (cases "resumers c")
    case Nil
    then show ?thesis using cf_yields.prems by (simp add: cf_yield_def)
  next
    case (Cons x rs)
    obtain r d cl where x: "x = (r, d, cl)" by (cases x)
    have save: "cf_save c = (0, False)"
      using cf_yields by (auto simp: cf_inv_def cf_levels_def cf_save_def level_ok_def)
    have y: "cf_levels (cf_yield c) = map snd (resumers c)" "thread_sole (cf_yield c) = thread_sole c"
      "suspended (cf_yield c) = (suspended c)(running c \<mapsto> (0, False))"
      using Cons x save by (simp_all add: cf_yield_def cf_levels_def cf_restore_def cf_save_def)
    have "suspended (cf_yield c) f = Some s \<Longrightarrow> s = (0, False)" for f s
      unfolding y using cf_inv_suspended[OF cf_yields.prems, of f s] by (cases "f = running c") simp_all
    then show ?thesis using cf_yields.prems unfolding cf_inv_def y by (simp add: cf_levels_def)
  qed
next
  case (cf_finishes c)
  show ?case
  proof (cases "resumers c")
    case Nil
    then show ?thesis using cf_finishes.prems by (simp add: cf_finish_def)
  next
    case (Cons x rs)
    obtain r d cl where x: "x = (r, d, cl)" by (cases x)
    have y: "cf_levels (cf_finish c) = map snd (resumers c)" "thread_sole (cf_finish c) = thread_sole c"
      "suspended (cf_finish c) = suspended c"
      using Cons x by (simp_all add: cf_finish_def cf_levels_def cf_restore_def cf_save_def)
    have "levels_ok (cf_levels c)" "thread_sole c \<longrightarrow> list_all (\<lambda>r. r = (0, False)) (cf_levels c)"
      using cf_finishes.prems by (simp_all add: cf_inv_def)
    then show ?thesis unfolding cf_inv_def y using cf_inv_suspended[OF cf_finishes.prems] by (simp add: cf_levels_def)
  qed
qed

lemma cf_start_inv: "cf_start c \<Longrightarrow> cf_inv c"
  by (auto simp: cf_start_def cf_defs)

interpretation cf_machine: invariant_machine "cf_step True" cf_start cf_inv
  by unfold_locales (erule cf_start_inv cf_inv_step, assumption?)+

subsection \<open>Properties\<close>

text \<open>
  C12. The lock-free path is exclusive: whatever order threads claim it, hide it, spawn, load C extensions and exit
  in, a thread that has the claim is the only live Ruby thread, and once a second thread has been spawned nobody
  gets it again.
\<close>

theorem sole_thread_exclusive:
  assumes "latch_start main l0" "run (latch_step refused) l0 es l" "sole l t"
  shows "live l = {t} \<and> t = main \<and> \<not> multi_threaded l"
proof -
  have i: "sole_inv main l" by (rule sole_machine.reachable_inv[OF assms(1,2)])
  then have "t \<in> live l" "\<not> multi_threaded l" using sole_inv_ok[OF i, of t] assms(3) by (simp_all add: sole_ok_def)
  then show ?thesis using sole_inv_live[OF i] by auto
qed

definition latch0 :: latch where
  "latch0 = \<lparr>multi_threaded = False, cext_loaded = False, cext_armed = False, process_gvl = with_armed False,
     sole = (\<lambda>_. False), live = {0}, at = (\<lambda>_. Running)\<rparr>"

theorem sole_thread_exclusive_witness:
  "live (mark_sole_thread False 0 latch0) = {0}"
proof -
  have s: "latch_start 0 latch0" by (auto simp: latch_start_def latch0_def)
  have "latch_step False latch0 (Claim 0) (mark_sole_thread False 0 latch0)"
    by (rule latch_step.mark) (simp_all add: latch0_def)
  then have r: "run (latch_step False) latch0 [Claim 0] (mark_sole_thread False 0 latch0)"
    by (intro run_cons[OF run.run_nil])
  have "sole (mark_sole_thread False 0 latch0) 0" by (simp add: latch_defs latch0_def)
  then show ?thesis using sole_thread_exclusive[OF s r] by simp
qed




definition cf0 :: cframes where
  "cf0 = \<lparr>depth = 0, claim = False, resumers = [], suspended = (\<lambda>_. None), running = 0, thread_sole = True\<rparr>"


text \<open>
  A coroutine that yields from inside a C frame carries the taken claim with it.  If its resumer then opens a frame
  and resumes it, the coroutine's frame closes and puts the claim back although the resumer's frame is still open.
\<close>

definition leaked :: cframes where
  "leaked = cf_leave True (cf_resume 1 (cf_enter (cf_yield (cf_enter (cf_resume 1 cf0)))))"

theorem claim_returns_under_an_open_frame:
  "run (cf_step False) cf0 [CResume 1, CEnter, CYield, CEnter, CResume 1, CLeave True] leaked \<and>
   thread_sole leaked \<and> frame_open leaked"
proof (intro conjI)
  let ?c1 = "cf_resume 1 cf0"
  let ?c2 = "cf_enter ?c1"
  let ?c3 = "cf_yield ?c2"
  let ?c4 = "cf_enter ?c3"
  let ?c5 = "cf_resume 1 ?c4"
  have "cf_step False cf0 (CResume 1) ?c1" "cf_step False ?c1 CEnter ?c2" "cf_step False ?c2 CYield ?c3"
    "cf_step False ?c3 CEnter ?c4" "cf_step False ?c4 (CResume 1) ?c5" "cf_step False ?c5 (CLeave True) leaked"
    unfolding leaked_def by (rule cf_step.intros; simp add: cf_defs cf0_def)+
  then show "run (cf_step False) cf0 [CResume 1, CEnter, CYield, CEnter, CResume 1, CLeave True] leaked"
    by (intro run_cons[OF run_cons[OF run_cons[OF run_cons[OF run_cons[OF run_cons[OF run.run_nil]]]]]])
  show "thread_sole leaked" "frame_open leaked"
    by (simp_all add: leaked_def cf_defs cf0_def frame_open_def)
qed

end
