(* ===== verification/Rendezvous.thy ===== *)
theory Rendezvous
  imports Gvl
begin

text \<open>
  The stop-the-world rendezvous of a cycle collection (\<^verbatim>\<open>mod rendezvous\<close> of \<^verbatim>\<open>crates/zeo-rt/src/concurrency/gvl.rs\<close>):
  the collector sets the flag, asks every attached thread with an interrupt bit, and waits until as many threads have
  parked as it asked or until its deadline; a thread parks at a checkpoint.  The steps of all threads interleave; the
  deadline may expire at any moment.  \<open>ruby\<close> is the set of live Ruby threads; only those that have installed a context
  are in \<open>attached\<close>.
\<close>

datatype phase =
    Free
  | Took
  | ParkedIn "64 word"
  | Posting "tid list" "tid list"
  | Awaiting "tid list"
  | Collecting "tid list"

record rendezvous =
  stopped :: bool
  generation :: "64 word"
  parked :: nat
  collecting :: "tid option"
  attached :: "tid list"
  ruby :: "tid set"
  gc_bit :: "tid \<Rightarrow> bool"
  phase :: "tid \<Rightarrow> phase"

definition at_phase :: "tid \<Rightarrow> phase \<Rightarrow> rendezvous \<Rightarrow> rendezvous" where
  "at_phase t p w = w\<lparr>phase := (phase w)(t := p)\<rparr>"

text \<open>\<open>stop_the_world\<close> up to its first wait.\<close>

definition begin_stop :: "tid \<Rightarrow> rendezvous \<Rightarrow> rendezvous" where
  "begin_stop t w =
     at_phase t (Posting (attached w) [])
       (w\<lparr>collecting := Some t, generation := generation w + 1, parked := 0, stopped := True\<rparr>)"

definition post_next :: "tid \<Rightarrow> tid \<Rightarrow> tid list \<Rightarrow> tid list \<Rightarrow> rendezvous \<Rightarrow> rendezvous" where
  "post_next t c rest asked w =
     (if c \<in> ruby w \<and> c \<noteq> t
      then at_phase t (Posting rest (asked @ [c])) (w\<lparr>gc_bit := (gc_bit w)(c := True)\<rparr>)
      else at_phase t (Posting rest asked) w)"

text \<open>Dropping the guard: on success, after the collection, and when the request is abandoned.\<close>

definition drop_stopped :: "tid \<Rightarrow> rendezvous \<Rightarrow> rendezvous" where
  "drop_stopped t w = at_phase t Free (w\<lparr>stopped := False, collecting := None\<rparr>)"

text \<open>\<open>park_if_asked\<close>, after the bit has been taken.\<close>

definition park :: "tid \<Rightarrow> rendezvous \<Rightarrow> rendezvous" where
  "park t w =
     (if stopped w then at_phase t (ParkedIn (generation w)) (w\<lparr>parked := parked w + 1\<rparr>) else at_phase t Free w)"

definition posting :: "rendezvous \<Rightarrow> bool" where
  "posting w \<longleftrightarrow> (\<exists>t rest asked. phase w t = Posting rest asked)"

inductive rv_step :: "rendezvous \<Rightarrow> tid \<Rightarrow> rendezvous \<Rightarrow> bool" where
  born: "\<lbrakk>t \<notin> ruby w; t \<notin> set (attached w)\<rbrakk> \<Longrightarrow> rv_step w t (w\<lparr>ruby := insert t (ruby w)\<rparr>)"
| attaches: "\<lbrakk>t \<in> ruby w; t \<notin> set (attached w); phase w t = Free; \<not> posting w\<rbrakk>
    \<Longrightarrow> rv_step w t (w\<lparr>attached := filter (\<lambda>c. c \<in> ruby w) (attached w) @ [t], gc_bit := (gc_bit w)(t := False)\<rparr>)"
| exits: "\<lbrakk>t \<in> ruby w; phase w t = Free\<rbrakk>
    \<Longrightarrow> rv_step w t (w\<lparr>ruby := ruby w - {t}, gc_bit := (gc_bit w)(t := False)\<rparr>)"
| requests: "\<lbrakk>t \<in> ruby w; phase w t = Free; collecting w = None\<rbrakk> \<Longrightarrow> rv_step w t (begin_stop t w)"
| posts: "phase w t = Posting (c # rest) asked \<Longrightarrow> rv_step w t (post_next t c rest asked w)"
| alone: "phase w t = Posting [] [] \<Longrightarrow> rv_step w t (at_phase t (Collecting []) w)"
| awaits: "\<lbrakk>phase w t = Posting [] asked; asked \<noteq> []\<rbrakk> \<Longrightarrow> rv_step w t (at_phase t (Awaiting asked) w)"
| arrives: "\<lbrakk>phase w t = Awaiting asked; length asked \<le> parked w\<rbrakk> \<Longrightarrow> rv_step w t (at_phase t (Collecting asked) w)"
| abandons: "phase w t = Awaiting asked \<Longrightarrow> rv_step w t (drop_stopped t w)"
| finishes: "phase w t = Collecting asked \<Longrightarrow> rv_step w t (drop_stopped t w)"
| takes: "\<lbrakk>phase w t = Free; gc_bit w t\<rbrakk> \<Longrightarrow> rv_step w t (at_phase t Took (w\<lparr>gc_bit := (gc_bit w)(t := False)\<rparr>))"
| parks: "phase w t = Took \<Longrightarrow> rv_step w t (park t w)"
| unparks: "\<lbrakk>phase w t = ParkedIn g; \<not> (stopped w \<and> generation w = g)\<rbrakk> \<Longrightarrow> rv_step w t (at_phase t Free w)"

definition rv_start :: "rendezvous \<Rightarrow> bool" where
  "rv_start w \<longleftrightarrow>
     (\<exists>T. finite T \<and> w = \<lparr>stopped = False, generation = 0, parked = 0, collecting = None, attached = [], ruby = T,
                          gc_bit = (\<lambda>_. False), phase = (\<lambda>_. Free)\<rparr>)"

subsection \<open>The invariant\<close>

definition collector_phase :: "phase \<Rightarrow> bool" where
  "collector_phase p \<longleftrightarrow> (\<exists>r a. p = Posting r a) \<or> (\<exists>a. p = Awaiting a) \<or> (\<exists>a. p = Collecting a)"

text \<open>The threads a collector has asked or is about to ask.\<close>

primrec targets :: "phase \<Rightarrow> tid set" where
  "targets (Posting rest asked) = set rest \<union> set asked"
| "targets (Awaiting asked) = set asked"
| "targets (Collecting asked) = set asked"
| "targets Free = {}"
| "targets Took = {}"
| "targets (ParkedIn g) = {}"

primrec asked_of :: "phase \<Rightarrow> tid list" where
  "asked_of (Posting rest asked) = asked"
| "asked_of (Awaiting asked) = asked"
| "asked_of (Collecting asked) = asked"
| "asked_of Free = []"
| "asked_of Took = []"
| "asked_of (ParkedIn g) = []"

primrec to_ask :: "phase \<Rightarrow> tid list" where
  "to_ask (Posting rest asked) = rest"
| "to_ask (Awaiting asked) = []"
| "to_ask (Collecting asked) = []"
| "to_ask Free = []"
| "to_ask Took = []"
| "to_ask (ParkedIn g) = []"

definition marked :: "rendezvous \<Rightarrow> tid \<Rightarrow> bool" where
  "marked w c \<longleftrightarrow> gc_bit w c \<or> phase w c = Took \<or> (\<exists>g. phase w c = ParkedIn g)"

definition parked_now :: "rendezvous \<Rightarrow> tid set" where
  "parked_now w = {c. phase w c = ParkedIn (generation w)}"

definition inv_threads :: "rendezvous \<Rightarrow> bool" where
  "inv_threads w \<longleftrightarrow>
     finite (ruby w) \<and> distinct (attached w) \<and> (\<forall>t. phase w t \<noteq> Free \<longrightarrow> t \<in> ruby w) \<and>
     (\<forall>c. marked w c \<longrightarrow> c \<in> ruby w \<and> c \<in> set (attached w)) \<and>
     (\<forall>t rest asked. phase w t = Posting rest asked \<longrightarrow> set rest \<subseteq> set (attached w))"

definition inv_collector :: "rendezvous \<Rightarrow> bool" where
  "inv_collector w \<longleftrightarrow>
     (\<forall>t. collector_phase (phase w t) \<longleftrightarrow> collecting w = Some t) \<and> (stopped w \<longleftrightarrow> collecting w \<noteq> None)"

definition inv_count :: "rendezvous \<Rightarrow> bool" where
  "inv_count w \<longleftrightarrow> (stopped w \<longrightarrow> parked w \<le> card (parked_now w))"

definition inv_asked :: "rendezvous \<Rightarrow> bool" where
  "inv_asked w \<longleftrightarrow>
     (\<forall>t. collecting w = Some t \<longrightarrow>
        distinct (to_ask (phase w t) @ asked_of (phase w t)) \<and>
        (\<forall>c. c \<noteq> t \<longrightarrow> marked w c \<longrightarrow> c \<in> targets (phase w t)))"

definition inv_collecting :: "rendezvous \<Rightarrow> bool" where
  "inv_collecting w \<longleftrightarrow> (\<forall>t asked. phase w t = Collecting asked \<longrightarrow> set asked \<subseteq> parked_now w)"

definition rv_inv :: "rendezvous \<Rightarrow> bool" where
  "rv_inv w \<longleftrightarrow> inv_threads w \<and> inv_collector w \<and> inv_count w \<and> inv_asked w \<and> inv_collecting w"

lemmas rv_ops = at_phase_def begin_stop_def post_next_def drop_stopped_def park_def

lemma collector_phase_simps [simp]:
  "collector_phase (Posting r a)" "collector_phase (Awaiting a)" "collector_phase (Collecting a)"
  "\<not> collector_phase Free" "\<not> collector_phase Took" "\<not> collector_phase (ParkedIn g)"
  by (simp_all add: collector_phase_def)

lemma inv_threads_step: "rv_step w t w' \<Longrightarrow> inv_threads w \<Longrightarrow> inv_threads w'"
proof (induction rule: rv_step.induct)
  case (posts w t c rest asked)
  then have "set (c # rest) \<subseteq> set (attached w)" by (fastforce simp: inv_threads_def)
  then show ?case using posts by (auto simp: inv_threads_def marked_def rv_ops)
next
  case (attaches t w)
  then have "phase w u \<noteq> Posting r a" for u r a by (auto simp: posting_def)
  then show ?case using attaches by (auto simp: inv_threads_def marked_def)
qed (auto simp: inv_threads_def marked_def rv_ops)

text \<open>A step that moves one thread within its role keeps the roles.\<close>

lemma inv_collector_move:
  assumes "inv_collector w" "collector_phase p \<longleftrightarrow> collector_phase (phase w t)"
    "phase w' = (phase w)(t := p)" "collecting w' = collecting w" "stopped w' = stopped w"
  shows "inv_collector w'"
  using assms by (simp add: inv_collector_def)

lemma inv_collectorD:
  "inv_collector w \<Longrightarrow> collector_phase (phase w t) \<Longrightarrow> collecting w = Some t \<and> stopped w"
  "inv_collector w \<Longrightarrow> collecting w = Some t \<Longrightarrow> collector_phase (phase w t)"
  "inv_collector w \<Longrightarrow> collecting w = None \<Longrightarrow> \<not> collector_phase (phase w t) \<and> \<not> stopped w"
  by (auto simp: inv_collector_def)

lemma inv_collector_step:
  assumes "rv_step w t w'" "inv_collector w"
  shows "inv_collector w'"
  using assms
proof (induction rule: rv_step.induct)
  case (requests t w)
  then have "\<not> collector_phase (phase w u)" for u using inv_collectorD(3) by blast
  then show ?case by (simp add: inv_collector_def rv_ops)
next
  case (abandons w t asked)
  then have "collector_phase (phase w u) \<longleftrightarrow> u = t" for u
    using inv_collectorD(1)[of w t] inv_collectorD(1)[of w u] by (cases "u = t") auto
  then show ?case by (simp add: inv_collector_def rv_ops)
next
  case (finishes w t asked)
  then have "collector_phase (phase w u) \<longleftrightarrow> u = t" for u
    using inv_collectorD(1)[of w t] inv_collectorD(1)[of w u] by (cases "u = t") auto
  then show ?case by (simp add: inv_collector_def rv_ops)
next
  case (posts w t c rest asked)
  show ?case
  proof (cases "c \<in> ruby w \<and> c \<noteq> t")
    case True
    show ?thesis by (rule inv_collector_move[OF posts.prems, of "Posting rest (asked @ [c])" t])
        (use posts.hyps True in \<open>simp_all add: rv_ops\<close>)
  next
    case False
    show ?thesis by (rule inv_collector_move[OF posts.prems, of "Posting rest asked" t])
        (use posts.hyps False in \<open>auto simp: rv_ops\<close>)
  qed
next
  case (alone w t)
  show ?case by (rule inv_collector_move[OF alone.prems, of "Collecting []" t]) (use alone.hyps in \<open>simp_all add: rv_ops\<close>)
next
  case (awaits w t asked)
  show ?case by (rule inv_collector_move[OF awaits.prems, of "Awaiting asked" t]) (use awaits.hyps in \<open>simp_all add: rv_ops\<close>)
next
  case (arrives w t asked)
  show ?case by (rule inv_collector_move[OF arrives.prems, of "Collecting asked" t]) (use arrives.hyps in \<open>simp_all add: rv_ops\<close>)
next
  case (takes w t)
  show ?case by (rule inv_collector_move[OF takes.prems, of Took t]) (use takes.hyps in \<open>simp_all add: rv_ops\<close>)
next
  case (parks w t)
  show ?case by (rule inv_collector_move[OF parks.prems, of "if stopped w then ParkedIn (generation w) else Free" t]) (use parks.hyps in \<open>simp_all add: rv_ops\<close>)
next
  case (unparks w t g)
  show ?case by (rule inv_collector_move[OF unparks.prems, of Free t]) (use unparks.hyps in \<open>simp_all add: rv_ops\<close>)
qed (simp_all add: inv_collector_def)

lemma parked_now_finite: "inv_threads w \<Longrightarrow> finite (parked_now w)"
  by (rule finite_subset[of _ "ruby w"]) (auto simp: inv_threads_def parked_now_def)

text \<open>While the world is stopped in a generation, its parked threads stay.\<close>

lemma parked_now_step:
  assumes "rv_step w t w'" "inv_collector w" "stopped w" "stopped w'" "inv_threads w"
  shows "generation w' = generation w \<and> parked_now w \<subseteq> parked_now w' \<and>
    (parked w' = parked w \<or> parked w' = parked w + 1 \<and> t \<notin> parked_now w \<and> t \<in> parked_now w')"
  using assms
proof (induction rule: rv_step.induct)
  case (requests t w)
  then show ?case using inv_collectorD(3) by blast
qed (auto simp: parked_now_def rv_ops)

lemma inv_count_step:
  assumes "rv_step w t w'" "inv_threads w" "inv_collector w" "inv_count w"
  shows "inv_count w'"
proof (cases "stopped w \<and> stopped w'")
  case True
  have f: "finite (parked_now w')" using parked_now_finite inv_threads_step assms by blast
  have p: "generation w' = generation w" "parked_now w \<subseteq> parked_now w'"
    "parked w' = parked w \<or> parked w' = parked w + 1 \<and> t \<notin> parked_now w \<and> t \<in> parked_now w'"
    using parked_now_step[OF assms(1,3) _ _ assms(2)] True by blast+
  have le: "card (parked_now w) \<le> card (parked_now w')" using p(2) f by (rule card_mono[rotated])
  have "card (parked_now w) + 1 \<le> card (parked_now w')" if "parked w' = parked w + 1"
  proof -
    have "t \<notin> parked_now w" "t \<in> parked_now w'" "parked_now w \<subseteq> parked_now w'" using p(2,3) that by auto
    then have "parked_now w \<subset> parked_now w'" by blast
    from psubset_card_mono[OF f this] show ?thesis by simp
  qed
  moreover have "parked w \<le> card (parked_now w)" using assms(4) True by (simp add: inv_count_def)
  ultimately show ?thesis using p(3) le unfolding inv_count_def by linarith
next
  case False
  have "stopped w \<or> \<not> stopped w' \<or> parked w' = 0"
    using assms(1,3) by (cases rule: rv_step.cases) (auto simp: rv_ops)
  then show ?thesis using False by (auto simp: inv_count_def)
qed

lemma inv_asked_mono:
  assumes "inv_asked w" "collecting w' = collecting w" "\<And>c. marked w' c \<Longrightarrow> marked w c"
    "\<And>t. collecting w = Some t \<Longrightarrow> phase w' t = phase w t"
  shows "inv_asked w'"
  using assms by (simp add: inv_asked_def)

lemma inv_askedI:
  assumes "collecting w = Some t" "distinct (to_ask (phase w t) @ asked_of (phase w t))"
    "\<And>c. c \<noteq> t \<Longrightarrow> marked w c \<Longrightarrow> c \<in> targets (phase w t)"
  shows "inv_asked w"
  using assms by (simp add: inv_asked_def)

lemma inv_askedD:
  assumes "inv_asked w" "collecting w = Some t"
  shows "distinct (to_ask (phase w t) @ asked_of (phase w t))" "\<And>c. c \<noteq> t \<Longrightarrow> marked w c \<Longrightarrow> c \<in> targets (phase w t)"
  using assms by (auto simp: inv_asked_def)

lemma inv_asked_step:
  assumes "rv_step w t w'" "inv_threads w" "inv_collector w" "inv_asked w"
  shows "inv_asked w'"
  using assms
proof (induction rule: rv_step.induct)
  case (born t w)
  show ?case by (rule inv_asked_mono[OF born.prems(3)]) (simp_all add: marked_def)
next
  case (attaches t w)
  show ?case by (rule inv_asked_mono[OF attaches.prems(3)]) (auto simp: marked_def split: if_splits)
next
  case (exits t w)
  show ?case by (rule inv_asked_mono[OF exits.prems(3)]) (auto simp: marked_def split: if_splits)
next
  case (takes w t)
  have "collecting w \<noteq> Some t" using takes.hyps inv_collectorD(2)[OF takes.prems(2), of t] by auto
  then show ?case using takes.hyps
    by (intro inv_asked_mono[OF takes.prems(3)]) (auto simp: marked_def rv_ops split: if_splits)
next
  case (parks w t)
  have "collecting w \<noteq> Some t" using parks.hyps inv_collectorD(2)[OF parks.prems(2), of t] by auto
  then show ?case using parks.hyps
    by (intro inv_asked_mono[OF parks.prems(3)]) (auto simp: marked_def rv_ops split: if_splits)
next
  case (unparks w t g)
  have "collecting w \<noteq> Some t" using unparks.hyps inv_collectorD(2)[OF unparks.prems(2), of t] by auto
  then show ?case using unparks.hyps
    by (intro inv_asked_mono[OF unparks.prems(3)]) (auto simp: marked_def rv_ops split: if_splits)
next
  case (requests t w)
  have "c \<in> set (attached w)" if "marked w c" for c using requests.prems(1) that by (simp add: inv_threads_def)
  moreover have "distinct (attached w)" using requests.prems(1) by (simp add: inv_threads_def)
  ultimately show ?case using requests.hyps
    by (intro inv_askedI[of _ t]) (auto simp: rv_ops marked_def)
next
  case (posts w t c rest asked)
  have co: "collecting w = Some t" using inv_collectorD(1)[OF posts.prems(2), of t] posts.hyps by simp
  note d = inv_askedD[OF posts.prems(3) co]
  have alive: "c' \<in> ruby w" if "marked w c'" for c' using posts.prems(1) that by (simp add: inv_threads_def)
  show ?case
  proof (cases "c \<in> ruby w \<and> c \<noteq> t")
    case True
    then show ?thesis using co d posts.hyps
      by (intro inv_askedI[of _ t]) (auto simp: rv_ops marked_def split: if_splits)
  next
    case False
    then have "post_next t c rest asked w = at_phase t (Posting rest asked) w" by (auto simp: post_next_def)
    moreover have "c' \<in> set rest \<union> set asked" if "c' \<noteq> t" "marked w c'" for c'
      using d(2)[OF that] posts.hyps False alive[OF that(2)] that(1) by auto
    ultimately show ?thesis using co d(1) posts.hyps
      by (intro inv_askedI[of _ t]) (auto simp: at_phase_def marked_def)
  qed
next
  case (alone w t)
  have co: "collecting w = Some t" using inv_collectorD(1)[OF alone.prems(2), of t] alone.hyps by simp
  show ?case using co inv_askedD[OF alone.prems(3) co] alone.hyps
    by (intro inv_askedI[of _ t]) (auto simp: rv_ops marked_def)
next
  case (awaits w t asked)
  have co: "collecting w = Some t" using inv_collectorD(1)[OF awaits.prems(2), of t] awaits.hyps by simp
  show ?case using co inv_askedD[OF awaits.prems(3) co] awaits.hyps
    by (intro inv_askedI[of _ t]) (auto simp: rv_ops marked_def)
next
  case (arrives w t asked)
  have co: "collecting w = Some t" using inv_collectorD(1)[OF arrives.prems(2), of t] arrives.hyps by simp
  show ?case using co inv_askedD[OF arrives.prems(3) co] arrives.hyps
    by (intro inv_askedI[of _ t]) (auto simp: rv_ops marked_def)
qed (auto simp: inv_asked_def rv_ops)

text \<open>When as many threads have parked as were asked, they are the ones that were asked.\<close>

lemma all_arrived:
  assumes "rv_inv w" "phase w t = Awaiting asked" "length asked \<le> parked w"
  shows "parked_now w = set asked"
proof -
  have i: "inv_threads w" "inv_collector w" "inv_count w" "inv_asked w" using assms(1) by (simp_all add: rv_inv_def)
  have co: "collecting w = Some t" "stopped w" using inv_collectorD(1)[OF i(2), of t] assms(2) by simp_all
  note d = inv_askedD[OF i(4) co(1)]
  have sub: "parked_now w \<subseteq> set asked"
  proof
    fix c assume "c \<in> parked_now w"
    then have "c \<noteq> t" "marked w c" using assms(2) by (auto simp: parked_now_def marked_def)
    then show "c \<in> set asked" using d(2) assms(2) by simp
  qed
  have "card (set asked) = length asked" using d(1) assms(2) by (simp add: distinct_card)
  then have "card (set asked) \<le> card (parked_now w)" using assms(3) i(3) co(2) by (simp add: inv_count_def)
  then show ?thesis using card_seteq[OF _ sub] by simp
qed

lemma inv_collecting_step:
  assumes "rv_step w u w'" "rv_inv w"
  shows "inv_collecting w'"
proof -
  have i: "inv_threads w" "inv_collector w" "inv_collecting w" using assms(2) by (simp_all add: rv_inv_def)
  have ic': "inv_collector w'" using inv_collector_step[OF assms(1) i(2)] .
  have "set asked \<subseteq> parked_now w'" if p: "phase w' t = Collecting asked" for t asked
  proof (cases "phase w t = Collecting asked")
    case True
    have "stopped w" "stopped w'" using inv_collectorD(1)[OF i(2), of t] inv_collectorD(1)[OF ic', of t] True p by simp_all
    then have "parked_now w \<subseteq> parked_now w'" using parked_now_step[OF assms(1) i(2) _ _ i(1)] by blast
    moreover have "set asked \<subseteq> parked_now w" using i(3) True by (simp add: inv_collecting_def)
    ultimately show ?thesis by blast
  next
    case False
    have "asked = [] \<or> (phase w t = Awaiting asked \<and> length asked \<le> parked w \<and> t = u \<and> w' = at_phase t (Collecting asked) w)"
      using assms(1) p False by (cases rule: rv_step.cases) (auto simp: rv_ops split: if_splits)
    then show ?thesis
    proof (elim disjE conjE)
      assume a: "phase w t = Awaiting asked" "length asked \<le> parked w" "w' = at_phase t (Collecting asked) w"
      have "parked_now w = set asked" by (rule all_arrived[OF assms(2) a(1,2)])
      moreover have "parked_now w \<subseteq> parked_now w'" using a(1) unfolding a(3) by (auto simp: parked_now_def at_phase_def)
      ultimately show ?thesis by simp
    qed simp
  qed
  then show ?thesis by (simp add: inv_collecting_def)
qed

text \<open>Undisturbed, the posting loop asks the live attached threads other than the collector, as \<open>post_gc_to_others\<close> counts.\<close>

lemma posts_all:
  "phase w t = Posting rest asked \<Longrightarrow>
   \<exists>w'. run rv_step w (replicate (length rest) t) w' \<and>
     phase w' t = Posting [] (asked @ filter (\<lambda>c. c \<in> ruby w \<and> c \<noteq> t) rest)"
proof (induction rest arbitrary: w asked)
  case (Cons c rest)
  let ?w = "post_next t c rest asked w" and ?a = "if c \<in> ruby w \<and> c \<noteq> t then asked @ [c] else asked"
  have s: "rv_step w t ?w" by (rule rv_step.posts[OF Cons.prems])
  have p: "phase ?w t = Posting rest ?a" "ruby ?w = ruby w" by (simp_all add: rv_ops)
  obtain w' where "run rv_step ?w (replicate (length rest) t) w'"
    "phase w' t = Posting [] (?a @ filter (\<lambda>c. c \<in> ruby w \<and> c \<noteq> t) rest)"
    using Cons.IH[OF p(1)] p(2) by auto
  then show ?case using run_cons[of rv_step, OF _ s] by (intro exI[of _ w']) auto
qed (auto intro: run.run_nil)

lemma rv_inv_step: "rv_inv w \<Longrightarrow> rv_step w t w' \<Longrightarrow> rv_inv w'"
  using inv_threads_step inv_collector_step inv_count_step inv_asked_step inv_collecting_step
  unfolding rv_inv_def by metis

lemma rv_start_inv: "rv_start w \<Longrightarrow> rv_inv w"
  by (auto simp: rv_start_def rv_inv_def inv_threads_def inv_collector_def inv_count_def inv_asked_def
      inv_collecting_def marked_def)

interpretation rv_machine: invariant_machine rv_step rv_start rv_inv
  by unfold_locales (erule rv_start_inv rv_inv_step, assumption?)+

subsection \<open>Properties\<close>

text \<open>
  C7. The world is stopped: while a collection runs, every thread the collector asked is parked in the current
  generation, and every other thread is either parked too or was never asked and is running; nobody else collects, and
  nobody is between taking the request and parking.  Stragglers of abandoned requests, threads that exit and late
  checkpoints change nothing.
\<close>

theorem world_is_stopped:
  assumes "rv_start w0" "run rv_step w0 es w" "phase w t = Collecting asked"
  shows "stopped w \<and> (\<forall>c \<in> set asked. phase w c = ParkedIn (generation w)) \<and>
    (\<forall>c. c \<noteq> t \<longrightarrow> phase w c = ParkedIn (generation w) \<or> (phase w c = Free \<and> \<not> gc_bit w c \<and> c \<notin> set asked))"
proof -
  have i: "rv_inv w" by (rule rv_machine.reachable_inv[OF assms(1,2)])
  then have p: "inv_collector w" "set asked \<subseteq> parked_now w" "inv_asked w"
    using assms(3) by (simp_all add: rv_inv_def inv_collecting_def)
  have co: "collecting w = Some t" "stopped w" using inv_collectorD(1)[OF p(1), of t] assms(3) by simp_all
  have "phase w c = ParkedIn (generation w) \<or> (phase w c = Free \<and> \<not> gc_bit w c \<and> c \<notin> set asked)" if c: "c \<noteq> t" for c
  proof (cases "c \<in> set asked")
    case True
    then show ?thesis using p(2) by (auto simp: parked_now_def)
  next
    case False
    then have "\<not> marked w c" using inv_askedD(2)[OF p(3) co(1) c] assms(3) by auto
    moreover have "\<not> collector_phase (phase w c)" using inv_collectorD(1)[OF p(1), of c] co c by auto
    ultimately show ?thesis using False by (cases "phase w c") (auto simp: marked_def)
  qed
  then show ?thesis using co p(2) by (auto simp: parked_now_def)
qed

definition rv0 :: rendezvous where
  "rv0 = \<lparr>stopped = False, generation = 0, parked = 0, collecting = None, attached = [], ruby = {0, 1},
     gc_bit = (\<lambda>_. False), phase = (\<lambda>_. Free)\<rparr>"

lemma rv0_start: "rv_start rv0"
  unfolding rv_start_def rv0_def by (intro exI[of _ "{0, 1}"]) simp

lemmas rv_eval = rv0_def rv_ops posting_def

theorem world_is_stopped_witness:
  "\<exists>w :: rendezvous. phase w 0 = Collecting [1] \<and> phase w 1 = ParkedIn (generation w)"
proof -
  let ?w1 = "rv0\<lparr>attached := [0], gc_bit := \<lambda>_. False\<rparr>"
  let ?w2 = "?w1\<lparr>attached := [0, 1]\<rparr>"
  let ?w3 = "begin_stop 0 ?w2"
  let ?w4 = "post_next 0 0 [1] [] ?w3"
  let ?w5 = "post_next 0 1 [] [] ?w4"
  let ?w6 = "at_phase 0 (Awaiting [1]) ?w5"
  let ?w7 = "at_phase 1 Took (?w6\<lparr>gc_bit := (gc_bit ?w6)(1 := False)\<rparr>)"
  let ?w8 = "park 1 ?w7"
  let ?w9 = "at_phase 0 (Collecting [1]) ?w8"
  have "rv_step rv0 0 ?w1" "rv_step ?w1 1 ?w2"
    using rv_step.attaches[of 0 rv0] rv_step.attaches[of 1 ?w1] by (simp_all add: rv_eval fun_upd_idem)
  moreover have "rv_step ?w2 0 ?w3" by (rule rv_step.requests) (simp_all add: rv_eval)
  moreover have "rv_step ?w3 0 ?w4" by (rule rv_step.posts) (simp add: rv_eval)
  moreover have "rv_step ?w4 0 ?w5" by (rule rv_step.posts) (simp add: rv_eval)
  moreover have "rv_step ?w5 0 ?w6" by (rule rv_step.awaits) (simp_all add: rv_eval)
  moreover have "rv_step ?w6 1 ?w7" by (rule rv_step.takes) (simp_all add: rv_eval)
  moreover have "rv_step ?w7 1 ?w8" by (rule rv_step.parks) (simp add: rv_eval)
  moreover have "rv_step ?w8 0 ?w9" by (rule rv_step.arrives) (simp_all add: rv_eval)
  ultimately have r: "run rv_step rv0 [0, 1, 0, 0, 0, 0, 1, 1, 0] ?w9"
    by (intro run_cons[OF run_cons[OF run_cons[OF run_cons[OF run_cons[OF run_cons[OF run_cons[OF run_cons[OF run_cons[OF run.run_nil]]]]]]]]])
  have c: "phase ?w9 0 = Collecting [1]" by (simp add: at_phase_def)
  have "phase ?w9 1 = ParkedIn (generation ?w9)"
    using world_is_stopped[OF rv0_start r c] list.set_intros(1)[of 1 "[]"] by blast
  then show ?thesis using c by blast
qed

text \<open>
  A Ruby thread that has no context is not asked: the thread of a Ractor installs none, so a collection starts at once
  and runs beside it.
\<close>

theorem unattached_thread_runs_beside_the_collector:
  "\<exists>w es. run rv_step rv0 es w \<and> phase w 0 = Collecting [] \<and> 1 \<in> ruby w \<and> phase w 1 = Free"
proof -
  let ?w1 = "rv0\<lparr>attached := [0], gc_bit := \<lambda>_. False\<rparr>"
  let ?w2 = "begin_stop 0 ?w1"
  let ?w3 = "post_next 0 0 [] [] ?w2"
  let ?w4 = "at_phase 0 (Collecting []) ?w3"
  have "rv_step rv0 0 ?w1" using rv_step.attaches[of 0 rv0] by (simp add: rv_eval fun_upd_idem)
  moreover have "rv_step ?w1 0 ?w2" by (rule rv_step.requests) (simp_all add: rv_eval)
  moreover have "rv_step ?w2 0 ?w3" by (rule rv_step.posts) (simp add: rv_eval)
  moreover have "rv_step ?w3 0 ?w4" by (rule rv_step.alone) (simp add: rv_eval)
  ultimately have "run rv_step rv0 [0, 0, 0, 0] ?w4" by (intro run_cons[OF run_cons[OF run_cons[OF run_cons[OF run.run_nil]]]])
  then show ?thesis by (intro exI[of _ ?w4] exI[of _ "[0, 0, 0, 0]"] conjI) (simp_all add: rv_eval)
qed

end
