(* ===== verification/ThreadSync.thy ===== *)
theory ThreadSync
  imports Interrupts Machines
begin

text \<open>
  Blocking primitives (\<^verbatim>\<open>crates/zeo-rt/src/concurrency/thread.rs\<close>, Mutex and Queue) and the deadlock detector they share
  (\<^verbatim>\<open>mod deadlock\<close> of \<^verbatim>\<open>gvl.rs\<close>).  An operation that holds the primitive's own lock is one step; a blocking one is an
  attempt that either finishes or has to wait for the next slice.  The verdict of the detector depends on the number of
  live Ruby threads, which each poll reads: it is part of the poll's event.
\<close>

subsection \<open>The deadlock detector\<close>

record detector =
  blocked :: "32 word"
  streak :: "32 word"

definition STREAK_VERDICT :: "32 word" where "STREAK_VERDICT = 512"

definition waiting_enter :: "bool \<Rightarrow> detector \<Rightarrow> detector" where
  "waiting_enter is_ruby d = (if is_ruby then d\<lparr>blocked := blocked d + 1\<rparr> else d)"

definition waiting_drop :: "bool \<Rightarrow> detector \<Rightarrow> detector" where
  "waiting_drop counted d =
     (let d1 = (if counted then d\<lparr>blocked := blocked d - 1\<rparr> else d) in d1\<lparr>streak := 0\<rparr>)"

definition note_progress :: "detector \<Rightarrow> detector" where
  "note_progress d = d\<lparr>streak := 0\<rparr>"

definition no_progress_possible :: "bool \<Rightarrow> nat \<Rightarrow> detector \<Rightarrow> bool \<times> detector" where
  "no_progress_possible is_ruby live_count d =
     (if \<not> is_ruby then (False, d)
      else if blocked d < of_nat (max live_count 1) then (False, d\<lparr>streak := 0\<rparr>)
      else (STREAK_VERDICT \<le> streak d, d\<lparr>streak := streak d + 1\<rparr>))"

text \<open>One slice of a supervised wait: a signalled wake is progress, a timeout asks for the verdict.\<close>

definition slice :: "bool \<Rightarrow> bool \<Rightarrow> nat \<Rightarrow> detector \<Rightarrow> bool \<times> detector" where
  "slice signalled is_ruby live_count d =
     (if signalled then (True, note_progress d)
      else (case no_progress_possible is_ruby live_count d of (v, d') \<Rightarrow> (\<not> v, d')))"

datatype wait_event = EnterWait bool | LeaveWait bool | Progress | Poll bool nat

fun detect :: "wait_event \<Rightarrow> detector \<Rightarrow> detector" where
  "detect (EnterWait r) d = waiting_enter r d"
| "detect (LeaveWait c) d = waiting_drop c d"
| "detect Progress d = note_progress d"
| "detect (Poll r n) d = snd (no_progress_possible r n d)"

definition detect_all :: "wait_event list \<Rightarrow> detector \<Rightarrow> detector" where
  "detect_all es d = fold detect es d"

lemma slice_detects: "snd (slice signalled r n d) = detect (if signalled then Progress else Poll r n) d"
  by (simp add: slice_def split: prod.split)

text \<open>Events that leave a streak standing: a new wait, a poll by a foreign thread, a poll that saw every thread blocked.\<close>

fun keeps_streak :: "wait_event \<Rightarrow> detector \<Rightarrow> bool" where
  "keeps_streak (EnterWait r) d = True"
| "keeps_streak (LeaveWait c) d = False"
| "keeps_streak Progress d = False"
| "keeps_streak (Poll r n) d = (r \<longrightarrow> of_nat (max n 1) \<le> blocked d)"

fun all_keep :: "wait_event list \<Rightarrow> detector \<Rightarrow> bool" where
  "all_keep [] d = True"
| "all_keep (e # es) d = (keeps_streak e d \<and> all_keep es (detect e d))"

definition is_poll :: "wait_event \<Rightarrow> bool" where
  "is_poll e = (case e of Poll r n \<Rightarrow> r | _ \<Rightarrow> False)"

lemma all_keep_append: "all_keep (es @ fs) d \<longleftrightarrow> all_keep es d \<and> all_keep fs (detect_all es d)"
  by (induction es arbitrary: d) (simp_all add: detect_all_def)

lemma streak_step:
  "keeps_streak e d \<Longrightarrow> streak (detect e d) = streak d + of_bool (is_poll e)"
  "\<not> keeps_streak e d \<Longrightarrow> streak (detect e d) = 0"
  by (cases e; auto simp: waiting_enter_def waiting_drop_def note_progress_def no_progress_possible_def is_poll_def)+

lemma streak_counts_polls:
  assumes "streak d0 = 0"
  shows "\<exists>pre suf. es = pre @ suf \<and> all_keep suf (detect_all pre d0) \<and>
    streak (detect_all es d0) = of_nat (length (filter is_poll suf))"
proof (induction es rule: rev_induct)
  case Nil
  then show ?case using assms by (auto simp: detect_all_def)
next
  case (snoc e es)
  then obtain pre suf where IH: "es = pre @ suf" "all_keep suf (detect_all pre d0)"
    "streak (detect_all es d0) = of_nat (length (filter is_poll suf))" by blast
  have de: "detect_all (es @ [e]) d0 = detect e (detect_all es d0)" by (simp add: detect_all_def)
  show ?case
  proof (cases "keeps_streak e (detect_all es d0)")
    case True
    have "detect_all es d0 = detect_all suf (detect_all pre d0)" by (simp add: IH(1) detect_all_def)
    then have "all_keep (suf @ [e]) (detect_all pre d0)" using IH(2) True by (simp add: all_keep_append)
    moreover have "streak (detect_all (es @ [e]) d0) = of_nat (length (filter is_poll (suf @ [e])))"
      using streak_step(1)[OF True] IH(3) de by simp
    ultimately show ?thesis using IH(1) by (intro exI[of _ pre] exI[of _ "suf @ [e]"]) simp
  next
    case False
    then have "streak (detect_all (es @ [e]) d0) = 0" using streak_step(2) de by simp
    then show ?thesis by (intro exI[of _ "es @ [e]"] exI[of _ "[]"]) simp
  qed
qed

subsection \<open>Mutex\<close>

datatype wait_failure = ThreadError string | ClosedQueue | Deadlock

datatype 'a attempt = Done 'a | Failed wait_failure | MustWait

type_synonym mutex = "tid option"

definition mutex_lock :: "tid \<Rightarrow> mutex \<Rightarrow> mutex attempt" where
  "mutex_lock me owner =
     (if owner = Some me then Failed (ThreadError ''deadlock; recursive locking'')
      else if owner = None then Done (Some me)
      else MustWait)"

text \<open>Once waiting, the recursion check is behind.\<close>

definition mutex_lock_again :: "tid \<Rightarrow> mutex \<Rightarrow> bool \<Rightarrow> mutex attempt" where
  "mutex_lock_again me owner progress =
     (if owner = None then Done (Some me) else if progress then MustWait else Failed Deadlock)"

definition mutex_unlock :: "tid \<Rightarrow> mutex \<Rightarrow> string + mutex" where
  "mutex_unlock me owner =
     (case owner of
        None \<Rightarrow> Inl ''Attempt to unlock a mutex which is not locked''
      | Some u \<Rightarrow>
          if u \<noteq> me then Inl ''Attempt to unlock a mutex which is locked by another thread/fiber''
          else Inr None)"

definition mutex_locked :: "mutex \<Rightarrow> bool" where
  "mutex_locked owner \<longleftrightarrow> owner \<noteq> None"

definition mutex_try_lock :: "tid \<Rightarrow> mutex \<Rightarrow> bool \<times> mutex" where
  "mutex_try_lock me owner = (case owner of None \<Rightarrow> (True, Some me) | Some u \<Rightarrow> (False, owner))"

definition mutex_owned :: "tid \<Rightarrow> mutex \<Rightarrow> bool" where
  "mutex_owned me owner \<longleftrightarrow> owner = Some me"

text \<open>The steps of any number of threads; \<open>held\<close> is the set of threads whose last successful operation was a lock.\<close>

datatype mutex_event = Locked tid | Refused tid | Unlocked tid

inductive mutex_step :: "mutex \<times> tid set \<Rightarrow> mutex_event \<Rightarrow> mutex \<times> tid set \<Rightarrow> bool" where
  locks: "mutex_lock t m = Done m' \<Longrightarrow> mutex_step (m, held) (Locked t) (m', insert t held)"
| locks_later: "\<lbrakk>t \<notin> held; mutex_lock_again t m p = Done m'\<rbrakk> \<Longrightarrow> mutex_step (m, held) (Locked t) (m', insert t held)"
| tries: "mutex_try_lock t m = (True, m') \<Longrightarrow> mutex_step (m, held) (Locked t) (m', insert t held)"
| try_fails: "mutex_try_lock t m = (False, m') \<Longrightarrow> mutex_step (m, held) (Refused t) (m', held)"
| recursion: "mutex_lock t m = Failed e \<Longrightarrow> mutex_step (m, held) (Refused t) (m, held)"
| unlocks: "mutex_unlock t m = Inr m' \<Longrightarrow> mutex_step (m, held) (Unlocked t) (m', held - {t})"
| unlock_fails: "mutex_unlock t m = Inl e \<Longrightarrow> mutex_step (m, held) (Refused t) (m, held)"

definition mutex_inv :: "mutex \<times> tid set \<Rightarrow> bool" where
  "mutex_inv x \<longleftrightarrow> snd x = (case fst x of None \<Rightarrow> {} | Some t \<Rightarrow> {t})"

lemma mutex_inv_step:
  assumes "mutex_inv x" "mutex_step x e y"
  shows "mutex_inv y"
  using assms(2,1) by (cases rule: mutex_step.cases)
    (auto simp: mutex_inv_def mutex_lock_def mutex_lock_again_def mutex_unlock_def mutex_try_lock_def
      split: if_splits option.splits)

interpretation mutex_machine: invariant_machine mutex_step "\<lambda>x. x = (None, {})" mutex_inv
  by unfold_locales (simp add: mutex_inv_def, rule mutex_inv_step)

subsection \<open>Queue and SizedQueue\<close>

record 'v queue =
  items :: "'v list"
  closed :: bool
  initialized :: bool
  bound :: "nat option"
  is_sized :: bool

definition queue_with :: "nat option \<Rightarrow> bool \<Rightarrow> 'v queue" where
  "queue_with m sized = \<lparr>items = [], closed = False, initialized = True, bound = m, is_sized = sized\<rparr>"

definition queue_new :: "'v queue" where
  "queue_new = queue_with None False"

definition queue_uninit :: "bool \<Rightarrow> 'v queue" where
  "queue_uninit sized = (queue_with (if sized then Some 0 else None) sized)\<lparr>initialized := False\<rparr>"

definition sized_queue_new :: "int \<Rightarrow> 'v queue" where
  "sized_queue_new n = queue_with (Some (nat (max n 0))) True"

definition queue_set_max :: "int \<Rightarrow> 'v queue \<Rightarrow> 'v queue" where
  "queue_set_max n q = q\<lparr>bound := Some (nat (max n 0))\<rparr>"

definition queue_full :: "'v queue \<Rightarrow> bool" where
  "queue_full q \<longleftrightarrow> (case bound q of None \<Rightarrow> False | Some m \<Rightarrow> m \<le> length (items q))"

definition queue_push :: "'v \<Rightarrow> 'v queue \<Rightarrow> 'v queue attempt" where
  "queue_push v q =
     (if closed q then Failed ClosedQueue
      else if queue_full q then MustWait
      else Done (q\<lparr>items := items q @ [v]\<rparr>))"

text \<open>\<open>None\<close> is the nil of a closed and drained queue.\<close>

definition queue_pop :: "'v queue \<Rightarrow> ('v option \<times> 'v queue) attempt" where
  "queue_pop q =
     (case items q of
        v # vs \<Rightarrow> Done (Some v, q\<lparr>items := vs\<rparr>)
      | [] \<Rightarrow> if closed q then Done (None, q) else MustWait)"

definition queue_pop_nonblock :: "'v queue \<Rightarrow> ('v \<times> 'v queue) attempt" where
  "queue_pop_nonblock q =
     (case items q of
        v # vs \<Rightarrow> Done (v, q\<lparr>items := vs\<rparr>)
      | [] \<Rightarrow> Failed (ThreadError ''queue empty''))"

definition queue_clear :: "'v queue \<Rightarrow> 'v queue" where
  "queue_clear q = q\<lparr>items := []\<rparr>"

definition queue_close :: "'v queue \<Rightarrow> 'v queue" where
  "queue_close q = q\<lparr>closed := True\<rparr>"

definition queue_len :: "'v queue \<Rightarrow> int" where
  "queue_len q = int (length (items q))"

datatype 'v queue_event = Pushed 'v | Popped 'v | PoppedNil | Cleared "'v list" | Closed | MaxSet int

inductive queue_step :: "'v queue \<Rightarrow> 'v queue_event \<Rightarrow> 'v queue \<Rightarrow> bool" where
  pushes: "queue_push v q = Done q' \<Longrightarrow> queue_step q (Pushed v) q'"
| pops: "queue_pop q = Done (Some v, q') \<Longrightarrow> queue_step q (Popped v) q'"
| pops_nil: "queue_pop q = Done (None, q') \<Longrightarrow> queue_step q PoppedNil q'"
| pops_nonblock: "queue_pop_nonblock q = Done (v, q') \<Longrightarrow> queue_step q (Popped v) q'"
| clears: "queue_step q (Cleared (items q)) (queue_clear q)"
| closes: "queue_step q Closed (queue_close q)"
| sets_max: "queue_step q (MaxSet n) (queue_set_max n q)"

fun pushed :: "'v queue_event list \<Rightarrow> 'v list" where
  "pushed [] = []"
| "pushed (Pushed v # es) = v # pushed es"
| "pushed (_ # es) = pushed es"

fun consumed :: "'v queue_event list \<Rightarrow> 'v list" where
  "consumed [] = []"
| "consumed (Popped v # es) = v # consumed es"
| "consumed (Cleared vs # es) = vs @ consumed es"
| "consumed (_ # es) = consumed es"

lemma pushed_append [simp]: "pushed (es @ fs) = pushed es @ pushed fs"
  by (induction es rule: pushed.induct) simp_all

lemma consumed_append [simp]: "consumed (es @ fs) = consumed es @ consumed fs"
  by (induction es rule: consumed.induct) simp_all

lemmas queue_defs = queue_push_def queue_pop_def queue_pop_nonblock_def queue_clear_def queue_close_def queue_set_max_def

lemma queue_step_items:
  assumes "queue_step q e q'"
  shows "items q @ pushed [e] = consumed [e] @ items q'"
  using assms by (cases rule: queue_step.cases) (auto simp: queue_defs split: if_splits list.splits)

lemma queue_run_items:
  assumes "run queue_step q es q'"
  shows "items q @ pushed es = consumed es @ items q'"
  using assms
proof (induction rule: run.induct)
  case (run_snoc q es q1 e q2)
  then show ?case using queue_step_items[OF run_snoc.hyps(2)] by (metis append.assoc consumed_append pushed_append)
qed simp

lemma closed_stays: "queue_step q e q' \<Longrightarrow> closed q \<Longrightarrow> closed q' \<and> (\<forall>v. e \<noteq> Pushed v)"
  by (cases rule: queue_step.cases) (auto simp: queue_defs split: if_splits list.splits)

lemma closed_no_push:
  assumes "run queue_step q es q'" "closed q"
  shows "closed q' \<and> pushed es = []"
  using assms
proof (induction rule: run.induct)
  case (run_snoc q es q1 e q2)
  then show ?case using closed_stays[OF run_snoc.hyps(2)] by (cases e) auto
qed simp

subsection \<open>Properties\<close>



text \<open>
  C35. A Ruby mutex excludes: whatever threads lock, try, unlock and fail in whatever order, at most one holds it and
  it is the recorded owner; locking again and unlocking without owning are errors that change nothing.
\<close>

theorem mutex_excludes:
  assumes "run mutex_step (None, {}) es (m, held)"
  shows "(t \<in> held \<longleftrightarrow> mutex_owned t m) \<and> (t \<in> held \<longrightarrow> u \<in> held \<longrightarrow> t = u) \<and>
    (mutex_owned t m \<longrightarrow> mutex_lock t m = Failed (ThreadError ''deadlock; recursive locking'')) \<and>
    (\<not> mutex_owned t m \<longrightarrow> (\<exists>e. mutex_unlock t m = Inl e)) \<and>
    (\<not> mutex_locked m \<longrightarrow> mutex_lock t m = Done (Some t))"
proof -
  have "mutex_inv (m, held)" by (rule mutex_machine.reachable_inv[OF refl assms])
  then show ?thesis
    by (cases m) (auto simp: mutex_inv_def mutex_owned_def mutex_lock_def mutex_unlock_def mutex_locked_def)
qed

theorem mutex_excludes_witness: "mutex_lock 4 (Some 4) = Failed (ThreadError ''deadlock; recursive locking'')"
proof -
  have "mutex_step (None, {}) (Locked 4) (Some 4, {4})" using mutex_step.locks[of 4 None] by (simp add: mutex_lock_def)
  then have "run mutex_step (None, {}) [Locked 4] (Some 4, {4})" by (intro run_cons[OF run.run_nil])
  from mutex_excludes[OF this, of 4 4] show ?thesis by (simp add: mutex_owned_def)
qed

text \<open>
  C21. A queue is first-in first-out and loses nothing: what was consumed (popped, or dropped by clear) followed by
  what is still in it is exactly what was pushed, in order.  A push never exceeds the bound it saw, a closed queue
  accepts nothing more, and a pop answers nil only when the queue is closed and drained.
\<close>

theorem queue_fifo:
  assumes "run queue_step (queue_with m sized) es q"
  shows "pushed es = consumed es @ items q \<and>
    (queue_push v q = Done q' \<longrightarrow> \<not> closed q \<and> (\<forall>n. bound q' = Some n \<longrightarrow> length (items q') \<le> n)) \<and>
    (closed q \<longrightarrow> run queue_step q fs q'' \<longrightarrow> pushed fs = []) \<and>
    (queue_pop q = Done (None, q') \<longrightarrow> closed q \<and> consumed es = pushed es)"
proof (intro conjI impI)
  show e: "pushed es = consumed es @ items q" using queue_run_items[OF assms] by (simp add: queue_with_def)
  show "\<not> closed q" if "queue_push v q = Done q'" using that by (auto simp: queue_push_def split: if_splits)
  show "\<forall>n. bound q' = Some n \<longrightarrow> length (items q') \<le> n" if "queue_push v q = Done q'"
    using that by (auto simp: queue_push_def queue_full_def split: if_splits option.splits)
  show "pushed fs = []" if "closed q" "run queue_step q fs q''" using closed_no_push[OF that(2,1)] by simp
  show "closed q" "consumed es = pushed es" if "queue_pop q = Done (None, q')"
    using that e by (auto simp: queue_pop_def split: list.splits if_splits)
qed

theorem queue_fifo_witness: "pushed [Pushed 1, Pushed 2, Popped (1 :: nat)] = consumed [Pushed 1, Pushed 2, Popped (1 :: nat)] @ [2]"
proof -
  let ?q = "queue_with (Some 2) True :: nat queue"
  let ?q3 = "?q\<lparr>items := [2]\<rparr>"
  have "queue_step ?q (Pushed 1) (?q\<lparr>items := [1]\<rparr>)"
    "queue_step (?q\<lparr>items := [1]\<rparr>) (Pushed 2) (?q\<lparr>items := [1, 2]\<rparr>)"
    "queue_step (?q\<lparr>items := [1, 2]\<rparr>) (Popped 1) ?q3"
    by (auto intro!: queue_step.intros(1,2) simp: queue_with_def queue_defs queue_full_def)
  then have "run queue_step ?q [Pushed 1, Pushed 2, Popped 1] ?q3"
    by (intro run_cons[OF run_cons[OF run_cons[OF run.run_nil]]])
  from queue_fifo[OF this] show ?thesis by simp
qed

end
