(* ===== verification/Mt.thy ===== *)
theory Mt
  imports Prelude "HOL-Library.More_List"
begin

unbundle bit_operations_syntax

text \<open>
  The Mersenne twister behind \<^verbatim>\<open>Random\<close> (\<^verbatim>\<open>crates/zeo-rt/src/mt.rs\<close>): the state array as a list of 32-bit words updated in
  place by the loops of the code, the tempered draw, and the draws built from it.  The reference generator is the
  recurrence \<open>mt_x\<close> on an infinite sequence.  Conversions between big integers and their little-endian bytes belong to the
  \<^verbatim>\<open>num_bigint\<close> crate and are the arguments \<open>to_bytes_le\<close> and \<open>from_bytes_le\<close>.  A draw that rejects and retries takes fuel.
\<close>

type_synonym w32 = "32 word"

definition NN :: nat where "NN = 624"
definition MM :: nat where "MM = 397"
definition MATRIX_A :: w32 where "MATRIX_A = 0x9908b0df"
definition UPPER_MASK :: w32 where "UPPER_MASK = 0x80000000"
definition LOWER_MASK :: w32 where "LOWER_MASK = 0x7fffffff"

record mt =
  state :: "w32 list"
  left :: nat

subsection \<open>Seeding\<close>

definition seed_next :: "w32 \<Rightarrow> nat \<Rightarrow> w32" where
  "seed_next prev i = 1812433253 * (prev XOR drop_bit 30 prev) + of_nat i"

definition from_u32 :: "w32 \<Rightarrow> mt" where
  "from_u32 seed =
     \<lparr>state = fold (\<lambda>i st. st[i := seed_next (st ! (i - 1)) i]) [1..<NN] ((replicate NN 0)[0 := seed]), left = 0\<rparr>"

type_synonym cursor = "w32 list \<times> nat \<times> nat"

definition wrap_i :: "w32 list \<times> nat \<Rightarrow> w32 list \<times> nat" where
  "wrap_i x = (let (st, i) = x in if i \<ge> NN then (st[0 := st ! (NN - 1)], 1) else (st, i))"

definition mix_key :: "w32 list \<Rightarrow> cursor \<Rightarrow> cursor" where
  "mix_key key c =
     (let (st, i, j) = c;
          prev = st ! (i - 1);
          st' = st[i := (st ! i XOR (prev XOR drop_bit 30 prev) * 1664525) + key ! j + of_nat j];
          (st'', i') = wrap_i (st', i + 1);
          j' = (if j + 1 \<ge> length key then 0 else j + 1)
      in (st'', i', j'))"

definition mix_index :: "w32 list \<times> nat \<Rightarrow> w32 list \<times> nat" where
  "mix_index x =
     (let (st, i) = x;
          prev = st ! (i - 1);
          st' = st[i := (st ! i XOR (prev XOR drop_bit 30 prev) * 1566083941) - of_nat i]
      in wrap_i (st', i + 1))"

text \<open>An empty key is an index out of bounds.\<close>

definition from_words :: "w32 list \<Rightarrow> mt option" where
  "from_words key =
     (if key = [] then None
      else let (st, i, j) = (mix_key key ^^ max NN (length key)) (state (from_u32 19650218), 1, 0);
               (st', i') = (mix_index ^^ (NN - 1)) (st, i)
        in Some \<lparr>state = st'[0 := 0x80000000], left = 0\<rparr>)"

subsection \<open>Bytes and words\<close>

definition to_le_bytes :: "w32 \<Rightarrow> 8 word list" where
  "to_le_bytes w = map (\<lambda>k. ucast (drop_bit (8 * k) w)) [0..<4]"

definition pad4 :: "8 word list \<Rightarrow> 8 word list" where
  "pad4 c = take 4 (c @ replicate 4 0)"

definition from_le_bytes :: "8 word list \<Rightarrow> w32" where
  "from_le_bytes c =
     ucast (c ! 0) OR push_bit 8 (ucast (c ! 1)) OR push_bit 16 (ucast (c ! 2)) OR push_bit 24 (ucast (c ! 3))"

fun chunks4 :: "8 word list \<Rightarrow> 8 word list list" where
  "chunks4 [] = []"
| "chunks4 (b # bs) = take 4 (b # bs) # chunks4 (drop 3 bs)"

definition le_words :: "8 word list \<Rightarrow> w32 list" where
  "le_words bs = map (\<lambda>c. from_le_bytes (pad4 c)) (chunks4 bs)"

fun pop_zeros :: "w32 list \<Rightarrow> w32 list" where
  "pop_zeros ws = (if length ws > 1 \<and> last ws = 0 then pop_zeros (butlast ws) else ws)"

declare pop_zeros.simps [simp del]

text \<open>A seed of any magnitude; the sign is dropped.\<close>

definition from_bigint :: "(int \<Rightarrow> 8 word list) \<Rightarrow> int \<Rightarrow> mt option" where
  "from_bigint to_bytes_le seed =
     (let ws = pop_zeros (le_words (to_bytes_le \<bar>seed\<bar>))
      in if length ws \<le> 1 then Some (from_u32 (if ws = [] then 0 else hd ws))
         else from_words (if last ws = 1 then butlast ws else ws))"

definition state_bigint :: "(8 word list \<Rightarrow> int) \<Rightarrow> mt \<Rightarrow> int" where
  "state_bigint from_bytes_le m = from_bytes_le (concat (map to_le_bytes (state m)))"

definition ruby_left :: "mt \<Rightarrow> nat" where
  "ruby_left m = left m + 1"

definition from_state :: "(int \<Rightarrow> 8 word list) \<Rightarrow> int \<Rightarrow> nat \<Rightarrow> mt" where
  "from_state to_bytes_le st rl =
     (let ws = take NN (le_words (to_bytes_le st))
      in \<lparr>state = ws @ replicate (NN - length ws) 0, left = min (rl - 1) NN\<rparr>)"

subsection \<open>Drawing\<close>

definition twist :: "w32 \<Rightarrow> w32 \<Rightarrow> w32 \<Rightarrow> w32" where
  "twist here next far =
     (let y = (here AND UPPER_MASK) OR (next AND LOWER_MASK)
      in far XOR drop_bit 1 y XOR (if y AND 1 = 0 then 0 else MATRIX_A))"

definition refill_at :: "nat \<Rightarrow> w32 list \<Rightarrow> w32 list" where
  "refill_at i st = st[i := twist (st ! i) (st ! ((i + 1) mod NN)) (st ! ((i + MM) mod NN))]"

definition refill :: "mt \<Rightarrow> mt" where
  "refill m = \<lparr>state = fold refill_at [0..<NN] (state m), left = NN\<rparr>"

definition temper :: "w32 \<Rightarrow> w32" where
  "temper y0 =
     (let y1 = y0 XOR drop_bit 11 y0;
          y2 = y1 XOR (push_bit 7 y1 AND 0x9d2c5680);
          y3 = y2 XOR (push_bit 15 y2 AND 0xefc60000)
      in y3 XOR drop_bit 18 y3)"

definition next_u32 :: "mt \<Rightarrow> w32 \<times> mt" where
  "next_u32 m =
     (let m1 = (if left m = 0 then refill m else m)
      in (temper (state m1 ! (NN - left m1)), m1\<lparr>left := left m1 - 1\<rparr>))"

fun draws :: "nat \<Rightarrow> mt \<Rightarrow> w32 list \<times> mt" where
  "draws 0 m = ([], m)"
| "draws (Suc n) m = (let (w, m1) = next_u32 m; (ws, m2) = draws n m1 in (w # ws, m2))"

text \<open>The bits below the highest one of the limit.\<close>

definition smear :: "'a::len word \<Rightarrow> nat list \<Rightarrow> 'a word" where
  "smear limit shifts = fold (\<lambda>s msk. msk OR drop_bit s msk) shifts limit"

definition mask64 :: "64 word \<Rightarrow> 64 word" where
  "mask64 limit = smear limit [1, 2, 4, 8, 16, 32]"

definition mask32 :: "w32 \<Rightarrow> w32" where
  "mask32 lim = smear lim [1, 2, 4, 8, 16]"

definition limited_word :: "64 word \<Rightarrow> 64 word \<Rightarrow> nat \<Rightarrow> 64 word \<Rightarrow> mt \<Rightarrow> (64 word option) \<times> mt" where
  "limited_word limit msk i val m =
     (if drop_bit (i * 32) msk AND 0xffffffff = 0 then (Some val, m)
      else let (w, m') = next_u32 m;
               val' = (val OR push_bit (i * 32) (ucast w)) AND msk
        in (if limit < val' then None else Some val', m'))"

definition limited_attempt :: "64 word \<Rightarrow> 64 word \<Rightarrow> mt \<Rightarrow> (64 word option) \<times> mt" where
  "limited_attempt limit msk m =
     (case limited_word limit msk 1 0 m of
        (None, m1) \<Rightarrow> (None, m1)
      | (Some v, m1) \<Rightarrow> limited_word limit msk 0 v m1)"

fun limited_loop :: "nat \<Rightarrow> 64 word \<Rightarrow> 64 word \<Rightarrow> mt \<Rightarrow> (64 word \<times> mt) option" where
  "limited_loop 0 limit msk m = None"
| "limited_loop (Suc fuel) limit msk m =
     (case limited_attempt limit msk m of
        (Some v, m1) \<Rightarrow> Some (v, m1)
      | (None, m1) \<Rightarrow> limited_loop fuel limit msk m1)"

definition limited :: "nat \<Rightarrow> 64 word \<Rightarrow> mt \<Rightarrow> (64 word \<times> mt) option" where
  "limited fuel limit m =
     (if limit = 0 then Some (0, m) else limited_loop fuel limit (mask64 limit) m)"

text \<open>The numerators of the two draws of a float, over \<^verbatim>\<open>2^53\<close>: both are exact in a 64-bit float.\<close>

definition next_real_num :: "mt \<Rightarrow> nat \<times> mt" where
  "next_real_num m =
     (let (a, m1) = next_u32 m; (b, m2) = next_u32 m1
      in (unat (drop_bit 5 a) * 67108864 + unat (drop_bit 6 b), m2))"

definition next_real_inclusive_num :: "mt \<Rightarrow> nat \<times> mt" where
  "next_real_inclusive_num m =
     (let (a, m1) = next_u32 m; (b, m2) = next_u32 m1;
          r = drop_bit 64 ((push_bit 32 (ucast a) OR ucast b) * (push_bit 53 1 OR 1) :: 128 word)
      in (unat r, m2))"

text \<open>One pass of \<open>bigint_below\<close> over the words of the limit, most significant first.\<close>

fun below_pass :: "w32 list \<Rightarrow> bool \<Rightarrow> mt \<Rightarrow> (w32 list option) \<times> mt" where
  "below_pass [] at_boundary m = (Some [], m)"
| "below_pass (lim # lims) at_boundary m =
     (if at_boundary then
        let msk = mask32 lim
        in if msk = 0 then
             (case below_pass lims True m of (r, m') \<Rightarrow> (map_option ((#) 0) r, m'))
           else
             let (w, m1) = next_u32 m; r = w AND msk
             in if lim < r then (None, m1)
                else (case below_pass lims (\<not> r < lim) m1 of (rs, m') \<Rightarrow> (map_option ((#) r) rs, m'))
      else
        let (w, m1) = next_u32 m
        in (case below_pass lims False m1 of (rs, m') \<Rightarrow> (map_option ((#) w) rs, m')))"

fun below_loop :: "nat \<Rightarrow> w32 list \<Rightarrow> mt \<Rightarrow> (w32 list \<times> mt) option" where
  "below_loop 0 lims m = None"
| "below_loop (Suc fuel) lims m =
     (case below_pass lims True m of
        (Some ws, m1) \<Rightarrow> Some (ws, m1)
      | (None, m1) \<Rightarrow> below_loop fuel lims m1)"

definition bigint_below ::
  "(int \<Rightarrow> 8 word list) \<Rightarrow> (8 word list \<Rightarrow> int) \<Rightarrow> nat \<Rightarrow> int \<Rightarrow> mt \<Rightarrow> (int \<times> mt) option" where
  "bigint_below to_bytes_le from_bytes_le fuel n m =
     (let ws = le_words (to_bytes_le (n - 1)); ws' = (if ws = [] then [0] else ws)
      in map_option (\<lambda>(out, m'). (from_bytes_le (concat (map to_le_bytes (rev out))), m')) (below_loop fuel (rev ws') m))"

text \<open>\<open>n\<close> random bytes, four per word.\<close>

function bytes_loop :: "nat \<Rightarrow> 8 word list \<Rightarrow> mt \<Rightarrow> 8 word list \<times> mt" where
  "bytes_loop n out m =
     (if length out < n then let (w, m') = next_u32 m in bytes_loop n (out @ to_le_bytes w) m' else (out, m))"
  by auto

lemma to_le_bytes_length [simp]: "length (to_le_bytes w) = 4"
  by (simp add: to_le_bytes_def)

termination bytes_loop
  by (relation "measure (\<lambda>(n, out, m). n - length out)") auto

declare bytes_loop.simps [simp del]

definition bytes :: "nat \<Rightarrow> mt \<Rightarrow> 8 word list \<times> mt" where
  "bytes n m = (case bytes_loop n [] m of (out, m') \<Rightarrow> (take n out, m'))"

section \<open>The state array\<close>

definition mt_ok :: "mt \<Rightarrow> bool" where
  "mt_ok m \<longleftrightarrow> length (state m) = NN \<and> left m \<le> NN"

lemma mt_okI: "length (state m) = NN \<Longrightarrow> left m \<le> NN \<Longrightarrow> mt_ok m"
  by (simp add: mt_ok_def)

lemma fold_update_length: "length (fold (\<lambda>i st. st[i := f i st]) is st) = length st"
  by (induction "is" arbitrary: st) auto

lemma from_u32_left [simp]: "left (from_u32 s) = 0"
  by (simp add: from_u32_def)

lemma from_u32_length [simp]: "length (state (from_u32 s)) = NN"
  by (simp add: from_u32_def fold_update_length)

lemma mt_ok_from_u32 [simp]: "mt_ok (from_u32 s)"
  by (simp add: mt_ok_def)

lemma refill_length [simp]: "length (state (refill m)) = length (state m)"
  by (simp add: refill_def refill_at_def [abs_def] fold_update_length)

lemma refill_left [simp]: "left (refill m) = NN"
  by (simp add: refill_def)

lemma mt_ok_next_u32: "mt_ok m \<Longrightarrow> mt_ok (snd (next_u32 m))"
  by (auto simp: mt_ok_def next_u32_def Let_def)

lemma mt_ok_draws: "mt_ok m \<Longrightarrow> mt_ok (snd (draws n m))"
proof (induction n arbitrary: m)
  case (Suc n)
  from Suc.IH[OF mt_ok_next_u32[OF Suc.prems]] show ?case by (simp add: split_beta Let_def)
qed simp

section \<open>The reference recurrence\<close>

text \<open>The sequence of the generator: the seed array followed by the twisted words.\<close>

function mt_x :: "w32 list \<Rightarrow> nat \<Rightarrow> w32" where
  "mt_x st k =
     (if k < 624 then st ! k
      else twist (mt_x st (k - 624)) (mt_x st (k - 623)) (mt_x st (k - 227)))"
  by auto

termination mt_x
  by (relation "measure snd") auto

declare mt_x.simps [simp del]

lemma mt_x_seed: "k < NN \<Longrightarrow> mt_x st k = st ! k"
  by (subst mt_x.simps) (simp add: NN_def)

lemma mt_x_step: "mt_x st (k + NN) = twist (mt_x st k) (mt_x st (k + 1)) (mt_x st (k + MM))"
  by (subst mt_x.simps) (simp add: NN_def MM_def add.commute)

text \<open>The words of the sequence in a window of the array whose first \<open>i\<close> places are already one round ahead.\<close>

definition window :: "w32 list \<Rightarrow> nat \<Rightarrow> nat \<Rightarrow> w32 list" where
  "window st base i = map (\<lambda>j. mt_x st (if j < i then base + j + NN else base + j)) [0..<NN]"

lemma window_length [simp]: "length (window st base i) = NN"
  by (simp add: window_def)

lemma window_nth: "j < NN \<Longrightarrow> window st base i ! j = mt_x st (if j < i then base + j + NN else base + j)"
  by (simp add: window_def)

lemma window_next:
  assumes "i < NN"
  shows "window st base i ! ((i + 1) mod NN) = mt_x st (base + i + 1)"
proof (cases "i + 1 = NN")
  case True
  moreover have "(0::nat) < i" using True by (simp add: NN_def)
  moreover have "0 < NN" by (simp add: NN_def)
  ultimately show ?thesis by (simp add: window_nth algebra_simps)
next
  case False
  with assms show ?thesis by (simp add: window_nth algebra_simps)
qed

lemma window_far:
  assumes "i < NN"
  shows "window st base i ! ((i + MM) mod NN) = mt_x st (base + i + MM)"
proof (cases "i + MM < NN")
  case True
  then show ?thesis by (simp add: window_nth MM_def algebra_simps)
next
  case False
  define d where "d = i + MM - NN"
  have "i + MM = d + NN" "d < NN" "d < i" using False assms by (auto simp: d_def NN_def MM_def)
  then have "(i + MM) mod NN = d" by simp
  moreover have "base + i + MM = base + d + NN" using \<open>i + MM = d + NN\<close> by linarith
  ultimately show ?thesis using \<open>d < NN\<close> \<open>d < i\<close> by (simp only: window_nth if_True)
qed

lemma refill_at_window:
  assumes "i < NN"
  shows "refill_at i (window st base i) = window st base (Suc i)"
proof (rule nth_equalityI)
  fix j assume "j < length (refill_at i (window st base i))"
  then have j: "j < NN" by (simp add: refill_at_def)
  show "refill_at i (window st base i) ! j = window st base (Suc i) ! j"
  proof (cases "j = i")
    case True
    have "mt_x st (base + i + NN) = twist (mt_x st (base + i)) (mt_x st (base + i + 1)) (mt_x st (base + i + MM))"
      by (rule mt_x_step)
    moreover have "window st base i ! i = mt_x st (base + i)" using assms by (simp add: window_nth)
    moreover have "window st base (Suc i) ! i = mt_x st (base + i + NN)" using assms by (simp add: window_nth)
    ultimately show ?thesis
      unfolding refill_at_def window_next[OF assms] window_far[OF assms] using True assms by simp
  next
    case False
    then have "refill_at i (window st base i) ! j = window st base i ! j" by (simp add: refill_at_def)
    with False j show ?thesis by (auto simp: window_nth)
  qed
qed (simp add: refill_at_def)

lemma refill_window: "i \<le> NN \<Longrightarrow> fold refill_at [0..<i] (window st base 0) = window st base i"
  by (induction i) (simp_all add: refill_at_window)

lemma window_full: "window st base NN = window st (base + NN) 0"
  by (simp add: window_def algebra_simps)

text \<open>\<open>at_position st m p\<close>: the generator \<open>m\<close> is about to hand out the word \<open>p\<close> of the sequence of \<open>st\<close>.\<close>

definition at_position :: "w32 list \<Rightarrow> mt \<Rightarrow> nat \<Rightarrow> bool" where
  "at_position st m p \<longleftrightarrow> (\<exists>base. state m = window st base 0 \<and> left m \<le> NN \<and> p + left m = base + NN)"

lemma at_position_start:
  assumes "mt_ok m"
  shows "at_position (state m) m (NN - left m)"
proof -
  have "state m = window (state m) 0 0"
    using assms by (intro nth_equalityI) (auto simp: mt_ok_def window_nth mt_x_seed)
  then show ?thesis using assms unfolding at_position_def mt_ok_def by (intro exI[of _ 0]) auto
qed

lemma at_position_refill:
  assumes "at_position st m p" "left m = 0"
  shows "at_position st (refill m) p"
proof -
  from assms obtain base where base: "state m = window st base 0" "p = base + NN"
    by (auto simp: at_position_def)
  have "state (refill m) = window st (base + NN) 0"
    by (simp add: refill_def base refill_window window_full)
  then show ?thesis using base(2) unfolding at_position_def by (intro exI[of _ "base + NN"]) simp
qed

lemma at_position_draw:
  assumes "at_position st m p" "left m \<noteq> 0"
  shows "state m ! (NN - left m) = mt_x st p" "at_position st (m\<lparr>left := left m - 1\<rparr>) (Suc p)"
proof -
  from assms obtain base where base: "state m = window st base 0" "left m \<le> NN" "p + left m = base + NN"
    by (auto simp: at_position_def)
  have "p = base + (NN - left m)" using base by linarith
  with base assms(2) show "state m ! (NN - left m) = mt_x st p" by (simp add: window_nth)
  show "at_position st (m\<lparr>left := left m - 1\<rparr>) (Suc p)"
    using base assms(2) unfolding at_position_def by (intro exI[of _ base]) auto
qed

lemma next_u32_position:
  assumes "at_position st m p"
  shows "fst (next_u32 m) = temper (mt_x st p)" "at_position st (snd (next_u32 m)) (Suc p)"
proof -
  define m1 where "m1 = (if left m = 0 then refill m else m)"
  have "at_position st m1 p" "left m1 \<noteq> 0"
    using assms at_position_refill by (auto simp: m1_def NN_def)
  from at_position_draw[OF this]
  show "fst (next_u32 m) = temper (mt_x st p)" "at_position st (snd (next_u32 m)) (Suc p)"
    by (simp_all add: next_u32_def Let_def flip: m1_def)
qed

lemma draws_position: "at_position st m p \<Longrightarrow> fst (draws n m) = map (\<lambda>k. temper (mt_x st k)) [p..<p + n]"
proof (induction n arbitrary: m p)
  case (Suc n)
  note step = next_u32_position[OF Suc.prems]
  have "fst (draws (Suc n) m) = fst (next_u32 m) # fst (draws n (snd (next_u32 m)))"
    by (simp add: split_beta Let_def)
  moreover have "[p..<p + Suc n] = p # [Suc p..<Suc p + n]" by (simp add: upt_conv_Cons del: upt_Suc)
  ultimately show ?case using Suc.IH[OF step(2)] step(1) by (simp del: upt_Suc)
qed simp

section \<open>Seeding\<close>

text \<open>The reference seeding is the iteration of \<open>seed_next\<close>.\<close>

primrec seed_x :: "w32 \<Rightarrow> nat \<Rightarrow> w32" where
  "seed_x s 0 = s"
| "seed_x s (Suc k) = seed_next (seed_x s k) (Suc k)"

lemma seed_fold:
  assumes "0 < n" "n \<le> NN"
  shows "fold (\<lambda>i st. st[i := seed_next (st ! (i - 1)) i]) [1..<n] ((replicate NN 0)[0 := s]) =
           map (\<lambda>k. if k < n then seed_x s k else 0) [0..<NN]"
  using assms
proof (induction n)
  case (Suc n)
  show ?case
  proof (cases "n = 0")
    case True
    then show ?thesis by (auto intro!: nth_equalityI simp: nth_list_update)
  next
    case False
    then obtain n' where n': "n = Suc n'" by (cases n) auto
    have "[1..<Suc n] = [1..<n] @ [n]" using False by simp
    with Suc False n' show ?thesis
      by (auto intro!: nth_equalityI simp: nth_list_update less_Suc_eq)
  qed
qed simp

lemma from_u32_nth: "k < NN \<Longrightarrow> state (from_u32 s) ! k = seed_x s k"
  using seed_fold[of NN s] by (simp add: from_u32_def NN_def)

lemma wrap_i_ok:
  assumes "wrap_i (st, i) = (st', i')" "0 < i" "i \<le> NN"
  shows "length st' = length st" "0 < i'" "i' < NN"
  using assms by (auto simp: wrap_i_def NN_def split: if_splits)

lemma mix_key_ok:
  assumes "length st = NN" "0 < i" "i < NN" "j < length key" "mix_key key (st, i, j) = (st', i', j')"
  shows "length st' = NN \<and> 0 < i' \<and> i' < NN \<and> j' < length key"
proof -
  obtain st2 i2 where w: "wrap_i (st[i := (st ! i XOR (st ! (i - 1) XOR drop_bit 30 (st ! (i - 1))) * 1664525)
      + key ! j + of_nat j], i + 1) = (st2, i2)" by force
  from wrap_i_ok[OF w] assms(1-3) have "length st2 = NN" "0 < i2" "i2 < NN" by auto
  moreover have "st' = st2" "i' = i2" "j' < length key"
    using assms(4,5) w by (auto simp: mix_key_def Let_def split: if_splits)
  ultimately show ?thesis by simp
qed

lemma mix_index_ok:
  assumes "length st = NN" "0 < i" "i < NN" "mix_index (st, i) = (st', i')"
  shows "length st' = NN \<and> 0 < i' \<and> i' < NN"
proof -
  have "wrap_i (st[i := (st ! i XOR (st ! (i - 1) XOR drop_bit 30 (st ! (i - 1))) * 1566083941) - of_nat i], i + 1)
      = (st', i')" using assms(4) by (simp add: mix_index_def Let_def)
  from wrap_i_ok[OF this] assms(1-3) show ?thesis by auto
qed

lemma mix_keys_ok:
  assumes "key \<noteq> []"
  shows "case (mix_key key ^^ n) (state (from_u32 s), 1, 0) of
           (st, i, j) \<Rightarrow> length st = NN \<and> 0 < i \<and> i < NN \<and> j < length key"
proof (induction n)
  case 0
  then show ?case using assms by (simp add: NN_def)
next
  case (Suc n)
  obtain st i j where c: "(mix_key key ^^ n) (state (from_u32 s), 1, 0) = (st, i, j)" by (metis prod_cases3)
  obtain st' i' j' where c': "mix_key key (st, i, j) = (st', i', j')" by (metis prod_cases3)
  from Suc c mix_key_ok[OF _ _ _ _ c'] show ?case by (simp add: c')
qed

lemma mix_indices_ok:
  assumes "length st = NN" "0 < i" "i < NN"
  shows "case (mix_index ^^ n) (st, i) of (st', i') \<Rightarrow> length st' = NN \<and> 0 < i' \<and> i' < NN"
proof (induction n)
  case (Suc n)
  obtain st1 i1 where c: "(mix_index ^^ n) (st, i) = (st1, i1)" by force
  obtain st' i' where c': "mix_index (st1, i1) = (st', i')" by force
  from Suc c mix_index_ok[OF _ _ _ c'] show ?case by (simp add: c')
qed (use assms in simp)

lemma from_words_ok:
  assumes "key \<noteq> []"
  shows "\<exists>m. from_words key = Some m \<and> mt_ok m"
proof -
  obtain st i j where c: "(mix_key key ^^ max NN (length key)) (state (from_u32 19650218), 1, 0) = (st, i, j)"
    by (metis prod_cases3)
  obtain st' i' where c': "(mix_index ^^ (NN - 1)) (st, i) = (st', i')" by force
  from mix_keys_ok[OF assms, of "max NN (length key)" 19650218] c have "length st = NN" "0 < i" "i < NN" by simp_all
  from mix_indices_ok[OF this, of "NN - 1"] c' have "length st' = NN" by simp
  then show ?thesis using assms by (simp add: from_words_def c c' mt_ok_def del: One_nat_def)
qed

lemma from_bigint_ok: "\<exists>m. from_bigint to_bytes_le seed = Some m \<and> mt_ok m"
proof -
  define ws where "ws = pop_zeros (le_words (to_bytes_le \<bar>seed\<bar>))"
  show ?thesis
  proof (cases "length ws \<le> 1")
    case True
    then show ?thesis by (simp add: from_bigint_def flip: ws_def)
  next
    case False
    then have "(if last ws = 1 then butlast ws else ws) \<noteq> []" by (cases ws rule: rev_cases) auto
    from from_words_ok[OF this] False show ?thesis by (simp add: from_bigint_def flip: ws_def)
  qed
qed

section \<open>Saving and restoring a position\<close>

lemma to_le_bytes_eq: "to_le_bytes w = [ucast w, ucast (drop_bit 8 w), ucast (drop_bit 16 w), ucast (drop_bit 24 w)]"
  by (simp add: to_le_bytes_def upt_rec)

lemma from_to_le_bytes [simp]: "from_le_bytes (to_le_bytes w) = w"
proof (rule bit_word_eqI)
  fix n assume "n < LENGTH(32)"
  then consider "n < 8" | "8 \<le> n" "n < 16" | "16 \<le> n" "n < 24" | "24 \<le> n" "n < 32" by force
  then show "bit (from_le_bytes (to_le_bytes w)) n = bit w n"
    by cases (auto simp: from_le_bytes_def to_le_bytes_eq bit_or_iff bit_push_bit_iff bit_unsigned_iff bit_drop_bit_eq
        dest: bit_imp_le_length)
qed

lemma pad4_eq: "pad4 c = map (nth_default 0 c) [0..<4]"
  by (rule nth_equalityI) (auto simp: pad4_def nth_append nth_default_def)

lemma nth_default_take_drop: "i < n \<Longrightarrow> nth_default d (take n (drop k xs)) i = nth_default d xs (k + i)"
  by (auto simp: nth_default_def)

lemma chunks4_nth:
  "map (nth_default 0 (nth_default [] (chunks4 bs) k)) [0..<4] = map (\<lambda>r. nth_default 0 bs (4 * k + r)) [0..<4]"
proof (induction bs arbitrary: k rule: chunks4.induct)
  case 1
  then show ?case by (simp add: nth_default_def)
next
  case (2 b bs)
  show ?case
  proof (cases k)
    case 0
    have "nth_default 0 (take 4 (b # bs)) r = nth_default 0 (b # bs) r" if "r < 4" for r
      using nth_default_take_drop[OF that, of 0 0 "b # bs"] by simp
    then show ?thesis using 0 by (simp add: nth_default_def)
  next
    case (Suc k')
    have "nth_default 0 (drop 3 bs) i = nth_default 0 (b # bs) (4 + i)" for i
      by (auto simp: nth_default_def)
    with 2[of k'] show ?thesis by (simp add: Suc nth_default_Cons_Suc add.assoc)
  qed
qed

lemma length_chunks4: "k < length (chunks4 bs) \<longleftrightarrow> 4 * k < length bs"
proof (induction bs arbitrary: k rule: chunks4.induct)
  case (2 b bs)
  show ?case
  proof (cases k)
    case (Suc k')
    with 2[of k'] show ?thesis by auto
  qed simp
qed simp

text \<open>Word \<open>k\<close> of the bytes, with the missing bytes read as zero.\<close>

definition word_at :: "8 word list \<Rightarrow> nat \<Rightarrow> w32" where
  "word_at bs k = from_le_bytes (map (\<lambda>r. nth_default 0 bs (4 * k + r)) [0..<4])"

lemma le_words_nth: "nth_default 0 (le_words bs) k = word_at bs k"
proof (cases "k < length (chunks4 bs)")
  case True
  then have c: "nth_default [] (chunks4 bs) k = chunks4 bs ! k" by (simp add: nth_default_def)
  have "nth_default 0 (le_words bs) k = from_le_bytes (pad4 (chunks4 bs ! k))"
    using True by (simp add: le_words_def nth_default_def)
  also have "\<dots> = word_at bs k" unfolding word_at_def pad4_eq chunks4_nth[of bs k, unfolded c] ..
  finally show ?thesis .
next
  case False
  then have "\<not> 4 * k < length bs" by (simp add: length_chunks4)
  then have "word_at bs k = from_le_bytes (map (\<lambda>r. 0) [0..<4])"
    by (simp add: word_at_def nth_default_def)
  also have "\<dots> = 0" by (simp add: from_le_bytes_def)
  finally show ?thesis using False by (simp add: le_words_def nth_default_def)
qed

lemma state_bytes_nth:
  assumes "k < length ws"
  shows "word_at (concat (map to_le_bytes ws)) k = ws ! k"
  using assms
proof (induction ws arbitrary: k)
  case (Cons w ws)
  show ?case
  proof (cases k)
    case 0
    have "map (\<lambda>r. nth_default 0 (to_le_bytes w @ concat (map to_le_bytes ws)) r) [0..<4] = to_le_bytes w"
      by (rule nth_equalityI) (auto simp: nth_default_def nth_append)
    then show ?thesis using 0 by (simp add: word_at_def)
  next
    case (Suc k')
    have "nth_default 0 (to_le_bytes w @ bs) (4 + i) = nth_default 0 bs i" for bs i
      by (auto simp: nth_default_def nth_append)
    with Suc Cons show ?thesis by (simp add: word_at_def add.assoc)
  qed
qed simp

lemma from_state_words:
  "state (from_state to_bytes_le st rl) = map (word_at (to_bytes_le st)) [0..<NN]"
proof (rule nth_equalityI)
  fix k assume "k < length (state (from_state to_bytes_le st rl))"
  then have "k < NN" by (auto simp: from_state_def Let_def)
  then have "state (from_state to_bytes_le st rl) ! k = nth_default 0 (le_words (to_bytes_le st)) k"
    by (auto simp: from_state_def Let_def nth_append nth_default_def)
  with \<open>k < NN\<close> show "state (from_state to_bytes_le st rl) ! k = map (word_at (to_bytes_le st)) [0..<NN] ! k"
    by (simp add: le_words_nth)
qed (auto simp: from_state_def Let_def)

text \<open>The bytes of a number up to its last nonzero one.\<close>

definition significant :: "8 word list \<Rightarrow> 8 word list" where
  "significant bs = strip_while ((=) 0) bs"

lemma significant_Nil [simp]: "significant [] = []"
  by (simp add: significant_def)

lemma significant_Cons: "significant (b # bs) = (if b = 0 \<and> significant bs = [] then [] else b # significant bs)"
  using strip_while_eq_Cons_rec[of "(=) 0" b bs] by (auto simp: significant_def)

text \<open>A byte string and the one rebuilt from its integer agree up to the zero bytes at the end.\<close>

definition same_number :: "(8 word list \<Rightarrow> int) \<Rightarrow> (int \<Rightarrow> 8 word list) \<Rightarrow> 8 word list \<Rightarrow> bool" where
  "same_number from_bytes_le to_bytes_le bs \<longleftrightarrow>
     significant (to_bytes_le (from_bytes_le bs)) = significant bs"

lemma word_at_strip: "significant bs = significant cs \<Longrightarrow> word_at bs = word_at cs"
  by (auto simp: word_at_def fun_eq_iff significant_def simp flip: nth_default_eq_iff)

text \<open>
  A generator saved as \<^verbatim>\<open>Random#marshal_dump\<close> saves it (the state as one integer, and ruby's counter) and rebuilt by
  \<open>from_state\<close> is the same generator, whatever its position, although the integer drops leading zero words.  The
  hypothesis is what \<^verbatim>\<open>num_bigint\<close> documents of its conversions.
\<close>

theorem restore_roundtrip:
  assumes "mt_ok m" "same_number from_bytes_le to_bytes_le (concat (map to_le_bytes (state m)))"
  shows "from_state to_bytes_le (state_bigint from_bytes_le m) (ruby_left m) = m"
proof -
  have "state (from_state to_bytes_le (state_bigint from_bytes_le m) (ruby_left m)) = state m"
    using assms word_at_strip[OF assms(2)[unfolded same_number_def]]
    by (auto simp: from_state_words state_bigint_def state_bytes_nth mt_ok_def intro!: nth_equalityI)
  moreover have "left (from_state to_bytes_le st (ruby_left m)) = left m" for st
    using assms(1) by (simp add: from_state_def ruby_left_def mt_ok_def Let_def)
  ultimately show ?thesis by (intro mt.equality) auto
qed

text \<open>The conversions, concretely.\<close>

primrec le_value :: "8 word list \<Rightarrow> int" where
  "le_value [] = 0"
| "le_value (b # bs) = uint b + 256 * le_value bs"

function le_digits :: "int \<Rightarrow> 8 word list" where
  "le_digits n = (if n \<le> 0 then [] else word_of_int n # le_digits (n div 256))"
  by auto

termination le_digits
  by (relation "measure nat") auto

declare le_digits.simps [simp del]

lemma le_value_nonneg [simp]: "0 \<le> le_value bs"
  by (induction bs) auto

lemma le_digits_value: "le_digits (le_value bs) = significant bs"
proof (induction bs)
  case (Cons b bs)
  have b: "0 \<le> uint b" "uint b < 256" using uint_bounded[of b] by auto
  have "(256 :: 8 word) = 0" by (simp add: word_eq_iff_unsigned)
  then have "(256 :: 8 word) * x = 0" for x by (metis mult_zero_left)
  then have w: "word_of_int (le_value (b # bs)) = b" by simp
  have q: "le_value (b # bs) div 256 = le_value bs" using b by simp
  have zero: "le_digits (le_value bs) = [] \<longleftrightarrow> le_value bs = 0"
    using le_value_nonneg[of bs] by (subst le_digits.simps) (auto simp del: le_value_nonneg)
  show ?case
  proof (cases "le_value (b # bs) = 0")
    case True
    then have "uint b = 0" "le_value bs = 0"
      using b(1) le_value_nonneg[of bs] unfolding le_value.simps by linarith+
    then show ?thesis using True Cons zero by (simp add: le_digits.simps significant_Cons uint_0_iff)
  next
    case False
    then have "\<not> le_value (b # bs) \<le> 0" using le_value_nonneg[of "b # bs"] by linarith
    then have "le_digits (le_value (b # bs)) = b # le_digits (le_value bs)"
      by (subst le_digits.simps) (simp only: if_False w q)
    moreover have "\<not> (b = 0 \<and> significant bs = [])" using False zero Cons by auto
    ultimately show ?thesis using Cons by (simp add: significant_Cons)
  qed
qed (simp add: le_digits.simps)

theorem restore_roundtrip_witness:
  "from_state le_digits (state_bigint le_value (from_u32 42)) (ruby_left (from_u32 42)) = from_u32 42"
  by (rule restore_roundtrip) (simp_all add: same_number_def le_digits_value significant_def)

section \<open>Masked rejection\<close>

text \<open>
  Smearing doubles the reach of each bit: after shifts by \<open>1, 2, 4, \<dots>\<close> a bit is set when some bit of the limit at or above it is.
\<close>

lemma smear_step:
  assumes "\<And>i. bit (w :: 'a::len word) i \<longleftrightarrow> (\<exists>d < s. bit limit (i + d))"
  shows "bit (w OR drop_bit s w) i \<longleftrightarrow> (\<exists>d<2 * s. bit limit (i + d))"
proof
  assume "bit (w OR drop_bit s w) i"
  then show "\<exists>d<2 * s. bit limit (i + d)"
  proof (cases "bit w i")
    case False
    with \<open>bit (w OR drop_bit s w) i\<close> have "bit w (s + i)" by (simp add: bit_or_iff bit_drop_bit_eq)
    then obtain d where "d < s" "bit limit (s + i + d)" using assms by blast
    then show ?thesis by (intro exI[of _ "s + d"]) (simp add: ac_simps)
  qed (use assms in force)
next
  assume "\<exists>d<2 * s. bit limit (i + d)"
  then obtain d where d: "d < 2 * s" "bit limit (i + d)" by blast
  show "bit (w OR drop_bit s w) i"
  proof (cases "d < s")
    case False
    then have "d - s < s" "bit limit (s + i + (d - s))" using d by (simp_all add: add.commute)
    then show ?thesis by (auto simp: bit_or_iff bit_drop_bit_eq assms)
  qed (use d in \<open>auto simp: bit_or_iff bit_drop_bit_eq assms\<close>)
qed

fun doubling :: "nat \<Rightarrow> nat list \<Rightarrow> bool" where
  "doubling s [] \<longleftrightarrow> True"
| "doubling s (t # ts) \<longleftrightarrow> s = t \<and> doubling (2 * s) ts"

lemma smear_bits:
  assumes "doubling s shifts" "\<And>i. bit (w :: 'a::len word) i \<longleftrightarrow> (\<exists>d < s. bit limit (i + d))"
  shows "bit (smear w shifts) i \<longleftrightarrow> (\<exists>d < s * 2 ^ length shifts. bit limit (i + d))"
  using assms
proof (induction shifts arbitrary: s w)
  case (Cons t ts)
  have "bit (smear (w OR drop_bit s w) ts) i \<longleftrightarrow> (\<exists>d<2 * s * 2 ^ length ts. bit limit (i + d))"
    by (rule Cons.IH) (use Cons.prems smear_step[OF Cons.prems(2)] in auto)
  with Cons.prems(1) show ?case by (simp add: smear_def mult.assoc mult.left_commute)
qed (simp add: smear_def)

lemma mask64_bits: "bit (mask64 limit) i \<longleftrightarrow> (\<exists>j\<ge>i. bit limit j)"
proof -
  have "bit (mask64 limit) i \<longleftrightarrow> (\<exists>d<1 * 2 ^ length [1, 2, 4, 8, 16, 32::nat]. bit limit (i + d))"
    unfolding mask64_def by (rule smear_bits) auto
  also have "\<dots> \<longleftrightarrow> (\<exists>j\<ge>i. bit limit j)"
  proof
    assume "\<exists>j\<ge>i. bit limit j"
    then obtain j where j: "i \<le> j" "bit limit j" by blast
    then have "j < 64" using bit_imp_le_length[of limit j] by simp
    with j show "\<exists>d<1 * 2 ^ length [1, 2, 4, 8, 16, 32::nat]. bit limit (i + d)" by (intro exI[of _ "j - i"]) auto
  qed (auto intro: le_add1)
  finally show ?thesis .
qed

lemma limited_word_bound: "limited_word limit msk i val m = (Some v, m') \<Longrightarrow> val \<le> limit \<Longrightarrow> v \<le> limit"
  by (auto simp: limited_word_def Let_def split: if_splits prod.splits)

lemma limited_attempt_bound: "limited_attempt limit msk m = (Some v, m') \<Longrightarrow> v \<le> limit"
  by (auto simp: limited_attempt_def split: prod.splits option.splits dest!: limited_word_bound)

lemma limited_loop_bound: "limited_loop fuel limit msk m = Some (v, m') \<Longrightarrow> v \<le> limit"
  by (induction fuel arbitrary: m) (auto split: prod.splits option.splits dest: limited_attempt_bound)

lemma mask64_high:
  assumes "limit < 2 ^ 32"
  shows "drop_bit 32 (mask64 limit) = 0"
proof (rule bit_word_eqI)
  fix n
  have "unat limit < 2 ^ 32" using assms by (simp add: word_less_nat_alt)
  have "\<not> bit limit j" if "32 \<le> j" for j
  proof -
    have "unat limit < 2 ^ j" using \<open>unat limit < 2 ^ 32\<close> power_increasing[OF that, of "2::nat"] by simp
    then have "\<not> bit (unat limit) j" by (simp add: bit_iff_odd)
    then show ?thesis by (simp add: bit_unsigned_iff)
  qed
  then show "bit (drop_bit 32 (mask64 limit)) n = bit 0 n"
    by (auto simp: bit_drop_bit_eq mask64_bits)
qed

lemma mask64_ne_0: "limit \<noteq> 0 \<Longrightarrow> mask64 limit \<noteq> 0"
proof
  assume "limit \<noteq> 0" "mask64 limit = 0"
  moreover obtain j where "bit limit j" using \<open>limit \<noteq> 0\<close> by (metis bit_eqI bit_0_eq bot_apply bot_bool_def)
  ultimately show False using mask64_bits[of limit j] by auto
qed

lemma mask64_covers: "limit \<le> mask64 limit"
proof -
  have "limit = limit AND mask64 limit"
    by (rule bit_word_eqI) (auto simp: bit_and_iff mask64_bits)
  then show ?thesis by (metis word_and_le1 and.commute)
qed

lemma low_word: "drop_bit 32 msk = 0 \<Longrightarrow> (msk :: 64 word) AND 0xffffffff = msk"
proof (rule bit_word_eqI)
  fix n assume "drop_bit 32 msk = 0"
  then have "\<not> bit (drop_bit 32 msk) n'" for n' by simp
  then have "\<not> bit msk (32 + n')" for n' by (simp add: bit_drop_bit_eq)
  then have "bit msk n \<Longrightarrow> n < 32" by (metis le_add_diff_inverse not_le)
  then have "bit (msk AND mask 32) n = bit msk n" by (auto simp: bit_and_iff bit_mask_iff dest: bit_imp_le_length)
  moreover have "(0xffffffff :: 64 word) = mask 32" by (simp add: mask_eq_exp_minus_1)
  ultimately show "bit (msk AND 0xffffffff) n = bit msk n" by (simp only:)
qed

text \<open>A limit of one word is drawn with one word per attempt.\<close>

lemma limited_attempt_small:
  fixes limit :: "64 word"
  assumes "limit \<noteq> 0" "limit < 2 ^ 32" "msk = mask64 limit"
  shows "limited_attempt limit msk m =
           (let v = ucast (fst (next_u32 m)) AND msk in (if limit < v then None else Some v, snd (next_u32 m)))"
proof -
  have high: "drop_bit 32 msk = 0" using mask64_high[OF assms(2)] assms(3) by simp
  have "limited_word limit msk 1 0 m = (Some 0, m)" by (simp add: limited_word_def high)
  moreover have "drop_bit 0 msk AND 0xffffffff \<noteq> 0"
    using low_word[OF high] mask64_ne_0[OF assms(1)] assms(3) by simp
  ultimately show ?thesis
    by (simp add: limited_attempt_def limited_word_def split_beta Let_def)
qed

lemma limited_loop_small:
  fixes limit :: "64 word"
  assumes "limit \<noteq> 0" "limit < 2 ^ 32" "msk = mask64 limit"
    and "at_position st m p"
    and "\<And>k. k < n \<Longrightarrow> limit < ucast (temper (mt_x st (p + k))) AND msk"
    and "ucast (temper (mt_x st (p + n))) AND msk \<le> limit"
  shows "map_option fst (limited_loop (Suc n) limit msk m) = Some (ucast (temper (mt_x st (p + n))) AND msk)"
  using assms(4-)
proof (induction n arbitrary: m p)
  case 0
  then show ?case using next_u32_position(1)[OF 0(1)]
    by (simp add: limited_attempt_small[OF assms(1-3)] Let_def not_less)
next
  case (Suc n)
  have "limit < ucast (temper (mt_x st p)) AND msk" using Suc.prems(2)[of 0] by simp
  then have "limited_attempt limit msk m = (None, snd (next_u32 m))"
    using next_u32_position(1)[OF Suc.prems(1)] by (simp add: limited_attempt_small[OF assms(1-3)] Let_def)
  moreover have "map_option fst (limited_loop (Suc n) limit msk (snd (next_u32 m))) =
      Some (ucast (temper (mt_x st (Suc p + n))) AND msk)"
    by (rule Suc.IH[OF next_u32_position(2)[OF Suc.prems(1)]])
      (use Suc.prems(2)[of "Suc _"] Suc.prems(3) in auto)
  ultimately show ?case by (subst limited_loop.simps) simp
qed

section \<open>Floats, bytes and big integers\<close>

lemma unat_drop_bit_less: "n \<le> 32 \<Longrightarrow> unat (drop_bit n (w :: w32)) < 2 ^ (32 - n)"
proof -
  assume "n \<le> 32"
  then have "unat w < 2 ^ (32 - n) * 2 ^ n" using unsigned_less[of w, where ?'a = nat] by (simp flip: power_add)
  then have "unat w div 2 ^ n < 2 ^ (32 - n)" by (rule less_mult_imp_div_less)
  then show ?thesis unfolding unat_drop_bit_eq by (simp only: drop_bit_eq_div)
qed

lemma pair_unat: "unat (push_bit 32 (ucast a) OR ucast b :: 128 word) = unat (a :: w32) * 2 ^ 32 + unat (b :: w32)"
proof -
  have "(push_bit 32 (ucast a) AND ucast b :: 128 word) = 0"
    by (rule bit_word_eqI) (auto simp: bit_simps dest: bit_imp_le_length)
  then have "(push_bit 32 (ucast a) OR ucast b :: 128 word) = push_bit 32 (ucast a) + ucast b"
    by (simp only: disjunctive_add_eq_or)
  also have "\<dots> = of_nat (unat a * 2 ^ 32 + unat b)" by (simp add: push_bit_eq_mult)
  finally have "unat (push_bit 32 (ucast a) OR ucast b :: 128 word) = (unat a * 2 ^ 32 + unat b) mod 2 ^ 128"
    by (simp only: unat_of_nat) simp
  moreover have "unat a < 2 ^ 32" "unat b < 2 ^ 32"
    using unsigned_less[of a, where ?'a = nat] unsigned_less[of b, where ?'a = nat] by simp_all
  ultimately show ?thesis by simp
qed

lemma inclusive_product:
  "unat (drop_bit 64 ((push_bit 32 (ucast a) OR ucast b) * (push_bit 53 1 OR 1) :: 128 word)) =
     (unat (a :: w32) * 2 ^ 32 + unat (b :: w32)) * (2 ^ 53 + 1) div 2 ^ 64"
proof -
  have "unat a < 2 ^ 32" "unat b < 2 ^ 32"
    using unsigned_less[of a, where ?'a = nat] unsigned_less[of b, where ?'a = nat] by simp_all
  then have small: "(unat a * 2 ^ 32 + unat b) * (2 ^ 53 + 1) < 2 ^ 128" by simp
  have "(push_bit 53 1 OR 1 :: 128 word) = 2 ^ 53 + 1" by (simp add: push_bit_eq_mult)
  then have "unat ((push_bit 32 (ucast a) OR ucast b) * (push_bit 53 1 OR 1) :: 128 word) =
      (unat a * 2 ^ 32 + unat b) * (2 ^ 53 + 1)"
    using small by (simp add: unat_word_ariths pair_unat del: push_bit_eq_mult)
  then show ?thesis unfolding unat_drop_bit_eq by (simp only: drop_bit_eq_div)
qed

text \<open>
  The numerator of \<open>next_real\<close> is below \<open>2^53\<close> and that of \<open>next_real_inclusive\<close> at most \<open>2^53\<close>, so the floats they make lie
  in \<open>[0, 1)\<close> and in \<open>[0, 1]\<close>; and the 128-bit product of the second never wraps: it is the product of the integers.
\<close>

theorem real_bounds:
  "fst (next_real_num m) < 2 ^ 53"
  "fst (next_real_inclusive_num m) =
     (unat (fst (next_u32 m)) * 2 ^ 32 + unat (fst (next_u32 (snd (next_u32 m))))) * (2 ^ 53 + 1) div 2 ^ 64"
  "fst (next_real_inclusive_num m) \<le> 2 ^ 53"
proof -
  define a b where "a = fst (next_u32 m)" and "b = fst (next_u32 (snd (next_u32 m)))"
  have "unat (drop_bit 5 a) < 2 ^ 27" "unat (drop_bit 6 b) < 2 ^ 26"
    using unat_drop_bit_less[of 5 a] unat_drop_bit_less[of 6 b] by simp_all
  then have "unat (drop_bit 5 a) * 67108864 + unat (drop_bit 6 b) < 2 ^ 53" by simp
  moreover have "fst (next_real_num m) = unat (drop_bit 5 a) * 67108864 + unat (drop_bit 6 b)"
    unfolding next_real_num_def a_def b_def by (simp only: split_beta Let_def fst_conv)
  ultimately show "fst (next_real_num m) < 2 ^ 53" by simp
  have e: "fst (next_real_inclusive_num m) = (unat a * 2 ^ 32 + unat b) * (2 ^ 53 + 1) div 2 ^ 64"
    using inclusive_product[of a b]
    unfolding next_real_inclusive_num_def a_def b_def by (simp only: split_beta Let_def fst_conv)
  then show "fst (next_real_inclusive_num m) =
     (unat (fst (next_u32 m)) * 2 ^ 32 + unat (fst (next_u32 (snd (next_u32 m))))) * (2 ^ 53 + 1) div 2 ^ 64"
    by (simp only: a_def b_def)
  have "unat a < 2 ^ 32" "unat b < 2 ^ 32"
    using unsigned_less[of a, where ?'a = nat] unsigned_less[of b, where ?'a = nat] by simp_all
  then show "fst (next_real_inclusive_num m) \<le> 2 ^ 53" unfolding e by simp
qed

lemma bytes_loop_length:
  "n \<le> length (fst (bytes_loop n out m))"
proof (induction n out m rule: bytes_loop.induct)
  case (1 n out m)
  then show ?case by (subst bytes_loop.simps) (simp add: split_beta Let_def prod_eq_iff)
qed

lemma bytes_length: "length (fst (bytes n m)) = n"
  using bytes_loop_length[of n "[]" m] by (simp add: bytes_def split_beta min_def)

text \<open>The number whose words, most significant first, are \<open>ws\<close>.\<close>

definition be_value :: "w32 list \<Rightarrow> nat" where
  "be_value ws = foldl (\<lambda>v w. v * 2 ^ 32 + unat w) 0 ws"

lemma be_value_acc: "foldl (\<lambda>v w. v * 2 ^ 32 + unat w) a ws = a * 2 ^ (32 * length ws) + be_value ws"
proof (induction ws arbitrary: a)
  case (Cons w ws)
  show ?case
    using Cons[of "a * 2 ^ 32 + unat w"] Cons[of "unat w"]
    by (simp add: be_value_def algebra_simps power_add)
qed (simp add: be_value_def)

lemma be_value_Cons: "be_value (w # ws) = unat w * 2 ^ (32 * length ws) + be_value ws"
  using be_value_acc[of "unat w" ws] by (simp add: be_value_def)

lemma be_value_less: "be_value ws < 2 ^ (32 * length ws)"
proof (induction ws)
  case (Cons w ws)
  have "unat w + 1 \<le> 2 ^ 32" using unsigned_less[of w, where ?'a = nat] by simp
  then have "(unat w + 1) * 2 ^ (32 * length ws) \<le> 2 ^ 32 * 2 ^ (32 * length ws)" by (rule mult_right_mono) simp
  moreover have "2 ^ 32 * 2 ^ (32 * length ws) = (2::nat) ^ (32 * length (w # ws))" by (simp add: power_add)
  ultimately have "unat w * 2 ^ (32 * length ws) + 2 ^ (32 * length ws) \<le> 2 ^ (32 * length (w # ws))"
    by (simp only: add_mult_distrib mult_1)
  with Cons show ?case unfolding be_value_Cons by linarith
qed (simp add: be_value_def)

lemma below_pass_length: "below_pass lims b m = (Some out, m') \<Longrightarrow> length out = length lims"
  by (induction lims b m arbitrary: out m' rule: below_pass.induct)
    (auto simp: Let_def split: if_splits prod.splits)

lemma below_pass_cases:
  assumes "below_pass (lim # lims) True m = (Some out, m')"
  obtains (same) r out' m1 where "below_pass lims True m1 = (Some out', m')" "out = r # out'" "r \<le> lim"
    | (less) r out' m1 where "below_pass lims False m1 = (Some out', m')" "out = r # out'" "r < lim"
proof (cases "mask32 lim = 0")
  case True
  with assms have "below_pass lims True m = (Some (tl out), m')" "out = 0 # tl out"
    by (auto simp: split_beta prod_eq_iff)
  then show ?thesis by (rule same) simp
next
  case False
  define r where "r = fst (next_u32 m) AND mask32 lim"
  define rest where "rest = below_pass lims (\<not> r < lim) (snd (next_u32 m))"
  have "(if lim < r then (None, snd (next_u32 m)) else (map_option ((#) r) (fst rest), snd rest)) = (Some out, m')"
    using assms False unfolding below_pass.simps(2) r_def rest_def by (simp only: if_True if_False Let_def split_beta)
  then have "\<not> lim < r" "rest = (Some (tl out), m')" "out = r # tl out"
    by (auto simp: prod_eq_iff split: if_splits)
  then show ?thesis by (cases "r < lim") (auto simp: rest_def intro: same less)
qed

lemma below_pass_bound: "below_pass lims True m = (Some out, m') \<Longrightarrow> be_value out \<le> be_value lims"
proof (induction lims arbitrary: m out m')
  case (Cons lim lims)
  show ?case
    using Cons.prems
  proof (cases rule: below_pass_cases)
    case (less r out' m1)
    then have len: "length out' = length lims" by (simp add: below_pass_length)
    have "unat r + 1 \<le> unat lim" using less(3) by (simp add: word_less_nat_alt)
    then have "(unat r + 1) * 2 ^ (32 * length lims) \<le> unat lim * 2 ^ (32 * length lims)" by (rule mult_right_mono) simp
    with be_value_less[of out'] len less(2) show ?thesis by (simp add: be_value_Cons algebra_simps)
  next
    case (same r out' m1)
    then have "length out' = length lims" "be_value out' \<le> be_value lims"
      using Cons.IH by (auto simp: below_pass_length)
    moreover have "unat r * 2 ^ (32 * length lims) \<le> unat lim * 2 ^ (32 * length lims)"
      using same(3) by (intro mult_right_mono) (auto simp: word_le_nat_alt)
    ultimately show ?thesis unfolding same(2) be_value_Cons by (metis add_mono)
  qed
qed (simp add: be_value_def)

lemma from_le_bytes_value:
  "uint (from_le_bytes [b0, b1, b2, b3]) = le_value [b0, b1, b2, b3]"
proof -
  let ?w = "\<lambda>b. ucast (b :: 8 word) :: w32"
  have 1: "?w b0 OR push_bit 8 (?w b1) OR push_bit 16 (?w b2) OR push_bit 24 (?w b3) =
      ?w b0 + (push_bit 8 (?w b1) + (push_bit 16 (?w b2) + push_bit 24 (?w b3)))"
  proof -
    have "?w b0 AND (push_bit 8 (?w b1) OR (push_bit 16 (?w b2) OR push_bit 24 (?w b3))) = 0"
      "push_bit 8 (?w b1) AND (push_bit 16 (?w b2) OR push_bit 24 (?w b3)) = 0"
      "push_bit 16 (?w b2) AND push_bit 24 (?w b3) = 0"
      by (rule bit_word_eqI, auto simp: bit_simps dest: bit_imp_le_length)+
    then show ?thesis by (simp only: disjunctive_add_eq_or or.assoc)
  qed
  also have "\<dots> = word_of_int (le_value [b0, b1, b2, b3])"
    by (simp add: push_bit_eq_mult algebra_simps)
  finally have "from_le_bytes [b0, b1, b2, b3] = word_of_int (le_value [b0, b1, b2, b3])"
    by (simp add: from_le_bytes_def numeral_2_eq_2 numeral_3_eq_3)
  moreover have "0 \<le> le_value [b0, b1, b2, b3]" "le_value [b0, b1, b2, b3] < 2 ^ 32"
    using uint_bounded[of b0] uint_bounded[of b1] uint_bounded[of b2] uint_bounded[of b3] by simp_all
  ultimately show ?thesis by (simp only: uint_word_of_int) (simp add: mod_pos_pos_trivial)
qed

lemma le_value_append: "le_value (xs @ ys) = le_value xs + 256 ^ length xs * le_value ys"
  by (induction xs) (simp_all add: algebra_simps)

lemma le_value_zeros [simp]: "le_value (replicate n 0) = 0"
  by (induction n) simp_all

lemma pad4_value: "length c \<le> 4 \<Longrightarrow> uint (from_le_bytes (pad4 c)) = le_value c"
proof -
  assume "length c \<le> 4"
  then have p: "pad4 c = c @ replicate (4 - length c) 0" by (simp add: pad4_def)
  then have "length (pad4 c) = 4" using \<open>length c \<le> 4\<close> by simp
  then obtain b0 b1 b2 b3 where "pad4 c = [b0, b1, b2, b3]" by (auto simp: numeral_eq_Suc length_Suc_conv)
  then have "uint (from_le_bytes (pad4 c)) = le_value (pad4 c)" by (simp only: from_le_bytes_value)
  then show ?thesis by (simp add: p le_value_append)
qed

lemma to_le_bytes_value: "le_value (to_le_bytes w) = uint w"
  using from_le_bytes_value[of "ucast w" "ucast (drop_bit 8 w)" "ucast (drop_bit 16 w)" "ucast (drop_bit 24 w)"]
  by (simp only: from_to_le_bytes flip: to_le_bytes_eq)

text \<open>Words as digits, least significant first.\<close>

primrec words_value :: "w32 list \<Rightarrow> int" where
  "words_value [] = 0"
| "words_value (w # ws) = uint w + 2 ^ 32 * words_value ws"

lemma words_value_bytes: "le_value (concat (map to_le_bytes ws)) = words_value ws"
  by (induction ws) (simp_all add: le_value_append to_le_bytes_value)

lemma le_words_value: "words_value (le_words bs) = le_value bs"
proof (induction bs rule: chunks4.induct)
  case (2 b bs)
  have "le_words (b # bs) = from_le_bytes (pad4 (take 4 (b # bs))) # le_words (drop 3 bs)"
    by (simp add: le_words_def)
  then have "words_value (le_words (b # bs)) = le_value (take 4 (b # bs)) + 2 ^ 32 * le_value (drop 3 bs)"
    using 2 by (simp add: pad4_value del: take_Suc_Cons)
  also have "\<dots> = le_value (b # bs)"
  proof (cases "length bs < 3")
    case False
    have "le_value (b # bs) = le_value (take 4 (b # bs) @ drop 4 (b # bs))" by (simp only: append_take_drop_id)
    with False show ?thesis unfolding le_value_append by simp
  qed simp
  finally show ?case .
qed (simp add: le_words_def)

lemma words_value_append: "words_value (xs @ ys) = words_value xs + 2 ^ (32 * length xs) * words_value ys"
  by (induction xs) (simp_all add: algebra_simps power_add)

lemma words_value_rev: "words_value (rev ws) = int (be_value ws)"
proof (induction ws)
  case (Cons w ws)
  have "words_value (rev (w # ws)) = int (be_value ws) + 2 ^ (32 * length ws) * uint w"
    by (simp add: words_value_append Cons)
  also have "\<dots> = int (be_value (w # ws))" unfolding be_value_Cons uint_nat by simp
  finally show ?case .
qed (simp add: be_value_def)

lemma below_loop_returns:
  assumes "\<And>k. k < n \<Longrightarrow> fst (below_pass lims True (((\<lambda>m. snd (below_pass lims True m)) ^^ k) m)) = None"
    and "fst (below_pass lims True (((\<lambda>m. snd (below_pass lims True m)) ^^ n) m)) = Some ws"
  shows "map_option fst (below_loop (Suc n) lims m) = Some ws"
  using assms
proof (induction n arbitrary: m)
  case 0
  then show ?case by (simp add: case_prod_beta)
next
  case (Suc n)
  have "map_option fst (below_loop (Suc n) lims (snd (below_pass lims True m))) = Some ws"
    by (rule Suc.IH) (use Suc.prems(1)[of "Suc _"] Suc.prems(2) in \<open>auto simp: funpow_Suc_right simp del: funpow.simps(2)\<close>)
  moreover have "fst (below_pass lims True m) = None" using Suc.prems(1)[of 0] by simp
  then have "below_loop (Suc (Suc n)) lims m = below_loop (Suc n) lims (snd (below_pass lims True m))"
    by (subst below_loop.simps) (simp only: case_prod_beta option.case)
  ultimately show ?case by (simp only:)
qed

section \<open>Results\<close>

text \<open>
  C14. The words drawn from a generator are the tempered words of the reference recurrence over its state array, in order and
  from its position on: the in-place refill, which reads words it has just replaced, and the countdown of \<open>left\<close> compute
  \<open>x(k + 624) = x(k + 397) xor (upper x(k) | lower x(k + 1)) A\<close>.
\<close>

theorem draws_are_the_reference:
  assumes "mt_ok m"
  shows "fst (draws n m) = map (\<lambda>k. temper (mt_x (state m) k)) [NN - left m..<NN - left m + n]"
  using at_position_start[OF assms] by (rule draws_position)

lemma mt_x_first:
  assumes "k < 227"
  shows "mt_x (state (from_u32 s)) (624 + k) = twist (seed_x s k) (seed_x s (k + 1)) (seed_x s (k + 397))"
  using assms mt_x_step[of "state (from_u32 s)" k] by (simp add: mt_x_seed from_u32_nth NN_def MM_def add.commute)

lemma index_sums:
  "0 + 1 = (1::nat)" "1 + 1 = (2::nat)" "2 + 1 = (3::nat)"
  "0 + 397 = (397::nat)" "1 + 397 = (398::nat)" "2 + 397 = (399::nat)"
  by simp_all

lemma seed_x_from: "seed_x s k = v \<Longrightarrow> n = Suc k \<Longrightarrow> seed_next v n = v' \<Longrightarrow> seed_x s n = v'"
  by simp

lemma seed_5489:
  "seed_x 5489 1 = 1301868182"
  "seed_x 5489 2 = 2938499221"
  "seed_x 5489 3 = 2950281878"
  "seed_x 5489 397 = 3183906156"
  "seed_x 5489 398 = 1728556020"
  "seed_x 5489 399 = 3502241336"
proof -
  show "seed_x 5489 1 = 1301868182" by code_simp
  show "seed_x 5489 2 = 2938499221" by code_simp
  show "seed_x 5489 3 = 2950281878" by code_simp
  show v397: "seed_x 5489 397 = 3183906156" by code_simp
  show v398: "seed_x 5489 398 = 1728556020"
    by (rule seed_x_from[OF v397]) (simp, code_simp)
  show v399: "seed_x 5489 399 = 3502241336"
    by (rule seed_x_from[OF v398]) (simp, code_simp)
qed

lemma seed_42:
  "seed_x 42 1 = 3107752595"
  "seed_x 42 2 = 1895908407"
  "seed_x 42 397 = 2930777301"
  "seed_x 42 398 = 2831905121"
proof -
  show "seed_x 42 1 = 3107752595" by code_simp
  show "seed_x 42 2 = 1895908407" by code_simp
  show v397: "seed_x 42 397 = 2930777301" by code_simp
  show v398: "seed_x 42 398 = 2831905121"
    by (rule seed_x_from[OF v397]) (simp, code_simp)
qed

lemma reference_stream:
  "temper (twist (seed_x 5489 0) (seed_x 5489 (0 + 1)) (seed_x 5489 (0 + 397))) = 3499211612"
  "temper (twist (seed_x 5489 1) (seed_x 5489 (1 + 1)) (seed_x 5489 (1 + 397))) = 581869302"
  "temper (twist (seed_x 5489 2) (seed_x 5489 (2 + 1)) (seed_x 5489 (2 + 397))) = 3890346734"
  unfolding index_sums seed_5489 seed_x.simps(1) by code_simp+

theorem draws_are_the_reference_witness:
  "fst (draws 3 (from_u32 5489)) = [3499211612, 581869302, 3890346734]"
proof -
  have "[NN - left (from_u32 5489)..<NN - left (from_u32 5489) + 3] = [624 + 0, 624 + 1, 624 + 2]"
    by (simp add: NN_def upt_rec)
  then have "fst (draws 3 (from_u32 5489)) = map (\<lambda>k. temper (mt_x (state (from_u32 5489)) (624 + k))) [0, 1, 2]"
    using draws_are_the_reference[of "from_u32 5489" 3] by simp
  also have "\<dots> = [3499211612, 581869302, 3890346734]"
    by (simp only: list.map mt_x_first[of 0] mt_x_first[of 1] mt_x_first[of 2] reference_stream zero_less_numeral
        one_less_numeral_iff rel_simps)
  finally show ?thesis .
qed

text \<open>
  A draw below a limit of one word returns, with one word consumed per attempt, the first word of the stream whose masked
  value does not overshoot, and that value is in range: when the words \<open>p, \<dots>, p + n - 1\<close> overshoot and the word \<open>p + n\<close>
  does not, \<open>n + 1\<close> attempts are enough.
\<close>

theorem limited_is_rejection_sampling:
  fixes limit :: "64 word"
  assumes "mt_ok m" "limit \<noteq> 0" "limit < 2 ^ 32"
    and "\<And>k. k < n \<Longrightarrow> limit < ucast (temper (mt_x (state m) (NN - left m + k))) AND mask64 limit"
    and "ucast (temper (mt_x (state m) (NN - left m + n))) AND mask64 limit \<le> limit"
  shows "map_option fst (limited (Suc n) limit m) =
           Some (ucast (temper (mt_x (state m) (NN - left m + n))) AND mask64 limit)"
  using limited_loop_small[OF assms(2,3) refl at_position_start[OF assms(1)] assms(4,5)] assms(2)
  by (simp add: limited_def)

lemma rubys_first_draw:
  "ucast (temper (twist (seed_x 42 0) (seed_x 42 (0 + 1)) (seed_x 42 (0 + 397)))) AND mask64 99 = 102"
  "ucast (temper (twist (seed_x 42 1) (seed_x 42 (1 + 1)) (seed_x 42 (1 + 397)))) AND mask64 99 = 51"
  unfolding index_sums seed_42 seed_x.simps(1) by code_simp+

theorem limited_is_rejection_sampling_witness: "map_option fst (limited 2 99 (from_u32 42)) = Some 51"
proof -
  define d where "d k = ucast (temper (mt_x (state (from_u32 42)) (NN - left (from_u32 42) + k))) AND mask64 99" for k
  have pos: "NN - left (from_u32 42) + k = 624 + k" for k by (simp add: NN_def)
  have d: "d 0 = 102" "d 1 = 51"
    unfolding d_def pos by (simp_all only: mt_x_first[of 0] mt_x_first[of 1] rubys_first_draw zero_less_numeral one_less_numeral_iff num.simps rel_simps)
  have "map_option fst (limited (Suc 1) 99 (from_u32 42)) = Some (d 1)"
    unfolding d_def by (rule limited_is_rejection_sampling) (use d in \<open>auto simp: d_def\<close>)
  then show ?thesis unfolding d by (simp add: numeral_2_eq_2)
qed

text \<open>The words of the bound, most significant first.\<close>

definition bound_words :: "(int \<Rightarrow> 8 word list) \<Rightarrow> int \<Rightarrow> w32 list" where
  "bound_words to_bytes_le n = (let ws = le_words (to_bytes_le (n - 1)) in rev (if ws = [] then [0] else ws))"

text \<open>
  \<open>bigint_below\<close> returns after the first pass that accepts, and what it returns is in \<open>[0, n)\<close>, whatever the width of \<open>n\<close>.
  The hypotheses on the conversions are that they read and write the little-endian value.
\<close>

theorem bigint_below_range:
  assumes "0 < n" "from_bytes_le = le_value" "le_value (to_bytes_le (n - 1)) = n - 1"
    and "\<And>j. j < k \<Longrightarrow> fst (below_pass (bound_words to_bytes_le n) True
           (((\<lambda>m. snd (below_pass (bound_words to_bytes_le n) True m)) ^^ j) m)) = None"
    and "fst (below_pass (bound_words to_bytes_le n) True
           (((\<lambda>m. snd (below_pass (bound_words to_bytes_le n) True m)) ^^ k) m)) = Some ws"
  shows "\<exists>r m'. bigint_below to_bytes_le from_bytes_le (Suc k) n m = Some (r, m') \<and> 0 \<le> r \<and> r < n"
proof -
  have "map_option fst (below_loop (Suc k) (bound_words to_bytes_le n) m) = Some ws"
    using assms(4,5) by (rule below_loop_returns)
  then obtain m' where loop: "below_loop (Suc k) (bound_words to_bytes_le n) m = Some (ws, m')" by auto
  have "int (be_value (bound_words to_bytes_le n)) = words_value (le_words (to_bytes_le (n - 1)))"
    by (auto simp: bound_words_def Let_def simp flip: words_value_rev)
  then have "int (be_value (bound_words to_bytes_le n)) = n - 1"
    by (simp add: le_words_value assms(3))
  moreover have "be_value ws \<le> be_value (bound_words to_bytes_le n)"
    using assms(5) below_pass_bound by (metis prod.collapse)
  moreover have "bigint_below to_bytes_le from_bytes_le (Suc k) n m = Some (int (be_value ws), m')"
    using loop by (simp add: bigint_below_def bound_words_def Let_def assms(2) words_value_bytes words_value_rev split: if_splits)
  ultimately show ?thesis by (intro exI[of _ "int (be_value ws)"] exI[of _ m']) auto
qed

theorem bigint_below_range_witness:
  "\<exists>r m'. bigint_below le_digits le_value 1 (2 ^ 32) (from_u32 42) = Some (r, m') \<and> 0 \<le> r \<and> r < 2 ^ 32"
proof -
  have d: "le_digits 4294967295 = [255, 255, 255, 255]" by code_simp
  have b: "bound_words le_digits (2 ^ 32) = [0xffffffff]"
    unfolding bound_words_def by (simp add: d le_words_def pad4_def from_le_bytes_def push_bit_eq_mult)
  have mk: "mask32 0xffffffff = 0xffffffff" by code_simp
  have top: "\<not> 0xffffffff < (x :: w32)" for x using unsigned_less[of x, where ?'a = nat] by (simp add: word_less_nat_alt)
  obtain ws where "fst (below_pass [0xffffffff] True (from_u32 42)) = Some ws"
    using top by (simp add: mk split_beta Let_def)
  then have "\<exists>r m'. bigint_below le_digits le_value (Suc 0) (2 ^ 32) (from_u32 42) = Some (r, m') \<and> 0 \<le> r \<and> r < 2 ^ 32"
    by (intro bigint_below_range[where ws = ws]) (simp_all add: b[simplified] d del: below_pass.simps)
  then show ?thesis by simp
qed

lemma mt_ok_from_state: "mt_ok (from_state to_bytes_le st rl)"
  by (simp add: mt_ok_def from_state_words) (simp add: from_state_def Let_def)

text \<open>
  C39. A generator is well-formed (624 words, at most 624 of them left) however it is made, from a seed of any size or from a saved state,
  well-formed or not, and every draw keeps it so; seeding never indexes an empty key.
\<close>

theorem generators_well_formed:
  "(\<exists>m. from_bigint to_bytes_le seed = Some m \<and> mt_ok m) \<and> mt_ok (from_state to_bytes_le st rl) \<and>
   (mt_ok g \<longrightarrow> mt_ok (snd (draws n g)))"
  using from_bigint_ok mt_ok_from_state mt_ok_draws by blast

theorem generators_well_formed_witness:
  "mt_ok (snd (draws 3 (from_u32 7))) \<and> (\<exists>m. from_bigint le_digits (- (2 ^ 40)) = Some m \<and> mt_ok m)"
  using generators_well_formed[where g = "from_u32 7" and n = 3] by simp

end
