(* ===== verification/DateCalendar.thy ===== *)
theory DateCalendar
  imports Prelude
begin

text \<open>
  The calendar of the \<^verbatim>\<open>date\<close> extension (\<^verbatim>\<open>crates/zeo-rt/ext/date/ext/date/src/lib.rs\<close>): Julian day numbers, the Gregorian and the
  Julian calendar with the day the reform starts, ordinal and ISO week dates, shifting by months, and the instant on its exact
  nanosecond scale.  \<^verbatim>\<open>i64\<close> and \<^verbatim>\<open>i128\<close> are integers: the formulas stay in range for years below \<open>2^50\<close>.  The Julian branch computes in
  \<^verbatim>\<open>f64\<close>; \<open>365.25 c\<close> is exact, and the other quotients are never closer to an integer than \<open>10^-4\<close>, so their floors are those of
  the rational numbers as long as the day number is below \<open>2^36\<close>.  A start is one of the two infinities or a day number; starts
  that are no whole number are not modelled.
\<close>

datatype start = JULIAN | GREGORIAN | Reform int

definition ITALY :: start where "ITALY = Reform 2299161"
definition ENGLAND :: start where "ENGLAND = Reform 2361222"

text \<open>\<^verbatim>\<open>(jd as f64) < sg\<close>.\<close>

primrec before :: "int \<Rightarrow> start \<Rightarrow> bool" where
  "before jd JULIAN = True"
| "before jd GREGORIAN = False"
| "before jd (Reform r) = (jd < r)"

type_synonym civil_date = "int \<times> int \<times> int"

definition gregorian_civil_to_jd :: "int \<Rightarrow> int \<Rightarrow> int \<Rightarrow> int" where
  "gregorian_civil_to_jd y m d =
     (let a = (14 - m) div 12;
          y2 = y + 4800 - a;
          m2 = m + 12 * a - 3
      in d + (153 * m2 + 2) div 5 + 365 * y2 + y2 div 4 - y2 div 100 + y2 div 400 - 32045)"

definition gregorian_jd_to_civil :: "int \<Rightarrow> civil_date" where
  "gregorian_jd_to_civil jd =
     (let a = jd + 32044;
          b = (4 * a + 3) div 146097;
          c = a - (146097 * b) div 4;
          d2 = (4 * c + 3) div 1461;
          e = c - (1461 * d2) div 4;
          m2 = (5 * e + 2) div 153
      in (100 * b + d2 - 4800 + m2 div 10, m2 + 3 - 12 * (m2 div 10), e - (153 * m2 + 2) div 5 + 1))"

definition julian_civil_to_jd :: "int \<Rightarrow> int \<Rightarrow> int \<Rightarrow> int" where
  "julian_civil_to_jd y m d =
     (let (y2, m2) = (if m \<le> 2 then (y - 1, m + 12) else (y, m))
      in (1461 * (y2 + 4716)) div 4 + (306001 * (m2 + 1)) div 10000 + d - 1524)"

definition julian_jd_to_civil :: "int \<Rightarrow> civil_date" where
  "julian_jd_to_civil jd =
     (let b = jd + 1524;
          c = (20 * b - 2442) div 7305;
          d = (1461 * c) div 4;
          e = (10000 * (b - d)) div 306001;
          dom = b - d - (306001 * e) div 10000;
          (m, y) = (if e \<le> 13 then (e - 1, c - 4716) else (e - 13, c - 4715))
      in (y, m, dom))"

definition civil_to_jd :: "int \<Rightarrow> int \<Rightarrow> int \<Rightarrow> start \<Rightarrow> int" where
  "civil_to_jd y m d sg =
     (let jd = gregorian_civil_to_jd y m d in if before jd sg then julian_civil_to_jd y m d else jd)"

definition jd_to_civil :: "int \<Rightarrow> start \<Rightarrow> civil_date" where
  "jd_to_civil jd sg = (if \<not> before jd sg then gregorian_jd_to_civil jd else julian_jd_to_civil jd)"

definition jd_wday :: "int \<Rightarrow> int" where
  "jd_wday jd = (jd + 1) mod 7"

text \<open>The first day of the list that the calendar has.\<close>

definition civil_exists :: "int \<Rightarrow> int \<Rightarrow> int \<Rightarrow> start \<Rightarrow> bool" where
  "civil_exists y m d sg \<longleftrightarrow> jd_to_civil (civil_to_jd y m d sg) sg = (y, m, d)"

definition find_fdoy :: "int \<Rightarrow> start \<Rightarrow> int" where
  "find_fdoy y sg =
     (case List.find (\<lambda>d. civil_exists y 1 d sg) [1..31] of
        Some d \<Rightarrow> civil_to_jd y 1 d sg
      | None \<Rightarrow> civil_to_jd y 1 1 sg)"

definition jd_yday :: "int \<Rightarrow> start \<Rightarrow> int" where
  "jd_yday jd sg = (case jd_to_civil jd sg of (y, _) \<Rightarrow> jd - find_fdoy y sg + 1)"

definition commercial_to_jd :: "int \<Rightarrow> int \<Rightarrow> int \<Rightarrow> start \<Rightarrow> int" where
  "commercial_to_jd y w d sg =
     (let base = find_fdoy y sg + 3 in (base - base mod 7) + 7 * (w - 1) + (d - 1))"

definition jd_to_commercial :: "int \<Rightarrow> start \<Rightarrow> civil_date" where
  "jd_to_commercial jd sg =
     (case jd_to_civil (jd - 3) sg of (y2, _) \<Rightarrow>
        let next_start = commercial_to_jd (y2 + 1) 1 1 sg;
            (cwyear, begins) =
              (if jd < next_start then (y2, commercial_to_jd y2 1 1 sg) else (y2 + 1, next_start))
        in (cwyear, 1 + (jd - begins) div 7, if (jd + 1) mod 7 = 0 then 7 else (jd + 1) mod 7))"

definition last_mday :: "int \<Rightarrow> int \<Rightarrow> start \<Rightarrow> int" where
  "last_mday y m sg = (case List.find (\<lambda>d. civil_exists y m d sg) (rev [1..31]) of Some d \<Rightarrow> d | None \<Rightarrow> 31)"

definition is_leap :: "int \<Rightarrow> bool" where
  "is_leap y \<longleftrightarrow> y mod 4 = 0 \<and> (y mod 100 \<noteq> 0 \<or> y mod 400 = 0)"

text \<open>\<^verbatim>\<open>Date.new\<close>: negative months and days count from the end; \<^const>\<open>None\<close> is \<^verbatim>\<open>Date::Error\<close>.\<close>

definition civil_checked :: "int \<Rightarrow> int \<Rightarrow> int \<Rightarrow> start \<Rightarrow> int option" where
  "civil_checked y m d sg =
     (let m' = (if m < 0 then 13 + m else m)
      in if \<not> (1 \<le> m' \<and> m' \<le> 12) then None
         else let d' = (if d < 0 then last_mday y m' sg + 1 + d else d)
           in if civil_exists y m' d' sg then Some (civil_to_jd y m' d' sg) else None)"

definition ordinal_jd :: "int \<Rightarrow> int \<Rightarrow> start \<Rightarrow> int option" where
  "ordinal_jd y yday sg =
     (let first = find_fdoy y sg;
          len = find_fdoy (y + 1) sg - first;
          yday' = (if yday < 0 then len + 1 + yday else yday)
      in if yday' < 1 \<or> yday' > len then None else Some (first + yday' - 1))"

definition commercial_jd :: "int \<Rightarrow> int \<Rightarrow> int \<Rightarrow> start \<Rightarrow> int option" where
  "commercial_jd y w d sg =
     (let d' = (if d < 0 then 8 + d else d)
      in if \<not> (1 \<le> d' \<and> d' \<le> 7) then None
         else let w' = (if w < 0
                        then fst (snd (jd_to_commercial (commercial_to_jd (y + 1) 1 1 sg - 7) sg)) + 1 + w
                        else w);
                  jd = commercial_to_jd y w' d' sg
           in if jd_to_commercial jd sg \<noteq> (y, w', d') then None else Some jd)"

subsection \<open>Instants\<close>

record date_core =
  d_jd :: int
  d_df :: int
  d_sf :: int
  d_of :: int
  d_sg :: start
  d_complex :: bool

definition NS_PER_SEC :: int where "NS_PER_SEC = 1000000000"
definition NS_PER_DAY :: int where "NS_PER_DAY = 86400 * NS_PER_SEC"

definition local_time :: "date_core \<Rightarrow> int \<times> int" where
  "local_time d = (let t = d_df d + d_of d in (d_jd d + t div 86400, t mod 86400))"

definition civil :: "date_core \<Rightarrow> civil_date" where
  "civil d = jd_to_civil (fst (local_time d)) (d_sg d)"

definition hms :: "date_core \<Rightarrow> int \<times> int \<times> int" where
  "hms d = (let s = snd (local_time d) in (s div 3600, s mod 3600 div 60, s mod 60))"

definition total_ns :: "date_core \<Rightarrow> int" where
  "total_ns d = d_jd d * NS_PER_DAY + d_df d * NS_PER_SEC + d_sf d"

definition at_ns :: "date_core \<Rightarrow> int \<Rightarrow> date_core" where
  "at_ns d ns =
     (let rm = ns mod NS_PER_DAY;
          df' = rm div NS_PER_SEC;
          sf' = rm mod NS_PER_SEC
      in \<lparr>d_jd = ns div NS_PER_DAY, d_df = df', d_sf = sf', d_of = d_of d, d_sg = d_sg d,
          d_complex = (d_complex d \<or> df' \<noteq> 0 \<or> sf' \<noteq> 0)\<rparr>)"

text \<open>\<^verbatim>\<open>Date#>>\<close>: the loop tries earlier days of the month until one exists; running out of fuel is \<^const>\<open>None\<close>.\<close>

fun clamp_day :: "nat \<Rightarrow> int \<Rightarrow> int \<Rightarrow> int \<Rightarrow> start \<Rightarrow> int option" where
  "clamp_day 0 y m day s = None"
| "clamp_day (Suc fuel) y m day s =
     (if civil_exists y m day s then Some (civil_to_jd y m day s) else clamp_day fuel y m (day - 1) s)"

definition month_shift :: "nat \<Rightarrow> date_core \<Rightarrow> int \<Rightarrow> date_core option" where
  "month_shift fuel d n =
     (case civil d of (y, m, mday) \<Rightarrow>
        let t = y * 12 + (m - 1) + n
        in map_option (\<lambda>j. at_ns d (total_ns d + (j - fst (local_time d)) * NS_PER_DAY))
             (clamp_day fuel (t div 12) (t mod 12 + 1) mday (d_sg d)))"

section \<open>The Julian calendar\<close>

lemma div_bounds: "0 < k \<Longrightarrow> k * (x div k) \<le> x \<and> x < k * (x div k) + (k :: int)"
proof -
  assume "0 < k"
  have "x = k * (x div k) + x mod k" by simp
  then show ?thesis using pos_mod_bound[OF \<open>0 < k\<close>, of x] pos_mod_sign[OF \<open>0 < k\<close>, of x] by linarith
qed

lemma julian_parts:
  fixes n :: int
  defines "b \<equiv> n + 1524"
  defines "c \<equiv> (20 * b - 2442) div 7305"
  defines "f \<equiv> b - (1461 * c) div 4"
  defines "e \<equiv> (10000 * f) div 306001"
  shows "4 \<le> e \<and> e \<le> 15 \<and> 1 \<le> f - (306001 * e) div 10000 \<and> f - (306001 * e) div 10000 \<le> 31"
proof -
  have c: "7305 * c \<le> 20 * b - 2442 \<and> 20 * b - 2442 < 7305 * c + 7305" unfolding c_def by (rule div_bounds) simp
  define q where "q = (1461 * c) div 4"
  have q: "4 * q \<le> 1461 * c \<and> 1461 * c < 4 * q + 4" unfolding q_def by (rule div_bounds) simp
  have "f = b - q" by (simp add: f_def q_def)
  with c q have f: "123 \<le> f" "f \<le> 488" by linarith+
  have e: "306001 * e \<le> 10000 * f \<and> 10000 * f < 306001 * e + 306001" unfolding e_def by (rule div_bounds) simp
  with f have e': "4 \<le> e" "e \<le> 15" by linarith+
  define p where "p = (306001 * e) div 10000"
  have p: "10000 * p \<le> 306001 * e \<and> 306001 * e < 10000 * p + 10000" unfolding p_def by (rule div_bounds) simp
  have "10000 * p \<noteq> 306001 * e"
  proof
    assume "10000 * p = 306001 * e"
    then have "6001 * e = 10000 * (p - 30 * e)" by (simp add: algebra_simps)
    then have "(6001 * e) mod 10000 = 0" by (simp only: mod_mult_self1_is_0)
    moreover have "e \<in> {4, 5, 6, 7, 8, 9, 10, 11, 12, 13, 14, 15}" using e' by simp presburger
    ultimately show False by (elim insertE) simp_all
  qed
  with e p have "1 \<le> f - p" "f - p \<le> 31" by linarith+
  with e' show ?thesis by (simp add: p_def)
qed

lemma julian_jd_to_civil_cases:
  obtains c e dom where
    "julian_jd_to_civil n = (if e \<le> 13 then c - 4716 else c - 4715, if e \<le> 13 then e - 1 else e - 13, dom)"
    "4 \<le> e" "e \<le> 15" "1 \<le> dom" "dom \<le> 31"
    "n = (1461 * c) div 4 + (306001 * e) div 10000 + dom - 1524"
proof -
  define c e where "c = (20 * (n + 1524) - 2442) div 7305"
    and "e = (10000 * (n + 1524 - (1461 * c) div 4)) div 306001"
  define dom where "dom = n + 1524 - (1461 * c) div 4 - (306001 * e) div 10000"
  have "julian_jd_to_civil n = (if e \<le> 13 then c - 4716 else c - 4715, if e \<le> 13 then e - 1 else e - 13, dom)"
    unfolding julian_jd_to_civil_def Let_def dom_def e_def c_def by (simp only: split_beta fst_conv snd_conv if_distrib[of fst] if_distrib[of snd])
  moreover have "4 \<le> e \<and> e \<le> 15 \<and> 1 \<le> dom \<and> dom \<le> 31"
    using julian_parts[of n, folded c_def, folded e_def] unfolding dom_def .
  moreover have "n = (1461 * c) div 4 + (306001 * e) div 10000 + dom - 1524" unfolding dom_def by (simp only: algebra_simps)
  ultimately show thesis using that by blast
qed

lemma julian_label:
  assumes "julian_jd_to_civil n = (y, m, d)"
  shows "1 \<le> m \<and> m \<le> 12 \<and> 1 \<le> d \<and> d \<le> 31" "julian_civil_to_jd y m d = n"
proof -
  obtain c e dom where j: "julian_jd_to_civil n =
      (if e \<le> 13 then c - 4716 else c - 4715, if e \<le> 13 then e - 1 else e - 13, dom)"
    and p: "4 \<le> e" "e \<le> 15" "1 \<le> dom" "dom \<le> 31"
    and n: "n = (1461 * c) div 4 + (306001 * e) div 10000 + dom - 1524"
    by (rule julian_jd_to_civil_cases)
  have y: "y = (if e \<le> 13 then c - 4716 else c - 4715)" "m = (if e \<le> 13 then e - 1 else e - 13)" "d = dom"
    using assms j by simp_all
  show "1 \<le> m \<and> m \<le> 12 \<and> 1 \<le> d \<and> d \<le> 31" using y(2,3) p by (cases "e \<le> 13") auto
  have "(if m \<le> 2 then (y - 1, m + 12) else (y, m)) = (c - 4716, e - 1)" using y p by auto
  then show "julian_civil_to_jd y m d = n" by (simp add: julian_civil_to_jd_def n y(3))
qed

section \<open>The Gregorian calendar\<close>

text \<open>The parts of a day number: centuries \<open>b\<close>, years \<open>d2\<close>, days \<open>e\<close> since the first of March, months \<open>m2\<close>.\<close>

lemma gregorian_parts:
  fixes n :: int
  defines "b \<equiv> (4 * (n + 32044) + 3) div 146097"
  defines "c \<equiv> n + 32044 - (146097 * b) div 4"
  defines "d2 \<equiv> (4 * c + 3) div 1461"
  defines "e \<equiv> c - (1461 * d2) div 4"
  shows "0 \<le> c \<and> c \<le> 36524 \<and> (c = 36524 \<longrightarrow> b mod 4 = 3)"
    "0 \<le> d2 \<and> d2 \<le> 99"
    "0 \<le> e \<and> e \<le> 365 \<and> (e = 365 \<longrightarrow> d2 mod 4 = 3 \<and> (d2 = 99 \<longrightarrow> b mod 4 = 3))"
proof -
  have b: "146097 * b \<le> 4 * (n + 32044) + 3 \<and> 4 * (n + 32044) + 3 < 146097 * b + 146097"
    unfolding b_def by (rule div_bounds) simp
  obtain k r where k: "b = 4 * k + r" "0 \<le> r" "r < 4"
    using that[of "b div 4" "b mod 4"] by simp
  have q: "(146097 * b) div 4 = 146097 * k + 36524 * r"
    using k by auto
  show c: "0 \<le> c \<and> c \<le> 36524 \<and> (c = 36524 \<longrightarrow> b mod 4 = 3)"
    using b k q by (auto simp: c_def)
  have d: "1461 * d2 \<le> 4 * c + 3 \<and> 4 * c + 3 < 1461 * d2 + 1461"
    unfolding d2_def by (rule div_bounds) simp
  with c show d': "0 \<le> d2 \<and> d2 \<le> 99" by linarith
  obtain l s where l: "d2 = 4 * l + s" "0 \<le> s" "s < 4"
    using that[of "d2 div 4" "d2 mod 4"] by simp
  have q': "(1461 * d2) div 4 = 1461 * l + 365 * s" using l by auto
  show "0 \<le> e \<and> e \<le> 365 \<and> (e = 365 \<longrightarrow> d2 mod 4 = 3 \<and> (d2 = 99 \<longrightarrow> b mod 4 = 3))"
    using c d l q' by (auto simp: e_def)
qed

definition days_in_month :: "int \<Rightarrow> int \<Rightarrow> int" where
  "days_in_month y m = (if m = 2 then (if is_leap y then 29 else 28) else if m \<in> {4, 6, 9, 11} then 30 else 31)"

text \<open>The first day of month \<open>m2\<close> of a year that starts in March.\<close>

definition march_day :: "int \<Rightarrow> int" where
  "march_day m2 = (153 * m2 + 2) div 5"

lemma march_months:
  assumes "0 \<le> (e :: int)" "e \<le> 365"
  shows "0 \<le> (5 * e + 2) div 153 \<and> (5 * e + 2) div 153 \<le> 11 \<and>
    march_day ((5 * e + 2) div 153) \<le> e \<and> ((5 * e + 2) div 153 < 11 \<longrightarrow> e < march_day ((5 * e + 2) div 153 + 1))"
proof -
  define m where "m = (5 * e + 2) div 153"
  have m: "153 * m \<le> 5 * e + 2 \<and> 5 * e + 2 < 153 * m + 153" unfolding m_def by (rule div_bounds) simp
  define p q where "p = march_day m" and "q = march_day (m + 1)"
  have p: "5 * p \<le> 153 * m + 2 \<and> 153 * m + 2 < 5 * p + 5" unfolding p_def march_day_def by (rule div_bounds) simp
  have q: "5 * q \<le> 153 * (m + 1) + 2 \<and> 153 * (m + 1) + 2 < 5 * q + 5" unfolding q_def march_day_def by (rule div_bounds) simp
  have "0 \<le> m" "m \<le> 11" "p \<le> e" using m p assms by linarith+
  moreover have "e < q"
  proof -
    have "153 * m + 153 \<le> 5 * q + 2" using q by simp
    then have "5 * e < 5 * q" using m by linarith
    then show ?thesis by simp
  qed
  ultimately show ?thesis unfolding p_def q_def m_def by blast
qed

definition month_of :: "int \<Rightarrow> int" where
  "month_of m2 = m2 + 3 - 12 * (m2 div 10)"

lemma march_table:
  assumes "0 \<le> m2" "m2 \<le> 11"
  shows "1 \<le> month_of m2 \<and> month_of m2 \<le> 12"
    "m2 < 11 \<Longrightarrow> march_day (m2 + 1) - march_day m2 = days_in_month y (month_of m2)"
    "m2 = 11 \<Longrightarrow> month_of m2 = 2 \<and> march_day m2 = 337"
    "(14 - month_of m2) div 12 = m2 div 10" "month_of m2 + 12 * (m2 div 10) - 3 = m2"
proof -
  have "m2 \<in> {0, 1, 2, 3, 4, 5, 6, 7, 8, 9, 10, 11}" using assms by simp presburger
  then show "1 \<le> month_of m2 \<and> month_of m2 \<le> 12"
    "m2 < 11 \<Longrightarrow> march_day (m2 + 1) - march_day m2 = days_in_month y (month_of m2)"
    "m2 = 11 \<Longrightarrow> month_of m2 = 2 \<and> march_day m2 = 337"
    "(14 - month_of m2) div 12 = m2 div 10" "month_of m2 + 12 * (m2 div 10) - 3 = m2"
    by (elim insertE; simp add: month_of_def march_day_def days_in_month_def)+
qed

text \<open>The days before the first of March of year \<open>y2 - 4800\<close>.\<close>

definition march_year :: "int \<Rightarrow> int" where
  "march_year y2 = 365 * y2 + y2 div 4 - y2 div 100 + y2 div 400"

lemma gregorian_civil_to_jd_march:
  assumes "0 \<le> m2" "m2 \<le> 11"
  shows "gregorian_civil_to_jd (y2 - 4800 + m2 div 10) (month_of m2) d = d + march_day m2 + march_year y2 - 32045"
  using march_table(4,5)[OF assms] by (simp add: gregorian_civil_to_jd_def march_day_def march_year_def Let_def)

lemma march_year_century:
  assumes "0 \<le> d2" "d2 \<le> 99"
  shows "march_year (100 * b + d2) = (146097 * b) div 4 + (1461 * d2) div 4"
proof -
  have c: "(100 * b + d2) div 100 = b" using assms by simp
  then have "(100 * b + d2) div 400 = b div 4" using zdiv_zmult2_eq[of 4 "100 * b + d2" 100] by simp
  note c = c this
  have "(100 * b + d2) div 4 = 25 * b + d2 div 4" using div_mult_self2[of 4 d2 "25 * b"] by (simp add: add.commute)
  note c = c this
  have "(146097 * b) div 4 = 36524 * b + b div 4" "(1461 * d2) div 4 = 365 * d2 + d2 div 4"
    using div_mult_self2[of 4 b "36524 * b"] div_mult_self2[of 4 d2 "365 * d2"] by (simp_all add: add.commute)
  note c = c this
  show ?thesis unfolding march_year_def c by simp
qed

lemma div_Suc: "0 < k \<Longrightarrow> (y + 1) div k = y div k + (if (y + 1) mod k = 0 then 1 else 0 :: int)"
proof -
  assume k: "0 < k"
  have y: "y + 1 = k * (y div k) + (y mod k + 1)" by simp
  have b: "0 \<le> y mod k" "y mod k < k" using k by simp_all
  show ?thesis
  proof (cases "y mod k + 1 = k")
    case True
    then have "y + 1 = k * (y div k + 1)" using y by (simp add: algebra_simps)
    then show ?thesis using k by simp
  next
    case False
    then have "(y + 1) mod k = y mod k + 1" "(y + 1) div k = y div k"
      using b k y by (metis add.commute mod_mult_self2 mod_pos_pos_trivial zle_add1_eq_le add_increasing zero_le_one order_le_less not_less,
          metis add.commute div_mult_self2 div_pos_pos_trivial zle_add1_eq_le add_increasing zero_le_one order_le_less not_less add_0 less_irrefl)
    with b show ?thesis by simp
  qed
qed

lemma march_year_Suc: "march_year (y + 1) = march_year y + (if is_leap (y + 1) then 366 else 365)"
proof -
  define a4 a100 a400 where "a4 = ((y + 1) mod 4 = 0)" and "a100 = ((y + 1) mod 100 = 0)" and "a400 = ((y + 1) mod 400 = 0)"
  have imp: "a400 \<longrightarrow> a100" "a100 \<longrightarrow> a4" unfolding a4_def a100_def a400_def by presburger+
  define q4 q100 q400 where "q4 = y div 4" and "q100 = y div 100" and "q400 = y div 400"
  have d: "(y + 1) div 4 = q4 + (if a4 then 1 else 0)" "(y + 1) div 100 = q100 + (if a100 then 1 else 0)"
    "(y + 1) div 400 = q400 + (if a400 then 1 else 0)"
    unfolding q4_def q100_def q400_def a4_def a100_def a400_def by (rule div_Suc; simp)+
  have leap: "is_leap (y + 1) = (a4 \<and> (\<not> a100 \<or> a400))" unfolding is_leap_def a4_def a100_def a400_def ..
  show ?thesis
    unfolding march_year_def d leap q4_def[symmetric] q100_def[symmetric] q400_def[symmetric]
    using imp by (cases a4; cases a100; cases a400) simp_all
qed

lemma leap_shift: "is_leap (y - 4800) = is_leap y"
proof -
  have "(y - 4800) mod 4 = y mod 4" "(y - 4800) mod 100 = y mod 100" "(y - 4800) mod 400 = y mod 400"
    using mod_mult_self2[of y 4 "-1200"] mod_mult_self2[of y 100 "-48"] mod_mult_self2[of y 400 "-12"] by simp_all
  then show ?thesis by (simp only: is_leap_def)
qed

definition year_len :: "int \<Rightarrow> int" where
  "year_len y2 = (if is_leap (y2 + 1) then 366 else 365)"

lemma march_year_less: "y < y' \<Longrightarrow> march_year y + year_len y \<le> march_year y'"
proof (induction "nat (y' - y)" arbitrary: y)
  case (Suc k)
  have step: "march_year (y + 1) = march_year y + year_len y" by (simp add: march_year_Suc year_len_def)
  show ?case
  proof (cases "y + 1 = y'")
    case False
    then have "march_year (y + 1) + year_len (y + 1) \<le> march_year y'" using Suc by (intro Suc.hyps(1)) auto
    then show ?thesis using step by (simp add: year_len_def split: if_splits)
  qed (use step in simp)
qed simp

text \<open>A day of the Gregorian calendar in years that start in March.\<close>

definition march_date :: "int \<Rightarrow> int \<Rightarrow> int \<Rightarrow> bool" where
  "march_date y2 m2 d \<longleftrightarrow>
     0 \<le> m2 \<and> m2 \<le> 11 \<and> 1 \<le> d \<and> d \<le> days_in_month (y2 - 4800 + m2 div 10) (month_of m2)"

lemma march_date_day:
  assumes "march_date y2 m2 d"
  shows "0 \<le> march_day m2 + d - 1" "march_day m2 + d - 1 < year_len y2"
    "m2 < 11 \<Longrightarrow> march_day m2 + d - 1 < march_day (m2 + 1)"
proof -
  have m: "0 \<le> m2" "m2 \<le> 11" "1 \<le> d" and d: "d \<le> days_in_month (y2 - 4800 + m2 div 10) (month_of m2)"
    using assms by (auto simp: march_date_def)
  have "0 \<le> march_day m2" using m by (simp add: march_day_def)
  then show "0 \<le> march_day m2 + d - 1" using m by simp
  show next_month: "march_day m2 + d - 1 < march_day (m2 + 1)" if "m2 < 11"
    using march_table(2)[OF m(1,2) that, of "y2 - 4800 + m2 div 10"] d by simp
  show "march_day m2 + d - 1 < year_len y2"
  proof (cases "m2 < 11")
    case True
    have "march_day (m2 + 1) \<le> march_day 11" unfolding march_day_def using True by (intro zdiv_mono1) auto
    with next_month[OF True] show ?thesis by (simp add: march_day_def year_len_def split: if_splits)
  next
    case False
    with m have "m2 = 11" by simp
    with d march_table(3)[OF m(1,2)] leap_shift[of "y2 + 1"] show ?thesis
      by (auto simp: days_in_month_def year_len_def algebra_simps split: if_splits)
  qed
qed

lemma march_date_unique:
  assumes "march_date y2 m2 d" "march_date y2' m2' d'"
    and "march_year y2 + march_day m2 + d = march_year y2' + march_day m2' + d'"
  shows "y2 = y2' \<and> m2 = m2' \<and> d = d'"
proof -
  note a = march_date_day[OF assms(1)] and b = march_date_day[OF assms(2)]
  have y: "y2 = y2'"
  proof (rule linorder_cases[of y2 y2'])
    assume "y2 < y2'" then show ?thesis using march_year_less[of y2 y2'] a b assms(3) by linarith
  next
    assume "y2' < y2" then show ?thesis using march_year_less[of y2' y2] a b assms(3) by linarith
  qed
  have mono: "march_day i \<le> march_day j" if "i \<le> j" for i j
    unfolding march_day_def using that by (intro zdiv_mono1) auto
  have m: "m2 = m2'"
  proof (rule linorder_cases[of m2 m2'])
    assume "m2 < m2'" then show ?thesis
      using mono[of "m2 + 1" m2'] a b assms y by (auto simp: march_date_def)
  next
    assume "m2' < m2" then show ?thesis
      using mono[of "m2' + 1" m2] a b assms y by (auto simp: march_date_def)
  qed
  with y assms(3) show ?thesis by simp
qed

lemma gregorian_jd_to_civil_cases:
  obtains y2 m2 d where "gregorian_jd_to_civil n = (y2 - 4800 + m2 div 10, month_of m2, d)"
    "march_date y2 m2 d" "n = d + march_day m2 + march_year y2 - 32045"
proof -
  define b where "b = (4 * (n + 32044) + 3) div 146097"
  define c where "c = n + 32044 - (146097 * b) div 4"
  define d2 where "d2 = (4 * c + 3) div 1461"
  define e where "e = c - (1461 * d2) div 4"
  define m2 where "m2 = (5 * e + 2) div 153"
  note p = gregorian_parts[of n, folded b_def, folded c_def, folded d2_def, folded e_def]
  from p(3) have "0 \<le> e" "e \<le> 365" by blast+
  note m = march_months[OF this, folded m2_def]
  define d where "d = e - march_day m2 + 1"
  define y2 where "y2 = 100 * b + d2"
  have 1: "gregorian_jd_to_civil n = (y2 - 4800 + m2 div 10, month_of m2, d)"
    unfolding gregorian_jd_to_civil_def Let_def d_def y2_def month_of_def march_day_def m2_def e_def d2_def c_def b_def
    by (simp only: algebra_simps)
  have "march_year y2 = (146097 * b) div 4 + (1461 * d2) div 4"
    unfolding y2_def using p(2) by (intro march_year_century) blast+
  then have 3: "n = d + march_day m2 + march_year y2 - 32045"
    unfolding d_def e_def c_def by (simp only: algebra_simps)
  have "d \<le> days_in_month (y2 - 4800 + m2 div 10) (month_of m2)"
  proof (cases "m2 < 11")
    case True
    then show ?thesis using m march_table(2)[of m2 "y2 - 4800 + m2 div 10"] by (simp add: d_def)
  next
    case False
    then have m2: "m2 = 11" "month_of m2 = 2" "march_day m2 = 337" using m march_table(3)[of m2] by auto
    have "is_leap (y2 + 1)" if "e = 365"
    proof -
      have "d2 mod 4 = 3" "d2 = 99 \<longrightarrow> b mod 4 = 3" "0 \<le> d2" "d2 \<le> 99" using p(2,3) that by blast+
      moreover have "(100 * b + d2 + 1) mod 4 = (d2 + 1) mod 4" using mod_mult_self2[of "d2 + 1" 4 "25 * b"] by (simp add: ac_simps)
      moreover have "(d2 + 1) mod 4 = 0" using \<open>d2 mod 4 = 3\<close> by presburger
      moreover have "(100 * b + d2 + 1) mod 100 = d2 + 1" if "d2 \<noteq> 99"
        using that \<open>0 \<le> d2\<close> \<open>d2 \<le> 99\<close> mod_mult_self2[of "d2 + 1" 100 b] by (simp add: ac_simps)
      moreover have "(100 * b + d2 + 1) mod 400 = 0" if "d2 = 99" "b mod 4 = 3"
      proof -
        obtain k where "b = 4 * k + 3" using \<open>b mod 4 = 3\<close> by (metis mult_div_mod_eq)
        then have "100 * b + d2 + 1 = 400 * (k + 1)" using that by simp
        then show ?thesis by (simp only: mod_mult_self1_is_0)
      qed
      ultimately show ?thesis unfolding is_leap_def y2_def by force
    qed
    then have "e = 365 \<longrightarrow> is_leap (y2 - 4800 + 1)" using leap_shift[of "y2 + 1"] by (simp add: algebra_simps)
    then show ?thesis using m2 \<open>e \<le> 365\<close> by (auto simp: days_in_month_def d_def)
  qed
  then have "march_date y2 m2 d" using m by (simp add: march_date_def d_def)
  with 1 3 show thesis by (intro that)
qed

lemma gregorian_label:
  assumes "gregorian_jd_to_civil n = (y, m, d)"
  shows "1 \<le> m \<and> m \<le> 12 \<and> 1 \<le> d \<and> d \<le> days_in_month y m" "gregorian_civil_to_jd y m d = n"
proof -
  obtain y2 m2 d' where g: "gregorian_jd_to_civil n = (y2 - 4800 + m2 div 10, month_of m2, d')"
    "march_date y2 m2 d'" "n = d' + march_day m2 + march_year y2 - 32045"
    by (rule gregorian_jd_to_civil_cases)
  then have "y = y2 - 4800 + m2 div 10" "m = month_of m2" "d = d'" using assms by simp_all
  then show "1 \<le> m \<and> m \<le> 12 \<and> 1 \<le> d \<and> d \<le> days_in_month y m" "gregorian_civil_to_jd y m d = n"
    using g march_table(1)[of m2] gregorian_civil_to_jd_march[of m2 y2 d] by (auto simp: march_date_def)
qed

lemma to_march:
  assumes "1 \<le> m" "m \<le> 12"
  obtains y2 m2 where "y = y2 - 4800 + m2 div 10" "m = month_of m2" "0 \<le> m2" "m2 \<le> 11"
proof (cases "m \<le> 2")
  case True
  then have "m = 1 \<or> m = 2" using assms by linarith
  then show thesis using that[of "y + 4799" "m + 9"] by (auto simp: month_of_def)
next
  case False
  then have "(m - 3) div 10 = 0" using assms by simp
  then show thesis using that[of "y + 4800" "m - 3"] False assms by (simp add: month_of_def)
qed

lemma gregorian_inverse:
  assumes "1 \<le> m" "m \<le> 12" "1 \<le> d" "d \<le> days_in_month y m"
  shows "gregorian_jd_to_civil (gregorian_civil_to_jd y m d) = (y, m, d)"
proof -
  obtain y2 m2 where e: "y = y2 - 4800 + m2 div 10" "m = month_of m2" "0 \<le> m2" "m2 \<le> 11" using to_march[OF assms(1,2)] .
  have n: "gregorian_civil_to_jd y m d = d + march_day m2 + march_year y2 - 32045"
    using gregorian_civil_to_jd_march[OF e(3,4)] e(1,2) by simp
  obtain y2' m2' d' where g: "gregorian_jd_to_civil (gregorian_civil_to_jd y m d) = (y2' - 4800 + m2' div 10, month_of m2', d')"
    "march_date y2' m2' d'" "gregorian_civil_to_jd y m d = d' + march_day m2' + march_year y2' - 32045"
    by (rule gregorian_jd_to_civil_cases)
  have "march_date y2 m2 d" using assms e by (simp add: march_date_def)
  from march_date_unique[OF this g(2)] n g(3) have "y2 = y2' \<and> m2 = m2' \<and> d = d'" by linarith
  with g(1) e show ?thesis by simp
qed

section \<open>Both calendars\<close>

lemma julian_vs_gregorian:
  assumes "0 \<le> m2" "m2 \<le> 11"
  shows "julian_civil_to_jd (y2 - 4800 + m2 div 10) (month_of m2) d =
    gregorian_civil_to_jd (y2 - 4800 + m2 div 10) (month_of m2) d + y2 div 100 - y2 div 400 - 38"
proof -
  have "m2 \<in> {0, 1, 2, 3, 4, 5, 6, 7, 8, 9, 10, 11}" using assms by simp presburger
  then have 1: "(if month_of m2 \<le> 2 then (y2 - 4800 + m2 div 10 - 1, month_of m2 + 12)
      else (y2 - 4800 + m2 div 10, month_of m2)) = (y2 - 4800, m2 + 3)"
    and 2: "(306001 * (m2 + 3 + 1)) div 10000 = 122 + march_day m2"
    by (elim insertE; simp add: month_of_def march_day_def)+
  have 3: "(1461 * (y2 - 4800 + 4716)) div 4 = 365 * y2 + y2 div 4 - 30681"
    using div_mult_self2[of 4 y2 "365 * y2 - 30681"] by (simp add: algebra_simps)
  show ?thesis
    unfolding gregorian_civil_to_jd_march[OF assms] julian_civil_to_jd_def 1 march_year_def
    by (simp only: prod.case Let_def 2 3)
qed

text \<open>The starts for which the two calendars do not run against each other: a reform after the third century.\<close>

primrec sensible :: "start \<Rightarrow> bool" where
  "sensible JULIAN = True"
| "sensible GREGORIAN = True"
| "sensible (Reform r) = (1794171 \<le> r)"

lemma gregorian_civil_early:
  assumes "0 \<le> m2" "m2 \<le> 11" "d \<le> 31" "y2 < 5000"
  shows "gregorian_civil_to_jd (y2 - 4800 + m2 div 10) (month_of m2) d \<le> 1794170"
proof -
  have "march_year y2 \<le> march_year 4999" using march_year_less[of y2 4999] assms(4)
    by (cases "y2 = 4999") (auto simp: year_len_def split: if_splits)
  moreover have "march_year 4999 = 1825847" by (simp add: march_year_def)
  moreover have "march_day m2 \<le> march_day 11" unfolding march_day_def using assms by (intro zdiv_mono1) auto
  moreover have "march_day 11 = 337" by (simp add: march_day_def)
  ultimately show ?thesis using assms unfolding gregorian_civil_to_jd_march[OF assms(1,2)] by linarith
qed

lemma before_mono: "before n sg \<Longrightarrow> k \<le> n \<Longrightarrow> before k sg"
  by (cases sg) auto

lemma jd_roundtrip:
  assumes "sensible sg" "jd_to_civil n sg = (y, m, d)"
  shows "civil_to_jd y m d sg = n"
proof (cases "before n sg")
  case False
  then have "gregorian_civil_to_jd y m d = n" using assms(2) gregorian_label by (simp add: jd_to_civil_def)
  with False show ?thesis by (simp add: civil_to_jd_def Let_def)
next
  case True
  then have j: "julian_jd_to_civil n = (y, m, d)" using assms(2) by (simp add: jd_to_civil_def)
  note l = julian_label[OF j]
  obtain y2 m2 where e: "y = y2 - 4800 + m2 div 10" "m = month_of m2" "0 \<le> m2" "m2 \<le> 11"
    using to_march[of m y] l(1) by blast
  define g where "g = gregorian_civil_to_jd y m d"
  have n: "n = g + y2 div 100 - y2 div 400 - 38"
    using julian_vs_gregorian[OF e(3,4)] l(2) e(1,2) by (simp add: g_def)
  have "before g sg"
  proof (cases "5000 \<le> y2")
    case True
    define u v where "u = y2 div 100" and "v = y2 div 400"
    have "v = u div 4" using zdiv_zmult2_eq[of 4 y2 100] by (simp add: u_def v_def)
    then have "4 * v \<le> u" by simp
    moreover have "50 \<le> u" using True by (simp add: u_def)
    ultimately have "g \<le> n" using n unfolding u_def[symmetric] v_def[symmetric] by linarith
    with \<open>before n sg\<close> show ?thesis by (rule before_mono)
  next
    case False
    then have "g \<le> 1794170" using gregorian_civil_early[OF e(3,4), of d y2] l(1) e(1,2) by (simp add: g_def)
    then show ?thesis using assms(1) \<open>before n sg\<close> by (cases sg) auto
  qed
  then show ?thesis using l(2) by (simp add: civil_to_jd_def g_def Let_def)
qed

lemma label_range:
  assumes "jd_to_civil n sg = (y, m, d)"
  shows "1 \<le> m \<and> m \<le> 12 \<and> 1 \<le> d \<and> d \<le> 31"
proof (cases "before n sg")
  case False
  then show ?thesis using assms gregorian_label(1)[of n y m d] by (auto simp: jd_to_civil_def days_in_month_def split: if_splits)
next
  case True
  then show ?thesis using assms julian_label(1)[of n y m d] by (simp add: jd_to_civil_def)
qed

section \<open>Years, weeks and months\<close>

lemma civil_exists_gregorian:
  assumes "1 \<le> m" "m \<le> 12"
  shows "civil_exists y m d GREGORIAN \<longleftrightarrow> 1 \<le> d \<and> d \<le> days_in_month y m"
proof
  assume "civil_exists y m d GREGORIAN"
  then have "gregorian_jd_to_civil (gregorian_civil_to_jd y m d) = (y, m, d)"
    by (simp add: civil_exists_def jd_to_civil_def civil_to_jd_def)
  then show "1 \<le> d \<and> d \<le> days_in_month y m" using gregorian_label(1) by blast
qed (use gregorian_inverse[OF assms] in \<open>simp add: civil_exists_def jd_to_civil_def civil_to_jd_def\<close>)

definition jan1 :: "int \<Rightarrow> int" where
  "jan1 y = gregorian_civil_to_jd y 1 1"

lemma find_fdoy_gregorian: "find_fdoy y GREGORIAN = jan1 y"
proof -
  have "[1..31] = (1::int) # [2..31]" by (simp add: upto_rec1)
  then show ?thesis
    using civil_exists_gregorian[of 1 y 1] by (simp add: find_fdoy_def civil_to_jd_def jan1_def days_in_month_def)
qed

lemma jan1_march: "jan1 y = march_year (y + 4799) - 31738"
  using gregorian_civil_to_jd_march[of 10 "y + 4799" 1] by (simp add: jan1_def month_of_def march_day_def)

lemma jan1_Suc: "jan1 (y + 1) = jan1 y + year_len (y + 4799)"
  using march_year_Suc[of "y + 4799"] by (simp add: jan1_march year_len_def algebra_simps)

lemma year_of_day:
  assumes "gregorian_jd_to_civil n = (y, m, d)"
  shows "jan1 y \<le> n" "n < jan1 (y + 1)"
proof -
  obtain y2 m2 d' where g: "gregorian_jd_to_civil n = (y2 - 4800 + m2 div 10, month_of m2, d')"
    "march_date y2 m2 d'" "n = d' + march_day m2 + march_year y2 - 32045"
    by (rule gregorian_jd_to_civil_cases)
  then have y: "y = y2 - 4800 + m2 div 10" using assms by simp
  have m: "0 \<le> m2" "m2 \<le> 11" "1 \<le> d'" using g(2) by (simp_all add: march_date_def)
  note day = march_date_day[OF g(2)]
  have mono: "march_day i \<le> march_day j" if "i \<le> j" for i j
    unfolding march_day_def using that by (intro zdiv_mono1) auto
  have ten: "march_day 10 = 306" by (simp add: march_day_def)
  have len: "365 \<le> year_len k" for k by (simp add: year_len_def)
  have "jan1 y \<le> n \<and> n < jan1 (y + 1)"
  proof (cases "m2 < 10")
    case True
    then have "m2 div 10 = 0" using m by simp
    then have y: "y = y2 - 4800" using y by simp
    have "march_year (y + 4799) + year_len (y + 4799) = march_year y2"
      using march_year_Suc[of "y + 4799"] by (simp add: year_len_def y)
    moreover have "march_day (m2 + 1) \<le> march_day 10" using True by (intro mono) simp
    ultimately show ?thesis
      using day True m len[of "y + 4799"] mono[of 0 m2] ten unfolding jan1_march g(3) by (simp add: march_day_def[of 0] y)
  next
    case False
    then have "m2 div 10 = 1" using m by auto
    then have y: "y = y2 - 4799" using y by simp
    have "march_year (1 + y2) = march_year y2 + year_len y2" using march_year_Suc[of y2] by (simp add: year_len_def add.commute)
    then show ?thesis
      using day False m mono[of 10 m2] ten unfolding jan1_march g(3) by (simp add: y)
  qed
  then show "jan1 y \<le> n" "n < jan1 (y + 1)" by simp_all
qed

definition week_start :: "int \<Rightarrow> int" where
  "week_start y = commercial_to_jd y 1 1 GREGORIAN"

lemma week_start_bounds: "jan1 y - 3 \<le> week_start y" "week_start y \<le> jan1 y + 3" "week_start y mod 7 = 0"
proof -
  define r where "r = (jan1 y + 3) mod 7"
  have "0 \<le> r" "r < 7" by (simp_all add: r_def)
  moreover have w: "week_start y = jan1 y + 3 - r" by (simp add: week_start_def commercial_to_jd_def find_fdoy_gregorian r_def Let_def)
  ultimately show "jan1 y - 3 \<le> week_start y" "week_start y \<le> jan1 y + 3" by linarith+
  have "week_start y = 7 * ((jan1 y + 3) div 7)" unfolding w r_def by (simp add: minus_mod_eq_mult_div)
  then show "week_start y mod 7 = 0" by simp
qed

lemma commercial_to_jd_gregorian: "commercial_to_jd y w d GREGORIAN = week_start y + 7 * (w - 1) + (d - 1)"
  by (simp add: week_start_def commercial_to_jd_def Let_def)

lemma week_facts:
  assumes "gregorian_jd_to_civil (n - 3) = (y, m, d)"
  shows "week_start y \<le> n" "n < week_start (y + 1) \<Longrightarrow> n - week_start y < 371" "n < week_start (y + 1) + 6"
proof -
  note yr = year_of_day[OF assms] and a = week_start_bounds[of y] and b = week_start_bounds[of "y + 1"]
  show "week_start y \<le> n" "n < week_start (y + 1) + 6" using yr a(2) b(1) by linarith+
  assume "n < week_start (y + 1)"
  have "week_start (y + 1) - week_start y \<le> 372"
    using a b jan1_Suc[of y] by (simp add: year_len_def split: if_splits)
  moreover have "(week_start (y + 1) - week_start y) mod 7 = 0" using a(3) b(3) by (metis mod_diff_eq diff_self mod_0)
  then obtain k where "week_start (y + 1) - week_start y = 7 * k" by auto
  ultimately have "week_start (y + 1) - week_start y \<le> 371" by presburger
  with \<open>n < week_start (y + 1)\<close> show "n - week_start y < 371" by linarith
qed

definition cwday :: "int \<Rightarrow> int" where
  "cwday n = (if (n + 1) mod 7 = 0 then 7 else (n + 1) mod 7)"

lemma cwday_eq: "cwday n - 1 = n mod 7" "1 \<le> cwday n" "cwday n \<le> 7"
proof -
  have "0 \<le> n mod 7" "n mod 7 < 7" by simp_all
  moreover have "(n + 1) mod 7 = (n mod 7 + 1) mod 7" by (simp add: mod_add_left_eq)
  ultimately show "cwday n - 1 = n mod 7" by (cases "n mod 7 = 6") (auto simp: cwday_def)
  then show "1 \<le> cwday n" "cwday n \<le> 7" using \<open>0 \<le> n mod 7\<close> \<open>n mod 7 < 7\<close> by linarith+
qed

lemma jd_to_commercial_cases:
  obtains y s where "jd_to_commercial n GREGORIAN = (y, 1 + (n - s) div 7, cwday n)" "s = week_start y"
    "0 \<le> n - s" "n - s < 371"
proof -
  obtain y m d where c: "gregorian_jd_to_civil (n - 3) = (y, m, d)" by (metis prod_cases3)
  note w = week_facts[OF c]
  have j: "jd_to_commercial n GREGORIAN =
    (let (cw, s) = (if n < week_start (y + 1) then (y, week_start y) else (y + 1, week_start (y + 1)))
     in (cw, 1 + (n - s) div 7, cwday n))"
    by (simp add: jd_to_commercial_def jd_to_civil_def c cwday_def flip: week_start_def)
  show thesis
  proof (cases "n < week_start (y + 1)")
    case True
    with j w show thesis by (intro that[of y "week_start y"]) auto
  next
    case False
    with j w show thesis by (intro that[of "y + 1" "week_start (y + 1)"]) auto
  qed
qed

lemma commercial_roundtrip:
  assumes "jd_to_commercial n GREGORIAN = (y, w, d)"
  shows "commercial_jd y w d GREGORIAN = Some n" "1 \<le> w \<and> w \<le> 53 \<and> 1 \<le> d \<and> d \<le> 7"
proof -
  obtain y' s where c: "jd_to_commercial n GREGORIAN = (y', 1 + (n - s) div 7, cwday n)" "s = week_start y'"
    "0 \<le> n - s" "n - s < 371" by (rule jd_to_commercial_cases)
  then have e: "y = y'" "w = 1 + (n - s) div 7" "d = cwday n" using assms by simp_all
  have "0 \<le> (n - s) div 7" using c(3) by simp
  moreover have "(n - s) div 7 \<le> 370 div 7" using c(4) by (intro zdiv_mono1) auto
  ultimately show r: "1 \<le> w \<and> w \<le> 53 \<and> 1 \<le> d \<and> d \<le> 7" using cwday_eq(2,3)[of n] e by simp
  have "(n - s) mod 7 = n mod 7" using week_start_bounds(3)[of y'] c(2) by (metis diff_zero mod_diff_right_eq)
  then have "n = s + 7 * ((n - s) div 7) + n mod 7" by (metis add.assoc add.commute diff_add_cancel mult_div_mod_eq)
  then have "commercial_to_jd y w d GREGORIAN = n"
    using e c(2) cwday_eq(1)[of n] by (simp add: commercial_to_jd_gregorian)
  with r assms show "commercial_jd y w d GREGORIAN = Some n" by (simp add: commercial_jd_def Let_def)
qed

lemma days_in_month_bounds: "28 \<le> days_in_month y m" "days_in_month y m \<le> 31"
  by (simp_all add: days_in_month_def)

lemma clamp_day_gregorian:
  assumes "1 \<le> m" "m \<le> 12" "1 \<le> day" "day < days_in_month y m + int fuel" "0 < fuel"
  shows "clamp_day fuel y m day GREGORIAN = Some (gregorian_civil_to_jd y m (min day (days_in_month y m)))"
  using assms(3-)
proof (induction fuel arbitrary: day)
  case (Suc fuel)
  show ?case
  proof (cases "day \<le> days_in_month y m")
    case True
    then show ?thesis using Suc.prems civil_exists_gregorian[OF assms(1,2)] by (simp add: civil_to_jd_def min_def)
  next
    case False
    then have "\<not> civil_exists y m day GREGORIAN" using civil_exists_gregorian[OF assms(1,2)] by simp
    moreover have "clamp_day fuel y m (day - 1) GREGORIAN =
        Some (gregorian_civil_to_jd y m (min (day - 1) (days_in_month y m)))"
      using Suc.prems False days_in_month_bounds(1)[of y m] by (intro Suc.IH) auto
    moreover have "min (day - 1) (days_in_month y m) = days_in_month y m" "min day (days_in_month y m) = days_in_month y m"
      using False by auto
    ultimately show ?thesis by simp
  qed
qed simp

definition date_ok :: "date_core \<Rightarrow> bool" where
  "date_ok d \<longleftrightarrow> 0 \<le> d_df d \<and> d_df d < 86400 \<and> 0 \<le> d_sf d \<and> d_sf d < NS_PER_SEC \<and>
     (d_complex d \<or> d_df d = 0 \<and> d_sf d = 0)"

lemma at_ns_days:
  assumes "date_ok d"
  shows "at_ns d (total_ns d + k * NS_PER_DAY) = d\<lparr>d_jd := d_jd d + k\<rparr>"
proof -
  define r where "r = d_df d * NS_PER_SEC + d_sf d"
  have d: "0 \<le> d_df d" "d_df d \<le> 86399" "0 \<le> d_sf d" "d_sf d < NS_PER_SEC" using assms by (auto simp: date_ok_def)
  have ns: "NS_PER_SEC = 1000000000" "NS_PER_DAY = 86400000000000" by (simp_all add: NS_PER_SEC_def NS_PER_DAY_def)
  have r: "0 \<le> r" "r < NS_PER_DAY" using d unfolding r_def ns by simp_all
  have t: "total_ns d + k * NS_PER_DAY = r + NS_PER_DAY * (d_jd d + k)"
    by (simp add: total_ns_def r_def algebra_simps)
  have "(total_ns d + k * NS_PER_DAY) div NS_PER_DAY = d_jd d + k" "(total_ns d + k * NS_PER_DAY) mod NS_PER_DAY = r"
    unfolding t using r by simp_all
  moreover have "r div NS_PER_SEC = d_df d" "r mod NS_PER_SEC = d_sf d"
    unfolding r_def using d by (simp_all add: ns(1))
  moreover have "d_complex d \<or> d_df d = 0 \<and> d_sf d = 0" using assms by (simp add: date_ok_def)
  ultimately show ?thesis by (intro date_core.equality) (auto simp: at_ns_def Let_def)
qed

lemma at_ns_total: "total_ns (at_ns d ns) = ns"
proof -
  have "NS_PER_SEC * (ns mod NS_PER_DAY div NS_PER_SEC) + ns mod NS_PER_DAY mod NS_PER_SEC = ns mod NS_PER_DAY" by simp
  then show ?thesis by (simp add: at_ns_def total_ns_def Let_def algebra_simps)
qed

section \<open>Results\<close>



text \<open>
  C1. On the Gregorian calendar a date is accepted exactly when the month has that day, with the leap year rule, a negative
  month or day counting from the end.
\<close>

theorem gregorian_dates:
  assumes "1 \<le> m" "m \<le> 12"
  shows "(\<exists>n. civil_checked y m d GREGORIAN = Some n) \<longleftrightarrow>
     1 \<le> (if d < 0 then days_in_month y m + 1 + d else d) \<and> d \<le> days_in_month y m"
proof -
  have "List.find (\<lambda>d. civil_exists y m d GREGORIAN) (rev [1..31]) = Some (days_in_month y m)"
  proof -
    have l: "rev [1..31] = [31, 30, 29, 28::int] @ rev [1..27]" by (simp add: upto_rec2)
    show ?thesis unfolding l using civil_exists_gregorian[OF assms] by (simp add: days_in_month_def)
  qed
  then have "last_mday y m GREGORIAN = days_in_month y m" by (simp add: last_mday_def)
  then show ?thesis
    using assms civil_exists_gregorian[OF assms] days_in_month_bounds[of y m] by (auto simp: civil_checked_def Let_def)
qed

theorem gregorian_dates_witness: "(\<exists>n. civil_checked 2024 2 29 GREGORIAN = Some n) \<and> \<not> (\<exists>n. civil_checked 1900 2 29 GREGORIAN = Some n)"
  using gregorian_dates[of 2 2024 29] gregorian_dates[of 2 1900 29] by (simp add: days_in_month_def is_leap_def)

text \<open>
  ISO week dates: every day has a week date with a week from 1 to 53 and a weekday from 1 to 7, and \<^verbatim>\<open>Date.commercial\<close> gives the
  day back for it; the day of the year does too.
\<close>

theorem week_date_roundtrip:
  assumes "jd_to_commercial n GREGORIAN = (y, w, d)"
  shows "commercial_jd y w d GREGORIAN = Some n \<and> 1 \<le> w \<and> w \<le> 53 \<and> 1 \<le> d \<and> d \<le> 7 \<and>
    ordinal_jd (fst (jd_to_civil n GREGORIAN)) (jd_yday n GREGORIAN) GREGORIAN = Some n"
proof -
  obtain y' m' d' where c: "gregorian_jd_to_civil n = (y', m', d')" by (metis prod_cases3)
  have "ordinal_jd y' (jd_yday n GREGORIAN) GREGORIAN = Some n"
    using year_of_day[OF c] by (simp add: ordinal_jd_def jd_yday_def jd_to_civil_def c find_fdoy_gregorian Let_def)
  with commercial_roundtrip[OF assms] c show ?thesis by (simp add: jd_to_civil_def)
qed

theorem week_date_roundtrip_witness: "commercial_jd 2020 53 5 GREGORIAN = Some 2459216"
proof -
  have "jd_to_commercial 2459216 GREGORIAN = (2020, 53, 5)" by code_simp
  from week_date_roundtrip[OF this] show ?thesis by blast
qed



text \<open>
  With a start inside October 1582 that removes the first ten days of that month, no day of the month is found by counting down, and
  the loop of \<^verbatim>\<open>>>\<close> goes on below the first.
\<close>

lemma october_without_first_days: "day \<le> 5 \<Longrightarrow> \<not> civil_exists 1582 10 day (Reform 2299157)"
proof
  assume day: "day \<le> 5" and e: "civil_exists 1582 10 day (Reform 2299157)"
  then have "1 \<le> day" using label_range by (simp add: civil_exists_def)
  with day have "day \<in> {1, 2, 3, 4, 5}" by simp presburger
  then show False using e by (elim insertE emptyE; simp) code_simp+
qed

theorem month_shift_hangs:
  "month_shift fuel \<lparr>d_jd = 2299131, d_df = 0, d_sf = 0, d_of = 0, d_sg = Reform 2299157, d_complex = False\<rparr> 1 = None"
proof -
  let ?d = "\<lparr>d_jd = 2299131, d_df = 0, d_sf = 0, d_of = 0, d_sg = Reform 2299157, d_complex = False\<rparr>"
  have "clamp_day fuel 1582 10 day (Reform 2299157) = None" if "day \<le> 5" for day
    using that october_without_first_days by (induction fuel arbitrary: day) auto
  moreover have "civil ?d = (1582, 9, 5)" by code_simp
  ultimately show ?thesis by (simp add: month_shift_def)
qed

text \<open>\<^verbatim>\<open>Date#leap?\<close> asks the Gregorian rule of a year that has a 29th of February on the Julian calendar.\<close>

theorem julian_leap_day_of_a_common_year: "civil_exists 1500 2 29 ITALY \<and> \<not> is_leap 1500"
  by code_simp

end
