(* ===== verification/Base64.thy ===== *)
theory Base64
  imports Prelude "HOL-Library.More_List"
begin

unbundle bit_operations_syntax

text \<open>
  The \<^verbatim>\<open>Base64\<close> module (\<^verbatim>\<open>crates/zeo-rt/ext/base64/ext/base64/src/lib.rs\<close>): the encoder by chunks of three bytes, the decoder
  with its 32-bit accumulator, and the six module functions.  Strings are their UTF-8 bytes; the conversion of the decoded
  bytes back into a string replaces invalid sequences (\<open>from_utf8_lossy\<close>).  A raised \<^verbatim>\<open>ArgumentError\<close> is \<open>Raises\<close>, a failed
  \<^verbatim>\<open>expect\<close> is \<open>Panics\<close>.
\<close>

definition STD :: octets where
  "STD = ascii ''ABCDEFGHIJKLMNOPQRSTUVWXYZabcdefghijklmnopqrstuvwxyz0123456789+/''"

definition URL :: octets where
  "URL = ascii ''ABCDEFGHIJKLMNOPQRSTUVWXYZabcdefghijklmnopqrstuvwxyz0123456789-_''"

abbreviation PAD :: "8 word" where "PAD \<equiv> 61"

subsection \<open>Encoding and decoding\<close>

function chunks :: "nat \<Rightarrow> 'a list \<Rightarrow> 'a list list" where
  "chunks n xs = (if n = 0 \<or> xs = [] then [] else take n xs # chunks n (drop n xs))"
  by auto

termination chunks
  by (relation "measure (\<lambda>(n, xs). length xs)") auto

declare chunks.simps [simp del]

definition get_or_0 :: "octets \<Rightarrow> nat \<Rightarrow> 8 word" where
  "get_or_0 c i = (if i < length c then c ! i else 0)"

definition chunk_word :: "octets \<Rightarrow> 32 word" where
  "chunk_word c = push_bit 16 (ucast (get_or_0 c 0)) OR push_bit 8 (ucast (get_or_0 c 1)) OR ucast (get_or_0 c 2)"

definition sextet :: "32 word \<Rightarrow> nat \<Rightarrow> nat" where
  "sextet n s = unat (drop_bit s n AND 63)"

definition encode_chunk :: "octets \<Rightarrow> octets \<Rightarrow> octets" where
  "encode_chunk alphabet c =
     (let n = chunk_word c
      in [alphabet ! sextet n 18, alphabet ! sextet n 12,
          if length c > 1 then alphabet ! sextet n 6 else PAD,
          if length c > 2 then alphabet ! sextet n 0 else PAD])"

definition encode :: "octets \<Rightarrow> octets \<Rightarrow> octets" where
  "encode data alphabet = concat (map (encode_chunk alphabet) (chunks 3 data))"

definition val :: "octets \<Rightarrow> 8 word \<Rightarrow> 8 word option" where
  "val alphabet c = map_option of_nat (position (\<lambda>a. a = c) alphabet)"

fun decode_loop :: "octets \<Rightarrow> octets \<Rightarrow> 32 word \<Rightarrow> nat \<Rightarrow> octets \<Rightarrow> octets option" where
  "decode_loop alphabet [] acc bits out = (if bits \<ge> 6 then None else Some out)"
| "decode_loop alphabet (c # cs) acc bits out =
     (case val alphabet c of
        None \<Rightarrow> None
      | Some v \<Rightarrow>
          let acc' = push_bit 6 acc OR ucast v; bits' = bits + 6
          in if bits' \<ge> 8 then decode_loop alphabet cs acc' (bits' - 8) (out @ [ucast (drop_bit (bits' - 8) acc')])
             else decode_loop alphabet cs acc' bits' out)"

definition decode :: "octets \<Rightarrow> octets \<Rightarrow> octets option" where
  "decode stripped alphabet = decode_loop alphabet stripped 0 0 []"

definition trim_pad :: "octets \<Rightarrow> octets" where
  "trim_pad s = rev (dropWhile (\<lambda>c. c = PAD) (rev s))"

subsection \<open>Strings from bytes\<close>

definition cont :: "8 word \<Rightarrow> bool" where
  "cont b \<longleftrightarrow> 0x80 \<le> b \<and> b \<le> 0xbf"

text \<open>
  The scanner of \<^verbatim>\<open>String::from_utf8_lossy\<close>: whether the octets start with a well-formed character, and how many octets belong
  to it (or to the ill-formed prefix that one replacement character stands for).
\<close>

definition second_ok :: "8 word \<Rightarrow> 8 word \<Rightarrow> bool" where
  "second_ok a b \<longleftrightarrow>
     (if a = 0xe0 then 0xa0 \<le> b \<and> b \<le> 0xbf
      else if a = 0xed then 0x80 \<le> b \<and> b \<le> 0x9f
      else if a = 0xf0 then 0x90 \<le> b \<and> b \<le> 0xbf
      else if a = 0xf4 then 0x80 \<le> b \<and> b \<le> 0x8f
      else cont b)"

definition width :: "8 word \<Rightarrow> nat" where
  "width a =
     (if a < 0x80 then 1
      else if 0xc2 \<le> a \<and> a \<le> 0xdf then 2
      else if 0xe0 \<le> a \<and> a \<le> 0xef then 3
      else if 0xf0 \<le> a \<and> a \<le> 0xf4 then 4
      else 0)"

definition scan_char :: "8 word \<Rightarrow> octets \<Rightarrow> bool \<times> nat" where
  "scan_char a bs =
     (let w = width a
      in if w = 0 then (False, 1)
         else if w = 1 then (True, 1)
         else if bs = [] \<or> \<not> second_ok a (hd bs) then (False, 1)
         else if w = 2 then (True, 2)
         else if length bs < 2 \<or> \<not> cont (bs ! 1) then (False, 2)
         else if w = 3 then (True, 3)
         else if length bs < 3 \<or> \<not> cont (bs ! 2) then (False, 3)
         else (True, 4))"

function from_utf8_lossy :: "octets \<Rightarrow> octets" where
  "from_utf8_lossy [] = []"
| "from_utf8_lossy (a # bs) =
     (case scan_char a bs of (ok, n) \<Rightarrow>
        (if ok then take n (a # bs) else [0xef, 0xbf, 0xbd]) @ from_utf8_lossy (drop (n - 1) bs))"
  by pat_completeness auto

termination from_utf8_lossy
  by (relation "measure length") auto

function valid_utf8 :: "octets \<Rightarrow> bool" where
  "valid_utf8 [] = True"
| "valid_utf8 (a # bs) = (case scan_char a bs of (ok, n) \<Rightarrow> ok \<and> valid_utf8 (drop (n - 1) bs))"
  by pat_completeness auto

termination valid_utf8
  by (relation "measure length") auto

declare from_utf8_lossy.simps(2) [simp del] valid_utf8.simps(2) [simp del]

subsection \<open>The module functions\<close>

definition strict_decode :: "octets \<Rightarrow> octets \<Rightarrow> octets row" where
  "strict_decode text alphabet =
     (if length text mod 4 \<noteq> 0 then Raises ''invalid base64''
      else let stripped = trim_pad text
        in if length text - length stripped > 2 then Raises ''invalid base64''
           else (case decode stripped alphabet of
                   None \<Rightarrow> Raises ''invalid base64''
                 | Some bs \<Rightarrow> Returns (from_utf8_lossy bs)))"

definition encode64 :: "octets \<Rightarrow> octets" where
  "encode64 data = concat (map (\<lambda>chunk. chunk @ [10]) (chunks 60 (encode data STD)))"

definition strict_encode64 :: "octets \<Rightarrow> octets" where
  "strict_encode64 data = encode data STD"

definition urlsafe_encode64 :: "octets \<Rightarrow> bool \<Rightarrow> octets" where
  "urlsafe_encode64 data padding = (let out = encode data URL in if padding then out else trim_pad out)"

definition decode64 :: "octets \<Rightarrow> octets row" where
  "decode64 text =
     (let cleaned = filter (\<lambda>c. c < 0x80 \<and> (val STD c \<noteq> None \<or> c = PAD)) text
      in case decode (trim_pad cleaned) STD of None \<Rightarrow> Panics | Some bs \<Rightarrow> Returns (from_utf8_lossy bs))"

definition strict_decode64 :: "octets \<Rightarrow> octets row" where
  "strict_decode64 text = strict_decode text STD"

definition urlsafe_decode64 :: "octets \<Rightarrow> octets row" where
  "urlsafe_decode64 text = strict_decode (text @ replicate ((4 - length text mod 4) mod 4) PAD) URL"

section \<open>Alphabets\<close>

definition good_alphabet :: "octets \<Rightarrow> bool" where
  "good_alphabet A \<longleftrightarrow> length A = 64 \<and> distinct A \<and> PAD \<notin> set A"

lemma good_STD: "good_alphabet STD"
  by code_simp

lemma good_URL: "good_alphabet URL"
  by code_simp

lemma val_nth: "good_alphabet A \<Longrightarrow> i < 64 \<Longrightarrow> val A (A ! i) = Some (of_nat i)"
proof -
  assume A: "good_alphabet A" "i < 64"
  then have "position (\<lambda>a. a = A ! i) A \<noteq> None" by (auto simp: position_None good_alphabet_def)
  then obtain j where "position (\<lambda>a. a = A ! i) A = Some j" by blast
  with A position_less[OF this] position_nth[OF this] show ?thesis
    by (auto simp: val_def good_alphabet_def nth_eq_iff_index_eq)
qed

lemma val_eq_None: "val A c = None \<longleftrightarrow> c \<notin> set A"
  by (auto simp: val_def position_None)

section \<open>Decoding a chunk\<close>

lemma sextet_less: "sextet n s < 64"
proof -
  have "(63 :: 32 word) = mask 6" by (simp add: mask_eq_exp_minus_1)
  then have "sextet n s = unat (take_bit 6 (drop_bit s n))" by (simp add: sextet_def take_bit_eq_mask)
  also have "\<dots> = take_bit 6 (unat (drop_bit s n))" by (simp only: unsigned_take_bit_eq)
  also have "\<dots> < 2 ^ 6" by (rule take_bit_nat_less_exp)
  finally show ?thesis by simp
qed

lemma val_sextet: "good_alphabet A \<Longrightarrow> val A (A ! sextet n s) = Some (of_nat (sextet n s))"
  by (rule val_nth) (simp_all add: sextet_less)

lemma sextet_bits: "bit (ucast (of_nat (sextet n s) :: 8 word) :: 32 word) i \<longleftrightarrow> i < 6 \<and> bit n (s + i)"
proof -
  have "unat (of_nat (sextet n s) :: 8 word) = sextet n s"
    using sextet_less[of n s] by (simp add: unsigned_of_nat take_bit_nat_eq_self)
  then have "ucast (of_nat (sextet n s) :: 8 word) = (of_nat (sextet n s) :: 32 word)"
    by (metis of_nat_unat)
  also have "\<dots> = drop_bit s n AND 63" by (simp add: sextet_def)
  also have "(63 :: 32 word) = mask 6" by (simp add: mask_eq_exp_minus_1)
  finally show ?thesis by (auto simp: bit_and_iff bit_mask_iff bit_drop_bit_eq)
qed

text \<open>Each character shifts its six bits in: after the sextets down to bit \<open>t\<close> the accumulator ends in the bits of \<open>n\<close> above \<open>t\<close>.\<close>

lemma shift_in:
  "push_bit 6 (push_bit s a OR drop_bit (t + 6) n) OR ucast (of_nat (sextet n t) :: 8 word) =
     (push_bit (s + 6) a OR drop_bit t n :: 32 word)"
proof (rule bit_word_eqI)
  fix i assume "i < LENGTH(32)"
  then show "bit (push_bit 6 (push_bit s a OR drop_bit (t + 6) n) OR ucast (of_nat (sextet n t) :: 8 word)) i =
      bit (push_bit (s + 6) a OR drop_bit t n) i"
    by (cases "i < 6") (auto simp: bit_or_iff bit_push_bit_iff bit_drop_bit_eq sextet_bits add.commute)
qed

lemma emit_byte:
  "i \<le> s \<Longrightarrow> 8 + i \<le> s \<Longrightarrow> ucast (drop_bit i (push_bit s a OR drop_bit t n :: 32 word)) = (ucast (drop_bit (t + i) n) :: 8 word)"
  by (rule bit_word_eqI) (auto simp: bit_or_iff bit_push_bit_iff bit_drop_bit_eq bit_unsigned_iff add.commute add.left_commute)

lemma chunk_high: "drop_bit 24 (chunk_word c) = 0"
  by (rule bit_word_eqI)
    (auto simp: chunk_word_def bit_or_iff bit_push_bit_iff bit_drop_bit_eq bit_unsigned_iff dest: bit_imp_le_length)

lemma chunk_bytes:
  "ucast (drop_bit 16 (chunk_word c)) = get_or_0 c 0"
  "ucast (drop_bit 8 (chunk_word c)) = get_or_0 c 1"
  "ucast (chunk_word c) = get_or_0 c 2"
  by (rule bit_word_eqI;
      auto simp: chunk_word_def bit_or_iff bit_push_bit_iff bit_drop_bit_eq bit_unsigned_iff dest: bit_imp_le_length)+

definition encoded_chars :: "octets \<Rightarrow> octets \<Rightarrow> octets" where
  "encoded_chars A c =
     map (\<lambda>k. A ! sextet (chunk_word c) (18 - 6 * k)) [0..<Suc (length c)]"

lemma encode_chunk_eq:
  assumes "0 < length c" "length c \<le> 3"
  shows "encode_chunk A c = encoded_chars A c @ replicate (3 - length c) PAD"
  using assms by (cases "length c" rule: nat.exhaust)
    (auto simp: encode_chunk_def encoded_chars_def Let_def le_Suc_eq numeral_eq_Suc)

lemma decode_loop_char:
  assumes "good_alphabet A"
  shows "decode_loop A (A ! sextet n t # cs) acc bits out =
    (let acc' = push_bit 6 acc OR ucast (of_nat (sextet n t) :: 8 word); bits' = bits + 6
     in if bits' \<ge> 8 then decode_loop A cs acc' (bits' - 8) (out @ [ucast (drop_bit (bits' - 8) acc')])
        else decode_loop A cs acc' bits' out)"
  by (simp add: val_sextet[OF assms])

lemma decode_chunk:
  assumes "good_alphabet A" "0 < length c" "length c \<le> 3"
  shows "\<exists>acc'. decode_loop A (encoded_chars A c @ rest) acc 0 out =
           decode_loop A rest acc' ((2 * (3 - length c)) mod 6) (out @ c)"
proof -
  let ?n = "chunk_word c"
  let ?v = "\<lambda>t. ucast (of_nat (sextet ?n t) :: 8 word) :: 32 word"
  have a1: "push_bit 6 acc OR ?v 18 = push_bit 6 acc OR drop_bit 18 ?n"
    using shift_in[of 0 acc 18 ?n] by (simp add: chunk_high)
  have a2: "push_bit 6 (push_bit 6 acc OR drop_bit 18 ?n) OR ?v 12 = push_bit 12 acc OR drop_bit 12 ?n"
    using shift_in[of 6 acc 12 ?n] by simp
  have a3: "push_bit 6 (push_bit 12 acc OR drop_bit 12 ?n) OR ?v 6 = push_bit 18 acc OR drop_bit 6 ?n"
    using shift_in[of 12 acc 6 ?n] by simp
  have a4: "push_bit 6 (push_bit 18 acc OR drop_bit 6 ?n) OR ?v 0 = push_bit 24 acc OR ?n"
    using shift_in[of 18 acc 0 ?n] by simp
  have b0: "ucast (drop_bit 4 (push_bit 12 acc OR drop_bit 12 ?n)) = get_or_0 c 0"
    using emit_byte[of 4 12 acc 12 ?n] chunk_bytes(1)[of c] by simp
  have b1: "ucast (drop_bit 2 (push_bit 18 acc OR drop_bit 6 ?n)) = get_or_0 c 1"
    using emit_byte[of 2 18 acc 6 ?n] chunk_bytes(2)[of c] by simp
  have b2: "ucast (push_bit 24 acc OR ?n) = get_or_0 c 2"
    using emit_byte[of 0 24 acc 0 ?n] chunk_bytes(3)[of c] by simp
  have drop0: "drop_bit 0 (w :: 32 word) = w" for w by simp
  have arith: "((8::nat) \<le> 6) = False" "((8::nat) \<le> 6 + 6) = True" "((8::nat) \<le> 4 + 6) = True" "((8::nat) \<le> 2 + 6) = True"
    "(0::nat) + 6 = 6" "(6::nat) + 6 - 8 = 4" "(4::nat) + 6 - 8 = 2" "(2::nat) + 6 - 8 = 0" by simp_all
  note steps = decode_loop_char[OF assms(1)] Let_def arith if_True if_False a1 a2 a3 a4 drop0 b0 b1 b2
  have two: "decode_loop A (A ! sextet ?n 18 # A ! sextet ?n 12 # cs) acc 0 out =
      decode_loop A cs (push_bit 12 acc OR drop_bit 12 ?n) 4 (out @ [get_or_0 c 0])" for cs
    by (simp only: steps)
  have third: "decode_loop A (A ! sextet ?n 6 # cs) (push_bit 12 acc OR drop_bit 12 ?n) 4 out' =
      decode_loop A cs (push_bit 18 acc OR drop_bit 6 ?n) 2 (out' @ [get_or_0 c 1])" for cs out'
    by (simp only: steps)
  have fourth: "decode_loop A (A ! sextet ?n 0 # cs) (push_bit 18 acc OR drop_bit 6 ?n) 2 out' =
      decode_loop A cs (push_bit 24 acc OR ?n) 0 (out' @ [get_or_0 c 2])" for cs out'
    by (simp only: steps)
  consider "length c = 1" | "length c = 2" | "length c = 3" using assms(2,3) by linarith
  then show ?thesis
  proof cases
    case 1
    then have "encoded_chars A c = [A ! sextet ?n 18, A ! sextet ?n 12]" by (simp add: encoded_chars_def)
    moreover have "c = [get_or_0 c 0]" using 1 by (auto simp: get_or_0_def length_Suc_conv)
    ultimately show ?thesis using 1 two by auto
  next
    case 2
    then have "encoded_chars A c = [A ! sextet ?n 18, A ! sextet ?n 12, A ! sextet ?n 6]"
      by (simp add: encoded_chars_def upt_rec)
    moreover have "c = [get_or_0 c 0, get_or_0 c 1]" using 2 by (auto simp: get_or_0_def length_Suc_conv numeral_2_eq_2)
    ultimately show ?thesis using 2 two third by auto
  next
    case 3
    then have "encoded_chars A c = [A ! sextet ?n 18, A ! sextet ?n 12, A ! sextet ?n 6, A ! sextet ?n 0]"
      by (simp add: encoded_chars_def upt_rec)
    moreover have "c = [get_or_0 c 0, get_or_0 c 1, get_or_0 c 2]"
      using 3 by (auto simp: get_or_0_def length_Suc_conv numeral_eq_Suc)
    ultimately show ?thesis using 3 two third fourth by auto
  qed
qed

section \<open>Whole strings\<close>

lemma chunks_Nil [simp]: "chunks n [] = []"
  by (simp add: chunks.simps)

lemma chunks_rec: "0 < n \<Longrightarrow> xs \<noteq> [] \<Longrightarrow> chunks n xs = take n xs # chunks n (drop n xs)"
  by (subst chunks.simps) simp

lemma concat_chunks: "0 < n \<Longrightarrow> concat (chunks n xs) = xs"
proof (induction n xs rule: chunks.induct)
  case (1 n xs)
  then show ?case by (cases "xs = []") (simp_all add: chunks_rec)
qed

definition body :: "octets \<Rightarrow> octets \<Rightarrow> octets" where
  "body A data = concat (map (encoded_chars A) (chunks 3 data))"

definition pads :: "octets \<Rightarrow> nat" where
  "pads data = (3 - length data mod 3) mod 3"

lemma short_chunk: "data \<noteq> [] \<Longrightarrow> length data \<le> 3 \<Longrightarrow> length data = 1 \<or> length data = 2 \<or> length data = 3"
  using length_greater_0_conv[of data] by linarith

lemma encode_eq: "encode data A = body A data @ replicate (pads data) PAD"
proof (induction "3::nat" data rule: chunks.induct)
  case (1 data)
  show ?case
  proof (cases "length data \<le> 3")
    case True
    show ?thesis
    proof (cases "data = []")
      case False
      with True have "chunks 3 data = [data]" by (simp add: chunks_rec)
      moreover have "pads data = 3 - length data"
        using short_chunk[OF False True] by (auto simp: pads_def)
      moreover have "encode_chunk A data = encoded_chars A data @ replicate (3 - length data) PAD"
        using True False by (simp add: encode_chunk_eq)
      ultimately show ?thesis by (simp add: encode_def body_def)
    qed (simp add: encode_def body_def pads_def)
  next
    case False
    then have ne: "data \<noteq> []" by auto
    have "pads (drop 3 data) = pads data" using False by (simp add: pads_def le_mod_geq)
    moreover have "encode_chunk A (take 3 data) = encoded_chars A (take 3 data)"
      using encode_chunk_eq[of "take 3 data" A] False by simp
    moreover have "encode (drop 3 data) A = body A (drop 3 data) @ replicate (pads (drop 3 data)) PAD"
      using 1 ne by simp
    moreover have "chunks 3 data = take 3 data # chunks 3 (drop 3 data)" using ne by (simp add: chunks_rec)
    ultimately show ?thesis by (simp add: encode_def body_def)
  qed
qed

lemma body_length: "length (body A data) + pads data = 4 * ((length data + 2) div 3)"
proof (induction "3::nat" data rule: chunks.induct)
  case (1 data)
  show ?case
  proof (cases "data = []")
    case False
    then have c: "chunks 3 data = take 3 data # chunks 3 (drop 3 data)" by (simp add: chunks_rec)
    show ?thesis
    proof (cases "length data \<le> 3")
      case True
      with c short_chunk[OF False True] show ?thesis by (auto simp: body_def encoded_chars_def pads_def)
    next
      case long: False
      then have p: "pads (drop 3 data) = pads data" by (simp add: pads_def le_mod_geq)
      have "length (body A (drop 3 data)) + pads (drop 3 data) = 4 * ((length (drop 3 data) + 2) div 3)"
        using 1 False by simp
      moreover have "length (body A data) = 4 + length (body A (drop 3 data))"
        using c long by (simp add: body_def encoded_chars_def)
      moreover have "(length data + 2) div 3 = Suc ((length (drop 3 data) + 2) div 3)" using long by simp
      ultimately show ?thesis using p by simp
    qed
  qed (simp add: body_def pads_def)
qed

lemma body_alphabet: "good_alphabet A \<Longrightarrow> set (body A data) \<subseteq> set A"
  by (auto simp: body_def encoded_chars_def good_alphabet_def sextet_less)

lemma body_no_pad: "good_alphabet A \<Longrightarrow> PAD \<notin> set (body A data)"
  using body_alphabet[of A data] by (auto simp: good_alphabet_def)

lemma trim_pad_append: "PAD \<notin> set xs \<Longrightarrow> trim_pad (xs @ replicate k PAD) = xs"
proof -
  assume "PAD \<notin> set xs"
  then have "dropWhile (\<lambda>c. c = PAD) (rev xs) = rev xs" by (cases "rev xs") auto
  moreover have "dropWhile (\<lambda>c. c = PAD) (replicate k PAD @ rev xs) = dropWhile (\<lambda>c. c = PAD) (rev xs)"
    by (rule dropWhile_append2) simp
  ultimately show ?thesis by (simp add: trim_pad_def)
qed

lemma trim_encode: "good_alphabet A \<Longrightarrow> trim_pad (encode data A) = body A data"
  by (simp add: encode_eq trim_pad_append body_no_pad)

lemma decode_body: "good_alphabet A \<Longrightarrow> decode_loop A (body A data) acc 0 out = Some (out @ data)"
proof (induction "3::nat" data arbitrary: acc out rule: chunks.induct)
  case (1 data)
  show ?case
  proof (cases "data = []")
    case False
    then have b: "body A data = encoded_chars A (take 3 data) @ body A (drop 3 data)"
      by (simp add: body_def chunks_rec)
    obtain acc' where d: "decode_loop A (body A data) acc 0 out =
        decode_loop A (body A (drop 3 data)) acc' ((2 * (3 - length (take 3 data))) mod 6) (out @ take 3 data)"
      using decode_chunk[OF 1(2), of "take 3 data"] False unfolding b by fastforce
    show ?thesis
    proof (cases "length data \<le> 3")
      case True
      with d show ?thesis by (simp add: body_def)
    next
      case long: False
      then have "decode_loop A (body A data) acc 0 out = Some ((out @ take 3 data) @ drop 3 data)"
        unfolding d using 1(1)[OF _ 1(2)] False by simp
      then show ?thesis by simp
    qed
  qed (simp add: body_def)
qed

lemma decode_body': "good_alphabet A \<Longrightarrow> decode (body A data) A = Some data"
  by (simp add: decode_def decode_body)

lemma decode_loop_None:
  "bits < 8 \<Longrightarrow> decode_loop A cs acc bits out = None \<longleftrightarrow> \<not> set cs \<subseteq> set A \<or> (bits + 6 * length cs) mod 8 \<ge> 6"
proof (induction A cs acc bits out rule: decode_loop.induct)
  case (2 A c cs acc bits out)
  show ?case
  proof (cases "val A c")
    case (Some v)
    have e: "(bits + 6 * length (c # cs)) mod 8 = (bits + 6 - 8 + 6 * length cs) mod 8" if "8 \<le> bits + 6"
      using that by (simp add: mod_if)
    show ?thesis
    proof (cases "8 \<le> bits + 6")
      case True
      then show ?thesis using 2(1)[OF Some refl refl True] 2(3) Some e[OF True] val_eq_None[of A c] by (simp add: Let_def)
    next
      case False
      then show ?thesis using 2(2)[OF Some refl refl False] Some val_eq_None[of A c]
        by (simp add: Let_def add.assoc)
    qed
  qed (use val_eq_None[of A c] in simp)
qed auto

lemma decode_None: "decode cs A = None \<longleftrightarrow> \<not> set cs \<subseteq> set A \<or> length cs mod 4 = 1"
proof -
  have "(6 * length cs mod 8 \<ge> 6) = (length cs mod 4 = 1)" by presburger
  then show ?thesis by (simp add: decode_def decode_loop_None)
qed

lemma strict_decode_encode:
  assumes "good_alphabet A"
  shows "strict_decode (encode data A) A = Returns (from_utf8_lossy data)"
proof -
  have "length (encode data A) = 4 * ((length data + 2) div 3)" by (simp add: encode_eq body_length)
  moreover have "length (encode data A) - length (body A data) = pads data" by (simp add: encode_eq)
  moreover have "pads data \<le> 2" by (simp add: pads_def)
  ultimately show ?thesis by (simp add: strict_decode_def trim_encode[OF assms] decode_body'[OF assms])
qed

lemma repad: "(4 - length (body A data) mod 4) mod 4 = pads data"
proof -
  have "(length (body A data) + pads data) mod 4 = 0" by (simp add: body_length)
  then have "(length (body A data) mod 4 + pads data) mod 4 = 0" by (simp only: mod_add_left_eq)
  moreover have "pads data < 3" "length (body A data) mod 4 < 4" by (simp_all add: pads_def)
  ultimately have "length (body A data) mod 4 + pads data = 0 \<or> length (body A data) mod 4 + pads data = 4" by auto
  then have "4 - length (body A data) mod 4 = pads data \<or> length (body A data) mod 4 = 0 \<and> pads data = 0" by linarith
  with \<open>pads data < 3\<close> show ?thesis by auto
qed

lemma filter_lines:
  "0 < n \<Longrightarrow> \<not> P c \<Longrightarrow> filter P (concat (map (\<lambda>chunk. chunk @ [c]) (chunks n xs))) = filter P xs"
proof -
  assume "0 < n" "\<not> P c"
  have "filter P (concat (map (\<lambda>chunk. chunk @ [c]) ys)) = filter P (concat ys)" for ys
    using \<open>\<not> P c\<close> by (induction ys) simp_all
  then show ?thesis by (simp only: concat_chunks[OF \<open>0 < n\<close>])
qed

lemma lossy_valid: "valid_utf8 bs \<Longrightarrow> from_utf8_lossy bs = bs"
proof (induction bs rule: valid_utf8.induct)
  case (2 a bs)
  obtain ok n where s: "scan_char a bs = (ok, n)" by force
  then have "0 < n" by (auto simp: scan_char_def Let_def split: if_splits)
  then have "take n (a # bs) @ drop (n - 1) bs = a # bs" by (cases n) auto
  with 2 s show ?case by (simp add: from_utf8_lossy.simps valid_utf8.simps)
qed simp

section \<open>Results\<close>



text \<open>
  C1. The strict decoder accepts exactly the texts of a length divisible by four, with at most two padding characters at the
  end and only alphabet characters before them, and raises \<^verbatim>\<open>ArgumentError\<close> on every other; it never panics.
\<close>

theorem strict_decode64_accepts:
  "((\<exists>s. strict_decode64 text = Returns s) \<longleftrightarrow>
     length text mod 4 = 0 \<and> length text - length (trim_pad text) \<le> 2 \<and> set (trim_pad text) \<subseteq> set STD) \<and>
   ((\<nexists>s. strict_decode64 text = Returns s) = (strict_decode64 text = Raises ''invalid base64''))"
proof
  have "length (trim_pad text) \<le> length text"
    unfolding trim_pad_def by (simp add: length_dropWhile_le[of _ "rev text", simplified])
  then have "length (trim_pad text) mod 4 \<noteq> 1"
    if "length text mod 4 = 0" "length text - length (trim_pad text) \<le> 2"
    using that by presburger
  then show "(\<exists>s. strict_decode64 text = Returns s) \<longleftrightarrow>
     length text mod 4 = 0 \<and> length text - length (trim_pad text) \<le> 2 \<and> set (trim_pad text) \<subseteq> set STD"
    using decode_None[of "trim_pad text" STD]
    by (auto simp: strict_decode64_def strict_decode_def Let_def split: option.splits)
  show "(\<nexists>s. strict_decode64 text = Returns s) = (strict_decode64 text = Raises ''invalid base64'')"
    by (auto simp: strict_decode64_def strict_decode_def Let_def split: option.splits)
qed

text \<open>
  C36. The liberal decoder panics exactly when, with the foreign characters and the padding at the end removed, a padding
  character is left in the middle or the length is one more than a multiple of four; \<^verbatim>\<open>YQ==YQ==\<close> and \<^verbatim>\<open>Y\<close> are such texts.
\<close>

theorem decode64_panics:
  "(decode64 text = Panics \<longleftrightarrow>
     (let rest = trim_pad (filter (\<lambda>c. c \<in> set STD \<or> c = PAD) text)
      in PAD \<in> set rest \<or> length rest mod 4 = 1)) \<and>
   decode64 (ascii ''YQ==YQ=='') = Panics \<and> decode64 (ascii ''Y'') = Panics"
proof (intro conjI)
  have "list_all (\<lambda>c. c < 0x80) STD" by code_simp
  then have "(c < 0x80 \<and> (val STD c \<noteq> None \<or> c = PAD)) = (c \<in> set STD \<or> c = PAD)" for c
    by (auto simp: list_all_iff val_eq_None)
  then have d: "decode64 text = Panics \<longleftrightarrow> decode (trim_pad (filter (\<lambda>c. c \<in> set STD \<or> c = PAD) text)) STD = None"
    by (simp add: decode64_def Let_def split: option.splits)
  have "set (trim_pad xs) \<subseteq> set xs" for xs by (auto simp: trim_pad_def dest: set_dropWhileD)
  then have "set (trim_pad (filter (\<lambda>c. c \<in> set STD \<or> c = PAD) text)) \<subseteq> set STD \<union> {PAD}" by fastforce
  moreover have "PAD \<notin> set STD" using good_STD by (simp add: good_alphabet_def)
  ultimately show "decode64 text = Panics \<longleftrightarrow>
     (let rest = trim_pad (filter (\<lambda>c. c \<in> set STD \<or> c = PAD) text)
      in PAD \<in> set rest \<or> length rest mod 4 = 1)"
    unfolding d decode_None Let_def by blast
qed (code_simp+)

text \<open>Nonzero bits left over before the padding are ignored.\<close>

theorem strict_decode64_noncanonical: "strict_decode64 (ascii ''YR=='') = strict_decode64 (ascii ''YQ=='')"
  by code_simp

end
