(* ===== verification/Cgi.thy ===== *)
theory Cgi
  imports Prelude
begin

text \<open>
  The escapes of \<^verbatim>\<open>CGI\<close> (\<^verbatim>\<open>crates/zeo-rt/ext/cgi/ext/cgi/src/lib.rs\<close>): percent encoding and decoding, HTML escaping and unescaping, and
  the rewriting of the tags of named elements.  The transformations work on the bytes of the argument; its encoding matters only for
  the bytes of a decoded entity (\<^verbatim>\<open>encode_scalar\<close> of \<^verbatim>\<open>crates/zeo-rt/src/enc/transcode.rs\<close>), where the table-driven and wide encodings are
  given by their table.  A slice out of range is \<^const>\<open>None\<close>.
\<close>

definition ascii_alphanumeric :: "8 word \<Rightarrow> bool" where
  "ascii_alphanumeric b \<longleftrightarrow> 48 \<le> b \<and> b \<le> 57 \<or> 65 \<le> b \<and> b \<le> 90 \<or> 97 \<le> b \<and> b \<le> 122"

definition is_unreserved :: "8 word \<Rightarrow> bool" where
  "is_unreserved b \<longleftrightarrow> ascii_alphanumeric b \<or> b \<in> set (ascii ''_.-~'')"

subsection \<open>Percent encoding\<close>

definition hex_upper :: "nat \<Rightarrow> 8 word" where
  "hex_upper n = (if n < 10 then of_nat (48 + n) else of_nat (55 + n))"

definition to_digit16 :: "8 word \<Rightarrow> nat option" where
  "to_digit16 b =
     (if 48 \<le> b \<and> b \<le> 57 then Some (unat b - 48)
      else if 65 \<le> b \<and> b \<le> 70 then Some (unat b - 55)
      else if 97 \<le> b \<and> b \<le> 102 then Some (unat b - 87)
      else None)"

definition encode_byte :: "bool \<Rightarrow> 8 word \<Rightarrow> octets" where
  "encode_byte space_plus b =
     (if b = 32 \<and> space_plus then [43]
      else if is_unreserved b then [b]
      else [37, hex_upper (unat b div 16), hex_upper (unat b mod 16)])"

definition percent_encode :: "octets \<Rightarrow> bool \<Rightarrow> octets" where
  "percent_encode bs space_plus = concat (map (encode_byte space_plus) bs)"

function percent_decode :: "octets \<Rightarrow> bool \<Rightarrow> octets" where
  "percent_decode [] plus_space = []"
| "percent_decode (b # bs) plus_space =
     (if b = 43 \<and> plus_space then 32 # percent_decode bs plus_space
      else if b = 37 \<and> 2 \<le> length bs then
        (case (to_digit16 (bs ! 0), to_digit16 (bs ! 1)) of
           (Some h, Some l) \<Rightarrow> of_nat (h * 16 + l) # percent_decode (drop 2 bs) plus_space
         | _ \<Rightarrow> 37 # percent_decode bs plus_space)
      else b # percent_decode bs plus_space)"
  by pat_completeness auto

termination percent_decode
  by (relation "measure (\<lambda>(bs, p). length bs)") auto

declare percent_decode.simps(2) [simp del]

subsection \<open>HTML\<close>

definition escape_byte :: "8 word \<Rightarrow> octets" where
  "escape_byte b =
     (if b = 38 then ascii ''&amp;''
      else if b = 60 then ascii ''&lt;''
      else if b = 62 then ascii ''&gt;''
      else if b = 34 then ascii ''&quot;''
      else if b = 39 then ascii ''&#39;''
      else [b])"

definition html_escape :: "octets \<Rightarrow> octets" where
  "html_escape bs = concat (map escape_byte bs)"

text \<open>\<^verbatim>\<open>u32::from_str_radix\<close>: an optional plus sign, at least one digit, no overflow.\<close>

definition digit_below :: "nat \<Rightarrow> 8 word \<Rightarrow> nat option" where
  "digit_below radix b = (case to_digit16 b of Some v \<Rightarrow> if v < radix then Some v else None | None \<Rightarrow> None)"

fun radix_value :: "nat \<Rightarrow> octets \<Rightarrow> nat \<Rightarrow> nat option" where
  "radix_value radix [] acc = (if acc < 2 ^ 32 then Some acc else None)"
| "radix_value radix (b # bs) acc =
     (case digit_below radix b of Some v \<Rightarrow> radix_value radix bs (acc * radix + v) | None \<Rightarrow> None)"

definition parse_u32 :: "nat \<Rightarrow> octets \<Rightarrow> nat option" where
  "parse_u32 radix bs =
     (let ds = (if bs \<noteq> [] \<and> hd bs = 43 then tl bs else bs)
      in if ds = [] then None else radix_value radix ds 0)"

definition char_from_u32 :: "nat \<Rightarrow> nat option" where
  "char_from_u32 n = (if n < 0xd800 \<or> 0xe000 \<le> n \<and> n < 0x110000 then Some n else None)"

definition numeric_entity :: "octets \<Rightarrow> nat option" where
  "numeric_entity e =
     (if e = [] \<or> hd e \<noteq> 35 then None
      else let num = tl e;
               hex = (if num \<noteq> [] \<and> hd num \<in> {120, 88} then parse_u32 16 (tl num) else None)
        in Option.bind (case hex of Some v \<Rightarrow> Some v | None \<Rightarrow> parse_u32 10 num) char_from_u32)"

definition decode_entity :: "octets \<Rightarrow> nat option" where
  "decode_entity e =
     (if e = ascii ''amp'' then Some 38
      else if e = ascii ''lt'' then Some 60
      else if e = ascii ''gt'' then Some 62
      else if e = ascii ''quot'' then Some 34
      else if e = ascii ''apos'' \<or> e = ascii ''#39'' then Some 39
      else numeric_entity e)"

datatype enc_kind = Utf8 | Ascii | Latin1 | Binary | Tabled "nat \<Rightarrow> octets option"

definition utf8_bytes :: "nat \<Rightarrow> octets" where
  "utf8_bytes c =
     (if c < 0x80 then [of_nat c]
      else if c < 0x800 then [of_nat (0xc0 + c div 64), of_nat (0x80 + c mod 64)]
      else if c < 0x10000 then [of_nat (0xe0 + c div 4096), of_nat (0x80 + c div 64 mod 64), of_nat (0x80 + c mod 64)]
      else [of_nat (0xf0 + c div 262144), of_nat (0x80 + c div 4096 mod 64), of_nat (0x80 + c div 64 mod 64),
            of_nat (0x80 + c mod 64)])"

primrec encode_scalar :: "enc_kind \<Rightarrow> nat \<Rightarrow> octets option" where
  "encode_scalar Utf8 c = Some (utf8_bytes c)"
| "encode_scalar Ascii c = (if c < 0x80 then Some [of_nat c] else None)"
| "encode_scalar Latin1 c = (if c < 0x100 then Some [of_nat c] else None)"
| "encode_scalar Binary c = (if c < 0x80 then Some [of_nat c] else None)"
| "encode_scalar (Tabled f) c = f c"

function html_unescape :: "enc_kind \<Rightarrow> octets \<Rightarrow> octets" where
  "html_unescape enc [] = []"
| "html_unescape enc (b # bs) =
     (if b \<noteq> 38 then b # html_unescape enc bs
      else case position (\<lambda>c. c = 59) bs of
        None \<Rightarrow> 38 # html_unescape enc bs
      | Some r \<Rightarrow>
          (case Option.bind (decode_entity (take r bs)) (encode_scalar enc) of
             Some out \<Rightarrow> out @ html_unescape enc (drop (Suc r) bs)
           | None \<Rightarrow> 38 # html_unescape enc bs))"
  by pat_completeness auto

termination html_unescape
  by (relation "measure (\<lambda>(f, bs). length bs)") auto

declare html_unescape.simps(2) [simp del]

subsection \<open>Elements\<close>

datatype tag_text = Plain | Escaped

definition word_byte :: "8 word \<Rightarrow> bool" where
  "word_byte b \<longleftrightarrow> ascii_alphanumeric b \<or> b = 95"

definition starts_with :: "octets \<Rightarrow> octets \<Rightarrow> bool" where
  "starts_with hay needle \<longleftrightarrow> take (length needle) hay = needle"

text \<open>The first place where the needle starts, \<^verbatim>\<open>windows(n).position(..)\<close>.\<close>

fun find_bytes :: "octets \<Rightarrow> octets \<Rightarrow> nat option" where
  "find_bytes needle [] = None"
| "find_bytes needle (b # bs) =
     (if starts_with (b # bs) needle then Some 0 else map_option Suc (find_bytes needle bs))"

primrec tag_open :: "tag_text \<Rightarrow> octets" where
  "tag_open Plain = ascii ''<''"
| "tag_open Escaped = ascii ''&lt;''"

primrec tag_close :: "tag_text \<Rightarrow> octets" where
  "tag_close Plain = ascii ''>''"
| "tag_close Escaped = ascii ''&gt;''"

definition entity_run :: "octets \<Rightarrow> nat option" where
  "entity_run text =
     (if text = [] \<or> hd text \<noteq> 38 \<or> starts_with text (ascii ''&lt;'') \<or> starts_with text (ascii ''&gt;'') then None
      else let k = 1 + length (takeWhile word_byte (tl text))
        in if k > 1 \<and> k < length text \<and> text ! k = 59 then Some (k + 1) else None)"

lemma entity_run_bounds: "entity_run text = Some n \<Longrightarrow> 0 < n \<and> n \<le> length text"
  by (auto simp: entity_run_def Let_def split: if_splits)

text \<open>How many bytes the attribute run takes.\<close>

function escaped_run :: "octets \<Rightarrow> nat" where
  "escaped_run text =
     (let k = length (takeWhile (\<lambda>b. b \<noteq> 38) text)
      in case entity_run (drop k text) of Some n \<Rightarrow> k + n + escaped_run (drop (k + n) text) | None \<Rightarrow> k)"
  by auto

termination escaped_run
proof (relation "measure length")
  fix s k n assume "k = length (takeWhile (\<lambda>b. b \<noteq> 38) s)" "entity_run (drop k s) = Some n"
  then show "(drop (k + n) s, s) \<in> measure length" using entity_run_bounds[of "drop k s" n] by auto
qed simp

declare escaped_run.simps [simp del]

primrec tag_body_end :: "tag_text \<Rightarrow> octets \<Rightarrow> nat" where
  "tag_body_end Plain text = length (takeWhile (\<lambda>b. b \<noteq> 60 \<and> b \<noteq> 62) text)"
| "tag_body_end Escaped text = escaped_run text"

definition lower :: "octets \<Rightarrow> octets" where
  "lower bs = map (\<lambda>b. if 65 \<le> b \<and> b \<le> 90 then b + 32 else b) bs"

text \<open>
  One step of the search from position \<open>i\<close>: where the next opening delimiter is, and whether a tag of a named element starts there
  (with its end), or the search goes on behind the delimiter.
\<close>

datatype tag_search = NoMore | Skip nat | Span nat nat

definition next_tag :: "octets \<Rightarrow> octets list \<Rightarrow> tag_text \<Rightarrow> nat \<Rightarrow> tag_search" where
  "next_tag text names md i =
     (case find_bytes (tag_open md) (drop i text) of
        None \<Rightarrow> NoMore
      | Some r \<Rightarrow>
          let start = i + r;
              j0 = start + length (tag_open md);
              j = (if j0 < length text \<and> text ! j0 = 47 then j0 + 1 else j0);
              name = takeWhile word_byte (drop j text);
              j' = j + length name
          in if name \<noteq> [] \<and> (\<exists>n\<in>set names. lower n = lower name)
             then let body_end = j' + tag_body_end md (drop j' text)
               in Span start (if starts_with (drop body_end text) (tag_close md) then body_end + length (tag_close md) else body_end)
             else Skip j0)"

lemma find_bytes_bound: "find_bytes needle hay = Some r \<Longrightarrow> r + length needle \<le> length hay"
proof (induction hay arbitrary: r)
  case (Cons b bs)
  show ?case
  proof (cases "starts_with (b # bs) needle")
    case True
    then have "length (take (length needle) (b # bs)) = length needle" by (simp add: starts_with_def)
    with True Cons.prems show ?thesis by (simp add: min_def split: if_splits)
  qed (use Cons in auto)
qed simp

lemma tag_open_nonempty: "0 < length (tag_open md)"
  by (cases md) (simp_all add: ascii_def)

lemma length_takeWhile_drop: "j \<le> length s \<Longrightarrow> j + length (takeWhile P (drop j s)) \<le> length s"
  using length_takeWhile_le[of P "drop j s"] by simp

lemma escaped_run_le: "escaped_run s \<le> length s"
proof (induction s rule: escaped_run.induct)
  case (1 s)
  define k where "k = length (takeWhile (\<lambda>b. b \<noteq> 38) s)"
  have k: "k \<le> length s" by (simp add: k_def length_takeWhile_le)
  show ?case
  proof (cases "entity_run (drop k s)")
    case None
    then show ?thesis using k by (subst escaped_run.simps) (simp add: Let_def flip: k_def)
  next
    case (Some n)
    then have "escaped_run (drop (k + n) s) \<le> length (drop (k + n) s)" using 1[OF k_def] by simp
    moreover have "k + n \<le> length s" using entity_run_bounds[OF Some] k by auto
    ultimately show ?thesis using Some by (subst escaped_run.simps) (simp add: Let_def flip: k_def)
  qed
qed

lemma tag_body_end_le: "tag_body_end md s \<le> length s"
  by (cases md) (simp_all add: length_takeWhile_le escaped_run_le)

lemma starts_with_length: "starts_with s t \<Longrightarrow> length t \<le> length s"
  unfolding starts_with_def by (metis length_take min.cobounded1 min.commute)

lemma next_tag_Skip:
  assumes "next_tag s names md i = Skip j"
  shows "i < j \<and> j \<le> length s"
proof -
  obtain r where r: "find_bytes (tag_open md) (drop i s) = Some r"
    using assms by (auto simp: next_tag_def split: option.splits)
  then have "j = i + r + length (tag_open md)" using assms by (simp add: next_tag_def Let_def split: if_splits)
  with find_bytes_bound[OF r] tag_open_nonempty[of md] show ?thesis unfolding length_drop by linarith
qed

lemma next_tag_Span:
  assumes "next_tag s names md i = Span a e"
  shows "i \<le> a" "a < e" "e \<le> length s"
proof -
  obtain r where r: "find_bytes (tag_open md) (drop i s) = Some r"
    using assms by (auto simp: next_tag_def split: option.splits)
  define j0 where "j0 = i + r + length (tag_open md)"
  define j where "j = (if j0 < length s \<and> s ! j0 = 47 then j0 + 1 else j0)"
  define j' where "j' = j + length (takeWhile word_byte (drop j s))"
  define b where "b = j' + tag_body_end md (drop j' s)"
  have "r + length (tag_open md) \<le> length (drop i s)" using r by (rule find_bytes_bound)
  moreover have "0 < length (tag_open md)" by (rule tag_open_nonempty)
  ultimately have "j0 \<le> length s" "i + r < j0" unfolding j0_def length_drop by linarith+
  then have "j \<le> length s" "j0 \<le> j" by (simp_all add: j_def)
  then have "j' \<le> length s" "j \<le> j'" by (simp_all add: j'_def length_takeWhile_drop)
  then have b: "b \<le> length s" "j' \<le> b" using tag_body_end_le[of md "drop j' s"] by (simp_all add: b_def)
  have e: "a = i + r" "e = (if starts_with (drop b s) (tag_close md) then b + length (tag_close md) else b)"
    using assms unfolding next_tag_def r option.case Let_def j0_def[symmetric] j_def[symmetric] j'_def[symmetric] b_def[symmetric]
    by (simp_all only: split: if_splits) auto
  show "i \<le> a" "a < e" using e \<open>i + r < j0\<close> \<open>j0 \<le> j\<close> \<open>j \<le> j'\<close> b(2) by (auto split: if_splits)
  show "e \<le> length s" using e b(1) starts_with_length[of "drop b s" "tag_close md"] by (auto split: if_splits)
qed

function element_spans_from :: "octets \<Rightarrow> octets list \<Rightarrow> tag_text \<Rightarrow> nat \<Rightarrow> (nat \<times> nat) list" where
  "element_spans_from s names md i =
     (case next_tag s names md i of
        NoMore \<Rightarrow> []
      | Skip j \<Rightarrow> element_spans_from s names md j
      | Span a e \<Rightarrow> (a, e) # element_spans_from s names md e)"
  by auto

termination element_spans_from
proof (relation "measure (\<lambda>(s, names, md, i). length s - i)")
  fix s names md i j assume "next_tag s names md i = Skip j"
  from next_tag_Skip[OF this] show "((s, names, md, j), s, names, md, i) \<in> measure (\<lambda>(s, names, md, i). length s - i)" by auto
next
  fix s names md i a e assume "next_tag s names md i = Span a e"
  from next_tag_Span[OF this] show "((s, names, md, e), s, names, md, i) \<in> measure (\<lambda>(s, names, md, i). length s - i)" by auto
qed simp

declare element_spans_from.simps [simp del]

definition element_spans :: "octets \<Rightarrow> octets list \<Rightarrow> tag_text \<Rightarrow> (nat \<times> nat) list" where
  "element_spans s names md = element_spans_from s names md 0"

definition slice_of :: "octets \<Rightarrow> nat \<Rightarrow> nat \<Rightarrow> octets option" where
  "slice_of s a b = (if a \<le> b \<and> b \<le> length s then Some (take (b - a) (drop a s)) else None)"

fun rewrite_from :: "octets \<Rightarrow> (nat \<times> nat) list \<Rightarrow> (octets \<Rightarrow> octets) \<Rightarrow> nat \<Rightarrow> octets option" where
  "rewrite_from s [] f at = slice_of s at (length s)"
| "rewrite_from s ((a, e) # spans) f at =
     (case (slice_of s at a, slice_of s a e, rewrite_from s spans f e) of
        (Some before, Some tag, Some rest) \<Rightarrow> Some (before @ f tag @ rest)
      | _ \<Rightarrow> None)"

definition rewrite_spans :: "octets \<Rightarrow> (nat \<times> nat) list \<Rightarrow> (octets \<Rightarrow> octets) \<Rightarrow> octets option" where
  "rewrite_spans s spans f = rewrite_from s spans f 0"

definition escape_element :: "octets \<Rightarrow> octets list \<Rightarrow> octets option" where
  "escape_element s names = rewrite_spans s (element_spans s names Plain) html_escape"

definition unescape_element :: "enc_kind \<Rightarrow> octets \<Rightarrow> octets list \<Rightarrow> octets option" where
  "unescape_element enc s names = rewrite_spans s (element_spans s names Escaped) (html_unescape enc)"

section \<open>Percent encoding\<close>

lemma hex_digit: "n < 16 \<Longrightarrow> to_digit16 (hex_upper n) = Some n"
proof -
  assume "n < 16"
  then have "n \<in> {0, 1, 2, 3, 4, 5, 6, 7, 8, 9, 10, 11, 12, 13, 14, 15}" by simp presburger
  then show ?thesis by (elim insertE emptyE; simp add: hex_upper_def to_digit16_def)
qed

lemma encode_byte_cases:
  "encode_byte p b = [43] \<and> b = 32 \<and> p \<or>
   encode_byte p b = [b] \<and> is_unreserved b \<and> b \<noteq> 43 \<and> b \<noteq> 37 \<or>
   encode_byte p b = [37, hex_upper (unat b div 16), hex_upper (unat b mod 16)]"
proof -
  have "\<not> is_unreserved 43" "\<not> is_unreserved 37" by code_simp+
  then show ?thesis by (auto simp: encode_byte_def)
qed

lemma decode_encoded_byte: "percent_decode (encode_byte p b @ bs) p = b # percent_decode bs p"
proof -
  consider "encode_byte p b = [43]" "b = 32" p | "encode_byte p b = [b]" "b \<noteq> 43" "b \<noteq> 37"
    | "encode_byte p b = [37, hex_upper (unat b div 16), hex_upper (unat b mod 16)]"
    using encode_byte_cases[of p b] by blast
  then show ?thesis
  proof cases
    case 3
    have "unat b < 256" using unsigned_less[of b, where ?'a = nat] by simp
    then have "unat b div 16 < 16" "unat b mod 16 < 16" by simp_all
    then show ?thesis by (simp add: 3 percent_decode.simps(2) hex_digit)
  qed (simp_all add: percent_decode.simps(2))
qed

section \<open>HTML\<close>

lemma unescape_entity:
  assumes "s = 38 # e @ [59]" "59 \<notin> set e" "decode_entity e = Some c" "encode_scalar enc c = Some [b]"
  shows "html_unescape enc (s @ bs) = b # html_unescape enc bs"
proof -
  have "position (\<lambda>c. c = 59) (e @ 59 # bs) = Some (length e)"
  proof -
    have "position (\<lambda>c. c = 59) e = None" using assms(2) by (auto simp: position_None)
    then show ?thesis by (simp add: position_append)
  qed
  then show ?thesis using assms by (simp add: html_unescape.simps(2))
qed

definition keeps_ascii :: "enc_kind \<Rightarrow> bool" where
  "keeps_ascii enc \<longleftrightarrow> (\<forall>c \<in> {34, 38, 39, 60, 62}. encode_scalar enc c = Some [of_nat c])"

lemma unescape_escaped_byte:
  assumes "keeps_ascii enc"
  shows "html_unescape enc (escape_byte b @ bs) = b # html_unescape enc bs"
proof -
  have k: "encode_scalar enc 38 = Some [38]" "encode_scalar enc 60 = Some [60]" "encode_scalar enc 62 = Some [62]"
    "encode_scalar enc 34 = Some [34]" "encode_scalar enc 39 = Some [39]" using assms by (simp_all add: keeps_ascii_def)
  have e: "ascii ''&amp;'' = 38 # ascii ''amp'' @ [59]" "ascii ''&lt;'' = 38 # ascii ''lt'' @ [59]"
    "ascii ''&gt;'' = 38 # ascii ''gt'' @ [59]" "ascii ''&quot;'' = 38 # ascii ''quot'' @ [59]"
    "ascii ''&#39;'' = 38 # ascii ''#39'' @ [59]" by code_simp+
  have d: "decode_entity (ascii ''amp'') = Some 38" "decode_entity (ascii ''lt'') = Some 60"
    "decode_entity (ascii ''gt'') = Some 62" "decode_entity (ascii ''quot'') = Some 34"
    "decode_entity (ascii ''#39'') = Some 39" by code_simp+
  have n: "59 \<notin> set (ascii ''amp'')" "59 \<notin> set (ascii ''lt'')" "59 \<notin> set (ascii ''gt'')" "59 \<notin> set (ascii ''quot'')"
    "59 \<notin> set (ascii ''#39'')" by code_simp+
  consider "b = 38" | "b = 60" | "b = 62" | "b = 34" | "b = 39" | "escape_byte b = [b]" "b \<noteq> 38"
    unfolding escape_byte_def by argo
  then show ?thesis
  proof cases
    case 1 show ?thesis using unescape_entity[OF e(1) n(1) d(1) k(1)] by (simp add: 1 escape_byte_def)
  next
    case 2 show ?thesis using unescape_entity[OF e(2) n(2) d(2) k(2)] by (simp add: 2 escape_byte_def)
  next
    case 3 show ?thesis using unescape_entity[OF e(3) n(3) d(3) k(3)] by (simp add: 3 escape_byte_def)
  next
    case 4 show ?thesis using unescape_entity[OF e(4) n(4) d(4) k(4)] by (simp add: 4 escape_byte_def)
  next
    case 5 show ?thesis using unescape_entity[OF e(5) n(5) d(5) k(5)] by (simp add: 5 escape_byte_def)
  qed (simp add: html_unescape.simps(2))
qed

section \<open>Spans\<close>

fun spans_ok :: "nat \<Rightarrow> nat \<Rightarrow> (nat \<times> nat) list \<Rightarrow> bool" where
  "spans_ok at n [] \<longleftrightarrow> at \<le> n"
| "spans_ok at n ((a, e) # spans) \<longleftrightarrow> at \<le> a \<and> a < e \<and> spans_ok e n spans"

lemma spans_ok_mono: "at' \<le> at \<Longrightarrow> spans_ok at n spans \<Longrightarrow> spans_ok at' n spans"
  by (cases spans) auto

lemma spans_ok_le: "spans_ok at n spans \<Longrightarrow> at \<le> n"
  by (induction at n spans rule: spans_ok.induct) auto

lemma element_spans_ok: "i \<le> length s \<Longrightarrow> spans_ok i (length s) (element_spans_from s names md i)"
proof (induction s names md i rule: element_spans_from.induct)
  case (1 s names md i)
  show ?case
  proof (cases "next_tag s names md i")
    case NoMore
    then show ?thesis using 1(3) by (subst element_spans_from.simps) simp
  next
    case (Skip j)
    then have "spans_ok j (length s) (element_spans_from s names md j)" "i \<le> j"
      using 1(1)[OF Skip] next_tag_Skip[OF Skip] by auto
    then have "spans_ok i (length s) (element_spans_from s names md j)" by (blast intro: spans_ok_mono)
    then show ?thesis using Skip by (subst element_spans_from.simps) simp
  next
    case (Span a e)
    then show ?thesis using 1(2)[OF Span] next_tag_Span[OF Span]
      by (subst element_spans_from.simps) simp
  qed
qed

text \<open>The text cut at the spans: what lies before each, the span, and the rest.\<close>

fun pieces :: "octets \<Rightarrow> (nat \<times> nat) list \<Rightarrow> nat \<Rightarrow> (octets \<times> octets) list \<times> octets" where
  "pieces s [] at = ([], drop at s)"
| "pieces s ((a, e) # spans) at =
     (case pieces s spans e of (ps, rest) \<Rightarrow> ((take (a - at) (drop at s), take (e - a) (drop a s)) # ps, rest))"

definition glue :: "(octets \<Rightarrow> octets) \<Rightarrow> (octets \<times> octets) list \<times> octets \<Rightarrow> octets" where
  "glue f x = concat (map (\<lambda>(b, t). b @ f t) (fst x)) @ snd x"

lemma rewrite_pieces: "spans_ok at (length s) spans \<Longrightarrow> rewrite_from s spans f at = Some (glue f (pieces s spans at))"
proof (induction spans arbitrary: at)
  case Nil
  then show ?case by (simp add: slice_of_def glue_def)
next
  case (Cons p spans)
  obtain a e where p: "p = (a, e)" by force
  have ok: "at \<le> a" "a < e" "spans_ok e (length s) spans" using Cons.prems p by auto
  have "e \<le> length s" using spans_ok_le[OF ok(3)] .
  then show ?case using Cons.IH[OF ok(3)] ok(1,2) by (simp add: p slice_of_def glue_def split_beta)
qed

lemma glue_id: "spans_ok at (length s) spans \<Longrightarrow> glue (\<lambda>t. t) (pieces s spans at) = drop at s"
proof (induction spans arbitrary: at)
  case (Cons p spans)
  obtain a e where p: "p = (a, e)" by force
  have ok: "at \<le> a" "a < e" "spans_ok e (length s) spans" using Cons.prems p by auto
  have "take (a - at) (drop at s) @ take (e - a) (drop a s) @ drop e s = drop at s"
    using ok by (metis append_take_drop_id drop_drop le_add_diff_inverse2 less_imp_le_nat)
  then show ?case using Cons.IH[OF ok(3)] by (simp add: p glue_def split_beta)
qed (simp add: glue_def)

section \<open>Results\<close>

text \<open>
  Decoding undoes percent encoding for every byte string, in the form encoding and in the component encoding, and an encoded
  string holds unreserved characters, percent signs and, in the form encoding, plus signs only.
\<close>

theorem percent_roundtrip:
  "percent_decode (percent_encode bs space_plus) space_plus = bs \<and>
   set (percent_encode bs space_plus) \<subseteq> Collect is_unreserved \<union> {37} \<union> (if space_plus then {43} else {})"
proof
  show "percent_decode (percent_encode bs space_plus) space_plus = bs"
    by (induction bs) (simp_all add: percent_encode_def decode_encoded_byte)
  have h: "is_unreserved (hex_upper n)" if "n < 16" for n
  proof -
    have "n \<in> {0, 1, 2, 3, 4, 5, 6, 7, 8, 9, 10, 11, 12, 13, 14, 15}" using that by simp presburger
    then show ?thesis by (elim insertE emptyE; simp add: hex_upper_def is_unreserved_def ascii_alphanumeric_def)
  qed
  have "set (encode_byte space_plus b) \<subseteq> Collect is_unreserved \<union> {37} \<union> (if space_plus then {43} else {})" for b
  proof -
    have "unat b < 256" using unsigned_less[of b, where ?'a = nat] by simp
    then have "unat b div 16 < 16" "unat b mod 16 < 16" by simp_all
    then show ?thesis using h by (simp add: encode_byte_def)
  qed
  then show "set (percent_encode bs space_plus) \<subseteq> Collect is_unreserved \<union> {37} \<union> (if space_plus then {43} else {})"
    unfolding percent_encode_def set_concat set_map by blast
qed

text \<open>
  C38. Unescaping undoes HTML escaping for every byte string, whatever bytes it holds, in every encoding that writes the five
  special characters as themselves; and the escaped text holds no angle bracket and no quote.
\<close>

theorem html_roundtrip:
  assumes "keeps_ascii enc"
  shows "html_unescape enc (html_escape bs) = bs \<and> set (html_escape bs) \<inter> {60, 62, 34, 39} = {}"
proof
  show "html_unescape enc (html_escape bs) = bs"
    by (induction bs) (simp_all add: html_escape_def unescape_escaped_byte[OF assms])
  have "set (escape_byte b) \<inter> {60, 62, 34, 39} = {}" for b
  proof -
    have "set (ascii ''&amp;'' @ ascii ''&lt;'' @ ascii ''&gt;'' @ ascii ''&quot;'' @ ascii ''&#39;'') \<inter> {60, 62, 34, 39} = {}"
      by code_simp
    then show ?thesis unfolding set_append escape_byte_def by (auto split: if_splits)
  qed
  then show "set (html_escape bs) \<inter> {60, 62, 34, 39} = {}" by (auto simp: html_escape_def)
qed

theorem html_roundtrip_witness:
  "html_unescape Utf8 (html_escape (ascii ''<a href=x>&lt;'')) = ascii ''<a href=x>&lt;''"
  by (rule html_roundtrip[THEN conjunct1]) (simp add: keeps_ascii_def utf8_bytes_def)

text \<open>
  C1. Escaping or unescaping elements never slices out of range, and changes nothing but the spans it found: they are in order, do not
  overlap and lie in the text, and the text is the pieces between them with the spans in place.
\<close>

theorem element_rewriting:
  "escape_element s names = Some (glue html_escape (pieces s (element_spans s names Plain) 0)) \<and>
   unescape_element enc s names = Some (glue (html_unescape enc) (pieces s (element_spans s names Escaped) 0)) \<and>
   spans_ok 0 (length s) (element_spans s names md) \<and>
   glue (\<lambda>t. t) (pieces s (element_spans s names md) 0) = s"
  using element_spans_ok[of 0 s names] glue_id[of 0 s]
  by (simp add: escape_element_def unescape_element_def rewrite_spans_def rewrite_pieces element_spans_def)

text \<open>A sign in a numeric reference is accepted.\<close>

theorem signed_reference: "html_unescape Utf8 (ascii ''&#+65;'') = ascii ''A''"
  by (simp add: ascii_def html_unescape.simps(2) decode_entity_def numeric_entity_def parse_u32_def Let_def digit_below_def
      to_digit16_def char_from_u32_def utf8_bytes_def)

end
