(* ===== verification/Encodings.thy ===== *)
theory Encodings
  imports Base64 Cgi
begin

text \<open>
  How bytes are cut into characters (\<^verbatim>\<open>crates/zeo-rt/src/enc\<close>): the wide Unicode encodings (\<^verbatim>\<open>wide.rs\<close>), the structural walk of the
  multibyte encodings (\<^verbatim>\<open>mb.rs\<close>) and well-formed UTF-8.  The locale \<open>unit_walk\<close> states what the walks share; it is interpreted on the
  walks of the code.  The mapping of multibyte sequences to Unicode belongs to the crate \<^verbatim>\<open>encoding_rs\<close> and is not part of the walk.
\<close>

datatype invalid_style = StylePlain | FollowedBy "8 word" | Incomplete

definition in_range :: "8 word \<Rightarrow> 8 word \<Rightarrow> 8 word \<Rightarrow> bool" where
  "in_range lo hi b \<longleftrightarrow> lo \<le> b \<and> b \<le> hi"

subsection \<open>Wide encodings\<close>

record wide =
  w_width :: nat
  w_be :: bool

definition be_nat :: "octets \<Rightarrow> nat" where
  "be_nat bs = foldl (\<lambda>v b. v * 256 + unat b) 0 bs"

definition read_unit :: "bool \<Rightarrow> octets \<Rightarrow> nat" where
  "read_unit be bs = be_nat (if be then bs else rev bs)"

type_synonym wide_info = "nat option \<times> invalid_style"

definition decoded :: "wide_info \<Rightarrow> bool" where
  "decoded x \<longleftrightarrow> fst x \<noteq> None"

definition wide_unit :: "wide \<Rightarrow> octets \<Rightarrow> nat \<times> wide_info" where
  "wide_unit w bs =
     (if length bs < w_width w then (length bs, None, Incomplete)
      else if w_width w = 4 then (4, char_from_u32 (read_unit (w_be w) (take 4 bs)), StylePlain)
      else let u = read_unit (w_be w) (take 2 bs)
        in if 0xd800 \<le> u \<and> u \<le> 0xdbff then
             (if length bs < 4 then (2, None, Incomplete)
              else let lo = read_unit (w_be w) (take 2 (drop 2 bs))
                in if 0xdc00 \<le> lo \<and> lo \<le> 0xdfff
                   then (4, char_from_u32 (0x10000 + (u - 0xd800) * 1024 + (lo - 0xdc00)), StylePlain)
                   else (2, None, FollowedBy (bs ! 2)))
           else if 0xdc00 \<le> u \<and> u \<le> 0xdfff then (2, None, StylePlain)
           else (2, char_from_u32 u, StylePlain))"

definition write_unit :: "bool \<Rightarrow> nat \<Rightarrow> nat \<Rightarrow> octets" where
  "write_unit be n v = (let bs = map (\<lambda>k. of_nat (v div 256 ^ k)) [0..<n] in if be then rev bs else bs)"

definition encode_utf16 :: "nat \<Rightarrow> nat list" where
  "encode_utf16 c =
     (if c < 0x10000 then [c] else [0xd800 + (c - 0x10000) div 1024, 0xdc00 + (c - 0x10000) mod 1024])"

definition wide_encode_char :: "wide \<Rightarrow> nat \<Rightarrow> octets" where
  "wide_encode_char w c =
     (if w_width w = 4 then write_unit (w_be w) 4 c else concat (map (write_unit (w_be w) 2) (encode_utf16 c)))"

definition wide_ok :: "wide \<Rightarrow> bool" where
  "wide_ok w \<longleftrightarrow> w_width w = 2 \<or> w_width w = 4"

lemma wide_unit_bounds:
  assumes "wide_ok w" "bs \<noteq> []" "wide_unit w bs = (n, x)"
  shows "0 < n \<and> n \<le> length bs"
proof -
  have "0 < length bs" using assms(2) by simp
  with assms(1,3) show ?thesis
    unfolding wide_unit_def wide_ok_def Let_def by (auto split: if_splits)
qed

lemma wide_unit_shrinks: "wide_ok w \<Longrightarrow> bs \<noteq> [] \<Longrightarrow> (n, x) = wide_unit w bs \<Longrightarrow> length bs - n < length bs"
  by (metis wide_unit_bounds diff_less length_greater_0_conv)

text \<open>The loop over the units; a layout is two or four bytes wide.\<close>

function wide_ranges_from :: "wide \<Rightarrow> octets \<Rightarrow> nat \<Rightarrow> (nat \<times> nat \<times> wide_info) list" where
  "wide_ranges_from w bs i =
     (if \<not> wide_ok w \<or> bs = [] then []
      else case wide_unit w bs of (n, x) \<Rightarrow> (i, i + n, x) # wide_ranges_from w (drop n bs) (i + n))"
  by auto

termination wide_ranges_from
  by (relation "measure (\<lambda>(w, bs, i). length bs)") (auto intro: wide_unit_shrinks)

declare wide_ranges_from.simps [simp del]

definition wide_ranges :: "wide \<Rightarrow> octets \<Rightarrow> (nat \<times> nat \<times> wide_info) list" where
  "wide_ranges w bs = wide_ranges_from w bs 0"

subsection \<open>Multibyte encodings\<close>

datatype mb_family = Sjis | EucJp | Gbk | Big5 | EucKr | Cp949 | Gb18030

type_synonym mb_info = "bool \<times> invalid_style"

definition mb_good :: "nat \<Rightarrow> nat \<times> mb_info" where
  "mb_good n = (n, True, StylePlain)"

definition mb_bad :: "invalid_style \<Rightarrow> nat \<times> mb_info" where
  "mb_bad st = (1, False, st)"

definition follow :: "octets \<Rightarrow> nat \<Rightarrow> (8 word \<Rightarrow> bool) \<Rightarrow> nat \<times> mb_info" where
  "follow bs need trail =
     (if length bs \<le> need then mb_bad Incomplete
      else case List.find (\<lambda>t. \<not> trail t) (take need (tl bs)) of
        Some t \<Rightarrow> mb_bad (FollowedBy t)
      | None \<Rightarrow> mb_good (need + 1))"

definition mb_unit :: "mb_family \<Rightarrow> octets \<Rightarrow> nat \<times> mb_info" where
  "mb_unit fam bs =
     (let b = hd bs
      in if b < 0x80 then mb_good 1
         else case fam of
           Sjis \<Rightarrow>
             if in_range 0xa1 0xdf b then mb_good 1
             else if in_range 0x81 0x9f b \<or> in_range 0xe0 0xfc b
               then follow bs 1 (\<lambda>t. in_range 0x40 0x7e t \<or> in_range 0x80 0xfc t)
             else mb_bad StylePlain
         | EucJp \<Rightarrow>
             if b = 0x8e then follow bs 1 (in_range 0xa1 0xfe)
             else if b = 0x8f then follow bs 2 (in_range 0xa1 0xfe)
             else if in_range 0xa1 0xfe b then follow bs 1 (in_range 0xa1 0xfe)
             else mb_bad StylePlain
         | Gbk \<Rightarrow>
             if in_range 0x81 0xfe b then follow bs 1 (\<lambda>t. in_range 0x40 0x7e t \<or> in_range 0x80 0xfe t)
             else mb_bad StylePlain
         | Big5 \<Rightarrow>
             if in_range 0xa1 0xfe b then follow bs 1 (\<lambda>t. in_range 0x40 0x7e t \<or> in_range 0xa1 0xfe t)
             else mb_bad StylePlain
         | EucKr \<Rightarrow>
             if in_range 0xa1 0xfe b then follow bs 1 (in_range 0xa1 0xfe) else mb_bad StylePlain
         | Cp949 \<Rightarrow>
             if in_range 0x81 0xfe b
             then follow bs 1 (\<lambda>t. in_range 0x41 0x5a t \<or> in_range 0x61 0x7a t \<or> in_range 0x81 0xfe t)
             else mb_bad StylePlain
         | Gb18030 \<Rightarrow>
             if in_range 0x81 0xfe b then
               (if 1 < length bs \<and> in_range 0x30 0x39 (bs ! 1) then
                  (if length bs < 4 then mb_bad Incomplete
                   else if in_range 0x81 0xfe (bs ! 2) \<and> in_range 0x30 0x39 (bs ! 3) then mb_good 4
                   else mb_bad (FollowedBy (bs ! 2)))
                else follow bs 1 (\<lambda>t. in_range 0x40 0x7e t \<or> in_range 0x80 0xfe t))
             else mb_bad StylePlain)"

lemma follow_cases:
  obtains (bad) st where "follow bs need trail = mb_bad st"
  | (good) "follow bs need trail = mb_good (need + 1)" "need < length bs" "list_all trail (take need (tl bs))"
  unfolding follow_def
  by (cases "length bs \<le> need"; cases "List.find (\<lambda>t. \<not> trail t) (take need (tl bs))") (auto simp: find_None_iff list_all_iff)

lemma mb_unit_bounds:
  assumes "bs \<noteq> []" "mb_unit fam bs = (n, x)"
  shows "0 < n \<and> n \<le> length bs"
proof -
  from assms(1) obtain b t where bs: "bs = b # t" by (cases bs) auto
  show ?thesis
    using assms(2) unfolding bs
    by (cases fam) (auto simp: mb_unit_def Let_def mb_good_def mb_bad_def follow_def Suc_le_eq split: if_splits option.splits)
qed

lemma mb_unit_shrinks: "bs \<noteq> [] \<Longrightarrow> (n, x) = mb_unit fam bs \<Longrightarrow> length bs - n < length bs"
  by (metis mb_unit_bounds diff_less length_greater_0_conv)

function mb_ranges_from :: "mb_family \<Rightarrow> octets \<Rightarrow> nat \<Rightarrow> (nat \<times> nat \<times> bool) list" where
  "mb_ranges_from fam bs i =
     (if bs = [] then []
      else case mb_unit fam bs of (n, v, st) \<Rightarrow> (i, i + n, v) # mb_ranges_from fam (drop n bs) (i + n))"
  by auto

termination mb_ranges_from
  by (relation "measure (\<lambda>(fam, bs, i). length bs)") (auto intro: mb_unit_shrinks)

declare mb_ranges_from.simps [simp del]

definition mb_ranges :: "mb_family \<Rightarrow> octets \<Rightarrow> (nat \<times> nat \<times> bool) list" where
  "mb_ranges fam bs = mb_ranges_from fam bs 0"

datatype mb_codepoint_error = OutOfRange | InvalidCodepoint

text \<open>The codepoint is a \<^verbatim>\<open>u32\<close>: its bytes, most significant first, without the leading zeros.\<close>

definition mb_codepoint_bytes :: "mb_family \<Rightarrow> nat \<Rightarrow> mb_codepoint_error + octets" where
  "mb_codepoint_bytes fam cp =
     (if cp \<le> 0x7f then Inr [of_nat cp]
      else let bs0 = dropWhile (\<lambda>b. b = 0) (write_unit True 4 cp);
               bs = (if bs0 = [] then [0] else bs0);
               max_len = (case fam of EucJp \<Rightarrow> 3 | _ \<Rightarrow> 2)
        in if length bs > max_len then Inl OutOfRange
           else case mb_unit fam bs of (n, valid, st) \<Rightarrow>
             if valid \<and> n = length bs then Inr bs
             else if length bs > 1 \<and> bs ! 0 < 0x80 then Inl OutOfRange
             else Inl InvalidCodepoint)"

section \<open>The walk over units\<close>

fun tiles :: "nat \<Rightarrow> nat \<Rightarrow> (nat \<times> nat \<times> 'a) list \<Rightarrow> bool" where
  "tiles i e [] \<longleftrightarrow> i = e"
| "tiles i e ((a, b, x) # rs) \<longleftrightarrow> a = i \<and> i < b \<and> tiles b e rs"

text \<open>
  What both loops share: a unit is a non-empty prefix of the rest, and whether a prefix is a character does not depend on what
  follows it.  The observation of a unit is what the loop keeps of it.
\<close>

locale unit_walk =
  fixes unit :: "octets \<Rightarrow> nat \<times> 'i"
    and ranges :: "octets \<Rightarrow> nat \<Rightarrow> (nat \<times> nat \<times> 'o) list"
    and obs :: "'i \<Rightarrow> 'o"
    and ok :: "'o \<Rightarrow> bool"
  assumes ranges_Nil: "ranges [] i = []"
    and ranges_step: "bs \<noteq> [] \<Longrightarrow> unit bs = (n, x) \<Longrightarrow> ranges bs i = (i, i + n, obs x) # ranges (drop n bs) (i + n)"
    and unit_bounds: "bs \<noteq> [] \<Longrightarrow> unit bs = (n, x) \<Longrightarrow> 0 < n \<and> n \<le> length bs"
    and unit_prefix: "bs \<noteq> [] \<Longrightarrow> unit bs = (n, x) \<Longrightarrow> ok (obs x) \<Longrightarrow> unit (take n bs @ rest) = (n, x)"
begin

definition is_char :: "octets \<Rightarrow> 'o \<Rightarrow> bool" where
  "is_char c v \<longleftrightarrow> c \<noteq> [] \<and> ok v \<and> (\<exists>x. unit c = (length c, x) \<and> obs x = v)"

lemma ranges_tile: "tiles i (i + length bs) (ranges bs i)"
proof (induction bs arbitrary: i rule: length_induct)
  case (1 bs)
  show ?case
  proof (cases "bs = []")
    case True
    then show ?thesis by (simp add: ranges_Nil)
  next
    case False
    obtain n x where u: "unit bs = (n, x)" by force
    note b = unit_bounds[OF False u]
    with False have "length (drop n bs) < length bs" by simp
    with 1 have "tiles (i + n) (i + n + length (drop n bs)) (ranges (drop n bs) (i + n))" by blast
    with b show ?thesis by (simp add: ranges_step[OF False u])
  qed
qed

lemma ranges_char:
  assumes "is_char c v"
  shows "ranges (c @ rest) i = (i, i + length c, v) # ranges rest (i + length c)"
proof -
  from assms obtain x where c: "c \<noteq> []" "ok (obs x)" "unit c = (length c, x)" "obs x = v" by (auto simp: is_char_def)
  from unit_prefix[OF c(1,3,2), of rest] have "unit (c @ rest) = (length c, x)" by simp
  with c(1,4) show ?thesis by (simp add: ranges_step)
qed

lemma ranges_chars:
  "\<forall>c\<in>set cs. is_char (enc c) (den c) \<Longrightarrow> map (\<lambda>(a, b, v). v) (ranges (concat (map enc cs)) i) = map den cs"
proof (induction cs arbitrary: i)
  case (Cons c cs)
  then have "is_char (enc c) (den c)" by simp
  with Cons show ?case by (simp add: ranges_char)
qed (simp add: ranges_Nil)

lemma ranges_ok_split:
  "list_all (\<lambda>(a, b, v). ok v) (ranges bs i) \<Longrightarrow> \<exists>cs. bs = concat cs \<and> (\<forall>c\<in>set cs. \<exists>v. is_char c v)"
proof (induction bs arbitrary: i rule: length_induct)
  case (1 bs)
  show ?case
  proof (cases "bs = []")
    case True
    then show ?thesis by (intro exI[of _ "[]"]) simp
  next
    case False
    obtain n x where u: "unit bs = (n, x)" by force
    note b = unit_bounds[OF False u]
    note r = ranges_step[OF False u, of i]
    have ok: "ok (obs x)" and rest: "list_all (\<lambda>(a, b, v). ok v) (ranges (drop n bs) (i + n))"
      using 1(2) by (simp_all add: r)
    from b False have "length (drop n bs) < length bs" by simp
    with 1(1) rest obtain cs where cs: "drop n bs = concat cs" "\<forall>c\<in>set cs. \<exists>v. is_char c v" by blast
    have "is_char (take n bs) (obs x)"
      using b ok unit_prefix[OF False u ok, of "[]"] False by (auto simp: is_char_def min_absorb2)
    with cs show ?thesis
      by (intro exI[of _ "take n bs # cs"]) (auto simp flip: cs(1))
  qed
qed

lemma ranges_ok_iff:
  "list_all (\<lambda>(a, b, v). ok v) (ranges bs i) \<longleftrightarrow> (\<exists>cs. bs = concat cs \<and> (\<forall>c\<in>set cs. \<exists>v. is_char c v))"
proof
  assume "\<exists>cs. bs = concat cs \<and> (\<forall>c\<in>set cs. \<exists>v. is_char c v)"
  then obtain cs where "bs = concat cs" "\<forall>c\<in>set cs. \<exists>v. is_char c v" by blast
  moreover have "\<forall>c\<in>set cs. \<exists>v. is_char c v \<Longrightarrow> list_all (\<lambda>(a, b, v). ok v) (ranges (concat cs) i)"
  proof (induction cs arbitrary: i)
    case (Cons c cs)
    then obtain v where v: "is_char c v" by auto
    then have "ok v" by (simp add: is_char_def)
    with Cons show ?case by (simp add: ranges_char[OF v])
  qed (simp add: ranges_Nil)
  ultimately show "list_all (\<lambda>(a, b, v). ok v) (ranges bs i)" by blast
qed (rule ranges_ok_split)

end

section \<open>Wide characters\<close>

lemma unat_of_nat_byte: "unat (of_nat n :: 8 word) = n mod 256"
  by (simp add: unat_of_nat)

lemma unat_byte_less: "unat (b :: 8 word) < 256"
  using unsigned_less[of b, where ?'a = nat] by simp

lemma of_nat_byte_eq: "n mod 256 = unat b \<Longrightarrow> (of_nat n :: 8 word) = b"
  by (metis unat_of_nat_byte unsigned_word_eqI)

lemma length_write_unit [simp]: "length (write_unit be n v) = n"
  by (simp add: write_unit_def Let_def)

lemma read_write2: "v < 65536 \<Longrightarrow> read_unit be (write_unit be 2 v) = v"
  by (simp add: read_unit_def write_unit_def be_nat_def unat_of_nat_byte numeral_2_eq_2)

lemma read_write4:
  assumes "v < 4294967296"
  shows "read_unit be (write_unit be 4 v) = v"
proof -
  define a b c where "a = v div 256" and "b = a div 256" and "c = b div 256"
  have e: "v = a * 256 + v mod 256" "a = b * 256 + a mod 256" "b = c * 256 + b mod 256" by (simp_all add: a_def b_def c_def)
  have "c < 256" using assms by (simp add: a_def b_def c_def div_mult2_eq[symmetric])
  moreover have "v div 65536 = b" "v div 16777216 = c" by (simp_all add: a_def b_def c_def div_mult2_eq[symmetric])
  ultimately have "read_unit be (write_unit be 4 v) = ((c * 256 + b mod 256) * 256 + a mod 256) * 256 + v mod 256"
    by (simp add: read_unit_def write_unit_def be_nat_def unat_of_nat_byte upt_rec a_def[symmetric])
  then show ?thesis using e by simp
qed

lemma be_nat_snoc: "be_nat (bs @ [b]) = be_nat bs * 256 + unat b"
  by (simp add: be_nat_def)

lemma be_nat_less: "be_nat bs < 256 ^ length bs"
proof (induction bs rule: rev_induct)
  case (snoc b bs)
  have "be_nat bs * 256 + unat b < be_nat bs * 256 + 256" using unat_byte_less by simp
  also have "\<dots> = (be_nat bs + 1) * 256" by simp
  also have "\<dots> \<le> 256 ^ length bs * 256" using snoc by (intro mult_le_mono1) simp
  finally show ?case by (simp add: be_nat_snoc mult.commute)
qed (simp add: be_nat_def)

lemma be_nat_inj: "length xs = length ys \<Longrightarrow> be_nat xs = be_nat ys \<Longrightarrow> xs = ys"
proof (induction xs arbitrary: ys rule: rev_induct)
  case (snoc x xs)
  from snoc.prems(1) obtain ys' y where ys: "ys = ys' @ [y]" "length xs = length ys'"
    by (cases ys rule: rev_cases) auto
  from snoc.prems(2) have e: "be_nat xs * 256 + unat x = be_nat ys' * 256 + unat y" by (simp add: ys be_nat_snoc)
  have "unat x = (be_nat xs * 256 + unat x) mod 256" using unat_byte_less by simp
  also have "\<dots> = unat y" unfolding e using unat_byte_less by simp
  finally have "unat x = unat y" .
  with e have "be_nat xs = be_nat ys'" by simp
  with snoc.IH ys \<open>unat x = unat y\<close> show ?case by (simp add: unsigned_word_eqI)
qed simp

lemma read_unit_less: "read_unit be bs < 256 ^ length bs"
  using be_nat_less[of bs] be_nat_less[of "rev bs"] by (simp add: read_unit_def)

lemma read_unit_inj: "length xs = length ys \<Longrightarrow> read_unit be xs = read_unit be ys \<Longrightarrow> xs = ys"
  using be_nat_inj[of xs ys] be_nat_inj[of "rev xs" "rev ys"] by (simp add: read_unit_def split: if_splits)

lemma write_read2: "length bs = 2 \<Longrightarrow> write_unit be 2 (read_unit be bs) = bs"
  using read_unit_less[of be bs] by (intro read_unit_inj[of _ _ be]) (simp_all add: read_write2)

lemma write_read4: "length bs = 4 \<Longrightarrow> write_unit be 4 (read_unit be bs) = bs"
  using read_unit_less[of be bs] by (intro read_unit_inj[of _ _ be]) (simp_all add: read_write4)

lemma char_from_u32_Some: "char_from_u32 n = Some c \<longleftrightarrow> c = n \<and> (n < 0xd800 \<or> 0xe000 \<le> n \<and> n < 0x110000)"
  by (auto simp: char_from_u32_def)

definition scalar :: "nat \<Rightarrow> bool" where
  "scalar c \<longleftrightarrow> char_from_u32 c = Some c"

lemma scalar_iff: "scalar c \<longleftrightarrow> c < 0xd800 \<or> 0xe000 \<le> c \<and> c < 0x110000"
  by (auto simp: scalar_def char_from_u32_def)

lemma wide_encode_char_not_Nil: "wide_encode_char w c \<noteq> []"
proof -
  have "write_unit be (Suc n) v \<noteq> []" for be n v by (simp flip: length_0_conv)
  from this[of _ 1] this[of _ 3] show ?thesis by (simp add: wide_encode_char_def encode_utf16_def numeral_2_eq_2)
qed

lemma wide_unit_encode:
  assumes "wide_ok w" "scalar c"
  shows "wide_unit w (wide_encode_char w c @ rest) = (length (wide_encode_char w c), Some c, StylePlain)"
proof -
  consider "w_width w = 4" | "w_width w = 2" "c < 0x10000" | "w_width w = 2" "0x10000 \<le> c"
    using assms(1) by (cases "c < 0x10000") (auto simp: wide_ok_def not_less)
  then show ?thesis
  proof cases
    case 1
    have "read_unit (w_be w) (write_unit (w_be w) 4 c) = c" using assms(2) by (intro read_write4) (auto simp: scalar_iff)
    with 1 show ?thesis
      using assms(2) by (auto simp: wide_unit_def wide_encode_char_def scalar_def)
  next
    case 2
    then have "read_unit (w_be w) (write_unit (w_be w) 2 c) = c" by (intro read_write2) simp
    with 2 show ?thesis
      using assms(2) by (auto simp: wide_unit_def wide_encode_char_def encode_utf16_def scalar_iff char_from_u32_def)
  next
    case 3
    define d where "d = c - 0x10000"
    have c: "c = 0x10000 + d" "d < 0x100000" using 3(2) assms(2) by (auto simp: d_def scalar_iff)
    have d: "d div 1024 < 1024" "d mod 1024 < 1024" "d div 1024 * 1024 + d mod 1024 = d"
      using c(2) by (simp_all add: less_mult_imp_div_less)
    have r: "read_unit (w_be w) (write_unit (w_be w) 2 (0xd800 + d div 1024)) = 0xd800 + d div 1024"
      "read_unit (w_be w) (write_unit (w_be w) 2 (0xdc00 + d mod 1024)) = 0xdc00 + d mod 1024"
      using d by (auto intro!: read_write2)
    define h l where "h = d div 1024" and "l = d mod 1024"
    have "char_from_u32 (0x10000 + h * 1024 + l) = Some c"
      using c d by (simp add: char_from_u32_def h_def l_def)
    with 3(1) c r d show ?thesis
      by (simp add: wide_unit_def wide_encode_char_def encode_utf16_def h_def[symmetric] l_def[symmetric])
  qed
qed


lemma take_append_take: "take m xs @ take n (drop m xs) = take (m + n) xs"
  by (simp add: take_add)

lemma wide_unit_decode:
  assumes "wide_ok w" "wide_unit w bs = (n, Some c, st)"
  shows "scalar c \<and> st = StylePlain \<and> take n bs = wide_encode_char w c"
proof -
  define u where "u = read_unit (w_be w) (take 2 bs)"
  define lo where "lo = read_unit (w_be w) (take 2 (drop 2 bs))"
  consider (four) "w_width w = 4" "4 \<le> length bs" "n = 4" "char_from_u32 (read_unit (w_be w) (take 4 bs)) = Some c" "st = StylePlain"
    | (pair) "w_width w = 2" "4 \<le> length bs" "0xd800 \<le> u" "u \<le> 0xdbff" "0xdc00 \<le> lo" "lo \<le> 0xdfff" "n = 4" "st = StylePlain"
        "char_from_u32 (0x10000 + (u - 0xd800) * 1024 + (lo - 0xdc00)) = Some c"
    | (one) "w_width w = 2" "2 \<le> length bs" "\<not> (0xd800 \<le> u \<and> u \<le> 0xdbff)" "n = 2" "char_from_u32 u = Some c" "st = StylePlain"
    using assms unfolding wide_unit_def wide_ok_def Let_def u_def[symmetric] lo_def[symmetric]
    by (auto split: if_splits)
  then show ?thesis
  proof cases
    case four
    then show ?thesis
      using write_read4[of "take 4 bs" "w_be w"] by (auto simp: wide_encode_char_def char_from_u32_Some scalar_iff)
  next
    case pair
    define h l where "h = u - 0xd800" and "l = lo - 0xdc00"
    have hl: "u = 0xd800 + h" "lo = 0xdc00 + l" "h < 1024" "l < 1024" using pair by (auto simp: h_def l_def)
    have c: "c = 0x10000 + h * 1024 + l" "scalar c" using pair by (auto simp: h_def l_def char_from_u32_Some scalar_iff)
    have "(c - 0x10000) div 1024 = h" "(c - 0x10000) mod 1024 = l" using hl by (simp_all add: c)
    then have "wide_encode_char w c = write_unit (w_be w) 2 u @ write_unit (w_be w) 2 lo"
      using pair hl c by (simp add: wide_encode_char_def encode_utf16_def)
    also have "\<dots> = take 2 bs @ take 2 (drop 2 bs)"
      using pair(2) by (simp add: u_def lo_def write_read2)
    finally show ?thesis using pair c by (simp add: take_append_take)
  next
    case one
    have "u < 0x10000" using read_unit_less[of "w_be w" "take 2 bs"] one(2) by (simp add: u_def)
    moreover have "c = u" "scalar c" using one by (auto simp: char_from_u32_Some scalar_iff)
    moreover have "write_unit (w_be w) 2 u = take 2 bs" using one(2) by (simp add: u_def write_read2)
    ultimately show ?thesis using one by (simp add: wide_encode_char_def encode_utf16_def)
  qed
qed

lemma wide_unit_iff:
  assumes "wide_ok w"
  shows "(\<exists>x. bs \<noteq> [] \<and> decoded x \<and> wide_unit w bs = (length bs, x)) \<longleftrightarrow> (\<exists>c. scalar c \<and> bs = wide_encode_char w c)"
proof
  assume "\<exists>x. bs \<noteq> [] \<and> decoded x \<and> wide_unit w bs = (length bs, x)"
  then obtain c st where "wide_unit w bs = (length bs, Some c, st)" by (auto simp: decoded_def)
  from wide_unit_decode[OF assms this] show "\<exists>c. scalar c \<and> bs = wide_encode_char w c" by auto
next
  assume "\<exists>c. scalar c \<and> bs = wide_encode_char w c"
  then obtain c where c: "scalar c" "bs = wide_encode_char w c" by blast
  with wide_unit_encode[OF assms c(1), of "[]"] show "\<exists>x. bs \<noteq> [] \<and> decoded x \<and> wide_unit w bs = (length bs, x)"
    by (intro exI[of _ "(Some c, StylePlain)"]) (simp add: decoded_def wide_encode_char_not_Nil)
qed

lemma wide_walk:
  assumes "wide_ok w"
  shows "unit_walk (wide_unit w) (wide_ranges_from w) (\<lambda>x. x) decoded"
proof
  fix bs :: octets and n x i
  show "wide_ranges_from w [] i = []" by (simp add: wide_ranges_from.simps)
  assume bs: "bs \<noteq> []" "wide_unit w bs = (n, x)"
  then show "wide_ranges_from w bs i = (i, i + n, x) # wide_ranges_from w (drop n bs) (i + n)"
    using assms by (simp add: wide_ranges_from.simps[of w bs])
  show "0 < n \<and> n \<le> length bs" using wide_unit_bounds[OF assms bs] .
  fix rest :: octets
  assume "decoded x"
  then have "fst x \<noteq> None" by (simp add: decoded_def)
  with bs(2) obtain c st where u: "wide_unit w bs = (n, Some c, st)" "x = (Some c, st)" by (cases x) auto
  note d = wide_unit_decode[OF assms u(1)]
  have "n = length (wide_encode_char w c)" using d wide_unit_bounds[OF assms bs] by (metis length_take min.absorb2)
  with d u show "wide_unit w (take n bs @ rest) = (n, x)"
    using wide_unit_encode[OF assms, of c rest] by simp
qed

interpretation utf16: unit_walk "wide_unit \<lparr>w_width = 2, w_be = be\<rparr>" "wide_ranges_from \<lparr>w_width = 2, w_be = be\<rparr>" "\<lambda>x. x" "decoded" for be
  by (rule wide_walk) (simp add: wide_ok_def)

interpretation utf32: unit_walk "wide_unit \<lparr>w_width = 4, w_be = be\<rparr>" "wide_ranges_from \<lparr>w_width = 4, w_be = be\<rparr>" "\<lambda>x. x" "decoded" for be
  by (rule wide_walk) (simp add: wide_ok_def)

section \<open>Multibyte characters\<close>

lemma follow_prefix:
  assumes "bs \<noteq> []" "follow bs need trail = (n, True, st)"
  shows "follow (take n bs @ rest) need trail = (n, True, st) \<and> n = Suc need \<and> n \<le> length bs"
proof (cases rule: follow_cases[of bs need trail])
  case good
  have "take need (tl (take (need + 1) bs @ rest)) = take need (tl bs)"
    using good(2) by (cases bs) auto
  moreover have "List.find (\<lambda>t. \<not> trail t) (take need (tl bs)) = None"
    using good(3) by (auto simp: find_None_iff list_all_iff)
  ultimately show ?thesis
    using good assms(2) by (auto simp: mb_good_def follow_def[of "take (Suc need) bs @ rest"])
qed (use assms(2) in \<open>simp add: mb_bad_def\<close>)

lemma hd_take_append: "bs \<noteq> [] \<Longrightarrow> 0 < n \<Longrightarrow> hd (take n bs @ rest) = hd bs"
  by (cases bs; cases n) auto

lemma mb_unit_prefix:
  assumes "bs \<noteq> []" "mb_unit fam bs = (n, True, st)"
  shows "mb_unit fam (take n bs @ rest) = (n, True, st)"
proof -
  have n: "0 < n" "n \<le> length bs" using mb_unit_bounds[OF assms] by auto
  note h = hd_take_append[OF assms(1) n(1), of rest]
  have f: "follow (take n bs @ rest) need trail = (n, True, st)" if "follow bs need trail = (n, True, st)" for need trail
    using follow_prefix[OF assms(1) that] by blast
  have one: "(take n bs @ rest) ! k = bs ! k" if "k < n" for k
    using that n by (simp add: nth_append)
  show ?thesis
  proof (cases "fam = Gb18030 \<and> \<not> hd bs < 0x80 \<and> in_range 0x81 0xfe (hd bs)")
    case True
    show ?thesis
    proof (cases "1 < length bs \<and> in_range 0x30 0x39 (bs ! 1)")
      case four: True
      then show ?thesis
        using assms(2) True n one[of 1] one[of 2] one[of 3]
        by (auto simp: mb_unit_def Let_def h mb_good_def mb_bad_def split: if_splits)
    next
      case two: False
      then have fl: "follow bs 1 (\<lambda>t. in_range 0x40 0x7e t \<or> in_range 0x80 0xfe t) = (n, True, st)"
        using assms(2) True by (simp add: mb_unit_def Let_def mb_good_def mb_bad_def split: if_splits)
      then have "n = 2" using follow_prefix[OF assms(1) fl] by simp
      with two n one[of 1] have "\<not> in_range 0x30 0x39 ((take n bs @ rest) ! 1)" by auto
      with f[OF fl] True show ?thesis by (simp add: mb_unit_def Let_def h)
    qed
  next
    case False
    then show ?thesis
      using assms(2) f by (cases fam) (auto simp: mb_unit_def Let_def h mb_good_def mb_bad_def split: if_splits)
  qed
qed

lemma mb_unit_style: "mb_unit fam bs = (n, True, st) \<Longrightarrow> st = StylePlain"
  by (cases fam) (auto simp: mb_unit_def Let_def mb_good_def mb_bad_def follow_def split: if_splits option.splits)

interpretation mbw: unit_walk "mb_unit fam" "mb_ranges_from fam" fst "\<lambda>v. v" for fam
proof
  fix bs :: octets and n x i
  show "mb_ranges_from fam [] i = []" by (simp add: mb_ranges_from.simps)
  assume bs: "bs \<noteq> []" "mb_unit fam bs = (n, x)"
  then show "mb_ranges_from fam bs i = (i, i + n, fst x) # mb_ranges_from fam (drop n bs) (i + n)"
    by (simp add: mb_ranges_from.simps[of fam bs] split: prod.splits)
  show "0 < n \<and> n \<le> length bs" using mb_unit_bounds[OF bs] .
  fix rest :: octets
  assume "fst x"
  then show "mb_unit fam (take n bs @ rest) = (n, x)"
    using mb_unit_prefix[OF bs(1), of fam n "snd x"] bs(2) by (cases x) auto
qed

section \<open>UTF-8 characters\<close>

lemma byte_le: "(0x80 :: 8 word) \<le> b \<longleftrightarrow> 128 \<le> unat b"
  "b \<le> (0xbf :: 8 word) \<longleftrightarrow> unat b \<le> 191"
  by (simp_all add: word_le_nat_alt)

lemma byte_of_nat: "unat b = n \<Longrightarrow> (b :: 8 word) = of_nat n"
  by auto

lemma unat_of_nat_small: "n < 256 \<Longrightarrow> unat (of_nat n :: 8 word) = n"
  by (simp add: unat_of_nat_byte)

lemmas byte_nat = word_le_nat_alt word_less_nat_alt unat_of_nat_small

lemma cont_iff: "cont b \<longleftrightarrow> 128 \<le> unat b \<and> unat b \<le> 191"
  by (simp add: cont_def word_le_nat_alt)

lemma width_unat:
  "width a = (if unat a < 0x80 then 1 else if 0xc2 \<le> unat a \<and> unat a \<le> 0xdf then 2
     else if 0xe0 \<le> unat a \<and> unat a \<le> 0xef then 3 else if 0xf0 \<le> unat a \<and> unat a \<le> 0xf4 then 4 else 0)"
  by (simp add: width_def word_le_nat_alt word_less_nat_alt)

lemma width_iff:
  "width a = 1 \<longleftrightarrow> unat a < 128" "width a = 2 \<longleftrightarrow> 194 \<le> unat a \<and> unat a \<le> 223"
  "width a = 3 \<longleftrightarrow> 224 \<le> unat a \<and> unat a \<le> 239" "width a = 4 \<longleftrightarrow> 240 \<le> unat a \<and> unat a \<le> 244"
  unfolding width_unat by simp_all

lemma word8_eq_numeral: "(a :: 8 word) = numeral n \<longleftrightarrow> unat a = unat (numeral n :: 8 word)"
  by (rule word_unat_eq_iff)

lemma second_ok_unat:
  "second_ok a b \<longleftrightarrow>
     (if unat a = 0xe0 then 0xa0 \<le> unat b \<and> unat b \<le> 0xbf
      else if unat a = 0xed then 0x80 \<le> unat b \<and> unat b \<le> 0x9f
      else if unat a = 0xf0 then 0x90 \<le> unat b \<and> unat b \<le> 0xbf
      else if unat a = 0xf4 then 0x80 \<le> unat b \<and> unat b \<le> 0x8f
      else 0x80 \<le> unat b \<and> unat b \<le> 0xbf)"
  unfolding second_ok_def cont_iff word8_eq_numeral by (simp add: word_le_nat_alt)

lemma utf8_bytes2:
  assumes "x < 32" "y < 64" "2 \<le> x" "c = x * 64 + y"
  shows "utf8_bytes c = [of_nat (0xc0 + x), of_nat (0x80 + y)]"
proof -
  have "c div 64 = x" "c mod 64 = y" using assms by simp_all
  with assms show ?thesis by (simp add: utf8_bytes_def)
qed

lemma digit64: "(y :: nat) < 64 \<Longrightarrow> (q * 64 + y) div 64 = q \<and> (q * 64 + y) mod 64 = y"
  by simp

lemma utf8_bytes3:
  assumes "x < 16" "y < 64" "z < 64" "c = x * 4096 + y * 64 + z" "0x800 \<le> c"
  shows "utf8_bytes c = [of_nat (0xe0 + x), of_nat (0x80 + y), of_nat (0x80 + z)]"
proof -
  have c: "c = (x * 64 + y) * 64 + z" using assms(4) by simp
  have d: "c div 64 = x * 64 + y" "c mod 64 = z" using digit64[OF assms(3), of "x * 64 + y"] by (simp_all only: c)
  have "c div 4096 = c div 64 div 64" by (simp add: div_mult2_eq[symmetric])
  then have "c div 4096 = x" "c div 64 mod 64 = y" using d assms(2) by simp_all
  with d assms show ?thesis by (simp add: utf8_bytes_def)
qed

lemma utf8_bytes4:
  assumes "x < 8" "y < 64" "z < 64" "t < 64" "c = x * 262144 + y * 4096 + z * 64 + t" "0x10000 \<le> c"
  shows "utf8_bytes c = [of_nat (0xf0 + x), of_nat (0x80 + y), of_nat (0x80 + z), of_nat (0x80 + t)]"
proof -
  have c: "c = ((x * 64 + y) * 64 + z) * 64 + t" using assms(5) by simp
  have d: "c div 64 = (x * 64 + y) * 64 + z" "c mod 64 = t" using digit64[OF assms(4), of "(x * 64 + y) * 64 + z"] by (simp_all only: c)
  have "c div 4096 = c div 64 div 64" by (simp add: div_mult2_eq[symmetric])
  then have e: "c div 4096 = x * 64 + y" "c div 64 mod 64 = z" using d digit64[OF assms(3), of "x * 64 + y"] by simp_all
  have "c div 262144 = c div 4096 div 64" by (simp add: div_mult2_eq[symmetric])
  then have "c div 262144 = x" "c div 4096 mod 64 = y" using e assms(2) by simp_all
  with d e assms show ?thesis by (simp add: utf8_bytes_def)
qed

lemma split64: obtains x y where "(c :: nat) = x * 64 + y" "y < 64"
  by (metis div_mult_mod_eq mod_less_divisor zero_less_numeral)

text \<open>The shapes of a well-formed character.\<close>

lemma scalar_shapes:
  assumes "scalar c"
  obtains (one) "c < 128" "utf8_bytes c = [of_nat c]"
  | (two) x y where "2 \<le> x" "x < 32" "y < 64" "utf8_bytes c = [of_nat (0xc0 + x), of_nat (0x80 + y)]"
  | (three) x y z where "x < 16" "y < 64" "z < 64" "x = 0 \<Longrightarrow> 32 \<le> y" "x = 13 \<Longrightarrow> y \<le> 31"
      "utf8_bytes c = [of_nat (0xe0 + x), of_nat (0x80 + y), of_nat (0x80 + z)]"
  | (four) x y z t where "x < 5" "y < 64" "z < 64" "t < 64" "x = 0 \<Longrightarrow> 16 \<le> y" "x = 4 \<Longrightarrow> y \<le> 15"
      "utf8_bytes c = [of_nat (0xf0 + x), of_nat (0x80 + y), of_nat (0x80 + z), of_nat (0x80 + t)]"
proof -
  have sc: "c < 0xd800 \<or> 0xe000 \<le> c \<and> c < 0x110000" using assms by (simp add: scalar_iff)
  consider "c < 0x80" | "0x80 \<le> c" "c < 0x800" | "0x800 \<le> c" "c < 0x10000" | "0x10000 \<le> c" by linarith
  then show thesis
  proof cases
    case 1
    then show thesis by (intro one) (simp_all add: utf8_bytes_def)
  next
    case 2
    obtain x y where c: "c = x * 64 + y" "y < 64" by (rule split64)
    with 2 have "2 \<le> x" "x < 32" by linarith+
    with c show thesis by (intro two[of x y]) (simp_all add: utf8_bytes2)
  next
    case 3
    obtain q z where q: "c = q * 64 + z" "z < 64" by (rule split64)
    obtain x y where x: "q = x * 64 + y" "y < 64" by (rule split64)
    have c: "c = x * 4096 + y * 64 + z" using q x by simp
    have b: "x < 16" "x = 0 \<Longrightarrow> 32 \<le> y" "x = 13 \<Longrightarrow> y \<le> 31" using c 3 sc q(2) x(2) by linarith+
    show thesis by (rule three[OF b(1) x(2) q(2) b(2,3) utf8_bytes3[OF b(1) x(2) q(2) c 3(1)]])
  next
    case 4
    obtain q t where q: "c = q * 64 + t" "t < 64" by (rule split64)
    obtain r z where r: "q = r * 64 + z" "z < 64" by (rule split64)
    obtain x y where x: "r = x * 64 + y" "y < 64" by (rule split64)
    have c: "c = x * 262144 + y * 4096 + z * 64 + t" using q r x by simp
    have b: "x < 5" "x = 0 \<Longrightarrow> 16 \<le> y" "x = 4 \<Longrightarrow> y \<le> 15" using c 4 sc q(2) r(2) x(2) by linarith+
    then have "x < 8" by simp
    show thesis by (rule four[OF b(1) x(2) r(2) q(2) b(2,3) utf8_bytes4[OF \<open>x < 8\<close> x(2) r(2) q(2) c 4]])
  qed
qed

lemma scan_encode:
  assumes "scalar c"
  obtains a bs where "utf8_bytes c = a # bs" "scan_char a (bs @ rest) = (True, Suc (length bs))" "width a = Suc (length bs)"
  using assms
proof (cases rule: scalar_shapes)
  case one
  then show thesis by (intro that[of "of_nat c" "[]"]) (simp_all add: scan_char_def width_unat unat_of_nat_small)
next
  case (two x y)
  then show thesis
    by (intro that[of "of_nat (0xc0 + x)" "[of_nat (0x80 + y)]"])
      (simp_all add: scan_char_def width_unat second_ok_unat unat_of_nat_small del: of_nat_add)
next
  case (three x y z)
  then show thesis
    by (intro that[of "of_nat (0xe0 + x)" "[of_nat (0x80 + y), of_nat (0x80 + z)]"])
      (simp_all add: scan_char_def width_unat second_ok_unat cont_iff unat_of_nat_small del: of_nat_add)
next
  case (four x y z t)
  then show thesis
    by (intro that[of "of_nat (0xf0 + x)" "[of_nat (0x80 + y), of_nat (0x80 + z), of_nat (0x80 + t)]"])
      (simp_all add: scan_char_def width_unat second_ok_unat cont_iff unat_of_nat_small del: of_nat_add)
qed

lemma scan_shapes:
  assumes "scan_char a bs = (True, n)"
  shows "width a = 1 \<and> n = 1 \<or> (\<exists>b r. width a = 2 \<and> bs = b # r \<and> second_ok a b \<and> n = 2)
    \<or> (\<exists>b b' r. width a = 3 \<and> bs = b # b' # r \<and> second_ok a b \<and> cont b' \<and> n = 3)
    \<or> (\<exists>b b' b'' r. width a = 4 \<and> bs = b # b' # b'' # r \<and> second_ok a b \<and> cont b' \<and> cont b'' \<and> n = 4)"
proof -
  have w: "width a \<in> {0, 1, 2, 3, 4}" by (simp add: width_def)
  consider "bs = []" | b where "bs = [b]" | b b' where "bs = [b, b']" | b b' b'' r where "bs = b # b' # b'' # r"
    by (metis list.exhaust)
  then show ?thesis
    using assms w by cases (auto simp: scan_char_def Let_def split: if_splits)
qed

lemma scan_decode:
  assumes "scan_char a bs = (True, n)"
  shows "\<exists>c. scalar c \<and> take n (a # bs) = utf8_bytes c \<and> n = width a"
proof -
  consider (one) "width a = 1" "n = 1"
    | (two) b r where "width a = 2" "bs = b # r" "second_ok a b" "n = 2"
    | (three) b b' r where "width a = 3" "bs = b # b' # r" "second_ok a b" "cont b'" "n = 3"
    | (four) b b' b'' r where "width a = 4" "bs = b # b' # b'' # r" "second_ok a b" "cont b'" "cont b''" "n = 4"
    using scan_shapes[OF assms] by blast
  then show ?thesis
  proof cases
    case one
    then have "unat a < 128" by (simp only: width_iff)
    with one show ?thesis by (intro exI[of _ "unat a"]) (simp add: scalar_iff utf8_bytes_def)
  next
    case two
    define x y where "x = unat a - 0xc0" and "y = unat b - 0x80"
    have w: "unat a = 0xc0 + x" "2 \<le> x" "x < 32" using two(1) unfolding width_iff x_def by arith+
    have y: "unat b = 0x80 + y" "y < 64" using two(3) w by (auto simp: second_ok_unat y_def split: if_splits)
    show ?thesis
      using two w y w(1)[THEN byte_of_nat] y(1)[THEN byte_of_nat] utf8_bytes2[OF w(3) y(2) w(2) refl]
      by (intro exI[of _ "x * 64 + y"]) (simp add: scalar_iff)
  next
    case three
    define x y z where "x = unat a - 0xe0" and "y = unat b - 0x80" and "z = unat b' - 0x80"
    have w: "unat a = 0xe0 + x" "x < 16" using three(1) unfolding width_iff x_def by arith+
    have y: "unat b = 0x80 + y" "y < 64" "x = 0 \<Longrightarrow> 32 \<le> y" "x = 13 \<Longrightarrow> y < 32"
      using three(3) w by (auto simp: second_ok_unat y_def split: if_splits)
    have z: "unat b' = 0x80 + z" "z < 64" using three(4) by (auto simp: cont_iff z_def)
    have c: "0x800 \<le> x * 4096 + y * 64 + z" using y by (cases "x = 0") auto
    have sc: "scalar (x * 4096 + y * 64 + z)" unfolding scalar_iff using w y z by (cases "x = 13") auto
    show ?thesis
      using three sc w(1)[THEN byte_of_nat] y(1)[THEN byte_of_nat] z(1)[THEN byte_of_nat] utf8_bytes3[OF w(2) y(2) z(2) refl c]
      by (intro exI[of _ "x * 4096 + y * 64 + z"]) simp
  next
    case four
    define x y z t where "x = unat a - 0xf0" and "y = unat b - 0x80" and "z = unat b' - 0x80" and "t = unat b'' - 0x80"
    have w: "unat a = 0xf0 + x" "x < 8" "x < 5" using four(1) unfolding width_iff x_def by arith+
    have y: "unat b = 0x80 + y" "y < 64" "x = 0 \<Longrightarrow> 16 \<le> y" "x = 4 \<Longrightarrow> y < 16"
      using four(3) w by (auto simp: second_ok_unat y_def split: if_splits)
    have z: "unat b' = 0x80 + z" "z < 64" "unat b'' = 0x80 + t" "t < 64" using four(4,5) by (auto simp: cont_iff z_def t_def)
    have c: "0x10000 \<le> x * 262144 + y * 4096 + z * 64 + t" using y by (cases "x = 0") auto
    have sc: "scalar (x * 262144 + y * 4096 + z * 64 + t)" unfolding scalar_iff using c w y z by (cases "x = 4") auto
    show ?thesis
      using four sc w(1)[THEN byte_of_nat] y(1)[THEN byte_of_nat] z(1)[THEN byte_of_nat] z(3)[THEN byte_of_nat] utf8_bytes4[OF w(2) y(2) z(2,4) refl c]
      by (intro exI[of _ "x * 262144 + y * 4096 + z * 64 + t"]) simp
  qed
qed


lemma utf8_bytes_not_Nil [simp]: "utf8_bytes c \<noteq> []"
  by (simp add: utf8_bytes_def)

lemma valid_utf8_append:
  assumes "scalar c"
  shows "valid_utf8 (utf8_bytes c @ rest) = valid_utf8 rest"
proof -
  obtain a bs where "utf8_bytes c = a # bs" "scan_char a (bs @ rest) = (True, Suc (length bs))"
    by (rule scan_encode[OF assms, of rest])
  then show ?thesis by (simp add: valid_utf8.simps)
qed

lemma valid_utf8_concat: "list_all scalar cs \<Longrightarrow> valid_utf8 (concat (map utf8_bytes cs))"
  by (induction cs) (simp_all add: valid_utf8_append)

lemma valid_utf8_split: "valid_utf8 bs \<Longrightarrow> \<exists>cs. list_all scalar cs \<and> bs = concat (map utf8_bytes cs)"
proof (induction bs rule: valid_utf8.induct)
  case 1
  show ?case by (intro exI[of _ "[]"]) simp
next
  case (2 a bs)
  obtain n where s: "scan_char a bs = (True, n)" and v: "valid_utf8 (drop (n - 1) bs)"
    using 2(2) by (auto simp: valid_utf8.simps split: prod.splits)
  from 2(1)[OF s[symmetric] v] obtain cs where cs: "list_all scalar cs" "drop (n - 1) bs = concat (map utf8_bytes cs)" by blast
  from scan_decode[OF s] obtain c where c: "scalar c" "take n (a # bs) = utf8_bytes c" by blast
  have "n \<noteq> 0" using c(2) utf8_bytes_not_Nil[of c] by (metis take_0)
  then have "a # bs = take n (a # bs) @ drop (n - 1) bs" by (cases n) auto
  with c cs show ?case by (intro exI[of _ "c # cs"]) simp
qed

theorem valid_utf8_iff: "valid_utf8 bs \<longleftrightarrow> (\<exists>cs. list_all scalar cs \<and> bs = concat (map utf8_bytes cs))"
  using valid_utf8_split valid_utf8_concat by blast

section \<open>Codepoints of multibyte characters\<close>

lemma be_nat_zeros: "be_nat (replicate n 0 @ bs) = be_nat bs"
  by (induction n) (simp_all add: be_nat_def)

lemma strip_zeros:
  fixes bs :: octets
  obtains n where "bs = replicate n 0 @ dropWhile (\<lambda>b. b = 0) bs"
proof -
  have "\<forall>b\<in>set (takeWhile (\<lambda>b. b = 0) bs). b = 0" by (auto dest: set_takeWhileD)
  then have "replicate (length (takeWhile (\<lambda>b. b = 0) bs)) 0 = takeWhile (\<lambda>b. b = 0) bs" by (rule replicate_length_same)
  then show thesis using takeWhile_dropWhile_id[of "\<lambda>b. b = 0" bs] by (intro that[of "length (takeWhile (\<lambda>b. b = 0) bs)"]) simp
qed

lemma be_nat_strip: "be_nat (dropWhile (\<lambda>b. b = 0) bs) = be_nat bs"
  by (metis strip_zeros be_nat_zeros)

lemma codepoint_bytes_of:
  assumes "bs \<noteq> []" "hd bs \<noteq> 0" "length bs \<le> 4"
  shows "dropWhile (\<lambda>b. b = 0) (write_unit True 4 (be_nat bs)) = bs"
proof -
  let ?p = "replicate (4 - length bs) 0 @ bs"
  have "length ?p = 4" using assms(3) by simp
  with write_read4[OF this, of True] have "write_unit True 4 (be_nat bs) = ?p"
    by (simp add: read_unit_def be_nat_zeros)
  moreover have "dropWhile (\<lambda>b. b = 0) (replicate m 0 @ bs) = bs" for m
    using assms(1,2) by (induction m) (cases bs; simp)+
  ultimately show ?thesis by simp
qed

lemma be_nat_ge: "bs \<noteq> [] \<Longrightarrow> 0x80 \<le> hd bs \<Longrightarrow> 0x7f < be_nat bs"
proof (induction bs rule: rev_induct)
  case (snoc b bs)
  show ?case
  proof (cases bs)
    case Nil
    with snoc.prems show ?thesis by (simp add: be_nat_def word_le_nat_alt)
  next
    case Cons
    then have "0x7f < be_nat bs" using snoc by simp
    then show ?thesis by (simp only: be_nat_snoc)
  qed
qed simp

lemma mb_lead: "mb_unit fam bs = mb_good (length bs) \<Longrightarrow> 1 < length bs \<Longrightarrow> 0x80 \<le> hd bs"
  by (auto simp: mb_unit_def Let_def mb_good_def not_less split: if_splits)

definition max_len :: "mb_family \<Rightarrow> nat" where
  "max_len fam = (case fam of EucJp \<Rightarrow> 3 | _ \<Rightarrow> 2)"

lemma mb_codepoint_sound:
  assumes "cp < 2 ^ 32" "mb_codepoint_bytes fam cp = Inr bs"
  shows "bs \<noteq> [] \<and> mb_unit fam bs = mb_good (length bs) \<and> be_nat bs = cp"
proof (cases "cp \<le> 0x7f")
  case True
  then have "(of_nat cp :: 8 word) < 0x80" by (simp add: word_less_nat_alt unat_of_nat_byte)
  with True assms(2) show ?thesis
    by (auto simp: mb_codepoint_bytes_def mb_unit_def be_nat_def unat_of_nat_byte)
next
  case False
  define bs0 where "bs0 = dropWhile (\<lambda>b. b = 0) (write_unit True 4 cp)"
  have cp: "be_nat bs0 = cp" using read_write4[of cp True] assms(1) by (simp add: bs0_def be_nat_strip read_unit_def)
  then have "bs0 \<noteq> []" using False by (auto simp: be_nat_def)
  with assms(2) False have "bs = bs0" "\<exists>st. mb_unit fam bs0 = (length bs0, True, st)"
    unfolding mb_codepoint_bytes_def Let_def bs0_def[symmetric] by (auto split: if_splits prod.splits)
  then show ?thesis using cp \<open>bs0 \<noteq> []\<close> mb_unit_style by (fastforce simp: mb_good_def)
qed

lemma mb_codepoint_complete:
  assumes "bs \<noteq> []" "mb_unit fam bs = mb_good (length bs)" "length bs \<le> 4"
  shows "mb_codepoint_bytes fam (be_nat bs) = (if length bs \<le> max_len fam then Inr bs else Inl OutOfRange)"
proof (cases "be_nat bs \<le> 0x7f")
  case True
  then have "\<not> 0x80 \<le> hd bs" using be_nat_ge[OF assms(1)] by auto
  then have "length bs = 1" using mb_lead[OF assms(2)] assms(1) by (cases bs; cases "tl bs") auto
  then obtain b where "bs = [b]" by (auto simp: length_Suc_conv)
  with True show ?thesis by (simp add: mb_codepoint_bytes_def be_nat_def max_len_def split: mb_family.splits)
next
  case False
  have "hd bs \<noteq> 0"
  proof
    assume h: "hd bs = 0"
    then have "length bs = 1" using mb_lead[OF assms(2)] assms(1) by (cases bs; cases "tl bs") auto
    with h False show False by (auto simp: length_Suc_conv be_nat_def)
  qed
  from codepoint_bytes_of[OF assms(1) this assms(3)] False assms(1,2) show ?thesis
    by (auto simp: mb_codepoint_bytes_def Let_def max_len_def mb_good_def split: mb_family.splits)
qed

end
