(* ===== verification/EncodingTable.thy ===== *)
theory EncodingTable
  imports Encodings
begin

text \<open>
  The encodings of the runtime (\<^verbatim>\<open>enc/registry.rs\<close>, \<^verbatim>\<open>enc/table.rs\<close>) row by row, lookup by name, and the classification of a string's bytes
  (\<^verbatim>\<open>enc/coderange.rs\<close>).  An \<^verbatim>\<open>EncodingId\<close> is its index in the table.  The mapping tables of the single-byte rows are left out.
\<close>

datatype enc_family = FUtf8 | FAscii | FLatin1 | FBinary | FSingleByte | FMultiByte mb_family | FUtf16 bool | FUtf32 bool | FRegistered

record encoding_spec =
  spec_name :: string
  spec_aliases :: "string list"
  spec_ascii_compatible :: bool
  spec_kind :: enc_family
  spec_dummy :: bool

definition mk_spec :: "string \<Rightarrow> string list \<Rightarrow> bool \<Rightarrow> enc_family \<Rightarrow> bool \<Rightarrow> encoding_spec" where
  "mk_spec n as ac k d = \<lparr>spec_name = n, spec_aliases = as, spec_ascii_compatible = ac, spec_kind = k, spec_dummy = d\<rparr>"

definition ASCII_8BIT :: nat where
  "ASCII_8BIT = 0"

definition UTF_8 :: nat where
  "UTF_8 = 1"

definition US_ASCII :: nat where
  "US_ASCII = 2"

definition ENCODINGS_0 :: "encoding_spec list" where
  "ENCODINGS_0 =
    [mk_spec ''ASCII-8BIT'' [''BINARY''] True FBinary False,
     mk_spec ''UTF-8'' [''CP65001''] True FUtf8 False,
     mk_spec ''US-ASCII'' [''ASCII'', ''ANSI_X3.4-1968'', ''646''] True FAscii False,
     mk_spec ''UTF-16BE'' [''UCS-2BE''] False (FUtf16 True) False,
     mk_spec ''UTF-16LE'' [] False (FUtf16 False) False,
     mk_spec ''UTF-32BE'' [''UCS-4BE''] False (FUtf32 True) False,
     mk_spec ''UTF-32LE'' [''UCS-4LE''] False (FUtf32 False) False,
     mk_spec ''UTF-16'' [] False FBinary True,
     mk_spec ''UTF-32'' [] False FBinary True,
     mk_spec ''UTF8-MAC'' [''UTF-8-MAC'', ''UTF-8-HFS''] True FRegistered False,
     mk_spec ''EUC-JP'' [''eucJP''] True (FMultiByte EucJp) False,
     mk_spec ''Windows-31J'' [''CP932'', ''csWindows31J'', ''SJIS'', ''PCK''] True (FMultiByte Sjis) False,
     mk_spec ''Big5'' [] True (FMultiByte Big5) False,
     mk_spec ''Big5-HKSCS'' [''Big5-HKSCS:2008''] True (FMultiByte Big5) False,
     mk_spec ''Big5-UAO'' [] True FRegistered False,
     mk_spec ''CESU-8'' [] True FRegistered False,
     mk_spec ''CP949'' [] True (FMultiByte Cp949) False,
     mk_spec ''Emacs-Mule'' [] True FRegistered False]"

definition ENCODINGS_1 :: "encoding_spec list" where
  "ENCODINGS_1 =
    [mk_spec ''EUC-KR'' [''eucKR''] True (FMultiByte EucKr) False,
     mk_spec ''EUC-TW'' [''eucTW''] True FRegistered False,
     mk_spec ''GB18030'' [] True (FMultiByte Gb18030) False,
     mk_spec ''GBK'' [''CP936''] True (FMultiByte Gbk) False,
     mk_spec ''ISO-8859-1'' [''ISO8859-1''] True FLatin1 False,
     mk_spec ''ISO-8859-2'' [''ISO8859-2''] True FSingleByte False,
     mk_spec ''ISO-8859-3'' [''ISO8859-3''] True FSingleByte False,
     mk_spec ''ISO-8859-4'' [''ISO8859-4''] True FSingleByte False,
     mk_spec ''ISO-8859-5'' [''ISO8859-5''] True FSingleByte False,
     mk_spec ''ISO-8859-6'' [''ISO8859-6''] True FSingleByte False,
     mk_spec ''ISO-8859-7'' [''ISO8859-7''] True FSingleByte False,
     mk_spec ''ISO-8859-8'' [''ISO8859-8''] True FSingleByte False,
     mk_spec ''ISO-8859-9'' [''ISO8859-9''] True FSingleByte False,
     mk_spec ''ISO-8859-10'' [''ISO8859-10''] True FSingleByte False,
     mk_spec ''ISO-8859-11'' [''ISO8859-11''] True FSingleByte False,
     mk_spec ''ISO-8859-13'' [''ISO8859-13''] True FSingleByte False,
     mk_spec ''ISO-8859-14'' [''ISO8859-14''] True FSingleByte False,
     mk_spec ''ISO-8859-15'' [''ISO8859-15''] True FSingleByte False]"

definition ENCODINGS_2 :: "encoding_spec list" where
  "ENCODINGS_2 =
    [mk_spec ''ISO-8859-16'' [''ISO8859-16''] True FSingleByte False,
     mk_spec ''KOI8-R'' [''CP878''] True FSingleByte False,
     mk_spec ''KOI8-U'' [] True FSingleByte False,
     mk_spec ''Shift_JIS'' [] True (FMultiByte Sjis) False,
     mk_spec ''Windows-1250'' [''CP1250''] True FSingleByte False,
     mk_spec ''Windows-1251'' [''CP1251''] True FSingleByte False,
     mk_spec ''Windows-1252'' [''CP1252''] True FSingleByte False,
     mk_spec ''Windows-1253'' [''CP1253''] True FSingleByte False,
     mk_spec ''Windows-1254'' [''CP1254''] True FSingleByte False,
     mk_spec ''Windows-1257'' [''CP1257''] True FSingleByte False,
     mk_spec ''IBM437'' [''CP437''] True FSingleByte False,
     mk_spec ''IBM720'' [''CP720''] True FSingleByte False,
     mk_spec ''IBM737'' [''CP737''] True FSingleByte False,
     mk_spec ''IBM775'' [''CP775''] True FSingleByte False,
     mk_spec ''CP850'' [''IBM850''] True FSingleByte False,
     mk_spec ''IBM852'' [] True FSingleByte False,
     mk_spec ''CP852'' [] True FSingleByte False,
     mk_spec ''IBM855'' [] True FSingleByte False]"

definition ENCODINGS_3 :: "encoding_spec list" where
  "ENCODINGS_3 =
    [mk_spec ''CP855'' [] True FSingleByte False,
     mk_spec ''IBM857'' [''CP857''] True FSingleByte False,
     mk_spec ''IBM860'' [''CP860''] True FSingleByte False,
     mk_spec ''IBM861'' [''CP861''] True FSingleByte False,
     mk_spec ''IBM862'' [''CP862''] True FSingleByte False,
     mk_spec ''IBM863'' [''CP863''] True FSingleByte False,
     mk_spec ''IBM864'' [''CP864''] True FSingleByte False,
     mk_spec ''IBM865'' [''CP865''] True FSingleByte False,
     mk_spec ''IBM866'' [''CP866''] True FSingleByte False,
     mk_spec ''IBM869'' [''CP869''] True FSingleByte False,
     mk_spec ''Windows-1258'' [''CP1258''] True FRegistered False,
     mk_spec ''GB1988'' [] True FRegistered False,
     mk_spec ''macCentEuro'' [] True FRegistered False,
     mk_spec ''macCroatian'' [] True FSingleByte False,
     mk_spec ''macCyrillic'' [] True FSingleByte False,
     mk_spec ''macGreek'' [] True FSingleByte False,
     mk_spec ''macIceland'' [] True FSingleByte False,
     mk_spec ''macRoman'' [] True FSingleByte False]"

definition ENCODINGS_4 :: "encoding_spec list" where
  "ENCODINGS_4 =
    [mk_spec ''macRomania'' [] True FSingleByte False,
     mk_spec ''macThai'' [] True FRegistered False,
     mk_spec ''macTurkish'' [] True FSingleByte False,
     mk_spec ''macUkraine'' [] True FSingleByte False,
     mk_spec ''CP950'' [] True FRegistered False,
     mk_spec ''CP951'' [] True FRegistered False,
     mk_spec ''IBM037'' [''ebcdic-cp-us''] False FRegistered True,
     mk_spec ''stateless-ISO-2022-JP'' [] True FRegistered False,
     mk_spec ''eucJP-ms'' [''euc-jp-ms''] True (FMultiByte EucJp) False,
     mk_spec ''CP51932'' [] True (FMultiByte EucJp) False,
     mk_spec ''EUC-JIS-2004'' [''EUC-JISX0213''] True FRegistered False,
     mk_spec ''GB2312'' [''EUC-CN'', ''eucCN''] True (FMultiByte Gbk) False,
     mk_spec ''GB12345'' [] True FRegistered False,
     mk_spec ''ISO-2022-JP'' [''ISO2022-JP''] False FBinary True,
     mk_spec ''ISO-2022-JP-2'' [''ISO2022-JP2''] False FRegistered True,
     mk_spec ''CP50220'' [] False FRegistered True,
     mk_spec ''CP50221'' [] False FRegistered True,
     mk_spec ''Windows-1256'' [''CP1256''] True FSingleByte False]"

definition ENCODINGS_5 :: "encoding_spec list" where
  "ENCODINGS_5 =
    [mk_spec ''Windows-1255'' [''CP1255''] True FSingleByte False,
     mk_spec ''TIS-620'' [] True FSingleByte False,
     mk_spec ''Windows-874'' [''CP874''] True FSingleByte False,
     mk_spec ''MacJapanese'' [''MacJapan''] True FRegistered False,
     mk_spec ''UTF-7'' [''CP65000''] False FRegistered True,
     mk_spec ''UTF8-DoCoMo'' [] True FRegistered False,
     mk_spec ''SJIS-DoCoMo'' [] True FRegistered False,
     mk_spec ''UTF8-KDDI'' [] True FRegistered False,
     mk_spec ''SJIS-KDDI'' [] True FRegistered False,
     mk_spec ''ISO-2022-JP-KDDI'' [] False FRegistered True,
     mk_spec ''stateless-ISO-2022-JP-KDDI'' [] True FRegistered False,
     mk_spec ''UTF8-SoftBank'' [] True FRegistered False,
     mk_spec ''SJIS-SoftBank'' [] True FRegistered False]"

definition ENCODINGS :: "encoding_spec list" where
  "ENCODINGS = ENCODINGS_0 @ ENCODINGS_1 @ ENCODINGS_2 @ ENCODINGS_3 @ ENCODINGS_4 @ ENCODINGS_5"

definition enc_spec :: "nat \<Rightarrow> encoding_spec" where
  "enc_spec e = ENCODINGS ! e"

definition kind :: "nat \<Rightarrow> enc_family" where
  "kind e = spec_kind (enc_spec e)"

definition ascii_compatible :: "nat \<Rightarrow> bool" where
  "ascii_compatible e = spec_ascii_compatible (enc_spec e)"

definition enc_name :: "nat \<Rightarrow> string" where
  "enc_name e = spec_name (enc_spec e)"

text \<open>Names are ASCII.\<close>

definition to_lowercase :: "nat \<Rightarrow> nat" where
  "to_lowercase c = (if 65 \<le> c \<and> c \<le> 90 then c + 32 else c)"

definition normalize_name :: "string \<Rightarrow> nat list" where
  "normalize_name s = map (\<lambda>c. to_lowercase (of_char c)) (filter (\<lambda>c. c \<noteq> CHR ''-'' \<and> c \<noteq> CHR ''_'') s)"

definition find_encoding :: "string \<Rightarrow> nat option" where
  "find_encoding s =
     (let want = normalize_name s
      in position (\<lambda>row. list_ex (\<lambda>n. normalize_name n = want) (spec_name row # spec_aliases row)) ENCODINGS)"

lemma length_ENCODINGS: "length ENCODINGS = 103"
  by code_simp

section \<open>Classification of a string\<close>

datatype code_range = Unknown | SevenBit | Valid | Broken

primrec wide_of :: "enc_family \<Rightarrow> wide option" where
  "wide_of FUtf8 = None"
| "wide_of FAscii = None"
| "wide_of FLatin1 = None"
| "wide_of FBinary = None"
| "wide_of FRegistered = None"
| "wide_of FSingleByte = None"
| "wide_of (FMultiByte fam) = None"
| "wide_of (FUtf16 be) = Some \<lparr>w_width = 2, w_be = be\<rparr>"
| "wide_of (FUtf32 be) = Some \<lparr>w_width = 4, w_be = be\<rparr>"

definition wide_valid :: "enc_family \<Rightarrow> octets \<Rightarrow> bool" where
  "wide_valid k bs =
     (case wide_of k of Some w \<Rightarrow> list_all (\<lambda>(a, e, c). decoded c) (wide_ranges w bs) | None \<Rightarrow> False)"

definition compute_coderange :: "octets \<Rightarrow> nat \<Rightarrow> code_range" where
  "compute_coderange bs e =
     (if ascii_compatible e \<and> list_all (\<lambda>b. b < 0x80) bs then SevenBit
      else case kind e of
        FUtf8 \<Rightarrow> if valid_utf8 bs then Valid else Broken
      | FAscii \<Rightarrow> Broken
      | FLatin1 \<Rightarrow> Valid
      | FBinary \<Rightarrow> Valid
      | FRegistered \<Rightarrow> Valid
      | FSingleByte \<Rightarrow> Valid
      | FMultiByte fam \<Rightarrow> if list_all (\<lambda>(a, e, v). v) (mb_ranges fam bs) then Valid else Broken
      | FUtf16 be \<Rightarrow> if wide_valid (FUtf16 be) bs then Valid else Broken
      | FUtf32 be \<Rightarrow> if wide_valid (FUtf32 be) bs then Valid else Broken)"

section \<open>What the rows promise\<close>

lemma rows_compat:
  "list_all (\<lambda>row. case spec_kind row of
       FUtf16 be \<Rightarrow> \<not> spec_ascii_compatible row | FUtf32 be \<Rightarrow> \<not> spec_ascii_compatible row
     | FBinary \<Rightarrow> True | FRegistered \<Rightarrow> True | _ \<Rightarrow> spec_ascii_compatible row) ENCODINGS"
  by code_simp

lemma kind_compat:
  assumes "e < length ENCODINGS"
  shows "kind e = FUtf16 be \<Longrightarrow> \<not> ascii_compatible e" "kind e = FUtf32 be \<Longrightarrow> \<not> ascii_compatible e"
    "kind e \<in> {FUtf8, FAscii, FLatin1, FSingleByte} \<Longrightarrow> ascii_compatible e" "kind e = FMultiByte fam \<Longrightarrow> ascii_compatible e"
proof -
  have "ENCODINGS ! e \<in> set ENCODINGS" using assms by simp
  then have "case kind e of
       FUtf16 be \<Rightarrow> \<not> ascii_compatible e | FUtf32 be \<Rightarrow> \<not> ascii_compatible e
     | FBinary \<Rightarrow> True | FRegistered \<Rightarrow> True | _ \<Rightarrow> ascii_compatible e"
    using rows_compat unfolding list_all_iff kind_def ascii_compatible_def enc_spec_def by (rule bspec[rotated])
  then show "kind e = FUtf16 be \<Longrightarrow> \<not> ascii_compatible e" "kind e = FUtf32 be \<Longrightarrow> \<not> ascii_compatible e"
    "kind e \<in> {FUtf8, FAscii, FLatin1, FSingleByte} \<Longrightarrow> ascii_compatible e" "kind e = FMultiByte fam \<Longrightarrow> ascii_compatible e"
    by auto
qed

text \<open>The characters of an encoding, as byte strings.\<close>

primrec character :: "enc_family \<Rightarrow> octets \<Rightarrow> bool" where
  "character FUtf8 bs \<longleftrightarrow> (\<exists>c. scalar c \<and> bs = utf8_bytes c)"
| "character FAscii bs \<longleftrightarrow> (\<exists>b<0x80. bs = [b])"
| "character FLatin1 bs \<longleftrightarrow> length bs = 1"
| "character FBinary bs \<longleftrightarrow> length bs = 1"
| "character FRegistered bs \<longleftrightarrow> length bs = 1"
| "character FSingleByte bs \<longleftrightarrow> length bs = 1"
| "character (FMultiByte fam) bs \<longleftrightarrow> bs \<noteq> [] \<and> mb_unit fam bs = mb_good (length bs)"
| "character (FUtf16 be) bs \<longleftrightarrow> (\<exists>c. scalar c \<and> bs = wide_encode_char \<lparr>w_width = 2, w_be = be\<rparr> c)"
| "character (FUtf32 be) bs \<longleftrightarrow> (\<exists>c. scalar c \<and> bs = wide_encode_char \<lparr>w_width = 4, w_be = be\<rparr> c)"

definition text_of :: "enc_family \<Rightarrow> octets \<Rightarrow> bool" where
  "text_of k bs \<longleftrightarrow> (\<exists>cs. bs = concat cs \<and> (\<forall>c\<in>set cs. character k c))"

lemma single_byte_text: "(\<And>b. P [b]) \<Longrightarrow> \<exists>cs. bs = concat cs \<and> (\<forall>c\<in>set cs. P c)"
  by (intro exI[of _ "map (\<lambda>b. [b]) bs"]) auto

lemma mbw_is_char: "(\<exists>v. mbw.is_char fam c v) \<longleftrightarrow> character (FMultiByte fam) c"
  unfolding mbw.is_char_def by (auto simp: mb_good_def dest: mb_unit_style)

lemma utf16_is_char: "(\<exists>v. utf16.is_char be c v) \<longleftrightarrow> character (FUtf16 be) c"
  using wide_unit_iff[of "\<lparr>w_width = 2, w_be = be\<rparr>" c] by (simp add: utf16.is_char_def wide_ok_def)

lemma utf32_is_char: "(\<exists>v. utf32.is_char be c v) \<longleftrightarrow> character (FUtf32 be) c"
  using wide_unit_iff[of "\<lparr>w_width = 4, w_be = be\<rparr>" c] by (simp add: utf32.is_char_def wide_ok_def)

lemma mb_valid_iff: "list_all (\<lambda>(a, e, v). v) (mb_ranges fam bs) \<longleftrightarrow> text_of (FMultiByte fam) bs"
  using mbw.ranges_ok_iff[of fam bs 0] unfolding mb_ranges_def text_of_def mbw_is_char .

lemma wide_valid_iff: "wide_of k = Some w \<Longrightarrow> wide_valid k bs \<longleftrightarrow> text_of k bs"
  using utf16.ranges_ok_iff[of _ bs 0] utf32.ranges_ok_iff[of _ bs 0]
  unfolding utf16_is_char utf32_is_char text_of_def wide_valid_def wide_ranges_def
  by (cases k) auto

lemma utf8_text: "valid_utf8 bs \<longleftrightarrow> text_of FUtf8 bs"
proof -
  have "(\<exists>cs. list_all scalar cs \<and> bs = concat (map utf8_bytes cs)) \<longleftrightarrow> (\<exists>cs. bs = concat cs \<and> (\<forall>c\<in>set cs. \<exists>s. scalar s \<and> c = utf8_bytes s))"
    (is "?l \<longleftrightarrow> ?r")
  proof
    assume ?r
    then obtain cs where cs: "bs = concat cs" "\<forall>c\<in>set cs. \<exists>s. scalar s \<and> c = utf8_bytes s" by blast
    then obtain f where "\<forall>c\<in>set cs. scalar (f c) \<and> c = utf8_bytes (f c)" by metis
    then have "list_all scalar (map f cs)" "map utf8_bytes (map f cs) = cs"
      by (auto simp: list_all_iff map_idI)
    with cs(1) show ?l by metis
  next
    assume ?l
    then obtain cs where "list_all scalar cs" "bs = concat (map utf8_bytes cs)" by blast
    then show ?r by (intro exI[of _ "map utf8_bytes cs"]) (auto simp: list_all_iff)
  qed
  then show ?thesis by (simp add: valid_utf8_iff text_of_def)
qed

lemma single_text: "length c = 1 \<longleftrightarrow> (\<exists>b. c = [b])"
  by (auto simp: length_Suc_conv)

lemma seven_bit_character:
  assumes "ascii_compatible e" "e < length ENCODINGS" "b < 0x80"
  shows "character (kind e) [b]"
proof -
  have "character FUtf8 [b]"
    using assms(3) by (auto simp: word_less_nat_alt scalar_iff utf8_bytes_def intro!: exI[of _ "unat b"])
  moreover have "character (FMultiByte fam) [b]" for fam using assms(3) by (simp add: mb_unit_def)
  ultimately show ?thesis
    using assms(1,3) kind_compat(1,2)[OF assms(2)] by (cases "kind e") auto
qed

lemma seven_bit_text:
  assumes "ascii_compatible e" "e < length ENCODINGS" "list_all (\<lambda>b. b < 0x80) bs"
  shows "text_of (kind e) bs"
  unfolding text_of_def using assms seven_bit_character
  by (intro exI[of _ "map (\<lambda>b. [b]) bs"]) (auto simp: list_all_iff)

lemma ascii_text: "text_of FAscii bs \<longleftrightarrow> list_all (\<lambda>b. b < 0x80) bs"
proof
  assume "list_all (\<lambda>b. b < 0x80) bs"
  then show "text_of FAscii bs"
    unfolding text_of_def by (intro exI[of _ "map (\<lambda>b. [b]) bs"]) (auto simp: list_all_iff)
qed (fastforce simp: text_of_def list_all_iff)

lemma any_text: "(\<And>b. character k [b]) \<Longrightarrow> text_of k bs"
  unfolding text_of_def by (intro exI[of _ "map (\<lambda>b. [b]) bs"]) auto

lemma coderange_text:
  assumes "e < length ENCODINGS"
  shows "compute_coderange bs e \<noteq> Broken \<longleftrightarrow> text_of (kind e) bs"
proof (cases "ascii_compatible e \<and> list_all (\<lambda>b. b < 0x80) bs")
  case True
  then show ?thesis using seven_bit_text[OF _ assms] by (simp add: compute_coderange_def)
next
  case False
  then show ?thesis
    using kind_compat(3)[OF assms]
    by (cases "kind e")
      (auto simp: compute_coderange_def utf8_text mb_valid_iff wide_valid_iff ascii_text intro: any_text)
qed

section \<open>Properties\<close>

text \<open>
  A multibyte codepoint is the character's bytes read as a big-endian number: what \<^verbatim>\<open>Integer#chr\<close> accepts is a character whose
  number is the codepoint, and every character of at most the family's number of bytes is the answer for its number.  Longer
  characters, which only GB18030 has, are out of range.
\<close>

theorem mb_codepoints_are_characters:
  "(cp < 2 ^ 32 \<and> mb_codepoint_bytes fam cp = Inr bs \<longrightarrow> character (FMultiByte fam) bs \<and> be_nat bs = cp) \<and>
   (character (FMultiByte fam) c \<and> length c \<le> 4 \<longrightarrow>
      mb_codepoint_bytes fam (be_nat c) = (if length c \<le> max_len fam then Inr c else Inl OutOfRange))"
  using mb_codepoint_sound[of cp fam bs] mb_codepoint_complete[of c fam] by simp

theorem mb_codepoints_are_characters_witness:
  "character (FMultiByte Sjis) [0x82, 0xa0] \<and> be_nat [0x82, 0xa0] = 0x82a0 \<and> mb_codepoint_bytes Sjis (be_nat [0x82, 0xa0]) = Inr [0x82, 0xa0]"
proof -
  have "character (FMultiByte Sjis) [0x82, 0xa0]" by (simp add: mb_unit_def in_range_def follow_def)
  moreover from this mb_codepoints_are_characters[of 0 Sjis "[]" "[0x82, 0xa0]"]
  have "mb_codepoint_bytes Sjis (be_nat [0x82, 0xa0]) = Inr [0x82, 0xa0]" by (simp add: max_len_def)
  moreover have "be_nat [0x82, 0xa0] = 0x82a0" by (simp add: be_nat_def)
  ultimately show ?thesis by blast
qed

text \<open>The four-byte characters of GB18030 have no codepoint, although the walk accepts them.\<close>

theorem gb18030_four_bytes_have_no_codepoint:
  "character (FMultiByte Gb18030) [0x81, 0x30, 0x81, 0x30] \<and> mb_codepoint_bytes Gb18030 (be_nat [0x81, 0x30, 0x81, 0x30]) = Inl OutOfRange"
proof -
  have "mb_unit Gb18030 [0x81, 0x30, 0x81, 0x30] = mb_good 4" by (simp add: mb_unit_def in_range_def)
  moreover have "mb_good (Suc (Suc (Suc (Suc 0)))) = mb_good 4" by (simp add: numeral_eq_Suc)
  ultimately show ?thesis using mb_codepoint_complete[of "[0x81, 0x30, 0x81, 0x30]" Gb18030] by (simp add: max_len_def)
qed

end
