(* ===== verification/StrBuf.thy ===== *)
theory StrBuf
  imports EncodingTable
begin

text \<open>
  A Ruby string's payload (\<^verbatim>\<open>enc/strbuf.rs\<close>): bytes, an encoding and the cached classification.  The byte storage is copy-on-write
  in the code and one list here.  Character positions are \<^verbatim>\<open>i64\<close>; a length is below \<^verbatim>\<open>2 ^ 63\<close>, so the only sum that can leave the
  type is the saturating one of \<^verbatim>\<open>char_substr\<close>, which is clamped to the length at once.
\<close>

record strbuf =
  sb_bytes :: octets
  sb_enc :: nat
  sb_coderange :: code_range

definition from_bytes :: "octets \<Rightarrow> nat \<Rightarrow> strbuf" where
  "from_bytes bs e = \<lparr>sb_bytes = bs, sb_enc = e, sb_coderange = Unknown\<rparr>"

definition from_utf8 :: "octets \<Rightarrow> strbuf" where
  "from_utf8 bs = from_bytes bs UTF_8"

text \<open>Reading the classification fills the cache; the functions below only use the answer.\<close>

definition fill_coderange :: "strbuf \<Rightarrow> strbuf" where
  "fill_coderange b = (if sb_coderange b = Unknown then b\<lparr>sb_coderange := compute_coderange (sb_bytes b) (sb_enc b)\<rparr> else b)"

definition coderange :: "strbuf \<Rightarrow> code_range" where
  "coderange b = sb_coderange (fill_coderange b)"

definition ascii_only :: "strbuf \<Rightarrow> bool" where
  "ascii_only b \<longleftrightarrow> coderange b = SevenBit"

definition valid_encoding :: "strbuf \<Rightarrow> bool" where
  "valid_encoding b \<longleftrightarrow> coderange b \<noteq> Broken"

definition set_encoding :: "strbuf \<Rightarrow> nat \<Rightarrow> strbuf" where
  "set_encoding b e = b\<lparr>sb_enc := e, sb_coderange := Unknown\<rparr>"

definition as_str :: "strbuf \<Rightarrow> octets option" where
  "as_str b =
     (let direct = (case kind (sb_enc b) of FUtf8 \<Rightarrow> valid_encoding b | _ \<Rightarrow> ascii_only b)
      in if direct then Some (sb_bytes b) else None)"

subsection \<open>Characters\<close>

definition utf8_seq_len :: "8 word \<Rightarrow> nat" where
  "utf8_seq_len lead =
     (if lead \<le> 0x7f then 1
      else if 0xc0 \<le> lead \<and> lead \<le> 0xdf then 2
      else if 0xe0 \<le> lead \<and> lead \<le> 0xef then 3
      else if 0xf0 \<le> lead \<and> lead \<le> 0xf7 then 4
      else 1)"

text \<open>One turn of the UTF-8 loop, with a note whether the bytes are a character.\<close>

definition utf8_unit :: "octets \<Rightarrow> nat \<times> bool" where
  "utf8_unit bs =
     (let want = utf8_seq_len (hd bs); seq = take want bs
      in if 1 < want \<and> valid_utf8 seq then (length seq, True) else (1, hd bs < 0x80))"

lemma utf8_unit_bounds: "bs \<noteq> [] \<Longrightarrow> utf8_unit bs = (n, x) \<Longrightarrow> 0 < n \<and> n \<le> length bs"
  by (cases bs) (auto simp: utf8_unit_def Let_def split: if_splits)

lemma utf8_unit_shrinks: "bs \<noteq> [] \<Longrightarrow> (n, x) = utf8_unit bs \<Longrightarrow> length bs - n < length bs"
  by (metis utf8_unit_bounds diff_less length_greater_0_conv)

function utf8_ranges_from :: "octets \<Rightarrow> nat \<Rightarrow> (nat \<times> nat \<times> bool) list" where
  "utf8_ranges_from bs i =
     (if bs = [] then []
      else case utf8_unit bs of (n, v) \<Rightarrow> (i, i + n, v) # utf8_ranges_from (drop n bs) (i + n))"
  by auto

termination utf8_ranges_from
  by (relation "measure (\<lambda>(bs, i). length bs)") (auto intro: utf8_unit_shrinks)

declare utf8_ranges_from.simps [simp del]

definition span :: "nat \<times> nat \<times> 'a \<Rightarrow> nat \<times> nat" where
  "span r = (fst r, fst (snd r))"

lemma span_simps [simp]: "span (a, b, x) = (a, b)"
  by (simp add: span_def)

definition byte_ranges :: "nat \<Rightarrow> (nat \<times> nat) list" where
  "byte_ranges n = map (\<lambda>i. (i, i + 1)) [0..<n]"

definition ranges_of :: "enc_family \<Rightarrow> octets \<Rightarrow> (nat \<times> nat) list" where
  "ranges_of k bs =
     (case k of
        FUtf8 \<Rightarrow> map span (utf8_ranges_from bs 0)
      | FMultiByte fam \<Rightarrow> map span (mb_ranges fam bs)
      | FUtf16 be \<Rightarrow> map span (wide_ranges \<lparr>w_width = 2, w_be = be\<rparr> bs)
      | FUtf32 be \<Rightarrow> map span (wide_ranges \<lparr>w_width = 4, w_be = be\<rparr> bs)
      | _ \<Rightarrow> byte_ranges (length bs))"

definition char_ranges :: "strbuf \<Rightarrow> (nat \<times> nat) list" where
  "char_ranges b = ranges_of (kind (sb_enc b)) (sb_bytes b)"

definition byte_per_char :: "strbuf \<Rightarrow> bool" where
  "byte_per_char b =
     (case kind (sb_enc b) of
        FUtf8 \<Rightarrow> ascii_only b | FMultiByte fam \<Rightarrow> ascii_only b
      | FUtf16 be \<Rightarrow> False | FUtf32 be \<Rightarrow> False
      | _ \<Rightarrow> True)"

definition slice_bytes :: "octets \<Rightarrow> nat \<times> nat \<Rightarrow> octets" where
  "slice_bytes bs r = take (snd r - fst r) (drop (fst r) bs)"

definition get_at :: "'a list \<Rightarrow> int \<Rightarrow> 'a option" where
  "get_at xs i =
     (let idx = (if i < 0 then i + int (length xs) else i)
      in if 0 \<le> idx \<and> nat idx < length xs then Some (xs ! nat idx) else None)"

definition char_at :: "strbuf \<Rightarrow> int \<Rightarrow> strbuf option" where
  "char_at b i =
     (if byte_per_char b then map_option (\<lambda>x. from_bytes [x] (sb_enc b)) (get_at (sb_bytes b) i)
      else map_option (\<lambda>r. from_bytes (slice_bytes (sb_bytes b) r) (sb_enc b)) (get_at (char_ranges b) i))"

text \<open>The start and end positions of a substring among \<open>n\<close> characters.\<close>

definition clamp_span :: "nat \<Rightarrow> int \<Rightarrow> int \<Rightarrow> (nat \<times> nat) option" where
  "clamp_span n start len =
     (let s = (if start < 0 then start + int n else start)
      in if s < 0 \<or> int n < s \<or> len < 0 then None
         else Some (nat s, nat (min (min (s + len) (2 ^ 63 - 1)) (int n))))"

definition char_substr :: "strbuf \<Rightarrow> int \<Rightarrow> int \<Rightarrow> strbuf option" where
  "char_substr b start len =
     (if byte_per_char b
      then map_option (\<lambda>r. from_bytes (slice_bytes (sb_bytes b) r) (sb_enc b)) (clamp_span (length (sb_bytes b)) start len)
      else let ranges = char_ranges b
        in map_option (\<lambda>(s, e).
             from_bytes (if s = e then [] else slice_bytes (sb_bytes b) (fst (ranges ! s), snd (ranges ! (e - 1)))) (sb_enc b))
             (clamp_span (length ranges) start len))"

definition reversed :: "strbuf \<Rightarrow> strbuf" where
  "reversed b = from_bytes (concat (map (slice_bytes (sb_bytes b)) (rev (char_ranges b)))) (sb_enc b)"

definition char_len :: "strbuf \<Rightarrow> nat" where
  "char_len b =
     (case kind (sb_enc b) of
        FUtf8 \<Rightarrow> if ascii_only b then length (sb_bytes b) else length (char_ranges b)
      | FMultiByte fam \<Rightarrow> if ascii_only b then length (sb_bytes b) else length (char_ranges b)
      | FUtf16 be \<Rightarrow> length (char_ranges b)
      | FUtf32 be \<Rightarrow> length (char_ranges b)
      | _ \<Rightarrow> length (sb_bytes b))"

subsection \<open>Concatenation, mutation and equality\<close>

definition compat_concat_enc :: "strbuf \<Rightarrow> strbuf \<Rightarrow> nat option" where
  "compat_concat_enc l r =
     (if sb_enc l = sb_enc r then Some (sb_enc l)
      else if sb_bytes r = [] then Some (sb_enc l)
      else if sb_bytes l = [] then
        (if ascii_compatible (sb_enc l) \<and> ascii_compatible (sb_enc r) \<and> ascii_only r then Some (sb_enc l)
         else Some (sb_enc r))
      else if \<not> ascii_compatible (sb_enc l) \<or> \<not> ascii_compatible (sb_enc r) then None
      else if ascii_only r then Some (sb_enc l)
      else if ascii_only l then Some (sb_enc r)
      else None)"

definition push_buf :: "strbuf \<Rightarrow> strbuf \<Rightarrow> strbuf option" where
  "push_buf l r =
     (case compat_concat_enc l r of
        None \<Rightarrow> None
      | Some e \<Rightarrow> Some \<lparr>sb_bytes = sb_bytes l @ sb_bytes r, sb_enc = e, sb_coderange = Unknown\<rparr>)"

definition push_bytes :: "strbuf \<Rightarrow> octets \<Rightarrow> strbuf" where
  "push_bytes b bs = b\<lparr>sb_bytes := sb_bytes b @ bs, sb_coderange := Unknown\<rparr>"

definition push_str :: "strbuf \<Rightarrow> octets \<Rightarrow> strbuf" where
  "push_str b s = b\<lparr>sb_bytes := sb_bytes b @ s, sb_coderange := Unknown\<rparr>"

definition replace_utf8 :: "strbuf \<Rightarrow> octets \<Rightarrow> strbuf" where
  "replace_utf8 b s = b\<lparr>sb_bytes := s, sb_coderange := Unknown\<rparr>"

definition replace_bytes :: "strbuf \<Rightarrow> octets \<Rightarrow> nat \<Rightarrow> strbuf" where
  "replace_bytes b bs e = \<lparr>sb_bytes = bs, sb_enc = e, sb_coderange = Unknown\<rparr>"

definition hash_key_tag :: "strbuf \<Rightarrow> nat" where
  "hash_key_tag b = (if ascii_only b then 0 else sb_enc b + 1)"

definition str_eq :: "strbuf \<Rightarrow> strbuf \<Rightarrow> bool" where
  "str_eq a b \<longleftrightarrow> sb_bytes a = sb_bytes b \<and> hash_key_tag a = hash_key_tag b"

definition getbyte :: "strbuf \<Rightarrow> nat \<Rightarrow> 8 word option" where
  "getbyte b i = (if i < length (sb_bytes b) then Some (sb_bytes b ! i) else None)"

text \<open>Writing out of range panics.\<close>

definition setbyte :: "strbuf \<Rightarrow> nat \<Rightarrow> 8 word \<Rightarrow> strbuf option" where
  "setbyte b i x =
     (if i < length (sb_bytes b) then Some (b\<lparr>sb_bytes := (sb_bytes b)[i := x], sb_coderange := Unknown\<rparr>) else None)"

section \<open>The cache\<close>

definition strbuf_ok :: "strbuf \<Rightarrow> bool" where
  "strbuf_ok b \<longleftrightarrow>
     sb_enc b < length ENCODINGS \<and> (sb_coderange b = Unknown \<or> sb_coderange b = compute_coderange (sb_bytes b) (sb_enc b))"

lemma coderange_eq [simp]: "strbuf_ok b \<Longrightarrow> coderange b = compute_coderange (sb_bytes b) (sb_enc b)"
  by (auto simp: coderange_def fill_coderange_def strbuf_ok_def)

lemma from_bytes_simps [simp]: "sb_bytes (from_bytes bs e) = bs" "sb_enc (from_bytes bs e) = e"
  by (simp_all add: from_bytes_def)

lemma from_bytes_ok [simp]: "strbuf_ok (from_bytes bs e) \<longleftrightarrow> e < length ENCODINGS"
  by (simp add: from_bytes_def strbuf_ok_def)

lemma ascii_only_iff:
  assumes "strbuf_ok b"
  shows "ascii_only b \<longleftrightarrow> ascii_compatible (sb_enc b) \<and> list_all (\<lambda>x. x < 0x80) (sb_bytes b)"
  using assms by (cases "kind (sb_enc b)") (auto simp: ascii_only_def compute_coderange_def)

lemma valid_iff: "strbuf_ok b \<Longrightarrow> valid_encoding b \<longleftrightarrow> text_of (kind (sb_enc b)) (sb_bytes b)"
  using coderange_text[of "sb_enc b" "sb_bytes b"] by (simp add: valid_encoding_def strbuf_ok_def)

lemma ascii_only_valid: "ascii_only b \<Longrightarrow> valid_encoding b"
  by (simp add: ascii_only_def valid_encoding_def)

section \<open>The UTF-8 walk\<close>

lemma utf8_seq_len_unat:
  "utf8_seq_len a = (if unat a \<le> 127 then 1 else if 192 \<le> unat a \<and> unat a \<le> 223 then 2
     else if 224 \<le> unat a \<and> unat a \<le> 239 then 3 else if 240 \<le> unat a \<and> unat a \<le> 247 then 4 else 1)"
  by (simp add: utf8_seq_len_def word_le_nat_alt)

lemma width_seq_len: "width a \<noteq> 0 \<Longrightarrow> utf8_seq_len a = width a"
  unfolding width_unat utf8_seq_len_unat by (auto split: if_splits)

lemma utf8_unit_char:
  assumes "scalar c"
  shows "utf8_unit (utf8_bytes c @ rest) = (length (utf8_bytes c), True)"
proof -
  obtain a bs where u: "utf8_bytes c = a # bs" "width a = Suc (length bs)" by (rule scan_encode[OF assms])
  then have w: "utf8_seq_len a = length (utf8_bytes c)" using width_seq_len[of a] by simp
  have v: "valid_utf8 (utf8_bytes c)" using valid_utf8_append[OF assms, of "[]"] by simp
  show ?thesis
  proof (cases "bs = []")
    case True
    then have "unat a < 128" using u(2) width_iff(1)[of a] by simp
    then have "a < 0x80" by (simp add: word_less_nat_alt)
    with True u w show ?thesis by (simp add: utf8_unit_def)
  next
    case False
    with u w v show ?thesis by (simp add: utf8_unit_def Let_def)
  qed
qed

lemma utf8_unit_ok:
  assumes "bs \<noteq> []" "utf8_unit bs = (n, True)"
  shows "\<exists>c. scalar c \<and> take n bs = utf8_bytes c"
proof (cases "1 < utf8_seq_len (hd bs) \<and> valid_utf8 (take (utf8_seq_len (hd bs)) bs)")
  case True
  then have n: "n = length (take (utf8_seq_len (hd bs)) bs)" using assms(2) by (simp add: utf8_unit_def)
  obtain a t where bs: "bs = a # t" using assms(1) by (cases bs) auto
  obtain k where k: "utf8_seq_len a = Suc k" using True bs by (cases "utf8_seq_len a") auto
  have "valid_utf8 (a # take k t)" using True by (simp add: bs k)
  then obtain m where s: "scan_char a (take k t) = (True, m)" by (auto simp: valid_utf8.simps split: prod.splits)
  from scan_decode[OF s] obtain c where c: "scalar c" "take m (a # take k t) = utf8_bytes c" "m = width a" by blast
  have "width a \<noteq> 0" using c(2,3) by (metis take_0 utf8_bytes_not_Nil)
  then have "m = Suc k" using c(3) width_seq_len k by simp
  moreover have "take n bs = a # take k t" by (simp add: n bs k min_def)
  ultimately show ?thesis using c by auto
next
  case False
  then have b: "hd bs < 0x80" "n = 1" using assms(2) by (auto simp: utf8_unit_def Let_def split: if_splits)
  then have "unat (hd bs) < 128" by (simp add: word_less_nat_alt)
  then have "scalar (unat (hd bs))" "utf8_bytes (unat (hd bs)) = [hd bs]" by (simp_all add: scalar_iff utf8_bytes_def)
  moreover have "take n bs = [hd bs]" using assms(1) b(2) by (cases bs) auto
  ultimately show ?thesis by metis
qed

interpretation utf8w: unit_walk utf8_unit utf8_ranges_from "\<lambda>v. v" "\<lambda>v. v"
proof
  fix bs :: octets and n x i
  show "utf8_ranges_from [] i = []" by (simp add: utf8_ranges_from.simps)
  assume bs: "bs \<noteq> []" "utf8_unit bs = (n, x)"
  then show "utf8_ranges_from bs i = (i, i + n, x) # utf8_ranges_from (drop n bs) (i + n)"
    by (simp add: utf8_ranges_from.simps[of bs])
  show "0 < n \<and> n \<le> length bs" using utf8_unit_bounds[OF bs] .
  fix rest :: octets
  assume x: x
  with bs utf8_unit_ok[of bs n] obtain c where c: "scalar c" "take n bs = utf8_bytes c" by auto
  moreover have "n = length (utf8_bytes c)"
    using c(2) utf8_unit_bounds[OF bs] by (metis length_take min.absorb2)
  ultimately show "utf8_unit (take n bs @ rest) = (n, x)" using utf8_unit_char[OF c(1), of rest] x by simp
qed

lemma utf8w_is_char: "(\<exists>v. utf8w.is_char c v) \<longleftrightarrow> character FUtf8 c"
proof
  assume "\<exists>v. utf8w.is_char c v"
  then have "c \<noteq> []" "utf8_unit c = (length c, True)" by (auto simp: utf8w.is_char_def)
  from utf8_unit_ok[OF this] show "character FUtf8 c" by simp
next
  assume "character FUtf8 c"
  then obtain s where "scalar s" "c = utf8_bytes s" by auto
  with utf8_unit_char[of s "[]"] show "\<exists>v. utf8w.is_char c v" by (intro exI[of _ True]) (simp add: utf8w.is_char_def, blast)
qed

section \<open>Characters are the slices of the ranges\<close>

definition slices :: "enc_family \<Rightarrow> octets \<Rightarrow> octets list" where
  "slices k bs = map (slice_bytes bs) (ranges_of k bs)"

lemma slices_eq: "map (slice_bytes (sb_bytes b)) (char_ranges b) = slices (kind (sb_enc b)) (sb_bytes b)"
  by (simp add: slices_def char_ranges_def)

text \<open>Ranges that tile the bytes, by their ends.\<close>

fun tile_spans :: "nat \<Rightarrow> nat \<Rightarrow> (nat \<times> nat) list \<Rightarrow> bool" where
  "tile_spans i e [] \<longleftrightarrow> i = e"
| "tile_spans i e ((a, b) # rs) \<longleftrightarrow> a = i \<and> i < b \<and> tile_spans b e rs"

lemma tiles_spans: "tiles i e rs \<Longrightarrow> tile_spans i e (map span rs)"
  by (induction i e rs rule: tiles.induct) (auto simp: span_def)

lemma byte_ranges_tile: "tile_spans 0 n (byte_ranges n)"
proof -
  have "tile_spans i (i + m) (map (\<lambda>k. (k, k + 1)) [i..<i + m])" for i m
  proof (induction m arbitrary: i)
    case (Suc m)
    have "[i..<i + Suc m] = i # [Suc i..<Suc i + m]" by (simp add: upt_conv_Cons del: upt_Suc)
    with Suc[of "Suc i"] show ?case by simp
  qed simp
  from this[of 0 n] show ?thesis by (simp add: byte_ranges_def)
qed

lemma tile_spans_le: "tile_spans i e rs \<Longrightarrow> i \<le> e"
  by (induction i e rs rule: tile_spans.induct) auto

lemma tile_spans_slices:
  "tile_spans i e rs \<Longrightarrow> e = length bs \<Longrightarrow> concat (map (slice_bytes bs) rs) = drop i bs"
proof (induction i e rs rule: tile_spans.induct)
  case (2 i e a b rs)
  then have r: "a = i" "i < b" "tile_spans b e rs" by auto
  with 2 have "concat (map (slice_bytes bs) rs) = drop b bs" by simp
  moreover have "take (b - i) (drop i bs) @ drop b bs = drop i bs"
    using r(2) by (metis append_take_drop_id drop_drop le_add_diff_inverse2 less_imp_le)
  ultimately show ?case using r by (simp add: slice_bytes_def[of bs "(i, b)"])
qed simp

lemma slice_bytes_mid: "slice_bytes (xs @ c @ ys) (length xs, length xs + length c) = c"
  by (simp add: slice_bytes_def)

context unit_walk
begin

lemma ranges_chars_slices:
  "\<forall>c\<in>set cs. \<exists>v. is_char c v \<Longrightarrow>
   map (slice_bytes (pre @ concat cs)) (map span (ranges (concat cs) (length pre))) = cs"
proof (induction cs arbitrary: pre)
  case (Cons c cs)
  then obtain v where v: "is_char c v" by auto
  have "map (slice_bytes ((pre @ c) @ concat cs)) (map span (ranges (concat cs) (length (pre @ c)))) = cs"
    using Cons by (intro Cons.IH) simp
  with slice_bytes_mid[of pre c "concat cs"] show ?case
    by (simp add: ranges_char[OF v])
qed (simp add: ranges_Nil)

lemma ranges_bytes_spans:
  "(\<And>k. k < length bs \<Longrightarrow> fst (unit (drop k bs)) = 1) \<Longrightarrow>
   map span (ranges bs i) = map (\<lambda>k. (i + k, i + k + 1)) [0..<length bs]"
proof (induction bs arbitrary: i)
  case (Cons b bs)
  obtain x where x: "unit (b # bs) = (1, x)" using Cons.prems[of 0] by (cases "unit (b # bs)") simp
  have "map span (ranges bs (i + 1)) = map (\<lambda>k. (i + 1 + k, i + 1 + k + 1)) [0..<length bs]"
    using Cons.prems[of "Suc _"] by (intro Cons.IH) simp
  moreover have "[0..<length (b # bs)] = 0 # map Suc [0..<length bs]" by (simp add: upt_conv_Cons map_Suc_upt del: upt_Suc)
  ultimately show ?case by (simp add: ranges_step[OF _ x] comp_def)
qed (simp add: ranges_Nil)

end

lemma byte_ranges_slices: "map (slice_bytes bs) (byte_ranges (length bs)) = map (\<lambda>b. [b]) bs"
  by (rule nth_equalityI) (simp_all add: byte_ranges_def slice_bytes_def take_Suc_conv_app_nth hd_drop_conv_nth take_Suc)

lemma slices_chars:
  assumes "\<forall>c\<in>set cs. character k c"
  shows "slices k (concat cs) = cs"
proof -
  have one: "map (slice_bytes (concat cs)) (byte_ranges (length (concat cs))) = cs" if "\<forall>c\<in>set cs. length c = 1"
  proof -
    have "map (\<lambda>b. [b]) (concat cs) = cs" using that by (induction cs) (auto simp: length_Suc_conv)
    then show ?thesis by (simp only: byte_ranges_slices)
  qed
  have ascii: "\<forall>c\<in>set cs. length c = 1" if "k = FAscii" using assms that by auto
  show ?thesis
    using assms utf8w.ranges_chars_slices[of cs "[]"] mbw.ranges_chars_slices[of cs _ "[]"]
      utf16.ranges_chars_slices[of cs _ "[]"] utf32.ranges_chars_slices[of cs _ "[]"] one ascii
    unfolding utf8w_is_char mbw_is_char utf16_is_char utf32_is_char
    by (cases k) (auto simp: slices_def ranges_of_def mb_ranges_def wide_ranges_def)
qed

lemma ranges_of_tile: "tile_spans 0 (length bs) (ranges_of k bs)"
  using utf8w.ranges_tile[of 0 bs] mbw.ranges_tile[of 0 bs] utf16.ranges_tile[of 0 bs]
    utf32.ranges_tile[of 0 bs] byte_ranges_tile[of "length bs"]
  by (simp add: ranges_of_def mb_ranges_def wide_ranges_def tiles_spans split: enc_family.splits)

lemma slices_concat: "concat (slices k bs) = bs"
  using tile_spans_slices[OF ranges_of_tile refl, of bs k] by (simp add: slices_def)

lemma text_slices: "text_of k bs \<longleftrightarrow> (\<forall>c\<in>set (slices k bs). character k c)"
  using slices_chars[of _ k] slices_concat[of k bs] by (metis text_of_def)

section \<open>Results\<close>

lemma seven_bit_ranges:
  assumes "kind (sb_enc b) = FUtf8 \<or> kind (sb_enc b) = FMultiByte fam" "list_all (\<lambda>x. x < 0x80) (sb_bytes b)"
  shows "char_ranges b = byte_ranges (length (sb_bytes b))"
proof -
  have hd: "hd (drop k (sb_bytes b)) < 0x80" if "k < length (sb_bytes b)" for k
    using assms(2) that by (simp add: list_all_length hd_drop_conv_nth)
  have u8: "fst (utf8_unit (drop k (sb_bytes b))) = 1" if "k < length (sb_bytes b)" for k
  proof -
    have "utf8_seq_len (hd (drop k (sb_bytes b))) = 1"
      using hd[OF that] unfolding utf8_seq_len_unat by (simp add: word_less_nat_alt)
    then show ?thesis by (simp add: utf8_unit_def)
  qed
  have mb: "fst (mb_unit f (drop k (sb_bytes b))) = 1" if "k < length (sb_bytes b)" for k f
    using hd[OF that] by (simp add: mb_unit_def mb_good_def)
  show ?thesis
    using assms(1) utf8w.ranges_bytes_spans[OF u8, of 0] mbw.ranges_bytes_spans[OF mb, of fam 0]
    by (auto simp: char_ranges_def ranges_of_def mb_ranges_def byte_ranges_def)
qed

lemma byte_per_char_ranges:
  assumes "strbuf_ok b" "byte_per_char b"
  shows "char_ranges b = byte_ranges (length (sb_bytes b))"
proof (cases "\<exists>fam. kind (sb_enc b) = FUtf8 \<or> kind (sb_enc b) = FMultiByte fam")
  case True
  with assms have "list_all (\<lambda>x. x < 0x80) (sb_bytes b)"
    by (auto simp: byte_per_char_def ascii_only_iff)
  with True seven_bit_ranges show ?thesis by blast
next
  case False
  with assms(2) show ?thesis
    by (cases "kind (sb_enc b)") (auto simp: byte_per_char_def char_ranges_def ranges_of_def)
qed

lemma char_len_ranges: "strbuf_ok b \<Longrightarrow> char_len b = length (char_ranges b)"
proof -
  assume "strbuf_ok b"
  moreover have "char_len b = (if byte_per_char b then length (sb_bytes b) else length (char_ranges b))"
    by (cases "kind (sb_enc b)") (auto simp: char_len_def byte_per_char_def)
  ultimately show ?thesis by (simp add: byte_per_char_ranges byte_ranges_def)
qed

lemma char_len_slices: "strbuf_ok b \<Longrightarrow> char_len b = length (slices (kind (sb_enc b)) (sb_bytes b))"
  by (simp add: char_len_ranges flip: slices_eq)

lemma get_at_map: "get_at (map f xs) i = map_option f (get_at xs i)"
  by (simp add: get_at_def Let_def nat_less_iff)

lemma char_at_slices:
  assumes "strbuf_ok b"
  shows "char_at b i = map_option (\<lambda>c. from_bytes c (sb_enc b)) (get_at (slices (kind (sb_enc b)) (sb_bytes b)) i)"
proof -
  have g: "get_at (slices (kind (sb_enc b)) (sb_bytes b)) i = map_option (slice_bytes (sb_bytes b)) (get_at (char_ranges b) i)"
    by (simp add: get_at_map flip: slices_eq)
  show ?thesis
  proof (cases "byte_per_char b")
    case True
    have "map_option (slice_bytes (sb_bytes b)) (get_at (byte_ranges (length (sb_bytes b))) i) = map_option (\<lambda>x. [x]) (get_at (sb_bytes b) i)"
      by (simp flip: get_at_map add: byte_ranges_slices)
    then have "get_at (slices (kind (sb_enc b)) (sb_bytes b)) i = map_option (\<lambda>x. [x]) (get_at (sb_bytes b) i)"
      unfolding g byte_per_char_ranges[OF assms True] .
    with True show ?thesis by (simp add: char_at_def option.map_comp comp_def)
  next
    case False
    then show ?thesis by (simp add: char_at_def g option.map_comp comp_def)
  qed
qed

text \<open>A run of ranges, from the start of its first to the end of its last, is the concatenation of its slices.\<close>

lemma tile_spans_hd: "tile_spans i e rs \<Longrightarrow> rs \<noteq> [] \<Longrightarrow> fst (rs ! 0) = i"
  by (cases rs) auto

lemma tile_spans_snd: "tile_spans i e rs \<Longrightarrow> k < length rs \<Longrightarrow> i < snd (rs ! k)"
proof (induction i e rs arbitrary: k rule: tile_spans.induct)
  case (2 i e a b rs)
  then show ?case by (cases k) (auto intro: less_trans)
qed simp

lemma slice_bytes_append: "a \<le> b \<Longrightarrow> b \<le> c \<Longrightarrow> slice_bytes bs (a, b) @ slice_bytes bs (b, c) = slice_bytes bs (a, c)"
proof -
  assume "a \<le> b" "b \<le> c"
  then have "drop b bs = drop (b - a) (drop a bs)" "c - a = (b - a) + (c - b)" by simp_all
  then show ?thesis by (simp add: slice_bytes_def take_add)
qed

lemma tile_spans_run:
  "tile_spans i e rs \<Longrightarrow> s < t \<Longrightarrow> t \<le> length rs \<Longrightarrow>
   slice_bytes bs (fst (rs ! s), snd (rs ! (t - 1))) = concat (take (t - s) (drop s (map (slice_bytes bs) rs)))"
proof (induction i e rs arbitrary: s t rule: tile_spans.induct)
  case (2 i e a b rs)
  then have r: "a = i" "i < b" "tile_spans b e rs" by auto
  obtain t' where t: "t = Suc t'" using "2.prems"(2) by (cases t) auto
  show ?case
  proof (cases s)
    case 0
    show ?thesis
    proof (cases t')
      case 0
      with \<open>s = 0\<close> t show ?thesis by simp
    next
      case (Suc t'')
      have k: "t'' < length rs" using "2.prems"(3) t Suc by simp
      then have f: "fst (rs ! 0) = b" using tile_spans_hd[OF r(3)] by (cases rs) auto
      have "slice_bytes bs (fst (rs ! 0), snd (rs ! (t' - 1))) = concat (take (t' - 0) (drop 0 (map (slice_bytes bs) rs)))"
        using "2.IH"[OF r(3), of 0 t'] k Suc by simp
      then have "slice_bytes bs (b, snd (rs ! t'')) = concat (take t' (map (slice_bytes bs) rs))"
        using Suc f by simp
      with slice_bytes_append[of i b "snd (rs ! t'')" bs] tile_spans_snd[OF r(3) k] r(1,2) \<open>s = 0\<close> t Suc
      show ?thesis by simp
    qed
  next
    case (Suc s')
    with "2.IH"[OF r(3), of s' t'] "2.prems" t show ?thesis by (cases t') auto
  qed
qed simp

definition substr_of :: "octets list \<Rightarrow> int \<Rightarrow> int \<Rightarrow> octets option" where
  "substr_of cs start len = map_option (\<lambda>(s, e). concat (take (e - s) (drop s cs))) (clamp_span (length cs) start len)"

lemma clamp_span_le: "clamp_span n start len = Some (s, e) \<Longrightarrow> n < 2 ^ 63 \<Longrightarrow> s \<le> e \<and> e \<le> n"
  by (auto simp: clamp_span_def Let_def split: if_splits)

lemma concat_singletons: "concat (take n (drop m (map (\<lambda>x. [x]) bs))) = take n (drop m bs)"
  by (simp add: drop_map take_map)

lemma length_slices: "length (slices (kind (sb_enc b)) (sb_bytes b)) = length (char_ranges b)"
  by (simp add: slices_def char_ranges_def)

lemma tile_spans_length: "tile_spans i e rs \<Longrightarrow> i + length rs \<le> e"
  by (induction i e rs rule: tile_spans.induct) auto

lemma length_char_ranges: "length (char_ranges b) \<le> length (sb_bytes b)"
  using tile_spans_length[OF ranges_of_tile] by (simp add: char_ranges_def)

lemma char_substr_slices:
  assumes "strbuf_ok b" "length (sb_bytes b) < 2 ^ 63"
  shows "char_substr b start len =
    map_option (\<lambda>bs. from_bytes bs (sb_enc b)) (substr_of (slices (kind (sb_enc b)) (sb_bytes b)) start len)"
proof (cases "byte_per_char b")
  case True
  then have "slices (kind (sb_enc b)) (sb_bytes b) = map (\<lambda>x. [x]) (sb_bytes b)"
    using byte_per_char_ranges[OF assms(1)] by (simp add: byte_ranges_slices flip: slices_eq)
  with True show ?thesis
    by (simp add: char_substr_def substr_of_def concat_singletons slice_bytes_def option.map_comp comp_def case_prod_beta)
next
  case False
  have "(if s = e then [] else slice_bytes (sb_bytes b) (fst (char_ranges b ! s), snd (char_ranges b ! (e - 1))))
      = concat (take (e - s) (drop s (slices (kind (sb_enc b)) (sb_bytes b))))"
    if "clamp_span (length (char_ranges b)) start len = Some (s, e)" for s e
  proof -
    have "length (char_ranges b) < 2 ^ 63" using length_char_ranges[of b] assms(2) by linarith
    from clamp_span_le[OF that this] have "s \<le> e" "e \<le> length (char_ranges b)" by simp_all
    with tile_spans_run[OF ranges_of_tile, of s e "kind (sb_enc b)" "sb_bytes b" "sb_bytes b"] show ?thesis
      by (auto simp: char_ranges_def slices_def)
  qed
  then show ?thesis
    using False
    by (cases "clamp_span (length (char_ranges b)) start len") (auto simp: char_substr_def substr_of_def length_slices Let_def)
qed

lemma reversed_slices: "sb_bytes (reversed b) = concat (rev (slices (kind (sb_enc b)) (sb_bytes b)))"
  by (simp add: reversed_def rev_map flip: slices_eq)

lemma reversed_enc [simp]: "sb_enc (reversed b) = sb_enc b"
  by (simp add: reversed_def)

lemma reversed_ok: "strbuf_ok b \<Longrightarrow> strbuf_ok (reversed b)"
  by (simp add: reversed_def) (simp add: strbuf_ok_def)

lemma text_append:
  assumes "text_of k xs" "text_of k ys"
  shows "text_of k (xs @ ys) \<and> slices k (xs @ ys) = slices k xs @ slices k ys"
proof -
  have "\<forall>c\<in>set (slices k xs @ slices k ys). character k c" using assms by (auto simp: text_slices)
  moreover have "concat (slices k xs @ slices k ys) = xs @ ys" by (simp add: slices_concat)
  ultimately show ?thesis using slices_chars[of "slices k xs @ slices k ys" k] by (metis text_of_def)
qed

lemma text_Nil [simp]: "text_of k []"
  by (auto simp: text_of_def intro: exI[of _ "[]"])

lemma slices_Nil [simp]: "slices k [] = []"
  using slices_chars[of "[]" k] by simp

lemma seven_bit_slices:
  assumes "ascii_compatible e" "e < length ENCODINGS" "list_all (\<lambda>b. b < 0x80) bs"
  shows "slices (kind e) bs = map (\<lambda>b. [b]) bs"
proof -
  have "\<forall>c\<in>set (map (\<lambda>b. [b]) bs). character (kind e) c"
    using assms seven_bit_character by (auto simp: list_all_iff)
  from slices_chars[OF this] show ?thesis by simp
qed

lemma push_buf_fields:
  "push_buf l r = Some b \<Longrightarrow> sb_bytes b = sb_bytes l @ sb_bytes r \<and> compat_concat_enc l r = Some (sb_enc b) \<and> sb_coderange b = Unknown"
  by (auto simp: push_buf_def split: option.splits)

text \<open>The negotiated encoding reads each side as its own encoding does.\<close>

lemma compat_concat_reads:
  assumes "strbuf_ok l" "strbuf_ok r" "compat_concat_enc l r = Some e"
    and "valid_encoding l" "valid_encoding r"
  shows "e < length ENCODINGS \<and> text_of (kind e) (sb_bytes l) \<and> text_of (kind e) (sb_bytes r) \<and>
    slices (kind e) (sb_bytes l) = slices (kind (sb_enc l)) (sb_bytes l) \<and>
    slices (kind e) (sb_bytes r) = slices (kind (sb_enc r)) (sb_bytes r)"
proof -
  have enc: "sb_enc l < length ENCODINGS" "sb_enc r < length ENCODINGS" using assms(1,2) by (simp_all add: strbuf_ok_def)
  have txs: "text_of (kind (sb_enc l)) (sb_bytes l)" "text_of (kind (sb_enc r)) (sb_bytes r)"
    using assms(4,5) valid_iff[OF assms(1)] valid_iff[OF assms(2)] by simp_all
  have seven: "text_of (kind e') (sb_bytes b) \<and> slices (kind e') (sb_bytes b) = slices (kind (sb_enc b)) (sb_bytes b)"
    if "strbuf_ok b" "ascii_only b" "ascii_compatible e'" "e' < length ENCODINGS" for b e'
    using that ascii_only_iff[OF that(1)] seven_bit_slices[of e' "sb_bytes b"] seven_bit_slices[of "sb_enc b" "sb_bytes b"]
      seven_bit_text[of e' "sb_bytes b"] by (simp add: strbuf_ok_def)
  show ?thesis
    using assms(3) enc txs seven[OF assms(1), of "sb_enc r"] seven[OF assms(2), of "sb_enc l"]
    unfolding compat_concat_enc_def by (auto split: if_splits)
qed

section \<open>Properties\<close>

text \<open>
  C15. The string operations are list operations on the characters: the characters of any bytes, in any encoding of the table,
  concatenate to the bytes; the length, indexing and slicing with their byte-indexed fast paths, and reversal, agree with
  the list of characters.
\<close>

theorem characters_are_the_string:
  assumes "strbuf_ok b" "length (sb_bytes b) < 2 ^ 63"
    and "cs = slices (kind (sb_enc b)) (sb_bytes b)"
  shows "concat cs = sb_bytes b \<and> char_len b = length cs \<and>
    (\<forall>i. char_at b i = map_option (\<lambda>c. from_bytes c (sb_enc b)) (get_at cs i)) \<and>
    (\<forall>start len. char_substr b start len = map_option (\<lambda>bs. from_bytes bs (sb_enc b)) (substr_of cs start len)) \<and>
    sb_bytes (reversed b) = concat (rev cs)"
  using slices_concat[of "kind (sb_enc b)" "sb_bytes b"] char_len_slices[OF assms(1)] char_at_slices[OF assms(1)]
    char_substr_slices[OF assms(1,2)] reversed_slices[of b]
  unfolding assms(3) by blast

theorem characters_are_the_string_witness:
  "char_at (from_utf8 [0x61, 0xc3, 0xa9]) 1 = Some (from_bytes [0xc3, 0xa9] UTF_8) \<and>
   char_at (from_utf8 [0x61, 0xc3, 0xa9]) 1 =
     map_option (\<lambda>c. from_bytes c (sb_enc (from_utf8 [0x61, 0xc3, 0xa9]))) (get_at (slices FUtf8 [0x61, 0xc3, 0xa9]) 1)"
proof -
  have "length (sb_bytes (from_utf8 [0x61, 0xc3, 0xa9])) < 2 ^ 63" by (simp add: from_utf8_def)
  moreover have "strbuf_ok (from_utf8 [0x61, 0xc3, 0xa9])"
    "kind (sb_enc (from_utf8 [0x61, 0xc3, 0xa9])) = FUtf8" "sb_bytes (from_utf8 [0x61, 0xc3, 0xa9]) = [0x61, 0xc3, 0xa9]"
    by code_simp+
  moreover have "char_at (from_utf8 [0x61, 0xc3, 0xa9]) 1 = Some (from_bytes [0xc3, 0xa9] UTF_8)" by code_simp
  ultimately show ?thesis
    using characters_are_the_string[of "from_utf8 [0x61, 0xc3, 0xa9]" "slices FUtf8 [0x61, 0xc3, 0xa9]"] by metis
qed

text \<open>
  C40. A string is valid exactly when its bytes are characters of its encoding one after the other (encoded scalars for UTF-8,
  UTF-16 and UTF-32, structural units for the multibyte encodings).  Then its characters are those units, reversal
  keeps it valid and is its own inverse, and every substring is valid.
\<close>

theorem valid_strings_are_texts:
  assumes "strbuf_ok b"
  shows "(valid_encoding b \<longleftrightarrow> text_of (kind (sb_enc b)) (sb_bytes b)) \<and>
    (\<forall>cs. (\<forall>c\<in>set cs. character (kind (sb_enc b)) c) \<and> sb_bytes b = concat cs \<longrightarrow> slices (kind (sb_enc b)) (sb_bytes b) = cs) \<and>
    (valid_encoding b \<longrightarrow> valid_encoding (reversed b) \<and> sb_bytes (reversed (reversed b)) = sb_bytes b \<and>
      (\<forall>start len b'. length (sb_bytes b) < 2 ^ 63 \<and> char_substr b start len = Some b' \<longrightarrow> valid_encoding b'))"
proof -
  let ?k = "kind (sb_enc b)" and ?cs = "slices (kind (sb_enc b)) (sb_bytes b)"
  have rev: "valid_encoding (reversed b) \<and> sb_bytes (reversed (reversed b)) = sb_bytes b" if "valid_encoding b"
  proof -
    have cs: "\<forall>c\<in>set (rev ?cs). character ?k c" using that valid_iff[OF assms] by (simp add: text_slices)
    then have "text_of ?k (concat (rev ?cs))" "slices ?k (concat (rev ?cs)) = rev ?cs"
      using slices_chars[OF cs] by (auto simp: text_of_def)
    then show ?thesis
      using valid_iff[OF reversed_ok[OF assms]] slices_concat[of ?k "sb_bytes b"] by (simp add: reversed_slices)
  qed
  have sub: "valid_encoding b'"
    if v: "valid_encoding b" and n: "length (sb_bytes b) < 2 ^ 63" and c: "char_substr b start len = Some b'" for start len b'
  proof -
    from c obtain s e where b': "b' = from_bytes (concat (take (e - s) (drop s ?cs))) (sb_enc b)"
      unfolding char_substr_slices[OF assms n] substr_of_def by auto
    have "\<forall>c\<in>set (take (e - s) (drop s ?cs)). character ?k c"
      using v valid_iff[OF assms] by (auto simp: text_slices dest: in_set_takeD in_set_dropD)
    then have "text_of ?k (concat (take (e - s) (drop s ?cs)))" by (auto simp: text_of_def)
    then show ?thesis using assms valid_iff[of b'] by (simp add: b' strbuf_ok_def[of b])
  qed
  show ?thesis using valid_iff[OF assms] slices_chars[of _ ?k] rev sub by metis
qed

theorem valid_strings_are_texts_witness:
  "valid_encoding (from_bytes [0x61, 0x82, 0xa0] 39) \<and> valid_encoding (reversed (from_bytes [0x61, 0x82, 0xa0] 39)) \<and>
   text_of (FMultiByte Sjis) [0x61, 0x82, 0xa0]"
proof -
  have "strbuf_ok (from_bytes [0x61, 0x82, 0xa0] 39)" "valid_encoding (from_bytes [0x61, 0x82, 0xa0] 39)"
    "kind (sb_enc (from_bytes [0x61, 0x82, 0xa0] 39)) = FMultiByte Sjis"
    by code_simp+
  with valid_strings_are_texts[of "from_bytes [0x61, 0x82, 0xa0] 39"] show ?thesis by simp
qed

lemma push_buf_ok: "strbuf_ok l \<Longrightarrow> strbuf_ok r \<Longrightarrow> push_buf l r = Some b \<Longrightarrow> strbuf_ok b"
  by (auto simp: push_buf_def compat_concat_enc_def strbuf_ok_def split: option.splits if_splits)

text \<open>
  C16. Concatenation: the result is a well-formed buffer with the bytes of both; two valid strings give a valid string
  whose characters are those of the left followed by those of the right, whatever encoding was negotiated.  It is refused
  exactly for two non-empty strings of different encodings of which one is not ASCII-compatible or neither is 7-bit.
\<close>

theorem concatenation_keeps_characters:
  assumes "strbuf_ok l" "strbuf_ok r"
  shows "(push_buf l r = None \<longleftrightarrow> sb_enc l \<noteq> sb_enc r \<and> sb_bytes l \<noteq> [] \<and> sb_bytes r \<noteq> [] \<and>
      (\<not> ascii_compatible (sb_enc l) \<or> \<not> ascii_compatible (sb_enc r) \<or> \<not> ascii_only l \<and> \<not> ascii_only r)) \<and>
    (\<forall>b. push_buf l r = Some b \<longrightarrow> strbuf_ok b \<and> sb_bytes b = sb_bytes l @ sb_bytes r \<and>
      (valid_encoding l \<and> valid_encoding r \<longrightarrow> valid_encoding b \<and>
        slices (kind (sb_enc b)) (sb_bytes b) =
          slices (kind (sb_enc l)) (sb_bytes l) @ slices (kind (sb_enc r)) (sb_bytes r) \<and>
        char_len b = char_len l + char_len r))"
proof (intro conjI allI impI)
  show "push_buf l r = None \<longleftrightarrow> sb_enc l \<noteq> sb_enc r \<and> sb_bytes l \<noteq> [] \<and> sb_bytes r \<noteq> [] \<and>
      (\<not> ascii_compatible (sb_enc l) \<or> \<not> ascii_compatible (sb_enc r) \<or> \<not> ascii_only l \<and> \<not> ascii_only r)"
    by (auto simp: push_buf_def compat_concat_enc_def split: option.splits if_splits)
next
  fix b
  assume b: "push_buf l r = Some b"
  note f = push_buf_fields[OF b]
  show ok: "strbuf_ok b" using push_buf_ok[OF assms b] .
  show "sb_bytes b = sb_bytes l @ sb_bytes r" using f by blast
  assume v: "valid_encoding l \<and> valid_encoding r"
  note c = compat_concat_reads[OF assms _ _ _, of "sb_enc b"]
  have "text_of (kind (sb_enc b)) (sb_bytes l @ sb_bytes r) \<and>
      slices (kind (sb_enc b)) (sb_bytes l @ sb_bytes r) = slices (kind (sb_enc l)) (sb_bytes l) @ slices (kind (sb_enc r)) (sb_bytes r)"
    using c f v text_append[of "kind (sb_enc b)" "sb_bytes l" "sb_bytes r"] by simp
  then show "valid_encoding b" "slices (kind (sb_enc b)) (sb_bytes b) =
          slices (kind (sb_enc l)) (sb_bytes l) @ slices (kind (sb_enc r)) (sb_bytes r)" "char_len b = char_len l + char_len r"
    using f valid_iff[OF ok] char_len_slices[OF ok] char_len_slices[OF assms(1)] char_len_slices[OF assms(2)] by simp_all
qed

theorem concatenation_keeps_characters_witness:
  "push_buf (from_bytes [0x61] US_ASCII) (from_utf8 [0xc3, 0xa9]) =
     Some \<lparr>sb_bytes = [0x61, 0xc3, 0xa9], sb_enc = UTF_8, sb_coderange = Unknown\<rparr> \<and>
   char_len \<lparr>sb_bytes = [0x61, 0xc3, 0xa9], sb_enc = UTF_8, sb_coderange = Unknown\<rparr> =
     char_len (from_bytes [0x61] US_ASCII) + char_len (from_utf8 [0xc3, 0xa9])"
proof -
  have "strbuf_ok (from_bytes [0x61] US_ASCII)" "strbuf_ok (from_utf8 [0xc3, 0xa9])"
    "valid_encoding (from_bytes [0x61] US_ASCII)" "valid_encoding (from_utf8 [0xc3, 0xa9])"
    "push_buf (from_bytes [0x61] US_ASCII) (from_utf8 [0xc3, 0xa9]) =
       Some \<lparr>sb_bytes = [0x61, 0xc3, 0xa9], sb_enc = UTF_8, sb_coderange = Unknown\<rparr>"
    by code_simp+
  with concatenation_keeps_characters[of "from_bytes [0x61] US_ASCII" "from_utf8 [0xc3, 0xa9]"] show ?thesis by blast
qed

text \<open>The buffers a program can have: built by a constructor, changed by any operation, with the cache filled at any time.\<close>

inductive built :: "strbuf \<Rightarrow> bool" where
  built_bytes: "e < length ENCODINGS \<Longrightarrow> built (from_bytes bs e)"
| built_utf8: "built (from_utf8 bs)"
| built_fill: "built b \<Longrightarrow> built (fill_coderange b)"
| built_enc: "built b \<Longrightarrow> e < length ENCODINGS \<Longrightarrow> built (set_encoding b e)"
| built_push: "built l \<Longrightarrow> built r \<Longrightarrow> push_buf l r = Some b \<Longrightarrow> built b"
| built_push_bytes: "built b \<Longrightarrow> built (push_bytes b bs)"
| built_push_str: "built b \<Longrightarrow> built (push_str b bs)"
| built_replace_utf8: "built b \<Longrightarrow> built (replace_utf8 b bs)"
| built_replace_bytes: "built b \<Longrightarrow> e < length ENCODINGS \<Longrightarrow> built (replace_bytes b bs e)"
| built_setbyte: "built b \<Longrightarrow> setbyte b i x = Some b' \<Longrightarrow> built b'"
| built_reversed: "built b \<Longrightarrow> built (reversed b)"
| built_substr: "built b \<Longrightarrow> char_substr b s n = Some b' \<Longrightarrow> built b'"
| built_at: "built b \<Longrightarrow> char_at b i = Some b' \<Longrightarrow> built b'"

lemma built_ok: "built b \<Longrightarrow> strbuf_ok b"
proof (induction rule: built.induct)
  case (built_push l r b)
  then show ?case using push_buf_ok by blast
next
  case (built_substr b s n b')
  then show ?case by (auto simp: char_substr_def strbuf_ok_def from_bytes_def Let_def split: if_splits)
next
  case (built_at b i b')
  then show ?case by (auto simp: char_at_def strbuf_ok_def from_bytes_def split: if_splits)
qed (auto simp: strbuf_ok_def from_bytes_def from_utf8_def fill_coderange_def set_encoding_def push_bytes_def push_str_def replace_utf8_def
    replace_bytes_def setbyte_def reversed_def UTF_8_def length_ENCODINGS split: if_splits)

text \<open>
  C17. The unchecked conversion to \<^verbatim>\<open>str\<close> is sound: whatever operations built the buffer and whenever its classification was
  cached, what \<^verbatim>\<open>as_str\<close> answers is well-formed UTF-8, and a valid UTF-8 string always answers.
\<close>

theorem unchecked_str_is_utf8:
  assumes "built b"
  shows "(\<forall>s. as_str b = Some s \<longrightarrow> s = sb_bytes b \<and> valid_utf8 s) \<and>
    (kind (sb_enc b) = FUtf8 \<and> valid_utf8 (sb_bytes b) \<longrightarrow> as_str b = Some (sb_bytes b))"
proof -
  note ok = built_ok[OF assms]
  have u: "UTF_8 < length ENCODINGS" "kind UTF_8 = FUtf8" "ascii_compatible UTF_8"
    by code_simp+
  have seven: "valid_utf8 (sb_bytes b)" if "ascii_only b"
    using that ascii_only_iff[OF ok] seven_bit_text[OF u(3,1)] by (simp add: u(2) utf8_text)
  have "valid_encoding b \<longleftrightarrow> valid_utf8 (sb_bytes b)" if "kind (sb_enc b) = FUtf8"
    using valid_iff[OF ok] that by (simp add: utf8_text)
  with seven show ?thesis
    by (auto simp: as_str_def Let_def split: enc_family.splits if_splits)
qed

theorem unchecked_str_is_utf8_witness:
  "built (from_utf8 [0xc3, 0xa9]) \<and> as_str (from_utf8 [0xc3, 0xa9]) = Some [0xc3, 0xa9] \<and> valid_utf8 [0xc3, 0xa9]"
proof -
  have "as_str (from_utf8 [0xc3, 0xa9]) = Some [0xc3, 0xa9]" by code_simp
  with unchecked_str_is_utf8[OF built_utf8, of "[0xc3, 0xa9]"] show ?thesis using built_utf8 by blast
qed

text \<open>
  Two empty strings are unequal when one is UTF-16, although concatenation takes an empty string as compatible with every
  encoding.
\<close>

theorem empty_strings_of_different_encodings_differ:
  "\<not> str_eq (from_utf8 []) (from_bytes [] 4) \<and> compat_concat_enc (from_utf8 []) (from_bytes [] 4) = Some UTF_8"
  by code_simp

end
