(* ===== verification/Marshal.thy ===== *)
theory Marshal
  imports StrBuf Strings
begin

text \<open>
  \<^verbatim>\<open>Marshal\<close> (\<^verbatim>\<open>crates/zeo-rt/src/builtins/marshal.rs\<close>): the writer and the reader of the wire format 4.8 with their tables of symbols and
  of object links.  Heap values are addresses into a list of nodes, so that sharing and cycles are visible; a link is keyed by
  the address of the allocation, as in the code.  What the class class_table answers is a record of functions.  Not modelled: the
  user hooks (\<^verbatim>\<open>marshal_dump\<close>, \<^verbatim>\<open>_dump\<close>), \<^verbatim>\<open>Time\<close>, exceptions, the visitor and \<^verbatim>\<open>freeze:\<close>.  Hash keys are immediate values or strings.
\<close>

section \<open>Values and heaps\<close>

text \<open>A float is its shortest decimal: sign, digits and exponent of the first digit, as \<^verbatim>\<open>{:e}\<close> prints it.\<close>

datatype mfloat = FZero bool | FInf bool | FNan | FDec bool "nat list" int

datatype mval =
    VNil | VBool bool | VInt int | VBig int | VSym octets | VFloat mfloat
  | VRef nat | VRange "mval option" "mval option" bool | VClass nat | VRational int int | VComplex mval mval | VOther nat

datatype mpayload =
    PStr octets nat
  | PRegexp octets bool bool bool
  | PArr "mval list"
  | PHash "(mval \<times> mval) list" mval bool

text \<open>A bare core value, an instance of a subclass of one, a plain object, a \<^verbatim>\<open>Struct\<close> with its members, a \<^verbatim>\<open>Set\<close> with its backing hash.\<close>

datatype mbody =
    BVal mpayload | BSub nat mpayload | BPlain nat | BStruct nat "(octets \<times> mval) list" | BSet nat nat

record mnode =
  n_body :: mbody
  n_ivars :: "(octets \<times> mval) list"
  n_ext :: "nat list"
  n_singleton :: bool

definition new_node :: "mbody \<Rightarrow> mnode" where
  "new_node b = \<lparr>n_body = b, n_ivars = [], n_ext = [], n_singleton = False\<rparr>"

text \<open>
  The registry: names, lookup by name, ancestors, blank instances, struct members, subclasses of core values, and whether the
  engine accepts a pattern.  \<open>g_ptr\<close> is the address of an allocation.
\<close>

record class_table =
  g_name :: "nat \<Rightarrow> octets option"
  g_module :: "nat \<Rightarrow> bool"
  g_lookup :: "octets \<Rightarrow> nat option"
  g_ancestors :: "nat \<Rightarrow> nat list"
  g_blank :: "nat \<Rightarrow> mbody option"
  g_members :: "nat \<Rightarrow> octets list option"
  g_value_root :: "nat \<Rightarrow> bool"
  g_regexp :: "octets \<Rightarrow> bool"
  g_ptr :: "nat \<Rightarrow> nat"

datatype merror =
    DepthLimit | SingletonMethods | CantDump | NoDumpData | DefaultProc | AnonymousClass | SingletonClass
  | TooShort | BadSymbolLink | BadObjectLink | FormatError "8 word" | ExpectedSymbol "8 word" | BadSubclassBody "8 word"
  | UndefinedClass octets | NotAStruct | NoAllocator | NotASubclass | BadRegexp | MalformedUser | NotAnInteger | NotAComponent
  | ZeroDivision | Incompatible | Panic | KeyNotModelled | OutOfFuel

definition bindE :: "merror + 'a \<Rightarrow> ('a \<Rightarrow> merror + 'b) \<Rightarrow> merror + 'b" where
  "bindE m f = (case m of Inl e \<Rightarrow> Inl e | Inr x \<Rightarrow> f x)"

lemma bindE_simps [simp]: "bindE (Inl e) f = Inl e" "bindE (Inr x) f = f x"
  by (simp_all add: bindE_def)

lemma bindE_Inr: "bindE m f = Inr y \<longleftrightarrow> (\<exists>x. m = Inr x \<and> f x = Inr y)"
  by (cases m) simp_all

abbreviation chr8 :: "char \<Rightarrow> 8 word" where
  "chr8 c \<equiv> of_char c"

definition fits_i64 :: "int \<Rightarrow> bool" where
  "fits_i64 n \<longleftrightarrow> - (2 ^ 63) \<le> n \<and> n < 2 ^ 63"

definition fits_i32 :: "int \<Rightarrow> bool" where
  "fits_i32 n \<longleftrightarrow> - (2 ^ 31) \<le> n \<and> n < 2 ^ 31"

definition bigint_to_value :: "int \<Rightarrow> mval" where
  "bigint_to_value b = (if fits_i64 b then VInt b else VBig b)"

section \<open>Longs and floats\<close>

text \<open>\<^verbatim>\<open>BigInt::to_bytes_le\<close>: the bytes of the magnitude without leading zeros, one zero byte for zero.\<close>

fun bytes_le_pos :: "nat \<Rightarrow> octets" where
  "bytes_le_pos n = (if n = 0 then [] else of_nat (n mod 256) # bytes_le_pos (n div 256))"

declare bytes_le_pos.simps [simp del]

definition bytes_le :: "nat \<Rightarrow> octets" where
  "bytes_le n = (if n = 0 then [0] else bytes_le_pos n)"

text \<open>The loop over at most eight bytes of an \<^verbatim>\<open>i64\<close>: the bytes, and whether what was left is \<^verbatim>\<open>-1\<close>.\<close>

fun long_loop :: "nat \<Rightarrow> int \<Rightarrow> octets \<times> bool" where
  "long_loop 0 x = ([], False)"
| "long_loop (Suc k) x =
     (let b = of_int (x mod 256); x' = x div 256
      in if x' = 0 then ([b], False)
         else if x' = -1 then ([b], True)
         else case long_loop k x' of (bs, neg) \<Rightarrow> (b # bs, neg))"

definition marshal_long :: "int \<Rightarrow> octets" where
  "marshal_long x =
     (if x = 0 then [0]
      else if 1 \<le> x \<and> x < 123 then [of_int (x + 5)]
      else if -123 \<le> x \<and> x < 0 then [of_int (x - 5)]
      else case long_loop 8 x of (bs, neg) \<Rightarrow>
        (if neg then of_int (- int (length bs)) else of_nat (length bs)) # bs)"

definition digit_byte :: "nat \<Rightarrow> 8 word" where
  "digit_byte d = of_nat (48 + d)"

definition dec_text :: "int \<Rightarrow> octets" where
  "dec_text n = (if n < 0 then [45] else []) @ map of_nat (dec (nat \<bar>n\<bar>))"

definition exp_form :: "nat list \<Rightarrow> int \<Rightarrow> octets" where
  "exp_form digs decpt =
     (if 1 < length digs then digit_byte (hd digs) # 46 # map digit_byte (tl digs) else map digit_byte digs)
       @ chr8 CHR ''e'' # dec_text (decpt - 1)"

definition float_to_marshal :: "mfloat \<Rightarrow> octets" where
  "float_to_marshal d =
     (case d of
        FZero neg \<Rightarrow> if neg then ascii ''-0'' else ascii ''0''
      | FInf neg \<Rightarrow> if neg then ascii ''-inf'' else ascii ''inf''
      | FNan \<Rightarrow> ascii ''nan''
      | FDec neg digs e \<Rightarrow>
          let decpt = e + 1; ndigits = int (length digs);
            mbody =
              (if decpt \<le> 0 then
                 (if - 4 < decpt then 48 # 46 # replicate (nat (- decpt)) 48 @ map digit_byte digs else exp_form digs decpt)
               else if ndigits \<le> decpt then
                 (if decpt = ndigits then map digit_byte digs else exp_form digs decpt)
               else map digit_byte (take (nat decpt) digs) @ 46 # map digit_byte (drop (nat decpt) digs))
          in (if neg then [45] else []) @ mbody)"


text \<open>
  \<^verbatim>\<open>str::parse::<f64>\<close>: an optional sign, then \<^verbatim>\<open>inf\<close>, \<^verbatim>\<open>infinity\<close> or \<^verbatim>\<open>nan\<close> in any case, or digits with an optional point and an
  optional exponent.  The value is the decimal with zeros stripped: the float itself for the shortest decimals the writer prints,
  and the decimal before rounding for other texts.
\<close>

definition byte_digit :: "8 word \<Rightarrow> nat option" where
  "byte_digit b = (if 48 \<le> b \<and> b \<le> 57 then Some (unat b - 48) else None)"

definition take_digits :: "octets \<Rightarrow> nat list \<times> octets" where
  "take_digits s = (map (\<lambda>b. unat b - 48) (takeWhile (\<lambda>b. byte_digit b \<noteq> None) s), dropWhile (\<lambda>b. byte_digit b \<noteq> None) s)"

definition digits_nat :: "nat list \<Rightarrow> nat" where
  "digits_nat ds = foldl (\<lambda>v d. v * 10 + d) 0 ds"

definition minus :: "octets \<Rightarrow> bool" where
  "minus s \<longleftrightarrow> s \<noteq> [] \<and> hd s = 45"

definition unsigned_text :: "octets \<Rightarrow> octets" where
  "unsigned_text s = (if s \<noteq> [] \<and> (hd s = 45 \<or> hd s = 43) then tl s else s)"

definition parse_exp :: "octets \<Rightarrow> int option" where
  "parse_exp s =
     (if s = [] then Some 0
      else if hd s \<noteq> chr8 CHR ''e'' \<and> hd s \<noteq> chr8 CHR ''E'' then None
      else case take_digits (unsigned_text (tl s)) of (ds, rest) \<Rightarrow>
             if ds = [] \<or> rest \<noteq> [] then None
             else Some (if minus (tl s) then - int (digits_nat ds) else int (digits_nat ds)))"

definition parse_special :: "bool \<Rightarrow> octets \<Rightarrow> mfloat option" where
  "parse_special neg r =
     (let t = map (\<lambda>b. if 65 \<le> b \<and> b \<le> 90 then b + 32 else b) r
      in if t = ascii ''inf'' \<or> t = ascii ''infinity'' then Some (FInf neg) else if t = ascii ''nan'' then Some FNan else None)"

definition strip_trailing :: "nat list \<Rightarrow> nat list" where
  "strip_trailing ds = rev (dropWhile (\<lambda>d. d = 0) (rev ds))"

definition norm_dec :: "bool \<Rightarrow> nat list \<Rightarrow> int \<Rightarrow> mfloat" where
  "norm_dec neg ds e =
     (let zs = takeWhile (\<lambda>d. d = 0) ds; r = strip_trailing (dropWhile (\<lambda>d. d = 0) ds)
      in if r = [] then FZero neg else FDec neg r (e - int (length zs)))"

definition parse_decimal :: "octets \<Rightarrow> mfloat option" where
  "parse_decimal s =
     (let neg = minus s; r = unsigned_text s
      in case parse_special neg r of Some f \<Rightarrow> Some f
       | None \<Rightarrow>
         (case take_digits r of (int_ds, r1) \<Rightarrow>
           let point = (r1 \<noteq> [] \<and> hd r1 = 46)
           in case (if point then take_digits (tl r1) else ([], r1)) of (frac_ds, r2) \<Rightarrow>
              if int_ds = [] \<and> frac_ds = [] then None
              else case parse_exp r2 of None \<Rightarrow> None
                | Some e \<Rightarrow> Some (norm_dec neg (int_ds @ frac_ds) (int (length int_ds) - 1 + e))))"

definition parse_marshal_float :: "octets \<Rightarrow> mfloat" where
  "parse_marshal_float s =
     (if s = ascii ''inf'' then FInf False
      else if s = ascii ''-inf'' then FInf True
      else if s = ascii ''nan'' then FNan
      else case parse_decimal s of Some f \<Rightarrow> f | None \<Rightarrow> FZero False)"

section \<open>The writer\<close>

text \<open>The symbol table is the list of names, a name's index being its position.\<close>

record writer =
  w_out :: octets
  w_symbols :: "octets list"
  w_links :: "(nat \<times> nat) list"
  w_enc_links :: "(octets \<times> nat) list"
  w_next :: nat
  w_limit :: "int option"
  w_depth :: int

definition new_writer :: "int option \<Rightarrow> writer" where
  "new_writer limit =
     \<lparr>w_out = [], w_symbols = [], w_links = [], w_enc_links = [], w_next = 0, w_limit = limit, w_depth = 0\<rparr>"

definition put :: "octets \<Rightarrow> writer \<Rightarrow> writer" where
  "put bs st = st\<lparr>w_out := w_out st @ bs\<rparr>"

definition write_long :: "int \<Rightarrow> writer \<Rightarrow> writer" where
  "write_long x = put (marshal_long x)"

definition write_bytes :: "octets \<Rightarrow> writer \<Rightarrow> writer" where
  "write_bytes bs st = put bs (write_long (int (length bs)) st)"

definition write_symbol :: "octets \<Rightarrow> writer \<Rightarrow> writer" where
  "write_symbol n st =
     (case position (\<lambda>m. m = n) (w_symbols st) of
        Some i \<Rightarrow> write_long (int i) (put [chr8 CHR '';''] st)
      | None \<Rightarrow> write_bytes n (put [chr8 CHR '':''] (st\<lparr>w_symbols := w_symbols st @ [n]\<rparr>)))"

definition check_link :: "nat \<Rightarrow> writer \<Rightarrow> writer option" where
  "check_link key st =
     map_option (\<lambda>i. write_long (int i) (put [chr8 CHR ''@''] st)) (map_of (w_links st) key)"

definition register_link :: "nat \<Rightarrow> writer \<Rightarrow> writer" where
  "register_link key st = st\<lparr>w_links := (key, w_next st) # w_links st, w_next := w_next st + 1\<rparr>"

definition count_link :: "writer \<Rightarrow> writer" where
  "count_link st = st\<lparr>w_next := w_next st + 1\<rparr>"

definition write_bignum :: "int \<Rightarrow> writer \<Rightarrow> writer" where
  "write_bignum b st =
     (let bytes = bytes_le (nat \<bar>b\<bar>);
          even_bytes = (if odd (length bytes) then bytes @ [0] else bytes)
      in put even_bytes (write_long (int (length even_bytes div 2))
           (put [chr8 CHR ''l'', if b < 0 then 45 else 43] (count_link st))))"

text \<open>What an \<^verbatim>\<open>I\<close> wrapper carries.\<close>

datatype iv = EncBool bool | EncName octets | Named octets mval

definition encoding_ivar :: "nat \<Rightarrow> iv list" where
  "encoding_ivar e =
     (if e = UTF_8 then [EncBool True]
      else if e = US_ASCII then [EncBool False]
      else if e = ASCII_8BIT then []
      else [EncName (ascii (enc_name e))])"

definition own_ivars :: "mnode \<Rightarrow> iv list" where
  "own_ivars n = map (\<lambda>(x, v). Named (64 # x) v) (n_ivars n)"

definition write_encoding_name :: "octets \<Rightarrow> writer \<Rightarrow> writer" where
  "write_encoding_name n st =
     (case map_of (w_enc_links st) n of
        Some i \<Rightarrow> write_long (int i) (put [chr8 CHR ''@''] st)
      | None \<Rightarrow> write_bytes n (put [chr8 CHR ''\"'']
                  (st\<lparr>w_enc_links := (n, w_next st) # w_enc_links st, w_next := w_next st + 1\<rparr>)))"

type_synonym value_writer = "mval \<Rightarrow> writer \<Rightarrow> merror + writer"

fun write_all :: "value_writer \<Rightarrow> mval list \<Rightarrow> writer \<Rightarrow> merror + writer" where
  "write_all wr [] st = Inr st"
| "write_all wr (v # vs) st = bindE (wr v st) (write_all wr vs)"

fun write_named :: "value_writer \<Rightarrow> (octets \<times> mval) list \<Rightarrow> writer \<Rightarrow> merror + writer" where
  "write_named wr [] st = Inr st"
| "write_named wr ((n, v) # xs) st = bindE (wr v (write_symbol n st)) (write_named wr xs)"

definition write_iv :: "value_writer \<Rightarrow> iv \<Rightarrow> writer \<Rightarrow> merror + writer" where
  "write_iv wr i st =
     (case i of
        EncBool b \<Rightarrow> Inr (put [if b then chr8 CHR ''T'' else chr8 CHR ''F''] (write_symbol (ascii ''E'') st))
      | EncName n \<Rightarrow> Inr (write_encoding_name n (write_symbol (ascii ''encoding'') st))
      | Named n v \<Rightarrow> wr v (write_symbol n st))"

fun write_iv_list :: "value_writer \<Rightarrow> iv list \<Rightarrow> writer \<Rightarrow> merror + writer" where
  "write_iv_list wr [] st = Inr st"
| "write_iv_list wr (i # is) st = bindE (write_iv wr i st) (write_iv_list wr is)"

definition write_ivars :: "value_writer \<Rightarrow> iv list \<Rightarrow> writer \<Rightarrow> merror + writer" where
  "write_ivars wr is st = (if is = [] then Inr st else write_iv_list wr is (write_long (int (length is)) st))"

definition wrap_ivars :: "iv list \<Rightarrow> writer \<Rightarrow> writer" where
  "wrap_ivars is st = (if is = [] then st else put [chr8 CHR ''I''] st)"

definition flat_pairs :: "(mval \<times> mval) list \<Rightarrow> mval list" where
  "flat_pairs rows = concat (map (\<lambda>(k, v). [k, v]) rows)"

definition regexp_options :: "bool \<Rightarrow> bool \<Rightarrow> bool \<Rightarrow> 8 word" where
  "regexp_options ic ex ml = (if ic then 1 else 0) + (if ex then 2 else 0) + (if ml then 4 else 0)"

definition is_ascii :: "octets \<Rightarrow> bool" where
  "is_ascii s = list_all (\<lambda>b. b < 0x80) s"

definition write_builtin_body :: "value_writer \<Rightarrow> mpayload \<Rightarrow> writer \<Rightarrow> merror + writer" where
  "write_builtin_body wr p st =
     (case p of
        PStr bs e \<Rightarrow> Inr (write_bytes bs (put [chr8 CHR ''\"''] st))
      | PArr vs \<Rightarrow> write_all wr vs (write_long (int (length vs)) (put [chr8 CHR ''[''] st))
      | PHash rows d proc \<Rightarrow>
          write_all wr (flat_pairs rows) (write_long (int (length rows)) (put [chr8 CHR ''{''] st))
      | PRegexp src ic ex ml \<Rightarrow>
          Inr (put [regexp_options ic ex ml] (write_bytes src (put [chr8 CHR ''/''] st))))"

definition class_real_name :: "class_table \<Rightarrow> nat \<Rightarrow> octets option" where
  "class_real_name g c =
     (case g_name g c of Some n \<Rightarrow> if n \<noteq> [] \<and> hd n = chr8 CHR ''#'' then None else Some n | None \<Rightarrow> None)"

definition starts :: "octets \<Rightarrow> octets \<Rightarrow> bool" where
  "starts p s \<longleftrightarrow> take (length p) s = p"

definition nameable :: "class_table \<Rightarrow> nat \<Rightarrow> merror + octets" where
  "nameable g c =
     (case class_real_name g c of
        Some n \<Rightarrow> Inr n
      | None \<Rightarrow>
          let rendered = (case g_name g c of Some n \<Rightarrow> n | None \<Rightarrow> [])
          in if starts (ascii ''#<Class:'') rendered \<and> \<not> starts (ascii ''#<Class:0x'') rendered
             then Inl SingletonClass else Inl AnonymousClass)"

text \<open>The classes refused by type: \<^verbatim>\<open>CANT_DUMP\<close> and \<^verbatim>\<open>NO_DUMP_DATA\<close>, by their ids in \<^verbatim>\<open>zeo-abi/src/ids.rs\<close>.\<close>

definition CANT_DUMP :: "nat list" where
  "CANT_DUMP = [33, 35, 13, 17, 44]"

definition NO_DUMP_DATA :: "nat list" where
  "NO_DUMP_DATA = [36, 34, 45, 141, 11, 15, 14, 16, 80, 83, 23, 47, 48, 100, 101, 51, 52, 108, 53, 107, 54]"

definition refuse_class :: "class_table \<Rightarrow> nat \<Rightarrow> merror option" where
  "refuse_class g c =
     (if list_ex (\<lambda>a. a \<in> set CANT_DUMP) (g_ancestors g c) then Some CantDump
      else if list_ex (\<lambda>a. a \<in> set NO_DUMP_DATA) (g_ancestors g c) then Some NoDumpData
      else None)"

definition body_class :: "mbody \<Rightarrow> nat option" where
  "body_class b =
     (case b of BVal p \<Rightarrow> None | BSub c p \<Rightarrow> Some c | BPlain c \<Rightarrow> Some c | BStruct c ms \<Rightarrow> Some c | BSet c h \<Rightarrow> Some c)"

text \<open>The chains of the core values hold none of the refused classes.\<close>

definition refuse_undumpable :: "class_table \<Rightarrow> mnode list \<Rightarrow> mval \<Rightarrow> merror option" where
  "refuse_undumpable g H v =
     (case v of
        VRef a \<Rightarrow>
          if n_singleton (H ! a) then Some SingletonMethods
          else (case body_class (n_body (H ! a)) of Some c \<Rightarrow> refuse_class g c | None \<Rightarrow> None)
      | VOther c \<Rightarrow> refuse_class g c
      | _ \<Rightarrow> None)"

definition write_inline_array :: "value_writer \<Rightarrow> mval list \<Rightarrow> writer \<Rightarrow> merror + writer" where
  "write_inline_array wr vs st =
     write_all wr vs (write_long (int (length vs)) (put [chr8 CHR ''[''] (count_link st)))"

definition write_value :: "value_writer \<Rightarrow> nat \<Rightarrow> mnode \<Rightarrow> mpayload \<Rightarrow> writer \<Rightarrow> merror + writer" where
  "write_value wr key n p st =
     (case p of
        PStr bs e \<Rightarrow>
          let is = encoding_ivar e @ own_ivars n
          in write_ivars wr is (write_bytes bs (put [chr8 CHR ''\"''] (register_link key (wrap_ivars is st))))
      | PRegexp src ic ex ml \<Rightarrow>
          let is = encoding_ivar (if is_ascii src then US_ASCII else UTF_8)
          in write_ivars wr is (put [regexp_options ic ex ml]
               (write_bytes src (put [chr8 CHR ''/''] (register_link key (wrap_ivars is st)))))
      | PArr vs \<Rightarrow>
          let is = own_ivars n
          in bindE (write_all wr vs (write_long (int (length vs)) (put [chr8 CHR ''[''] (register_link key (wrap_ivars is st)))))
               (write_ivars wr is)
      | PHash rows d proc \<Rightarrow>
          if proc then Inl DefaultProc
          else let is = own_ivars n
            in bindE (write_all wr (flat_pairs rows)
                 (write_long (int (length rows)) (put [if d \<noteq> VNil then chr8 CHR ''}'' else chr8 CHR ''{'']
                   (wrap_ivars is (register_link key st)))))
                 (\<lambda>st. bindE (if d \<noteq> VNil then wr d st else Inr st) (write_ivars wr is)))"

fun write_extends :: "class_table \<Rightarrow> nat list \<Rightarrow> writer \<Rightarrow> writer" where
  "write_extends g [] st = st"
| "write_extends g (m # ms) st =
     write_extends g ms (case g_name g m of Some n \<Rightarrow> write_symbol n (put [chr8 CHR ''e''] st) | None \<Rightarrow> st)"

text \<open>
  The code asks for the class name before it looks for a link; an object that has a link was written, so it has a name.
\<close>

definition write_object :: "value_writer \<Rightarrow> class_table \<Rightarrow> nat \<Rightarrow> mnode \<Rightarrow> writer \<Rightarrow> merror + writer" where
  "write_object wr g key n st =
     (case n_body n of
        BVal p \<Rightarrow> write_value wr key n p st
      | BSet c h \<Rightarrow>
          bindE (nameable g c) (\<lambda>name.
            write_ivars wr [Named (ascii ''@hash'') (VRef h)]
              (write_symbol name (put [chr8 CHR ''o''] (register_link key st))))
      | BStruct c ms \<Rightarrow>
          bindE (nameable g c) (\<lambda>name.
            write_named wr ms (write_long (int (length ms)) (write_symbol name (put [chr8 CHR ''S''] (register_link key st)))))
      | BSub c p \<Rightarrow>
          bindE (nameable g c) (\<lambda>name.
            let is = (case p of PStr bs e \<Rightarrow> encoding_ivar e | _ \<Rightarrow> []) @ own_ivars n
            in bindE (write_builtin_body wr p (write_symbol name (put [chr8 CHR ''C''] (register_link key (wrap_ivars is st)))))
                 (write_ivars wr is))
      | BPlain c \<Rightarrow>
          bindE (nameable g c) (\<lambda>name.
            write_named wr (map (\<lambda>(x, v). (64 # x, v)) (n_ivars n))
              (write_long (int (length (n_ivars n)))
                (write_symbol name (put [chr8 CHR ''o''] (register_link key (write_extends g (n_ext n) st)))))))"

definition linked :: "nat \<Rightarrow> writer \<Rightarrow> (writer \<Rightarrow> merror + writer) \<Rightarrow> merror + writer" where
  "linked key st f = (case check_link key st of Some st' \<Rightarrow> Inr st' | None \<Rightarrow> f st)"

text \<open>\<^verbatim>\<open>ptr_of\<close> has no arm for a range.\<close>

definition ptr_of :: "class_table \<Rightarrow> mval \<Rightarrow> nat" where
  "ptr_of g v = (case v of VRef a \<Rightarrow> g_ptr g a | _ \<Rightarrow> 0)"

definition nil_or :: "mval option \<Rightarrow> mval" where
  "nil_or x = (case x of Some v \<Rightarrow> v | None \<Rightarrow> VNil)"

definition write_range :: "value_writer \<Rightarrow> mval option \<Rightarrow> mval option \<Rightarrow> bool \<Rightarrow> nat \<Rightarrow> writer \<Rightarrow> merror + writer" where
  "write_range wr lo hi excl key st =
     write_named wr [(ascii ''excl'', VBool excl), (ascii ''begin'', nil_or lo), (ascii ''end'', nil_or hi)]
       (write_long 3 (write_symbol (ascii ''Range'') (put [chr8 CHR ''o''] (register_link key st))))"

definition write_inner :: "value_writer \<Rightarrow> class_table \<Rightarrow> mnode list \<Rightarrow> mval \<Rightarrow> writer \<Rightarrow> merror + writer" where
  "write_inner wr g H v st =
     (case v of
        VNil \<Rightarrow> Inr (put [chr8 CHR ''0''] st)
      | VBool b \<Rightarrow> Inr (put [if b then chr8 CHR ''T'' else chr8 CHR ''F''] st)
      | VInt n \<Rightarrow> Inr (if fits_i32 n then write_long n (put [chr8 CHR ''i''] st) else write_bignum n st)
      | VBig b \<Rightarrow> Inr (write_bignum b st)
      | VSym n \<Rightarrow> Inr (write_symbol n st)
      | VFloat f \<Rightarrow> Inr (write_bytes (float_to_marshal f) (put [chr8 CHR ''f''] (count_link st)))
      | VRef a \<Rightarrow> linked (ptr_of g v) st (write_object wr g (ptr_of g v) (H ! a))
      | VRange s e x \<Rightarrow> linked (ptr_of g v) st (write_range wr s e x (ptr_of g v))
      | VClass c \<Rightarrow>
          linked c st (\<lambda>st.
            bindE (nameable g c) (\<lambda>name.
              Inr (write_bytes name (put [if g_module g c then chr8 CHR ''m'' else chr8 CHR ''c''] (register_link c st)))))
      | VRational n d \<Rightarrow>
          write_inline_array wr [bigint_to_value n, bigint_to_value d]
            (write_symbol (ascii ''Rational'') (put [chr8 CHR ''U''] (count_link st)))
      | VComplex r i \<Rightarrow>
          write_inline_array wr [r, i] (write_symbol (ascii ''Complex'') (put [chr8 CHR ''U''] (count_link st)))
      | VOther c \<Rightarrow> Inl NoDumpData)"

fun write_val :: "nat \<Rightarrow> class_table \<Rightarrow> mnode list \<Rightarrow> mval \<Rightarrow> writer \<Rightarrow> merror + writer" where
  "write_val 0 g H v st = Inl OutOfFuel"
| "write_val (Suc k) g H v st =
     (if (case w_limit st of Some l \<Rightarrow> l < w_depth st | None \<Rightarrow> False) then Inl DepthLimit
      else case refuse_undumpable g H v of
        Some e \<Rightarrow> Inl e
      | None \<Rightarrow>
          bindE (write_inner (write_val k g H) g H v (st\<lparr>w_depth := w_depth st + 1\<rparr>))
            (\<lambda>st'. Inr (st'\<lparr>w_depth := w_depth st' - 1\<rparr>)))"

text \<open>Enough fuel for every graph: see \<open>dump_returns\<close> in \<open>MarshalTotal\<close>.\<close>

primrec vsize :: "mval \<Rightarrow> nat" where
  "vsize VNil = 1"
| "vsize (VBool b) = 1"
| "vsize (VInt n) = 1"
| "vsize (VBig n) = 1"
| "vsize (VSym n) = 1"
| "vsize (VFloat f) = 1"
| "vsize (VRef a) = 1"
| "vsize (VRange lo hi x) = Suc (Suc ((case map_option vsize lo of Some k \<Rightarrow> k | None \<Rightarrow> 0) + (case map_option vsize hi of Some k \<Rightarrow> k | None \<Rightarrow> 0)))"
| "vsize (VClass c) = 1"
| "vsize (VRational n d) = 2"
| "vsize (VComplex a b) = Suc (vsize a + vsize b)"
| "vsize (VOther c) = 1"

definition vsizes :: "mval list \<Rightarrow> nat" where
  "vsizes vs = sum_list (map vsize vs)"

definition held_values :: "mpayload \<Rightarrow> mval list" where
  "held_values p = (case p of PArr vs \<Rightarrow> vs | PHash rows d proc \<Rightarrow> flat_pairs rows @ [d] | _ \<Rightarrow> [])"

definition node_values :: "mnode \<Rightarrow> mval list" where
  "node_values n =
     map snd (n_ivars n) @
       (case n_body n of BVal p \<Rightarrow> held_values p | BSub c p \<Rightarrow> held_values p | BPlain c \<Rightarrow> []
        | BStruct c ms \<Rightarrow> map snd ms | BSet c h \<Rightarrow> [VRef h])"

definition dump_fuel :: "mnode list \<Rightarrow> mval \<Rightarrow> nat" where
  "dump_fuel H v = Suc (sum_list (map (\<lambda>n. Suc (vsizes (node_values n))) H) + vsize v)"

definition dump :: "class_table \<Rightarrow> mnode list \<Rightarrow> mval \<Rightarrow> int option \<Rightarrow> merror + octets" where
  "dump g H v limit = bindE (write_val (dump_fuel H v) g H v (put [4, 8] (new_writer limit))) (\<lambda>st. Inr (w_out st))"

section \<open>The reader\<close>

record reader =
  r_bytes :: octets
  r_pos :: nat
  r_symbols :: "octets list"
  r_objects :: "mval list"
  r_heap :: "mnode list"

type_synonym 'a rd = "reader \<Rightarrow> merror + 'a \<times> reader"

definition ret :: "'a \<Rightarrow> 'a rd" where
  "ret x r = Inr (x, r)"

definition fail :: "merror \<Rightarrow> 'a rd" where
  "fail e r = Inl e"

definition andthen :: "'a rd \<Rightarrow> ('a \<Rightarrow> 'b rd) \<Rightarrow> 'b rd" where
  "andthen m f r = (case m r of Inl e \<Rightarrow> Inl e | Inr (x, r') \<Rightarrow> f x r')"

definition read_byte :: "8 word rd" where
  "read_byte r = (if r_pos r < length (r_bytes r) then Inr (r_bytes r ! r_pos r, r\<lparr>r_pos := r_pos r + 1\<rparr>) else Inl TooShort)"

text \<open>A multi-byte long: \<open>k\<close> bytes, the low one first, on top of \<open>0\<close> or \<open>-1\<close>.\<close>

fun read_le :: "nat \<Rightarrow> nat \<Rightarrow> int \<Rightarrow> int rd" where
  "read_le 0 i x = ret x"
| "read_le (Suc k) i x = andthen read_byte (\<lambda>b. read_le k (Suc i) (x + int (unat b) * 256 ^ i))"

definition read_long :: "int rd" where
  "read_long =
     andthen read_byte (\<lambda>b.
       let c = sint b
       in if c = 0 then ret 0
          else if 0 < c then (if 6 \<le> c then ret (c - 5) else read_le (nat c) 0 0)
          else if c \<le> -6 then ret (c + 5)
          else read_le (nat (- c)) 0 (- (256 ^ nat (- c))))"

text \<open>
  A negative length is cast to a huge \<^verbatim>\<open>usize\<close>: added to the position it overflows when it is at most the position, and the slice (or
  the checked addition) panics; otherwise the end is past the data.
\<close>

definition read_bytes :: "octets rd" where
  "read_bytes =
     andthen read_long (\<lambda>n r.
       if n < 0 then (if - n \<le> int (r_pos r) then Inl Panic else Inl TooShort)
       else if length (r_bytes r) < r_pos r + nat n then Inl TooShort
       else Inr (take (nat n) (drop (r_pos r) (r_bytes r)), r\<lparr>r_pos := r_pos r + nat n\<rparr>))"

definition symbol_link :: "octets rd" where
  "symbol_link =
     andthen read_long (\<lambda>i r.
       if 0 \<le> i \<and> nat i < length (r_symbols r) then Inr (r_symbols r ! nat i, r) else Inl BadSymbolLink)"

definition symbol_new :: "octets rd" where
  "symbol_new =
     andthen read_bytes (\<lambda>bs r. let n = from_utf8_lossy bs in Inr (n, r\<lparr>r_symbols := r_symbols r @ [n]\<rparr>))"

definition read_symbol_name :: "octets rd" where
  "read_symbol_name =
     andthen read_byte (\<lambda>t.
       if t = chr8 CHR '':'' then symbol_new
       else if t = chr8 CHR '';'' then symbol_link
       else fail (ExpectedSymbol t))"

definition push_object :: "mval \<Rightarrow> nat rd" where
  "push_object v r = Inr (length (r_objects r), r\<lparr>r_objects := r_objects r @ [v]\<rparr>)"

definition set_object :: "nat \<Rightarrow> mval \<Rightarrow> unit rd" where
  "set_object i v r = Inr ((), r\<lparr>r_objects := (r_objects r)[i := v]\<rparr>)"

definition new_ref :: "mbody \<Rightarrow> nat rd" where
  "new_ref b r = Inr (length (r_heap r), r\<lparr>r_heap := r_heap r @ [new_node b]\<rparr>)"

definition update_node :: "nat \<Rightarrow> (mnode \<Rightarrow> mnode) \<Rightarrow> unit rd" where
  "update_node a f r = Inr ((), r\<lparr>r_heap := (r_heap r)[a := f (r_heap r ! a)]\<rparr>)"

definition read_class :: "class_table \<Rightarrow> octets \<Rightarrow> nat rd" where
  "read_class g n = (case g_lookup g n of Some c \<Rightarrow> ret c | None \<Rightarrow> fail (UndefinedClass n))"

definition truthy :: "mval \<Rightarrow> bool" where
  "truthy v \<longleftrightarrow> v \<noteq> VNil \<and> v \<noteq> VBool False"

definition retag :: "nat \<Rightarrow> mnode \<Rightarrow> mnode" where
  "retag e n =
     (case n_body n of
        BVal (PStr bs e0) \<Rightarrow> n\<lparr>n_body := BVal (PStr bs e)\<rparr>
      | BSub c (PStr bs e0) \<Rightarrow> n\<lparr>n_body := BSub c (PStr bs e)\<rparr>
      | _ \<Rightarrow> n)"

definition set_string_encoding :: "mval \<Rightarrow> nat \<Rightarrow> unit rd" where
  "set_string_encoding v e = (case v of VRef a \<Rightarrow> update_node a (retag e) | _ \<Rightarrow> ret ())"

definition trim_at :: "octets \<Rightarrow> octets" where
  "trim_at n = dropWhile (\<lambda>b. b = 64) n"

definition ivar_put :: "octets \<Rightarrow> mval \<Rightarrow> (octets \<times> mval) list \<Rightarrow> (octets \<times> mval) list" where
  "ivar_put x v xs = (if x \<in> set (map fst xs) then map (\<lambda>(y, u). if y = x then (y, v) else (y, u)) xs else xs @ [(x, v)])"

definition ivar_set :: "mval \<Rightarrow> octets \<Rightarrow> mval \<Rightarrow> unit rd" where
  "ivar_set v x u =
     (case v of VRef a \<Rightarrow> update_node a (\<lambda>n. n\<lparr>n_ivars := ivar_put x u (n_ivars n)\<rparr>) | _ \<Rightarrow> ret ())"

definition apply_encoding_name :: "mval \<Rightarrow> mval \<Rightarrow> unit rd" where
  "apply_encoding_name v u r =
     (case u of
        VRef a \<Rightarrow>
          (case n_body (r_heap r ! a) of
             BVal (PStr bs e) \<Rightarrow>
               (case find_encoding (map (\<lambda>b. char_of (unat b)) bs) of
                  Some e' \<Rightarrow> set_string_encoding v e' r | None \<Rightarrow> Inr ((), r))
           | _ \<Rightarrow> Inr ((), r))
      | _ \<Rightarrow> Inr ((), r))"

definition apply_ivar :: "mval \<Rightarrow> octets \<Rightarrow> mval \<Rightarrow> unit rd" where
  "apply_ivar v n u =
     (if n = ascii ''E'' then set_string_encoding v (if truthy u then UTF_8 else US_ASCII)
      else if n = ascii ''encoding'' then apply_encoding_name v u
      else if n = ascii ''mesg'' \<or> n = ascii ''bt'' then ret ()
      else ivar_set v (trim_at n) u)"

fun read_ivar_list :: "mval rd \<Rightarrow> nat \<Rightarrow> mval \<Rightarrow> unit rd" where
  "read_ivar_list rd 0 v = ret ()"
| "read_ivar_list rd (Suc k) v =
     andthen read_symbol_name (\<lambda>n. andthen rd (\<lambda>u. andthen (apply_ivar v n u) (\<lambda>_. read_ivar_list rd k v)))"

definition apply_ivars :: "mval rd \<Rightarrow> mval \<Rightarrow> unit rd" where
  "apply_ivars rd v = andthen read_long (\<lambda>n. read_ivar_list rd (nat n) v)"

subsection \<open>Hash keys\<close>

text \<open>\<^verbatim>\<open>HashKey\<close> of an immediate value or of a string; other keys hash by content or by user code.\<close>

datatype hkey = KImm mval | KStr octets nat | KNone

definition hkey_of :: "mnode list \<Rightarrow> mval \<Rightarrow> hkey" where
  "hkey_of h k =
     (case k of
        VRef a \<Rightarrow> (case n_body (h ! a) of BVal (PStr bs e) \<Rightarrow> KStr bs (hash_key_tag (from_bytes bs e)) | _ \<Rightarrow> KNone)
      | VRange lo hi x \<Rightarrow> KNone | VRational n d \<Rightarrow> KNone | VComplex a b \<Rightarrow> KNone | VOther c \<Rightarrow> KNone
      | _ \<Rightarrow> KImm k)"

text \<open>A string key is stored as a frozen copy.\<close>

definition key_snapshot :: "mval \<Rightarrow> mval rd" where
  "key_snapshot k r =
     (case k of VRef a \<Rightarrow> andthen (new_ref (n_body (r_heap r ! a))) (\<lambda>b. ret (VRef b)) r | _ \<Rightarrow> Inr (k, r))"

definition put_row :: "mnode list \<Rightarrow> mval \<Rightarrow> mval \<Rightarrow> hkey \<Rightarrow> (mval \<times> mval) list \<Rightarrow> (mval \<times> mval) list" where
  "put_row h k v hk rows =
     (case position (\<lambda>(k', v'). hkey_of h k' = hk) rows of Some i \<Rightarrow> rows[i := (k, v)] | None \<Rightarrow> rows @ [(k, v)])"

definition payload_put :: "mnode list \<Rightarrow> mval \<Rightarrow> mval \<Rightarrow> hkey \<Rightarrow> mnode \<Rightarrow> mnode" where
  "payload_put h k v hk n =
     (case n_body n of
        BVal (PHash rows d p) \<Rightarrow> n\<lparr>n_body := BVal (PHash (put_row h k v hk rows) d p)\<rparr>
      | BSub c (PHash rows d p) \<Rightarrow> n\<lparr>n_body := BSub c (PHash (put_row h k v hk rows) d p)\<rparr>
      | _ \<Rightarrow> n)"

definition row_set :: "nat \<Rightarrow> mval \<Rightarrow> mval \<Rightarrow> unit rd" where
  "row_set a k v r =
     (let hk = hkey_of (r_heap r) k
      in if hk = KNone then Inl KeyNotModelled
         else andthen (key_snapshot k) (\<lambda>k' r'. update_node a (payload_put (r_heap r') k' v hk) r') r)"

fun read_pairs :: "mval rd \<Rightarrow> nat \<Rightarrow> nat \<Rightarrow> unit rd" where
  "read_pairs rd 0 a = ret ()"
| "read_pairs rd (Suc k) a =
     andthen rd (\<lambda>key. andthen rd (\<lambda>u. andthen (row_set a key u) (\<lambda>_. read_pairs rd k a)))"

definition push_elem :: "mval \<Rightarrow> mnode \<Rightarrow> mnode" where
  "push_elem v n =
     (case n_body n of
        BVal (PArr vs) \<Rightarrow> n\<lparr>n_body := BVal (PArr (vs @ [v]))\<rparr>
      | BSub c (PArr vs) \<Rightarrow> n\<lparr>n_body := BSub c (PArr (vs @ [v]))\<rparr>
      | _ \<Rightarrow> n)"

fun read_elems :: "mval rd \<Rightarrow> nat \<Rightarrow> nat \<Rightarrow> unit rd" where
  "read_elems rd 0 a = ret ()"
| "read_elems rd (Suc k) a = andthen rd (\<lambda>v. andthen (update_node a (push_elem v)) (\<lambda>_. read_elems rd k a))"

fun read_fields :: "mval rd \<Rightarrow> nat \<Rightarrow> (octets \<times> mval) list rd" where
  "read_fields rd 0 = ret []"
| "read_fields rd (Suc k) =
     andthen read_symbol_name (\<lambda>n. andthen rd (\<lambda>v. andthen (read_fields rd k) (\<lambda>xs. ret ((n, v) # xs))))"

fun read_raw :: "nat \<Rightarrow> octets rd" where
  "read_raw 0 = ret []"
| "read_raw (Suc k) = andthen read_byte (\<lambda>b. andthen (read_raw k) (\<lambda>bs. ret (b # bs)))"

subsection \<open>The tags\<close>

definition read_bignum :: "mval rd" where
  "read_bignum =
     andthen read_byte (\<lambda>sign. andthen read_long (\<lambda>n.
       if n < 0 then fail Panic
       else andthen (read_raw (2 * nat n)) (\<lambda>bs.
         let m = int (be_nat (rev bs)); v = bigint_to_value (if sign = 45 then - m else m)
         in andthen (push_object v) (\<lambda>_. ret v))))"

definition read_string :: "mval rd" where
  "read_string =
     andthen read_bytes (\<lambda>bs. andthen (new_ref (BVal (PStr bs ASCII_8BIT))) (\<lambda>a.
       andthen (push_object (VRef a)) (\<lambda>_. ret (VRef a))))"

definition regexp_body :: "class_table \<Rightarrow> mpayload rd" where
  "regexp_body g =
     andthen read_bytes (\<lambda>src. andthen read_byte (\<lambda>opts.
       let s = from_utf8_lossy src
       in if g_regexp g s then ret (PRegexp s (bit opts 0) (bit opts 1) (bit opts 2)) else fail BadRegexp))"

definition read_regexp :: "class_table \<Rightarrow> mval rd" where
  "read_regexp g =
     andthen (push_object VNil) (\<lambda>i. andthen (regexp_body g) (\<lambda>p. andthen (new_ref (BVal p)) (\<lambda>a.
       andthen (set_object i (VRef a)) (\<lambda>_. ret (VRef a)))))"

definition read_class_ref :: "class_table \<Rightarrow> mval rd" where
  "read_class_ref g =
     andthen read_bytes (\<lambda>bs. andthen (read_class g (from_utf8_lossy bs)) (\<lambda>c.
       andthen (push_object (VClass c)) (\<lambda>_. ret (VClass c))))"

definition read_array :: "mval rd \<Rightarrow> mval rd" where
  "read_array rd =
     andthen (new_ref (BVal (PArr []))) (\<lambda>a. andthen (push_object (VRef a)) (\<lambda>_.
       andthen read_long (\<lambda>n. andthen (read_elems rd (nat n) a) (\<lambda>_. ret (VRef a)))))"

definition set_default :: "mval \<Rightarrow> mnode \<Rightarrow> mnode" where
  "set_default d n = (case n_body n of BVal (PHash rows d0 p) \<Rightarrow> n\<lparr>n_body := BVal (PHash rows d p)\<rparr> | _ \<Rightarrow> n)"

definition read_hash :: "mval rd \<Rightarrow> bool \<Rightarrow> mval rd" where
  "read_hash rd defaulted =
     andthen (new_ref (BVal (PHash [] VNil False))) (\<lambda>a. andthen (push_object (VRef a)) (\<lambda>_.
       andthen read_long (\<lambda>n. andthen (read_pairs rd (nat n) a) (\<lambda>_.
         andthen (if defaulted then andthen rd (\<lambda>d. update_node a (set_default d)) else ret ()) (\<lambda>_. ret (VRef a))))))"

text \<open>
  The last value read for a member wins; members the class does not have are dropped.  A negative count is cast to a huge one; as
  every field takes a byte, one field more than there are bytes ends in the same error.
\<close>

definition member_value :: "(octets \<times> mval) list \<Rightarrow> octets \<Rightarrow> mval" where
  "member_value fs m = (case map_of (rev fs) m of Some v \<Rightarrow> v | None \<Rightarrow> VNil)"

definition read_struct :: "class_table \<Rightarrow> mval rd \<Rightarrow> mval rd" where
  "read_struct g rd =
     andthen (push_object VNil) (\<lambda>i. andthen read_symbol_name (\<lambda>cls. andthen (read_class g cls) (\<lambda>c.
       case g_members g c of
         None \<Rightarrow> fail NotAStruct
       | Some ms \<Rightarrow> andthen read_long (\<lambda>n r.
           andthen (read_fields rd (if n < 0 then Suc (length (r_bytes r)) else nat n)) (\<lambda>fs.
             andthen (new_ref (BStruct c (map (\<lambda>m. (m, member_value fs m)) ms))) (\<lambda>a.
               andthen (set_object i (VRef a)) (\<lambda>_. ret (VRef a)))) r))))"

definition subclass_payload :: "class_table \<Rightarrow> mpayload rd" where
  "subclass_payload g =
     andthen read_byte (\<lambda>t.
       if t = chr8 CHR ''\"'' then andthen read_bytes (\<lambda>bs. ret (PStr bs ASCII_8BIT))
       else if t = chr8 CHR ''['' then ret (PArr [])
       else if t = chr8 CHR ''{'' then ret (PHash [] VNil False)
       else if t = chr8 CHR ''/'' then regexp_body g
       else fail (BadSubclassBody t))"

definition fill_payload :: "mval rd \<Rightarrow> mpayload \<Rightarrow> nat \<Rightarrow> unit rd" where
  "fill_payload rd p a =
     (case p of
        PArr vs \<Rightarrow> andthen read_long (\<lambda>n. read_elems rd (nat n) a)
      | PHash rows d proc \<Rightarrow> andthen read_long (\<lambda>n. read_pairs rd (nat n) a)
      | _ \<Rightarrow> ret ())"

definition read_subclass :: "class_table \<Rightarrow> mval rd \<Rightarrow> mval rd" where
  "read_subclass g rd =
     andthen (push_object VNil) (\<lambda>i. andthen read_symbol_name (\<lambda>cls. andthen (read_class g cls) (\<lambda>c.
       andthen (subclass_payload g) (\<lambda>p.
         if \<not> g_value_root g c then fail NotASubclass
         else andthen (new_ref (BSub c p)) (\<lambda>a. andthen (set_object i (VRef a)) (\<lambda>_.
           andthen (fill_payload rd p a) (\<lambda>_. ret (VRef a))))))))"

definition rational_new :: "int \<Rightarrow> int \<Rightarrow> mval rd" where
  "rational_new n d =
     (if d = 0 then fail ZeroDivision
      else let q = gcd n d; a = n div q; b = d div q in if b < 0 then ret (VRational (- a) (- b)) else ret (VRational a b))"

definition to_bigint :: "mval \<Rightarrow> int rd" where
  "to_bigint v = (case v of VInt n \<Rightarrow> ret n | VBig n \<Rightarrow> ret n | _ \<Rightarrow> fail NotAnInteger)"

text \<open>A component is a native number; an object of a class of its own below \<^verbatim>\<open>Numeric\<close> is left out.\<close>

definition is_component :: "mval \<Rightarrow> bool" where
  "is_component v = (case v of VInt n \<Rightarrow> True | VBig n \<Rightarrow> True | VFloat f \<Rightarrow> True | VRational n d \<Rightarrow> True | _ \<Rightarrow> False)"

definition complex_new :: "mval \<Rightarrow> mval \<Rightarrow> mval rd" where
  "complex_new a b = (if is_component a \<and> is_component b then ret (VComplex a b) else fail NotAComponent)"

definition elem_at :: "mval list \<Rightarrow> nat \<Rightarrow> mval" where
  "elem_at vs i = (if i < length vs then vs ! i else VNil)"

text \<open>The arm for classes with \<^verbatim>\<open>marshal_load\<close> runs user code and is not modelled.\<close>

definition read_number :: "class_table \<Rightarrow> mval rd \<Rightarrow> mval rd" where
  "read_number g rd =
     andthen (push_object VNil) (\<lambda>i. andthen read_symbol_name (\<lambda>cls.
       if cls = ascii ''Rational'' \<or> cls = ascii ''Complex'' then
         andthen rd (\<lambda>inner r.
           case inner of
             VRef a \<Rightarrow>
               (case n_body (r_heap r ! a) of
                  BVal (PArr vs) \<Rightarrow>
                    andthen
                      (if cls = ascii ''Rational''
                       then andthen (to_bigint (elem_at vs 0)) (\<lambda>n. andthen (to_bigint (elem_at vs 1)) (\<lambda>d. rational_new n d))
                       else complex_new (elem_at vs 0) (elem_at vs 1))
                      (\<lambda>v. andthen (set_object i v) (\<lambda>_. ret v)) r
                | _ \<Rightarrow> Inl MalformedUser)
           | _ \<Rightarrow> Inl MalformedUser)
       else fail NoAllocator))"

definition range_endpoint :: "mval \<Rightarrow> mval option" where
  "range_endpoint v = (if v = VNil then None else Some v)"

definition range_of_fields :: "(octets \<times> mval) list \<Rightarrow> mval" where
  "range_of_fields fs =
     (let get = (\<lambda>n. case map_of (rev (map (\<lambda>(x, v). (trim_at x, v)) fs)) n of Some v \<Rightarrow> v | None \<Rightarrow> VNil)
      in VRange (range_endpoint (get (ascii ''begin''))) (range_endpoint (get (ascii ''end''))) (truthy (get (ascii ''excl''))))"

definition read_range :: "mval rd \<Rightarrow> nat \<Rightarrow> mval rd" where
  "read_range rd i =
     andthen read_long (\<lambda>n. andthen (read_fields rd (nat n)) (\<lambda>fs.
       let v = range_of_fields fs in andthen (set_object i v) (\<lambda>_. ret v)))"

text \<open>The members are the keys of the backing hash; a set is built around a fresh hash of them.\<close>

definition set_members :: "mnode list \<Rightarrow> (octets \<times> mval) list \<Rightarrow> mval list" where
  "set_members h fs =
     (case filter (\<lambda>(x, v). trim_at x = ascii ''hash'' \<and>
                     (case v of VRef a \<Rightarrow> (case n_body (h ! a) of BVal (PHash rows d p) \<Rightarrow> True | _ \<Rightarrow> False) | _ \<Rightarrow> False)) fs of
        [] \<Rightarrow> []
      | ys \<Rightarrow> (case snd (last ys) of VRef a \<Rightarrow> (case n_body (h ! a) of BVal (PHash rows d p) \<Rightarrow> map fst rows | _ \<Rightarrow> []) | _ \<Rightarrow> []))"

definition read_set :: "mval rd \<Rightarrow> nat \<Rightarrow> nat \<Rightarrow> mval rd" where
  "read_set rd i c =
     andthen read_long (\<lambda>n. andthen (read_fields rd (nat n)) (\<lambda>fs r.
       andthen (new_ref (BVal (PHash (map (\<lambda>k. (k, VBool True)) (set_members (r_heap r) fs)) (VBool False) False))) (\<lambda>h.
         andthen (new_ref (BSet c h)) (\<lambda>a. andthen (set_object i (VRef a)) (\<lambda>_. ret (VRef a)))) r))"

fun read_object_ivars :: "mval rd \<Rightarrow> nat \<Rightarrow> nat \<Rightarrow> unit rd" where
  "read_object_ivars rd 0 a = ret ()"
| "read_object_ivars rd (Suc k) a =
     andthen read_symbol_name (\<lambda>n. andthen rd (\<lambda>v.
       andthen (if n = ascii ''mesg'' \<or> n = ascii ''bt'' then ret () else ivar_set (VRef a) (trim_at n) v) (\<lambda>_.
         read_object_ivars rd k a)))"

text \<open>The id of the core class \<^verbatim>\<open>Set\<close>.\<close>

definition SET_CLASS :: nat where
  "SET_CLASS = 42"

definition read_object :: "class_table \<Rightarrow> mval rd \<Rightarrow> mval rd" where
  "read_object g rd =
     andthen (push_object VNil) (\<lambda>i. andthen read_symbol_name (\<lambda>cls.
       if cls = ascii ''Range'' then read_range rd i
       else if cls = ascii ''Set'' then read_set rd i SET_CLASS
       else andthen (read_class g cls) (\<lambda>c.
         case g_blank g c of
           None \<Rightarrow> fail NoAllocator
         | Some b \<Rightarrow>
             andthen (new_ref b) (\<lambda>a. andthen (set_object i (VRef a)) (\<lambda>_. andthen read_long (\<lambda>n.
               andthen (case b of BVal p \<Rightarrow> ret () | _ \<Rightarrow> read_object_ivars rd (nat n) a) (\<lambda>_. ret (VRef a))))))))"

definition extend_node :: "nat \<Rightarrow> mnode \<Rightarrow> mnode" where
  "extend_node m n = (if m \<in> set (n_ext n) then n else n\<lparr>n_ext := n_ext n @ [m]\<rparr>)"

definition read_extended :: "class_table \<Rightarrow> mval rd \<Rightarrow> mval rd" where
  "read_extended g rd =
     andthen read_symbol_name (\<lambda>m. andthen rd (\<lambda>v.
       case g_lookup g m of
         Some mid \<Rightarrow> (case v of VRef a \<Rightarrow> andthen (update_node a (extend_node mid)) (\<lambda>_. ret v) | _ \<Rightarrow> ret v)
       | None \<Rightarrow> ret v))"

definition object_link :: "mval rd" where
  "object_link =
     andthen read_long (\<lambda>i r.
       if 0 \<le> i \<and> nat i < length (r_objects r) then Inr (r_objects r ! nat i, r) else Inl BadObjectLink)"

text \<open>The arm for \<^verbatim>\<open>u\<close> runs user code and is not modelled.\<close>

fun read_tag :: "nat \<Rightarrow> class_table \<Rightarrow> 8 word \<Rightarrow> mval rd" where
  "read_tag 0 g t = fail OutOfFuel"
| "read_tag (Suc k) g t =
     (let rd = andthen read_byte (read_tag k g)
      in if t = chr8 CHR ''0'' then ret VNil
         else if t = chr8 CHR ''T'' then ret (VBool True)
         else if t = chr8 CHR ''F'' then ret (VBool False)
         else if t = chr8 CHR ''i'' then andthen read_long (\<lambda>n. ret (VInt n))
         else if t = chr8 CHR '':'' then andthen symbol_new (\<lambda>n. ret (VSym n))
         else if t = chr8 CHR '';'' then andthen symbol_link (\<lambda>n. ret (VSym n))
         else if t = chr8 CHR ''@'' then object_link
         else if t = chr8 CHR ''f'' then
           andthen read_bytes (\<lambda>bs. let v = VFloat (parse_marshal_float bs) in andthen (push_object v) (\<lambda>_. ret v))
         else if t = chr8 CHR ''\"'' then read_string
         else if t = chr8 CHR ''/'' then read_regexp g
         else if t = chr8 CHR ''['' then read_array rd
         else if t = chr8 CHR ''{'' then read_hash rd False
         else if t = chr8 CHR ''}'' then read_hash rd True
         else if t = chr8 CHR ''l'' then read_bignum
         else if t = chr8 CHR ''c'' \<or> t = chr8 CHR ''m'' then read_class_ref g
         else if t = chr8 CHR ''C'' then read_subclass g rd
         else if t = chr8 CHR ''S'' then read_struct g rd
         else if t = chr8 CHR ''U'' then read_number g rd
         else if t = chr8 CHR ''o'' then read_object g rd
         else if t = chr8 CHR ''e'' then read_extended g rd
         else if t = chr8 CHR ''I'' then
           andthen read_byte (\<lambda>t'. andthen (read_tag k g t') (\<lambda>v. andthen (apply_ivars rd v) (\<lambda>_. ret v)))
         else fail (FormatError t))"

definition new_reader :: "octets \<Rightarrow> reader" where
  "new_reader bs = \<lparr>r_bytes = bs, r_pos = 0, r_symbols = [], r_objects = [], r_heap = []\<rparr>"

text \<open>The fuel is the length of the data: every nested read has taken a byte first.\<close>

definition load :: "class_table \<Rightarrow> octets \<Rightarrow> merror + mval \<times> mnode list" where
  "load g bs =
     bindE (andthen read_byte (\<lambda>major. andthen read_byte (\<lambda>minor.
              if major \<noteq> 4 \<or> 8 < minor then fail Incompatible else andthen read_byte (read_tag (length bs) g)))
            (new_reader bs))
       (\<lambda>(v, r). Inr (v, r_heap r))"

end
