(* ===== verification/MarshalText.thy ===== *)
theory MarshalText
  imports Marshal
begin

text \<open>What the reader makes of the bytes the writer puts: longs, byte strings, symbols, bignums and floats.\<close>

section \<open>Positions\<close>

definition adv :: "nat \<Rightarrow> reader \<Rightarrow> reader" where
  "adv k r = r\<lparr>r_pos := r_pos r + k\<rparr>"

definition ahead :: "octets \<Rightarrow> reader \<Rightarrow> bool" where
  "ahead bs r \<longleftrightarrow> r_pos r \<le> length (r_bytes r) \<and> (\<exists>rest. drop (r_pos r) (r_bytes r) = bs @ rest)"

lemma adv_sel [simp]:
  "r_bytes (adv k r) = r_bytes r" "r_pos (adv k r) = r_pos r + k" "r_symbols (adv k r) = r_symbols r"
  "r_objects (adv k r) = r_objects r" "r_heap (adv k r) = r_heap r"
  by (simp_all add: adv_def)

lemma adv_adv [simp]: "adv j (adv k r) = adv (k + j) r"
  by (simp add: adv_def add.assoc)

lemma ahead_append: "ahead (xs @ ys) r \<longleftrightarrow> ahead xs r \<and> ahead ys (adv (length xs) r)"
proof
  assume "ahead (xs @ ys) r"
  then obtain rest where r: "r_pos r \<le> length (r_bytes r)" "drop (r_pos r) (r_bytes r) = xs @ ys @ rest" by (auto simp: ahead_def)
  have "length (r_bytes r) - r_pos r = length xs + length ys + length rest" using r(2) by (metis add.assoc length_append length_drop)
  moreover have "drop (r_pos r + length xs) (r_bytes r) = ys @ rest" using r(2) by (metis append_eq_conv_conj drop_drop add.commute)
  ultimately show "ahead xs r \<and> ahead ys (adv (length xs) r)" using r by (auto simp: ahead_def)
next
  assume a: "ahead xs r \<and> ahead ys (adv (length xs) r)"
  then obtain r1 r2 where "drop (r_pos r) (r_bytes r) = xs @ r1" "drop (r_pos r + length xs) (r_bytes r) = ys @ r2"
    by (auto simp: ahead_def)
  then have "drop (r_pos r) (r_bytes r) = (xs @ ys) @ r2"
    by (metis append.assoc append_eq_conv_conj drop_drop add.commute)
  with a show "ahead (xs @ ys) r" unfolding ahead_def by blast
qed

lemma ahead_Cons: "ahead (b # bs) r \<longleftrightarrow> ahead [b] r \<and> ahead bs (adv 1 r)"
  using ahead_append[of "[b]" bs r] by simp

lemma ahead_ConsD: "ahead (b # bs) r \<Longrightarrow> ahead [b] r" "ahead (b # bs) r \<Longrightarrow> ahead bs (adv 1 r)"
  using ahead_Cons[of b bs r] by blast+

lemma ahead_appendD: "ahead (xs @ ys) r \<Longrightarrow> ahead xs r" "ahead (xs @ ys) r \<Longrightarrow> ahead ys (adv (length xs) r)"
  by (simp_all add: ahead_append)

lemma ahead_sel: "r_bytes r' = r_bytes r \<Longrightarrow> r_pos r' = r_pos r \<Longrightarrow> ahead bs r' = ahead bs r"
  by (simp add: ahead_def)

lemma read_byte_ahead: "ahead [b] r \<Longrightarrow> read_byte r = Inr (b, adv 1 r)"
proof -
  assume "ahead [b] r"
  then obtain rest where d: "drop (r_pos r) (r_bytes r) = b # rest" by (auto simp: ahead_def)
  then have "r_pos r < length (r_bytes r)" by (metis drop_all leI list.discI)
  with d show ?thesis by (simp add: read_byte_def adv_def nth_via_drop)
qed

lemma andthen_simps [simp]:
  "m r = Inr (x, r') \<Longrightarrow> andthen m f r = f x r'"
  by (simp add: andthen_def)

lemma ret_simp [simp]: "ret x r = Inr (x, r)"
  by (simp add: ret_def)

section \<open>Longs\<close>

fun le_val :: "octets \<Rightarrow> int" where
  "le_val [] = 0"
| "le_val (b # bs) = int (unat b) + 256 * le_val bs"

lemma read_le_eats: "ahead bs r \<Longrightarrow> read_le (length bs) i x r = Inr (x + 256 ^ i * le_val bs, adv (length bs) r)"
proof (induction bs arbitrary: i x r)
  case (Cons b bs)
  then have "read_byte r = Inr (b, adv 1 r)" "ahead bs (adv 1 r)" using ahead_Cons[of b bs r] read_byte_ahead by auto
  with Cons.IH[of "adv 1 r"] show ?case by (simp add: algebra_simps)
qed (simp add: adv_def)

lemma unat_of_int_byte: "int (unat (of_int (x mod 256) :: 8 word)) = x mod 256"
  by (simp add: uint_word_of_int flip: uint_nat)

lemma long_loop_value:
  "long_loop k x = (bs, neg) \<Longrightarrow> - (256 ^ k) \<le> x \<Longrightarrow> x < 256 ^ k \<Longrightarrow> 0 < k \<Longrightarrow>
   x = le_val bs - (if neg then 256 ^ length bs else 0) \<and> 0 < length bs \<and> length bs \<le> k"
proof (induction k arbitrary: x bs)
  case (Suc k)
  define b :: "8 word" where "b = of_int (x mod 256)"
  define x' where "x' = x div 256"
  have u: "int (unat b) = x mod 256" unfolding b_def by (rule unat_of_int_byte)
  have x: "x = x' * 256 + int (unat b)" unfolding u x'_def by simp
  have step: "long_loop (Suc k) x = (if x' = 0 then ([b], False) else if x' = -1 then ([b], True)
      else case long_loop k x' of (bs, neg) \<Rightarrow> (b # bs, neg))"
    by (simp add: Let_def b_def x'_def)
  show ?case
  proof (cases "x' = 0 \<or> x' = -1")
    case True
    then have "bs = [b]" "neg \<longleftrightarrow> x' = -1" using Suc.prems(1) step by auto
    with True x show ?thesis by auto
  next
    case False
    obtain bs' where r: "long_loop k x' = (bs', neg)" "bs = b # bs'"
      using Suc.prems(1) False step by (auto split: prod.splits)
    have "- (256 ^ k) \<le> x'" "x' < 256 ^ k" using Suc.prems(2,3) by (auto simp: x'_def)
    moreover have "0 < k" using False \<open>- (256 ^ k) \<le> x'\<close> \<open>x' < 256 ^ k\<close> by (cases k) auto
    ultimately show ?thesis using Suc.IH[OF r(1)] r(2) x by auto
  qed
qed simp

lemma long_loop_length:
  "long_loop k x = (bs, neg) \<Longrightarrow> - (256 ^ m) \<le> x \<Longrightarrow> x < 256 ^ m \<Longrightarrow> 0 < m \<Longrightarrow> length bs \<le> m"
proof (induction k arbitrary: x bs m)
  case (Suc k)
  show ?case
  proof (cases "x div 256 = 0 \<or> x div 256 = -1")
    case False
    obtain bs' where r: "long_loop k (x div 256) = (bs', neg)" "length bs = Suc (length bs')"
      using Suc.prems(1) False by (auto simp: Let_def split: prod.splits if_splits)
    obtain m' where m: "m = Suc m'" using Suc.prems(4) by (cases m) auto
    have x: "- (256 ^ m') \<le> x div 256" "x div 256 < 256 ^ m'" using Suc.prems(2,3) m by auto
    moreover have "0 < m'" using False x by (cases m') auto
    ultimately show ?thesis using Suc.IH[OF r(1)] r(2) m by simp
  qed (use Suc.prems in \<open>auto simp: Let_def\<close>)
qed simp

lemma long_loop_neg: "long_loop k x = (bs, neg) \<Longrightarrow> - (256 ^ k) \<le> x \<Longrightarrow> x < 256 ^ k \<Longrightarrow> 0 < k \<Longrightarrow> neg \<longleftrightarrow> x < 0"
proof (induction k arbitrary: x bs)
  case (Suc k)
  have s: "x div 256 < 0 \<longleftrightarrow> x < 0" by (rule pos_imp_zdiv_neg_iff) simp
  show ?case
  proof (cases "x div 256 = 0 \<or> x div 256 = -1")
    case False
    obtain bs' where r: "long_loop k (x div 256) = (bs', neg)"
      using Suc.prems(1) False by (auto simp: Let_def split: prod.splits if_splits)
    have x: "- (256 ^ k) \<le> x div 256" "x div 256 < 256 ^ k" using Suc.prems(2,3) by auto
    moreover have "0 < k" using False x by (cases k) auto
    ultimately show ?thesis using Suc.IH[OF r] s by simp
  qed (use Suc.prems s in \<open>auto simp: Let_def\<close>)
qed simp

definition long_ok :: "int \<Rightarrow> bool" where
  "long_ok x \<longleftrightarrow> - (2 ^ 40) \<le> x \<and> x < 2 ^ 40"

lemma sint_small: "-128 \<le> x \<Longrightarrow> x < 128 \<Longrightarrow> sint (of_int x :: 8 word) = x"
  by (simp add: sint_sbintrunc' signed_take_bit_int_eq_self)

lemma read_long_eats:
  assumes "long_ok x" "ahead (marshal_long x) r"
  shows "read_long r = Inr (x, adv (length (marshal_long x)) r)"
proof -
  consider "x = 0" | "1 \<le> x" "x < 123" | "-123 \<le> x" "x < 0" | "123 \<le> x \<or> x < -123" by linarith
  then show ?thesis
  proof cases
    case 1
    with assms(2) show ?thesis by (simp add: marshal_long_def read_long_def read_byte_ahead)
  next
    case 2
    then have m: "marshal_long x = [of_int (x + 5)]" by (simp add: marshal_long_def)
    have c: "sint (of_int (x + 5) :: 8 word) = x + 5" using 2 by (intro sint_small) simp_all
    from assms(2) have "read_byte r = Inr (of_int (x + 5), adv 1 r)" unfolding m by (rule read_byte_ahead)
    with 2 c show ?thesis by (simp add: m read_long_def Let_def del: of_int_add)
  next
    case 3
    then have m: "marshal_long x = [of_int (x - 5)]" by (simp add: marshal_long_def)
    have c: "sint (of_int (x - 5) :: 8 word) = x - 5" using 3 by (intro sint_small) simp_all
    from assms(2) have "read_byte r = Inr (of_int (x - 5), adv 1 r)" unfolding m by (rule read_byte_ahead)
    with 3 c show ?thesis by (simp add: m read_long_def Let_def del: of_int_diff)
  next
    case 4
    obtain bs neg where l: "long_loop 8 x = (bs, neg)" by force
    have x5: "- (256 ^ 5) \<le> x" "x < 256 ^ 5" using assms(1) by (simp_all add: long_ok_def)
    have x8: "- (256 ^ 8) \<le> x" "x < 256 ^ 8" using assms(1) by (simp_all add: long_ok_def)
    note len = long_loop_length[OF l x5]
    note v = long_loop_value[OF l x8]
    note sg = long_loop_neg[OF l x8]
    define c :: "8 word" where "c = (if neg then of_int (- int (length bs)) else of_int (int (length bs)))"
    have m: "marshal_long x = c # bs" using 4 l by (auto simp: marshal_long_def c_def)
    have sc: "sint c = (if neg then - int (length bs) else int (length bs))"
      unfolding c_def using len sint_small[of "- int (length bs)"] sint_small[of "int (length bs)"] by simp
    have rb: "read_byte r = Inr (c, adv 1 r)" "ahead bs (adv 1 r)"
      using assms(2) ahead_Cons[of c bs r] read_byte_ahead[of c r] by (simp_all add: m)
    show ?thesis
      using rb v len sc read_le_eats[OF rb(2), of 0] by (auto simp: m read_long_def Let_def algebra_simps)
  qed
qed

lemma read_bytes_eats:
  assumes "int (length bs) < 2 ^ 40" "ahead (marshal_long (int (length bs)) @ bs) r"
  shows "read_bytes r = Inr (bs, adv (length (marshal_long (int (length bs)) @ bs)) r)"
proof -
  let ?m = "marshal_long (int (length bs))"
  have l: "read_long r = Inr (int (length bs), adv (length ?m) r)"
    using assms by (intro read_long_eats) (simp_all add: long_ok_def ahead_append)
  from assms(2) obtain rest where d: "drop (r_pos r + length ?m) (r_bytes r) = bs @ rest" and p: "r_pos r + length ?m \<le> length (r_bytes r)"
    unfolding ahead_append by (auto simp: ahead_def)
  have "length (r_bytes r) - (r_pos r + length ?m) = length bs + length rest" using d by (metis length_append length_drop)
  with l d p show ?thesis by (simp add: read_bytes_def adv_def add.assoc)
qed

section \<open>Symbols\<close>

definition symbol_bytes :: "octets list \<Rightarrow> octets \<Rightarrow> octets" where
  "symbol_bytes syms n =
     (case position (\<lambda>m. m = n) syms of
        Some i \<Rightarrow> chr8 CHR '';'' # marshal_long (int i)
      | None \<Rightarrow> chr8 CHR '':'' # marshal_long (int (length n)) @ n)"

definition add_symbol :: "octets list \<Rightarrow> octets \<Rightarrow> octets list" where
  "add_symbol syms n = (if n \<in> set syms then syms else syms @ [n])"

lemma write_symbol_eq:
  "write_symbol n st = st\<lparr>w_out := w_out st @ symbol_bytes (w_symbols st) n, w_symbols := add_symbol (w_symbols st) n\<rparr>"
  using position_None[of "\<lambda>m. m = n" "w_symbols st"] position_SomeD[of "\<lambda>m. m = n" "w_symbols st"]
  by (auto simp: write_symbol_def symbol_bytes_def add_symbol_def write_bytes_def write_long_def put_def split: option.splits)

lemma symbol_new_eats:
  assumes "valid_utf8 n" "int (length n) < 2 ^ 40" "ahead (marshal_long (int (length n)) @ n) r"
  shows "symbol_new r = Inr (n, (adv (length (marshal_long (int (length n)) @ n)) r)\<lparr>r_symbols := r_symbols r @ [n]\<rparr>)"
  using read_bytes_eats[OF assms(2,3)] by (simp add: symbol_new_def lossy_valid[OF assms(1)])

lemma symbol_link_eats:
  assumes "int (length (r_symbols r)) < 2 ^ 40" "position (\<lambda>m. m = n) (r_symbols r) = Some i" "ahead (marshal_long (int i)) r"
  shows "symbol_link r = Inr (n, adv (length (marshal_long (int i))) r)"
proof -
  have i: "i < length (r_symbols r)" "r_symbols r ! i = n" using position_SomeD[OF assms(2)] by auto
  have "long_ok (int i)" using i(1) assms(1) by (simp add: long_ok_def)
  from read_long_eats[OF this assms(3)] i show ?thesis by (simp add: symbol_link_def)
qed

lemma symbol_bytes_cases:
  obtains (old) i where "position (\<lambda>m. m = n) syms = Some i" "symbol_bytes syms n = chr8 CHR '';'' # marshal_long (int i)" "add_symbol syms n = syms"
  | (new) "symbol_bytes syms n = chr8 CHR '':'' # marshal_long (int (length n)) @ n" "add_symbol syms n = syms @ [n]"
proof (cases "position (\<lambda>m. m = n) syms")
  case None
  then have "n \<notin> set syms" using position_None[of "\<lambda>m. m = n" syms] by blast
  with None show thesis using new by (simp add: symbol_bytes_def add_symbol_def)
next
  case (Some i)
  then have "n \<in> set syms" using position_SomeD[OF Some] by (metis nth_mem)
  with Some show thesis using old by (simp add: symbol_bytes_def add_symbol_def)
qed

lemma read_symbol_eats:
  assumes "valid_utf8 n" "int (length n) < 2 ^ 40" "int (length (r_symbols r)) < 2 ^ 40" "ahead (symbol_bytes (r_symbols r) n) r"
  shows "read_symbol_name r =
    Inr (n, (adv (length (symbol_bytes (r_symbols r) n)) r)\<lparr>r_symbols := add_symbol (r_symbols r) n\<rparr>)"
proof (cases rule: symbol_bytes_cases[of n "r_symbols r"])
  case (old i)
  have a: "ahead [chr8 CHR '';''] r" "ahead (marshal_long (int i)) (adv 1 r)"
    using assms(4)[unfolded old(2)] by (rule ahead_ConsD)+
  have "symbol_link (adv 1 r) = Inr (n, adv (length (marshal_long (int i))) (adv 1 r))"
    using a(2) old(1) assms(3) by (intro symbol_link_eats) simp_all
  with read_byte_ahead[OF a(1)] old show ?thesis by (simp add: read_symbol_name_def adv_def)
next
  case new
  have a: "ahead [chr8 CHR '':''] r" "ahead (marshal_long (int (length n)) @ n) (adv 1 r)"
    using assms(4)[unfolded new(1)] by (rule ahead_ConsD)+
  from read_byte_ahead[OF a(1)] symbol_new_eats[OF assms(1,2) a(2)] new show ?thesis
    by (simp add: read_symbol_name_def)
qed

section \<open>Bignums\<close>

lemma be_nat_append: "be_nat (xs @ ys) = be_nat xs * 256 ^ length ys + be_nat ys"
proof (induction ys rule: rev_induct)
  case Nil
  show ?case by (simp add: be_nat_def)
next
  case (snoc y ys)
  have "be_nat (xs @ ys @ [y]) = be_nat ((xs @ ys) @ [y])" by simp
  also have "\<dots> = be_nat xs * 256 ^ length (ys @ [y]) + be_nat (ys @ [y])"
    unfolding be_nat_snoc snoc.IH by (simp add: algebra_simps)
  finally show ?case .
qed

lemma bytes_le_pos_value: "be_nat (rev (bytes_le_pos n)) = n"
proof (induction n rule: bytes_le_pos.induct)
  case (1 n)
  show ?case
  proof (cases "n = 0")
    case True
    then show ?thesis by (simp add: bytes_le_pos.simps be_nat_def)
  next
    case False
    then have "bytes_le_pos n = of_nat (n mod 256) # bytes_le_pos (n div 256)" by (simp add: bytes_le_pos.simps)
    with 1[OF False] show ?thesis by (simp add: be_nat_snoc unat_of_nat_byte)
  qed
qed

definition even_bytes :: "int \<Rightarrow> octets" where
  "even_bytes b = (let bs = bytes_le (nat \<bar>b\<bar>) in if odd (length bs) then bs @ [0] else bs)"

lemma even_bytes_value: "int (be_nat (rev (even_bytes b))) = \<bar>b\<bar>"
proof -
  have "be_nat (rev (bytes_le n)) = n" for n
    using bytes_le_pos_value by (simp add: bytes_le_def be_nat_def)
  moreover have "be_nat (rev (bs @ [0])) = be_nat (rev bs)" for bs using be_nat_zeros[of 1 "rev bs"] by simp
  ultimately show ?thesis by (simp add: even_bytes_def Let_def)
qed

lemma even_bytes_even: "2 * (length (even_bytes b) div 2) = length (even_bytes b)"
  by (simp add: even_bytes_def Let_def)

lemma read_raw_eats: "ahead bs r \<Longrightarrow> read_raw (length bs) r = Inr (bs, adv (length bs) r)"
proof (induction bs arbitrary: r)
  case (Cons b bs)
  then have "read_byte r = Inr (b, adv 1 r)" "ahead bs (adv 1 r)" using ahead_Cons[of b bs r] read_byte_ahead by auto
  with Cons.IH[of "adv 1 r"] show ?case by simp
qed (simp add: adv_def)

definition bignum_bytes :: "int \<Rightarrow> octets" where
  "bignum_bytes b =
     (if b < 0 then 45 else 43) # marshal_long (int (length (even_bytes b) div 2)) @ even_bytes b"

lemma write_bignum_eq:
  "write_bignum b st = st\<lparr>w_out := w_out st @ chr8 CHR ''l'' # bignum_bytes b, w_next := w_next st + 1\<rparr>"
  by (simp add: write_bignum_def bignum_bytes_def even_bytes_def put_def write_long_def count_link_def Let_def)

lemma read_bignum_eats:
  assumes "int (length (bignum_bytes b)) < 2 ^ 40" "ahead (bignum_bytes b) r"
  shows "read_bignum r = Inr (bigint_to_value b, (adv (length (bignum_bytes b)) r)\<lparr>r_objects := r_objects r @ [bigint_to_value b]\<rparr>)"
proof -
  let ?k = "length (even_bytes b) div 2" and ?s = "if b < 0 then 45 else 43 :: 8 word"
  have a: "ahead [?s] r" "ahead (marshal_long (int ?k)) (adv 1 r)" "ahead (even_bytes b) (adv (1 + length (marshal_long (int ?k))) r)"
    using ahead_ConsD[OF assms(2)[unfolded bignum_bytes_def]] by (simp_all add: ahead_append)
  have "long_ok (int ?k)" using assms(1) by (simp add: bignum_bytes_def long_ok_def)
  from read_long_eats[OF this a(2)] have l: "read_long (adv 1 r) = Inr (int ?k, adv (1 + length (marshal_long (int ?k))) r)" by simp
  from read_raw_eats[OF a(3)] have w: "read_raw (2 * nat (int ?k)) (adv (1 + length (marshal_long (int ?k))) r) =
      Inr (even_bytes b, adv (1 + length (marshal_long (int ?k)) + length (even_bytes b)) r)"
    by (simp add: even_bytes_even)
  have v: "(if ?s = 45 then - int (be_nat (rev (even_bytes b))) else int (be_nat (rev (even_bytes b)))) = b"
    by (simp add: even_bytes_value)
  show ?thesis
    using read_byte_ahead[OF a(1)] l w v by (simp add: read_bignum_def push_object_def bignum_bytes_def Let_def adv_def del: of_nat_numeral)
qed

end
