(* ===== verification/MarshalFloat.thy ===== *)
theory MarshalFloat
  imports Marshal
begin

text \<open>The decimal text of a float reads back as the same float.\<close>

definition wf_float :: "mfloat \<Rightarrow> bool" where
  "wf_float f =
     (case f of FDec neg ds e \<Rightarrow> ds \<noteq> [] \<and> hd ds \<noteq> 0 \<and> last ds \<noteq> 0 \<and> list_all (\<lambda>d. d < 10) ds | _ \<Rightarrow> True)"

definition stops :: "octets \<Rightarrow> bool" where
  "stops rest \<longleftrightarrow> rest = [] \<or> byte_digit (hd rest) = None"

lemma stops_simps [simp]: "stops []" "stops (46 # r)" "stops (101 # r)"
  by (simp_all add: stops_def byte_digit_def)

lemma digit_byte_le: "d < 10 \<Longrightarrow> unat (digit_byte d) = 48 + d"
  by (simp add: digit_byte_def unat_of_nat del: of_nat_add)

lemma byte_digit_of: "d < 10 \<Longrightarrow> byte_digit (digit_byte d) = Some d"
  using digit_byte_le[of d] by (simp add: byte_digit_def word_le_nat_alt)

lemma take_digits_map:
  assumes "list_all (\<lambda>d. d < 10) ds" "stops rest"
  shows "take_digits (map digit_byte ds @ rest) = (ds, rest)"
  using assms(1)
proof (induction ds)
  case Nil
  show ?case using assms(2) by (cases rest) (auto simp: take_digits_def stops_def)
next
  case (Cons d ds)
  then show ?case by (simp add: take_digits_def byte_digit_of digit_byte_le)
qed

lemma dec_digit_bytes: "\<exists>ds. map of_nat (dec n) = map digit_byte ds \<and> ds \<noteq> [] \<and> list_all (\<lambda>d. d < 10) ds \<and> digits_nat ds = n"
proof (induction n rule: dec.induct)
  case (1 n)
  show ?case
  proof (cases "n < 10")
    case True
    then show ?thesis by (intro exI[of _ "[n]"]) (simp add: dec.simps digit_byte_def digits_nat_def)
  next
    case False
    then obtain ds where ds: "map of_nat (dec (n div 10)) = map digit_byte ds" "ds \<noteq> []" "list_all (\<lambda>d. d < 10) ds" "digits_nat ds = n div 10"
      using 1 by blast
    with False show ?thesis
      by (intro exI[of _ "ds @ [n mod 10]"]) (simp add: dec.simps[of n] digit_byte_def digits_nat_def)
  qed
qed

lemma digits_not_sign:
  assumes "list_all (\<lambda>d. d < 10) ds" "ds \<noteq> []"
  shows "hd (map digit_byte ds @ r) \<noteq> 45" "hd (map digit_byte ds @ r) \<noteq> 43" "\<not> minus (map digit_byte ds @ r)"
    "unsigned_text (map digit_byte ds @ r) = map digit_byte ds @ r" "parse_special neg (map digit_byte ds @ r) = None"
proof -
  obtain d xs where d: "ds = d # xs" "d < 10" using assms by (cases ds) auto
  have u: "unat (digit_byte d) = 48 + d" by (rule digit_byte_le[OF d(2)])
  have n: "digit_byte d \<noteq> w" if "unat w < 48 \<or> 57 < unat w" for w using u d(2) that by auto
  show h: "hd (map digit_byte ds @ r) \<noteq> 45" "hd (map digit_byte ds @ r) \<noteq> 43" using n[of 45] n[of 43] by (simp_all add: d)
  show "\<not> minus (map digit_byte ds @ r)" "unsigned_text (map digit_byte ds @ r) = map digit_byte ds @ r" using h by (simp_all add: minus_def unsigned_text_def)
  have "\<not> (65 \<le> digit_byte d \<and> digit_byte d \<le> 90)" using u d(2) by (simp add: word_le_nat_alt)
  then show "parse_special neg (map digit_byte ds @ r) = None"
    using n[of 105] n[of 110] by (auto simp: parse_special_def Let_def ascii_def d(1))
qed

lemma parse_exp_text: "parse_exp (chr8 CHR ''e'' # dec_text n) = Some n"
proof -
  obtain ds where ds: "map of_nat (dec (nat \<bar>n\<bar>)) = map digit_byte ds" "ds \<noteq> []" "list_all (\<lambda>d. d < 10) ds" "digits_nat ds = nat \<bar>n\<bar>"
    using dec_digit_bytes by blast
  have t: "take_digits (map digit_byte ds) = (ds, [])" using take_digits_map[OF ds(3), of "[]"] by simp
  have m: "\<not> minus (map digit_byte ds)" "unsigned_text (map digit_byte ds) = map digit_byte ds"
    using digits_not_sign(3,4)[OF ds(3,2), of "[]"] by simp_all
  show ?thesis using m t ds(2,4) by (simp add: parse_exp_def dec_text_def ds(1)) (simp add: minus_def unsigned_text_def)
qed

lemma norm_dec_digits:
  assumes "wf_float (FDec neg ds e)"
  shows "norm_dec neg (replicate k 0 @ ds) e' = FDec neg ds (e' - int k)"
proof -
  have ds: "ds \<noteq> []" "hd ds \<noteq> 0" "last ds \<noteq> 0" using assms by (auto simp: wf_float_def)
  have z: "takeWhile (\<lambda>d. d = 0) (replicate k 0 @ ds) = replicate k 0" "dropWhile (\<lambda>d. d = 0) (replicate k 0 @ ds) = ds"
    using ds by (cases ds; simp add: takeWhile_append dropWhile_append)+
  have "dropWhile (\<lambda>d. d = 0) (rev ds) = rev ds" using ds by (cases ds rule: rev_cases) auto
  then show ?thesis using ds by (simp add: norm_dec_def z strip_trailing_def)
qed

definition sign_text :: "bool \<Rightarrow> octets" where
  "sign_text neg = (if neg then [45] else [])"

lemma parse_sign:
  assumes "list_all (\<lambda>d. d < 10) xs" "xs \<noteq> []"
  shows "minus (sign_text neg @ map digit_byte xs @ r) = neg" "unsigned_text (sign_text neg @ map digit_byte xs @ r) = map digit_byte xs @ r"
    "parse_special neg (map digit_byte xs @ r) = None"
  using digits_not_sign[OF assms, where r = r] by (simp_all add: sign_text_def) (simp_all add: minus_def unsigned_text_def)

lemma parse_point:
  assumes "list_all (\<lambda>d. d < 10) xs" "list_all (\<lambda>d. d < 10) ys" "xs \<noteq> []" "stops r" "parse_exp r = Some e"
  shows "parse_decimal (sign_text neg @ map digit_byte xs @ 46 # map digit_byte ys @ r) = Some (norm_dec neg (xs @ ys) (int (length xs) - 1 + e))"
  using assms take_digits_map[OF assms(1), of "46 # map digit_byte ys @ r"] take_digits_map[OF assms(2,4)] parse_sign[OF assms(1,3), of neg "46 # map digit_byte ys @ r"]
  by (simp add: parse_decimal_def)

lemma parse_plain:
  assumes "list_all (\<lambda>d. d < 10) xs" "xs \<noteq> []" "stops r" "r = [] \<or> hd r \<noteq> 46" "parse_exp r = Some e"
  shows "parse_decimal (sign_text neg @ map digit_byte xs @ r) = Some (norm_dec neg xs (int (length xs) - 1 + e))"
  using assms take_digits_map[OF assms(1,3)] parse_sign[OF assms(1,2), of neg r] by (auto simp: parse_decimal_def)

lemma parse_exp_form:
  assumes "wf_float (FDec neg ds e)"
  shows "parse_decimal (sign_text neg @ exp_form ds (e + 1)) = Some (FDec neg ds e)"
proof -
  obtain d xs where ds: "ds = d # xs" "d < 10" "list_all (\<lambda>d. d < 10) xs" using assms by (cases ds) (auto simp: wf_float_def)
  note n = norm_dec_digits[OF assms, of 0 e, simplified]
  show ?thesis
  proof (cases "xs = []")
    case True
    then show ?thesis using parse_plain[of "[d]" "chr8 CHR ''e'' # dec_text e" e neg] ds n parse_exp_text[of e]
      by (simp add: exp_form_def)
  next
    case False
    then show ?thesis using parse_point[of "[d]" xs "chr8 CHR ''e'' # dec_text e" e neg] ds n parse_exp_text[of e]
      by (simp add: exp_form_def)
  qed
qed

lemma parse_exp_nil [simp]: "parse_exp [] = Some 0"
  by (simp add: parse_exp_def)

lemma digit_byte_0: "digit_byte 0 = 48"
  by (simp add: digit_byte_def)

definition dec_body :: "nat list \<Rightarrow> int \<Rightarrow> octets" where
  "dec_body digs decpt =
     (if decpt \<le> 0 then
        (if - 4 < decpt then 48 # 46 # replicate (nat (- decpt)) 48 @ map digit_byte digs else exp_form digs decpt)
      else if int (length digs) \<le> decpt then
        (if decpt = int (length digs) then map digit_byte digs else exp_form digs decpt)
      else map digit_byte (take (nat decpt) digs) @ 46 # map digit_byte (drop (nat decpt) digs))"

lemma float_text: "float_to_marshal (FDec neg ds e) = sign_text neg @ dec_body ds (e + 1)"
  by (simp add: float_to_marshal_def sign_text_def dec_body_def Let_def)

lemma parse_dec_body:
  assumes "wf_float (FDec neg ds e)"
  shows "parse_decimal (sign_text neg @ dec_body ds (e + 1)) = Some (FDec neg ds e)"
proof -
  have ds: "ds \<noteq> []" "list_all (\<lambda>d. d < 10) ds" using assms by (auto simp: wf_float_def)
  note n = norm_dec_digits[OF assms] norm_dec_digits[OF assms, of 0, simplified]
  consider (small) "e + 1 \<le> 0" "-4 < e + 1" | (whole) "e + 1 = int (length ds)" "0 < e + 1" | (mid) "0 < e + 1" "e + 1 < int (length ds)"
    | (expo) "dec_body ds (e + 1) = exp_form ds (e + 1)"
    using ds(1) by (cases "e + 1 \<le> 0"; cases "-4 < e + 1"; cases "e + 1 = int (length ds)"; cases "e + 1 < int (length ds)") (simp_all add: dec_body_def)
  then show ?thesis
  proof cases
    case small
    let ?z = "nat (- (e + 1))"
    have "list_all (\<lambda>d. d < 10) (replicate ?z 0 @ ds)" using ds(2) by (auto simp: list_all_iff)
    from parse_point[OF _ this, of "[0]" "[]" 0 neg] n(1)[of "Suc ?z" 0] small show ?thesis
      by (simp add: dec_body_def digit_byte_0 map_replicate_const)
  next
    case whole
    from parse_plain[OF ds(2,1), of "[]" 0 neg] n(2) whole show ?thesis by (simp add: dec_body_def)
  next
    case mid
    let ?k = "nat (e + 1)"
    have l: "list_all (\<lambda>d. d < 10) (take ?k ds)" "list_all (\<lambda>d. d < 10) (drop ?k ds)" "take ?k ds \<noteq> []"
      using ds mid by (auto simp: list_all_iff dest: in_set_takeD in_set_dropD)
    have k: "int (min (length ds) ?k) = e + 1" using mid by simp
    from parse_point[OF l, of "[]" 0 neg] n(2) mid k show ?thesis by (simp add: dec_body_def)
  next
    case expo
    with parse_exp_form[OF assms] show ?thesis by simp
  qed
qed

lemma special_texts: "parse_decimal (ascii ''inf'') = Some (FInf False)" "parse_decimal (ascii ''-inf'') = Some (FInf True)" "parse_decimal (ascii ''nan'') = Some FNan"
  "parse_decimal (ascii ''0'') = Some (FZero False)" "parse_decimal (ascii ''-0'') = Some (FZero True)"
  by code_simp+

lemma parse_marshal_decimal: "parse_marshal_float s = (case parse_decimal s of Some f \<Rightarrow> f | None \<Rightarrow> FZero False)"
  by (simp add: parse_marshal_float_def special_texts)

lemma float_round_trip:
  assumes "wf_float f"
  shows "parse_marshal_float (float_to_marshal f) = f"
proof (cases f)
  case (FDec neg ds e)
  then show ?thesis using assms parse_dec_body by (simp add: float_text parse_marshal_decimal)
qed (simp_all add: float_to_marshal_def parse_marshal_decimal special_texts)

end
