(* ===== verification/MarshalGraph.thy ===== *)
theory MarshalGraph
  imports MarshalText MarshalFloat "HOL-Library.Sublist"
begin

text \<open>
  What it means that a loaded graph is a copy of a dumped one, the values the copy is faithful on, and the correspondence
  between the tables of the writer and of the reader.
\<close>

section \<open>Copies of graphs\<close>

type_synonym amap = "nat \<rightharpoonup> nat"

definition vmatch :: "amap \<Rightarrow> mval \<Rightarrow> mval \<Rightarrow> bool" where
  "vmatch \<rho> v v' = (case v of VRef a \<Rightarrow> (\<exists>b. \<rho> a = Some b \<and> v' = VRef b) | _ \<Rightarrow> v' = v)"

text \<open>A string key is stored as a copy, a node of its own.\<close>

definition kmatch :: "mnode list \<Rightarrow> nat set \<Rightarrow> mnode list \<Rightarrow> mval \<Rightarrow> mval \<Rightarrow> bool" where
  "kmatch H F h k k' = (case k of VRef a \<Rightarrow> (\<exists>b\<in>F. k' = VRef b \<and> n_body (h ! b) = n_body (H ! a)) | _ \<Rightarrow> k' = k)"

definition rowmatch :: "mnode list \<Rightarrow> amap \<Rightarrow> nat set \<Rightarrow> mnode list \<Rightarrow> mval \<times> mval \<Rightarrow> mval \<times> mval \<Rightarrow> bool" where
  "rowmatch H \<rho> F h x y \<longleftrightarrow> kmatch H F h (fst x) (fst y) \<and> vmatch \<rho> (snd x) (snd y)"

definition pmatch :: "mnode list \<Rightarrow> amap \<Rightarrow> nat set \<Rightarrow> mnode list \<Rightarrow> mpayload \<Rightarrow> mpayload \<Rightarrow> bool" where
  "pmatch H \<rho> F h p p' =
     (case p of
        PArr vs \<Rightarrow> (\<exists>ws. p' = PArr ws \<and> list_all2 (vmatch \<rho>) vs ws)
      | PHash rows d proc \<Rightarrow> (\<exists>rows' d'. p' = PHash rows' d' proc \<and> list_all2 (rowmatch H \<rho> F h) rows rows' \<and> vmatch \<rho> d d')
      | _ \<Rightarrow> p' = p)"

definition bmatch :: "mnode list \<Rightarrow> amap \<Rightarrow> nat set \<Rightarrow> mnode list \<Rightarrow> mbody \<Rightarrow> mbody \<Rightarrow> bool" where
  "bmatch H \<rho> F h b b' =
     (case b of
        BVal p \<Rightarrow> (\<exists>p'. b' = BVal p' \<and> pmatch H \<rho> F h p p')
      | BSub c p \<Rightarrow> (\<exists>p'. b' = BSub c p' \<and> pmatch H \<rho> F h p p')
      | BPlain c \<Rightarrow> b' = BPlain c
      | _ \<Rightarrow> False)"

definition fmatch :: "amap \<Rightarrow> octets \<times> mval \<Rightarrow> octets \<times> mval \<Rightarrow> bool" where
  "fmatch \<rho> x y \<longleftrightarrow> fst y = fst x \<and> vmatch \<rho> (snd x) (snd y)"

text \<open>The modules an object is extended with come back in the opposite order.\<close>

definition nmatch :: "mnode list \<Rightarrow> amap \<Rightarrow> nat set \<Rightarrow> mnode list \<Rightarrow> mnode \<Rightarrow> mnode \<Rightarrow> bool" where
  "nmatch H \<rho> F h n n' \<longleftrightarrow>
     bmatch H \<rho> F h (n_body n) (n_body n') \<and> list_all2 (fmatch \<rho>) (n_ivars n) (n_ivars n') \<and>
     n_ext n' = rev (n_ext n) \<and> \<not> n_singleton n'"

text \<open>\<open>\<rho>\<close> takes every address reachable from the root to its copy; \<open>F\<close> are the copies of string keys.\<close>

definition graph_copy :: "mnode list \<Rightarrow> mval \<Rightarrow> mnode list \<Rightarrow> mval \<Rightarrow> amap \<Rightarrow> nat set \<Rightarrow> bool" where
  "graph_copy H v h v' \<rho> F \<longleftrightarrow>
     vmatch \<rho> v v' \<and> inj_on \<rho> (dom \<rho>) \<and> dom \<rho> \<subseteq> {..<length H} \<and> ran \<rho> \<union> F \<subseteq> {..<length h} \<and> ran \<rho> \<inter> F = {} \<and>
     (\<forall>a b. \<rho> a = Some b \<longrightarrow> nmatch H \<rho> F h (H ! a) (h ! b))"

lemma vmatch_mono: "\<rho> \<subseteq>\<^sub>m \<rho>' \<Longrightarrow> vmatch \<rho> v v' \<Longrightarrow> vmatch \<rho>' v v'"
  by (auto simp: vmatch_def map_le_def dom_def split: mval.splits)

lemma kmatch_mono: "F \<subseteq> F' \<Longrightarrow> (\<And>b. b \<in> F \<Longrightarrow> h' ! b = h ! b) \<Longrightarrow> kmatch H F h k k' \<Longrightarrow> kmatch H F' h' k k'"
  by (auto simp: kmatch_def split: mval.splits)

lemma rowmatch_mono:
  "\<rho> \<subseteq>\<^sub>m \<rho>' \<Longrightarrow> F \<subseteq> F' \<Longrightarrow> (\<And>b. b \<in> F \<Longrightarrow> h' ! b = h ! b) \<Longrightarrow> rowmatch H \<rho> F h x y \<Longrightarrow> rowmatch H \<rho>' F' h' x y"
  unfolding rowmatch_def using vmatch_mono kmatch_mono by blast

lemma pmatch_mono:
  "\<rho> \<subseteq>\<^sub>m \<rho>' \<Longrightarrow> F \<subseteq> F' \<Longrightarrow> (\<And>b. b \<in> F \<Longrightarrow> h' ! b = h ! b) \<Longrightarrow> pmatch H \<rho> F h p p' \<Longrightarrow> pmatch H \<rho>' F' h' p p'"
  using vmatch_mono[of \<rho> \<rho>'] rowmatch_mono[of \<rho> \<rho>' F F' h' h H] list_all2_mono[of "vmatch \<rho>" _ _ "vmatch \<rho>'"]
    list_all2_mono[of "rowmatch H \<rho> F h" _ _ "rowmatch H \<rho>' F' h'"] by (cases p) (auto simp: pmatch_def)

lemma bmatch_mono:
  "\<rho> \<subseteq>\<^sub>m \<rho>' \<Longrightarrow> F \<subseteq> F' \<Longrightarrow> (\<And>b. b \<in> F \<Longrightarrow> h' ! b = h ! b) \<Longrightarrow> bmatch H \<rho> F h p p' \<Longrightarrow> bmatch H \<rho>' F' h' p p'"
  unfolding bmatch_def using pmatch_mono[of \<rho> \<rho>' F F' h' h] by (cases p) fastforce+

lemma fmatch_mono: "\<rho> \<subseteq>\<^sub>m \<rho>' \<Longrightarrow> fmatch \<rho> x y \<Longrightarrow> fmatch \<rho>' x y"
  unfolding fmatch_def using vmatch_mono by blast

lemma nmatch_mono:
  assumes "\<rho> \<subseteq>\<^sub>m \<rho>'" "F \<subseteq> F'" "\<And>b. b \<in> F \<Longrightarrow> h' ! b = h ! b" "nmatch H \<rho> F h n n'"
  shows "nmatch H \<rho>' F' h' n n'"
  using assms(4) bmatch_mono[OF assms(1-3)] fmatch_mono[OF assms(1)] unfolding nmatch_def by (auto elim!: list_all2_mono)

section \<open>Values a dump is faithful on\<close>

text \<open>A class whose name leads back to it.\<close>

definition class_ok :: "class_table \<Rightarrow> nat \<Rightarrow> bool" where
  "class_ok g c = (case nameable g c of Inr n \<Rightarrow> valid_utf8 n \<and> g_lookup g n = Some c | Inl e \<Rightarrow> True)"

definition module_ok :: "class_table \<Rightarrow> nat \<Rightarrow> bool" where
  "module_ok g m = (case g_name g m of Some n \<Rightarrow> valid_utf8 n \<and> g_lookup g n = Some m | None \<Rightarrow> False)"

definition plain_ok :: "class_table \<Rightarrow> nat \<Rightarrow> bool" where
  "plain_ok g c \<longleftrightarrow>
     class_ok g c \<and> g_blank g c = Some (BPlain c) \<and> nameable g c \<noteq> Inr (ascii ''Range'') \<and> nameable g c \<noteq> Inr (ascii ''Set'')"

definition wf_number :: "mval \<Rightarrow> bool" where
  "wf_number v =
     (case v of VInt n \<Rightarrow> fits_i64 n | VBig n \<Rightarrow> \<not> fits_i64 n | VFloat f \<Rightarrow> wf_float f | VRational n d \<Rightarrow> 0 < d \<and> gcd n d = 1 | _ \<Rightarrow> False)"

definition wf_value :: "class_table \<Rightarrow> mnode list \<Rightarrow> mval \<Rightarrow> bool" where
  "wf_value g H v =
     (case v of
        VNil \<Rightarrow> True | VBool b \<Rightarrow> True | VSym n \<Rightarrow> valid_utf8 n | VRef a \<Rightarrow> a < length H
      | VClass c \<Rightarrow> class_ok g c \<and> c \<notin> set (map (g_ptr g) [0..<length H])
      | VComplex x y \<Rightarrow> wf_number x \<and> wf_number y
      | _ \<Rightarrow> wf_number v)"

definition wf_names :: "octets list \<Rightarrow> bool" where
  "wf_names xs \<longleftrightarrow> distinct xs \<and> list_all (\<lambda>x. valid_utf8 (64 # x) \<and> (x = [] \<or> hd x \<noteq> 64)) xs"

definition plain_string :: "mnode \<Rightarrow> bool" where
  "plain_string n \<longleftrightarrow> n_ivars n = [] \<and> (case n_body n of BVal (PStr bs e) \<Rightarrow> True | _ \<Rightarrow> False)"

definition wf_key :: "mnode list \<Rightarrow> mval \<Rightarrow> bool" where
  "wf_key H k \<longleftrightarrow> hkey_of H k \<noteq> KNone \<and> (case k of VRef a \<Rightarrow> plain_string (H ! a) | _ \<Rightarrow> True)"

definition wf_payload :: "class_table \<Rightarrow> mnode list \<Rightarrow> mpayload \<Rightarrow> bool" where
  "wf_payload g H p =
     (case p of
        PStr bs e \<Rightarrow> e = ASCII_8BIT \<or> find_encoding (enc_name e) = Some e
      | PRegexp src ic ex ml \<Rightarrow> valid_utf8 src \<and> g_regexp g src
      | PArr vs \<Rightarrow> True
      | PHash rows d proc \<Rightarrow> \<not> proc \<and> distinct (map (hkey_of H \<circ> fst) rows) \<and> list_all (wf_key H \<circ> fst) rows)"

definition wf_body :: "class_table \<Rightarrow> mnode list \<Rightarrow> mnode \<Rightarrow> bool" where
  "wf_body g H n =
     (case n_body n of
        BVal p \<Rightarrow> wf_payload g H p \<and> n_ext n = [] \<and> (case p of PRegexp src ic ex ml \<Rightarrow> n_ivars n = [] | _ \<Rightarrow> True)
      | BSub c p \<Rightarrow> class_ok g c \<and> g_value_root g c \<and> wf_payload g H p \<and> n_ext n = [] \<and>
          (case p of PHash rows d proc \<Rightarrow> d = VNil | _ \<Rightarrow> True)
      | BPlain c \<Rightarrow> plain_ok g c \<and> distinct (n_ext n) \<and> list_all (module_ok g) (n_ext n)
      | _ \<Rightarrow> False)"

definition wf_node :: "class_table \<Rightarrow> mnode list \<Rightarrow> mnode \<Rightarrow> bool" where
  "wf_node g H n \<longleftrightarrow>
     \<not> n_singleton n \<and> wf_names (map fst (n_ivars n)) \<and> list_all (wf_value g H) (node_values n) \<and> wf_body g H n"

definition wf_graph :: "class_table \<Rightarrow> mnode list \<Rightarrow> bool" where
  "wf_graph g H \<longleftrightarrow> distinct (map (g_ptr g) [0..<length H]) \<and> list_all (wf_node g H) H"

lemma wf_graph_ptr: "wf_graph g H \<Longrightarrow> a < length H \<Longrightarrow> b < length H \<Longrightarrow> g_ptr g a = g_ptr g b \<longleftrightarrow> a = b"
  by (auto simp: wf_graph_def distinct_map inj_on_def)

lemma wf_graph_node: "wf_graph g H \<Longrightarrow> a < length H \<Longrightarrow> wf_node g H (H ! a)"
  by (simp add: wf_graph_def list_all_length)

section \<open>The tables\<close>

text \<open>
  \<open>U\<close> are the nodes under construction, \<open>F\<close> the nodes nobody writes again: key copies and encoding names.  A link to an
  allocation or to a class leads to its copy; the copies outside \<open>U\<close> are complete.
\<close>

definition links_ok :: "class_table \<Rightarrow> mnode list \<Rightarrow> amap \<Rightarrow> (nat \<times> nat) list \<Rightarrow> mval list \<Rightarrow> bool" where
  "links_ok g H \<rho> L objs \<longleftrightarrow>
     (\<forall>a<length H. case map_of L (g_ptr g a) of
        Some i \<Rightarrow> i < length objs \<and> (\<exists>b. \<rho> a = Some b \<and> objs ! i = VRef b) | None \<Rightarrow> \<rho> a = None) \<and>
     (\<forall>c i. map_of L c = Some i \<longrightarrow> c \<notin> g_ptr g ` {..<length H} \<longrightarrow> i < length objs \<and> objs ! i = VClass c)"

definition encs_ok :: "nat set \<Rightarrow> (octets \<times> nat) list \<Rightarrow> mval list \<Rightarrow> mnode list \<Rightarrow> bool" where
  "encs_ok F E objs h \<longleftrightarrow>
     (\<forall>n i. map_of E n = Some i \<longrightarrow>
        i < length objs \<and> (\<exists>b\<in>F. \<exists>e. objs ! i = VRef b \<and> n_body (h ! b) = BVal (PStr n e)))"

definition places_ok :: "mnode list \<Rightarrow> amap \<Rightarrow> nat set \<Rightarrow> nat set \<Rightarrow> mnode list \<Rightarrow> bool" where
  "places_ok H \<rho> U F h \<longleftrightarrow>
     dom \<rho> \<subseteq> {..<length H} \<and> inj_on \<rho> (dom \<rho>) \<and> ran \<rho> \<union> U \<union> F \<subseteq> {..<length h} \<and> F \<inter> (ran \<rho> \<union> U) = {}"

definition copies_ok :: "mnode list \<Rightarrow> amap \<Rightarrow> nat set \<Rightarrow> nat set \<Rightarrow> mnode list \<Rightarrow> bool" where
  "copies_ok H \<rho> U F h \<longleftrightarrow> (\<forall>a b. \<rho> a = Some b \<longrightarrow> b \<notin> U \<longrightarrow> nmatch H \<rho> F h (H ! a) (h ! b))"

definition tables ::
  "class_table \<Rightarrow> mnode list \<Rightarrow> amap \<Rightarrow> nat set \<Rightarrow> nat set \<Rightarrow> (nat \<times> nat) list \<Rightarrow> (octets \<times> nat) list \<Rightarrow> mval list \<Rightarrow> mnode list \<Rightarrow> bool" where
  "tables g H \<rho> U F L E objs h \<longleftrightarrow>
     links_ok g H \<rho> L objs \<and> encs_ok F E objs h \<and> places_ok H \<rho> U F h \<and> copies_ok H \<rho> U F h"

lemma links_objs:
  assumes "links_ok g H \<rho> L objs" "length objs \<le> length objs'" "\<And>i. i < length objs \<Longrightarrow> objs ! i \<noteq> VNil \<Longrightarrow> objs' ! i = objs ! i"
  shows "links_ok g H \<rho> L objs'"
  unfolding links_ok_def
proof (intro conjI allI impI)
  fix a assume "a < length H"
  with assms(1) have "case map_of L (g_ptr g a) of
      Some i \<Rightarrow> i < length objs \<and> (\<exists>b. \<rho> a = Some b \<and> objs ! i = VRef b) | None \<Rightarrow> \<rho> a = None" by (simp add: links_ok_def)
  then show "case map_of L (g_ptr g a) of
      Some i \<Rightarrow> i < length objs' \<and> (\<exists>b. \<rho> a = Some b \<and> objs' ! i = VRef b) | None \<Rightarrow> \<rho> a = None"
    using assms(2,3) by (cases "map_of L (g_ptr g a)") fastforce+
next
  fix c i assume "map_of L c = Some i" "c \<notin> g_ptr g ` {..<length H}"
  with assms(1) have "i < length objs" "objs ! i = VClass c" by (auto simp: links_ok_def)
  with assms(2,3) show "i < length objs'" "objs' ! i = VClass c" by auto
qed

lemma encs_objs:
  assumes "encs_ok F E objs h" "length objs \<le> length objs'" "\<And>i. i < length objs \<Longrightarrow> objs ! i \<noteq> VNil \<Longrightarrow> objs' ! i = objs ! i"
  shows "encs_ok F E objs' h"
  unfolding encs_ok_def
proof (intro allI impI)
  fix n i assume "map_of E n = Some i"
  with assms(1) obtain b e where "i < length objs" "b \<in> F" "objs ! i = VRef b" "n_body (h ! b) = BVal (PStr n e)"
    unfolding encs_ok_def by blast
  with assms(2,3) show "i < length objs' \<and> (\<exists>b\<in>F. \<exists>e. objs' ! i = VRef b \<and> n_body (h ! b) = BVal (PStr n e))" by fastforce
qed

lemma tables_objs:
  assumes "tables g H \<rho> U F L E objs h" "length objs \<le> length objs'" "\<And>i. i < length objs \<Longrightarrow> objs ! i \<noteq> VNil \<Longrightarrow> objs' ! i = objs ! i"
  shows "tables g H \<rho> U F L E objs' h"
  using assms(1) links_objs[OF _ assms(2,3)] encs_objs[OF _ assms(2,3)] by (simp add: tables_def)

lemma tables_push: "tables g H \<rho> U F L E objs h \<Longrightarrow> tables g H \<rho> U F L E (objs @ [x]) h"
  by (erule tables_objs) (auto simp: nth_append)

lemma tables_set: "tables g H \<rho> U F L E objs h \<Longrightarrow> objs ! i = VNil \<Longrightarrow> tables g H \<rho> U F L E (objs[i := x]) h"
  by (erule tables_objs) (simp, metis nth_list_update_neq)

text \<open>The heap may change outside the frozen nodes and the complete copies.\<close>

lemma tables_heap:
  assumes t: "tables g H \<rho> U F L E objs h"
    and "length h \<le> length h'" "\<And>b. b \<in> F \<Longrightarrow> h' ! b = h ! b" "\<And>b. b \<in> ran \<rho> - U \<Longrightarrow> h' ! b = h ! b"
    and "F \<subseteq> F'" "U \<subseteq> U'" "(F' - F) \<inter> (ran \<rho> \<union> U') = {}" "(U' - U) \<inter> F = {}" "(F' - F) \<union> (U' - U) \<subseteq> {..<length h'}"
  shows "tables g H \<rho> U' F' L E objs h'"
proof -
  have "encs_ok F' E objs h'" using t assms(3,5) unfolding tables_def encs_ok_def by (metis subsetD)
  moreover have "places_ok H \<rho> U' F' h'" using t assms(2,5-9) unfolding tables_def places_ok_def by fastforce
  moreover have "copies_ok H \<rho> U' F' h'" unfolding copies_ok_def
  proof (intro allI impI)
    fix a b assume a: "\<rho> a = Some b" "b \<notin> U'"
    then have "b \<in> ran \<rho> - U" using assms(6) by (auto simp: ran_def)
    moreover have "nmatch H \<rho> F h (H ! a) (h ! b)" using t a assms(6) unfolding tables_def copies_ok_def by blast
    ultimately show "nmatch H \<rho> F' h' (H ! a) (h' ! b)" using nmatch_mono[OF map_le_refl assms(5,3)] assms(4) by simp
  qed
  ultimately show ?thesis using t by (simp add: tables_def)
qed

lemma tables_bounds:
  assumes "tables g H \<rho> U F L E objs h"
  shows "b \<in> F \<Longrightarrow> b < length h" "\<rho> a = Some b \<Longrightarrow> b < length h" "b \<in> U \<Longrightarrow> b < length h" "b \<in> F \<Longrightarrow> b \<notin> U"
    "\<rho> a = Some b \<Longrightarrow> a < length H" "\<rho> a = Some b \<Longrightarrow> b \<notin> F" "\<rho> a = Some b \<Longrightarrow> \<rho> c = Some b \<Longrightarrow> a = c"
  using assms unfolding tables_def places_ok_def by (auto simp: ran_def dom_def inj_on_def)

lemma tables_update:
  assumes "tables g H \<rho> U F L E objs h" "b \<in> U"
  shows "tables g H \<rho> U F L E objs (h[b := n])"
proof (rule tables_heap[OF assms(1)])
  show "h[b := n] ! c = h ! c" if "c \<in> F" for c using that assms(2) tables_bounds(4)[OF assms(1)] by (metis nth_list_update_neq)
  show "h[b := n] ! c = h ! c" if "c \<in> ran \<rho> - U" for c using that assms(2) by (metis DiffE nth_list_update_neq)
qed auto

lemma tables_alloc_open:
  assumes "tables g H \<rho> U F L E objs h"
  shows "tables g H \<rho> (insert (length h) U) F L E objs (h @ [n])"
  using tables_bounds[OF assms] by (intro tables_heap[OF assms]) (auto simp: nth_append ran_def)

lemma tables_alloc_frozen:
  assumes "tables g H \<rho> U F L E objs h"
  shows "tables g H \<rho> U (insert (length h) F) L E objs (h @ [n])"
  using tables_bounds[OF assms] by (intro tables_heap[OF assms]) (auto simp: nth_append ran_def)

lemma tables_enc:
  assumes t: "tables g H \<rho> U F L E objs h"
  shows "tables g H \<rho> U (insert (length h) F) L ((n, length objs) # E) (objs @ [VRef (length h)]) (h @ [new_node (BVal (PStr n e))])"
proof -
  have "tables g H \<rho> U (insert (length h) F) L E (objs @ [VRef (length h)]) (h @ [new_node (BVal (PStr n e))])"
    by (intro tables_push tables_alloc_frozen t)
  moreover have "n_body ((h @ [new_node (BVal (PStr n e))]) ! length h) = BVal (PStr n e)" by (simp add: new_node_def)
  ultimately show ?thesis unfolding tables_def encs_ok_def by (auto simp: nth_append_length)
qed

lemma tables_class:
  assumes t: "tables g H \<rho> U F L E objs h" and "c \<notin> g_ptr g ` {..<length H}"
  shows "tables g H \<rho> U F ((c, length objs) # L) E (objs @ [VClass c]) h"
  using tables_push[OF t, of "VClass c"] assms(2) unfolding tables_def links_ok_def by (auto split: option.splits)

lemma tables_close:
  assumes "tables g H \<rho> U F L E objs h" "\<And>a. \<rho> a = Some b \<Longrightarrow> nmatch H \<rho> F h (H ! a) (h ! b)"
  shows "tables g H \<rho> (U - {b}) F L E objs h"
  using assms unfolding tables_def places_ok_def copies_ok_def by blast

end
