(* ===== verification/MarshalSim.thy ===== *)
theory MarshalSim
  imports MarshalGraph
begin

text \<open>
  The reader follows the writer: at every point where the writer has written part of the data, a reader at that position has
  the same symbol table and a table of objects that agrees with the links.
\<close>

section \<open>Writer and reader in step\<close>

definition synced :: "octets \<Rightarrow> writer \<Rightarrow> reader \<Rightarrow> bool" where
  "synced B s r \<longleftrightarrow>
     r_bytes r = B \<and> r_pos r = length (w_out s) \<and> r_symbols r = w_symbols s \<and> length (r_objects r) = w_next s \<and>
     w_next s \<le> length (w_out s) \<and> length (w_symbols s) \<le> length (w_out s) \<and> int (length B) < 2 ^ 40"

definition Sim :: "class_table \<Rightarrow> mnode list \<Rightarrow> octets \<Rightarrow> amap \<Rightarrow> nat set \<Rightarrow> nat set \<Rightarrow> writer \<Rightarrow> reader \<Rightarrow> bool" where
  "Sim g H B \<rho> U F s r \<longleftrightarrow> synced B s r \<and> tables g H \<rho> U F (w_links s) (w_enc_links s) (r_objects r) (r_heap r)"

text \<open>What a read leaves alone: the objects table, the nodes outside \<open>X\<close>, and the copies made so far.\<close>

definition grows :: "nat set \<Rightarrow> amap \<Rightarrow> nat set \<Rightarrow> reader \<Rightarrow> amap \<Rightarrow> nat set \<Rightarrow> reader \<Rightarrow> bool" where
  "grows X \<rho> F r \<rho>' F' r' \<longleftrightarrow>
     \<rho> \<subseteq>\<^sub>m \<rho>' \<and> F \<subseteq> F' \<and> prefix (r_objects r) (r_objects r') \<and> length (r_heap r) \<le> length (r_heap r') \<and>
     (\<forall>c<length (r_heap r). c \<notin> X \<longrightarrow> r_heap r' ! c = r_heap r ! c) \<and>
     (\<forall>b\<in>ran \<rho>'. b \<in> ran \<rho> \<or> length (r_heap r) \<le> b)"

lemma grows_still: "r_objects r' = r_objects r \<Longrightarrow> r_heap r' = r_heap r \<Longrightarrow> grows X \<rho> F r \<rho> F r'"
  by (simp add: grows_def)

lemma grows_refl: "grows X \<rho> F r \<rho> F r"
  by (simp add: grows_still)

lemma grows_trans:
  assumes "grows X \<rho> F r \<rho>1 F1 r1" "grows Y \<rho>1 F1 r1 \<rho>2 F2 r2" "\<And>y. y \<in> Y \<Longrightarrow> y \<in> X \<or> length (r_heap r) \<le> y"
  shows "grows X \<rho> F r \<rho>2 F2 r2"
proof -
  have "\<rho> \<subseteq>\<^sub>m \<rho>2" using assms(1,2) map_le_trans unfolding grows_def by blast
  moreover have "prefix (r_objects r) (r_objects r2)" using assms(1,2) prefix_order.trans unfolding grows_def by blast
  moreover have "r_heap r2 ! c = r_heap r ! c" if "c < length (r_heap r)" "c \<notin> X" for c
    using that assms unfolding grows_def by (metis leD order_less_le_trans)
  moreover have "b \<in> ran \<rho> \<or> length (r_heap r) \<le> b" if "b \<in> ran \<rho>2" for b
    using that assms(1,2) unfolding grows_def by (meson order_trans)
  ultimately show ?thesis using assms(1,2) unfolding grows_def by (meson order_trans)
qed

lemma grows_trans_same: "grows X \<rho> F r \<rho>1 F1 r1 \<Longrightarrow> grows X \<rho>1 F1 r1 \<rho>2 F2 r2 \<Longrightarrow> grows X \<rho> F r \<rho>2 F2 r2"
  by (rule grows_trans) auto

lemma grows_weaken: "grows {} \<rho> F r \<rho>1 F1 r1 \<Longrightarrow> grows X \<rho> F r \<rho>1 F1 r1"
  by (simp add: grows_def)

lemma growsD:
  assumes "grows X \<rho> F r \<rho>' F' r'"
  shows "\<rho> \<subseteq>\<^sub>m \<rho>'" "F \<subseteq> F'" "length (r_heap r) \<le> length (r_heap r')" "c < length (r_heap r) \<Longrightarrow> c \<notin> X \<Longrightarrow> r_heap r' ! c = r_heap r ! c"
    "i < length (r_objects r) \<Longrightarrow> r_objects r' ! i = r_objects r ! i" "length (r_objects r) \<le> length (r_objects r')"
    "b \<in> ran \<rho>' \<Longrightarrow> b \<in> ran \<rho> \<or> length (r_heap r) \<le> b" "\<rho> a = Some d \<Longrightarrow> \<rho>' a = Some d"
  using assms unfolding grows_def by (auto simp: prefix_def nth_append map_le_def dom_def)

lemma grows_match:
  assumes "grows X \<rho> F r \<rho>' F' r'" "F \<inter> X = {}" "F \<subseteq> {..<length (r_heap r)}" "rowmatch H \<rho> F (r_heap r) x y"
  shows "rowmatch H \<rho>' F' (r_heap r') x y"
  using assms growsD[OF assms(1)] by (intro rowmatch_mono[OF _ _ _ assms(4)]) auto

text \<open>No node under construction is a string that can be a hash key.\<close>

definition calm :: "mnode list \<Rightarrow> amap \<Rightarrow> nat set \<Rightarrow> bool" where
  "calm H \<rho> U \<longleftrightarrow> (\<forall>a b. \<rho> a = Some b \<longrightarrow> b \<in> U \<longrightarrow> \<not> plain_string (H ! a))"

lemma Sim_tables: "Sim g H B \<rho> U F s r \<Longrightarrow> tables g H \<rho> U F (w_links s) (w_enc_links s) (r_objects r) (r_heap r)"
  by (simp add: Sim_def)

lemma Sim_synced: "Sim g H B \<rho> U F s r \<Longrightarrow> synced B s r"
  by (simp add: Sim_def)

lemmas Sim_bounds = tables_bounds[OF Sim_tables]

lemma calm_grows:
  assumes "calm H \<rho> U" "Sim g H B \<rho> U F s r" "grows X \<rho> F r \<rho>' F' r'" "Sim g H B \<rho>' U F' s' r'"
  shows "calm H \<rho>' U"
  unfolding calm_def
proof (intro allI impI)
  fix a b assume a: "\<rho>' a = Some b" "b \<in> U"
  then have "b < length (r_heap r)" using Sim_bounds(3)[OF assms(2)] by blast
  moreover have "b \<in> ran \<rho>'" using a(1) by (auto simp: ran_def)
  ultimately have "b \<in> ran \<rho>" using growsD(7)[OF assms(3)] by force
  then obtain c where c: "\<rho> c = Some b" by (auto simp: ran_def)
  with growsD(8)[OF assms(3)] a Sim_bounds(7)[OF assms(4)] have "c = a" by blast
  with c a(2) assms(1) show "\<not> plain_string (H ! a)" unfolding calm_def by blast
qed

section \<open>Steps that only read\<close>

lemma prefix_put: "prefix (w_out (put bs s)) B \<longleftrightarrow> prefix (w_out s @ bs) B"
  by (simp add: put_def)

lemma ahead_synced: "synced B s r \<Longrightarrow> prefix (w_out s @ bs) B \<Longrightarrow> ahead bs r"
  by (auto simp: synced_def ahead_def prefix_def)

lemma Sim_depth [simp]: "Sim g H B \<rho> U F (s\<lparr>w_depth := d\<rparr>) r = Sim g H B \<rho> U F s r"
  by (simp add: Sim_def synced_def)

lemma w_sel [simp]:
  "w_out (put bs s) = w_out s @ bs" "w_symbols (put bs s) = w_symbols s" "w_links (put bs s) = w_links s"
  "w_enc_links (put bs s) = w_enc_links s" "w_next (put bs s) = w_next s"
  "w_out (count_link s) = w_out s" "w_symbols (count_link s) = w_symbols s" "w_links (count_link s) = w_links s"
  "w_enc_links (count_link s) = w_enc_links s" "w_next (count_link s) = Suc (w_next s)"
  "w_out (register_link k s) = w_out s" "w_symbols (register_link k s) = w_symbols s" "w_links (register_link k s) = (k, w_next s) # w_links s"
  "w_enc_links (register_link k s) = w_enc_links s" "w_next (register_link k s) = Suc (w_next s)"
  by (simp_all add: put_def count_link_def register_link_def)

lemma write_long_put: "write_long x = put (marshal_long x)"
  by (simp add: write_long_def fun_eq_iff)

lemma write_bytes_put: "write_bytes bs s = put (marshal_long (int (length bs)) @ bs) s"
  by (simp add: write_bytes_def write_long_def put_def)

lemma marshal_long_nonempty [simp]: "marshal_long x \<noteq> []"
  by (simp add: marshal_long_def split: prod.splits)

lemma Sim_put: "Sim g H B \<rho> U F s r \<Longrightarrow> Sim g H B \<rho> U F (put bs s) (adv (length bs) r)"
  by (simp add: Sim_def synced_def)

lemma Sim_byte:
  assumes "Sim g H B \<rho> U F s r" "prefix (w_out s @ [b]) B"
  shows "read_byte r = Inr (b, adv 1 r)" "Sim g H B \<rho> U F (put [b] s) (adv 1 r)"
  using read_byte_ahead[OF ahead_synced[OF Sim_synced[OF assms(1)] assms(2)]] Sim_put[OF assms(1), of "[b]"] by simp_all

lemma Sim_long:
  assumes "Sim g H B \<rho> U F s r" "prefix (w_out s @ marshal_long x) B" "long_ok x"
  shows "read_long r = Inr (x, adv (length (marshal_long x)) r)"
    "Sim g H B \<rho> U F (write_long x s) (adv (length (marshal_long x)) r)"
  using read_long_eats[OF assms(3) ahead_synced[OF Sim_synced[OF assms(1)] assms(2)]] Sim_put[OF assms(1), of "marshal_long x"]
  by (simp_all add: write_long_put)

lemma Sim_small: "Sim g H B \<rho> U F s r \<Longrightarrow> prefix (xs @ ys) B \<Longrightarrow> int (length ys) < 2 ^ 40"
  using prefix_length_le[of "xs @ ys" B] by (simp add: Sim_def synced_def)

lemma Sim_bytes:
  assumes "Sim g H B \<rho> U F s r" "prefix (w_out s @ marshal_long (int (length bs)) @ bs) B"
  shows "read_bytes r = Inr (bs, adv (length (marshal_long (int (length bs)) @ bs)) r)"
    "Sim g H B \<rho> U F (write_bytes bs s) (adv (length (marshal_long (int (length bs)) @ bs)) r)"
proof -
  have "int (length bs) < 2 ^ 40" using Sim_small[OF assms(1), of "w_out s @ marshal_long (int (length bs))" bs] assms(2) by simp
  from read_bytes_eats[OF this ahead_synced[OF Sim_synced[OF assms(1)] assms(2)]]
  show "read_bytes r = Inr (bs, adv (length (marshal_long (int (length bs)) @ bs)) r)" .
  show "Sim g H B \<rho> U F (write_bytes bs s) (adv (length (marshal_long (int (length bs)) @ bs)) r)"
    unfolding write_bytes_put by (rule Sim_put[OF assms(1)])
qed

lemma symbol_bytes_long: "n \<notin> set syms \<Longrightarrow> length n < length (symbol_bytes syms n)" "symbol_bytes syms n \<noteq> []"
  by (cases rule: symbol_bytes_cases[of n syms]; auto simp: add_symbol_def split: if_splits)+

lemma Sim_symbol:
  assumes "Sim g H B \<rho> U F s r" "prefix (w_out (write_symbol n s)) B" "valid_utf8 n"
  obtains r' where "read_symbol_name r = Inr (n, r')" "Sim g H B \<rho> U F (write_symbol n s) r'"
    "r_objects r' = r_objects r" "r_heap r' = r_heap r"
proof -
  have sy: "r_symbols r = w_symbols s" "length (w_symbols s) \<le> length (w_out s)" "int (length B) < 2 ^ 40"
    using Sim_synced[OF assms(1)] by (simp_all add: synced_def)
  have p: "prefix (w_out s @ symbol_bytes (w_symbols s) n) B" using assms(2) by (simp add: write_symbol_eq)
  then have le: "length (w_out s) + length (symbol_bytes (w_symbols s) n) \<le> length B" using prefix_length_le by fastforce
  let ?r = "(adv (length (symbol_bytes (r_symbols r) n)) r)\<lparr>r_symbols := add_symbol (r_symbols r) n\<rparr>"
  have a: "ahead (symbol_bytes (r_symbols r) n) r" using ahead_synced[OF Sim_synced[OF assms(1)] p] sy(1) by simp
  have "read_symbol_name r = Inr (n, ?r)"
  proof (cases "n \<in> set (r_symbols r)")
    case False
    then have "int (length n) < 2 ^ 40" using le sy symbol_bytes_long(1)[OF False] by simp
    then show ?thesis using le sy a by (intro read_symbol_eats assms(3)) simp_all
  next
    case True
    have r2: "int (length (r_symbols r)) < 2 ^ 40" using le sy by simp
    from True obtain i where i: "position (\<lambda>m. m = n) (r_symbols r) = Some i" using position_None[of "\<lambda>m. m = n" "r_symbols r"] by (cases "position (\<lambda>m. m = n) (r_symbols r)") auto
    then have b: "symbol_bytes (r_symbols r) n = chr8 CHR '';'' # marshal_long (int i)" "add_symbol (r_symbols r) n = r_symbols r"
      using True by (simp_all add: symbol_bytes_def add_symbol_def)
    note a' = ahead_ConsD[OF a[unfolded b(1)]]
    have "symbol_link (adv 1 r) = Inr (n, adv (length (marshal_long (int i))) (adv 1 r))"
      using a'(2) i r2 by (intro symbol_link_eats) simp_all
    with read_byte_ahead[OF a'(1)] b show ?thesis by (simp add: read_symbol_name_def adv_def)
  qed
  moreover have "Sim g H B \<rho> U F (write_symbol n s) ?r"
    using assms(1) sy symbol_bytes_long(2)[of "w_symbols s" n] by (cases "symbol_bytes (w_symbols s) n") (auto simp: Sim_def synced_def write_symbol_eq add_symbol_def)
  ultimately show thesis using that[of ?r] by simp
qed

section \<open>Steps that allocate\<close>

lemma Sim_count:
  assumes "Sim g H B \<rho> U F s r" "w_next s < length (w_out s)"
  shows "push_object x r = Inr (w_next s, r\<lparr>r_objects := r_objects r @ [x]\<rparr>)"
    "Sim g H B \<rho> U F (count_link s) (r\<lparr>r_objects := r_objects r @ [x]\<rparr>)"
  using assms tables_push[OF Sim_tables[OF assms(1)], of x] by (simp_all add: Sim_def synced_def push_object_def)

lemma Sim_update:
  assumes "Sim g H B \<rho> U F s r" "b \<in> U"
  shows "Sim g H B \<rho> U F s (r\<lparr>r_heap := (r_heap r)[b := n]\<rparr>)" "grows {b} \<rho> F r \<rho> F (r\<lparr>r_heap := (r_heap r)[b := n]\<rparr>)"
  using assms(1) tables_update[OF Sim_tables[OF assms(1)] assms(2), of n] by (simp_all add: Sim_def synced_def grows_def)

lemma Sim_frozen:
  assumes "Sim g H B \<rho> U F s r"
  shows "Sim g H B \<rho> U (insert (length (r_heap r)) F) s (r\<lparr>r_heap := r_heap r @ [n]\<rparr>)"
    "grows {} \<rho> F r \<rho> (insert (length (r_heap r)) F) (r\<lparr>r_heap := r_heap r @ [n]\<rparr>)"
  using assms tables_alloc_frozen[OF Sim_tables[OF assms], of n] by (auto simp: Sim_def synced_def grows_def nth_append)

lemma Sim_alloc:
  assumes "Sim g H B \<rho> U F s r"
  shows "Sim g H B \<rho> (insert (length (r_heap r)) U) F s (r\<lparr>r_heap := r_heap r @ [n]\<rparr>)"
    "grows {} \<rho> F r \<rho> F (r\<lparr>r_heap := r_heap r @ [n]\<rparr>)"
  using assms tables_alloc_open[OF Sim_tables[OF assms], of n] by (auto simp: Sim_def synced_def grows_def nth_append)

lemma Sim_close:
  assumes "Sim g H B \<rho> U F s r" "\<And>a. \<rho> a = Some b \<Longrightarrow> nmatch H \<rho> F (r_heap r) (H ! a) (r_heap r ! b)"
  shows "Sim g H B \<rho> (U - {b}) F s r"
  using assms tables_close[OF Sim_tables[OF assms(1)] assms(2)] by (simp add: Sim_def)

text \<open>A copy is entered in the objects table, where a placeholder may be waiting for it.\<close>

definition entered_at :: "mval list \<Rightarrow> nat \<Rightarrow> mnode \<Rightarrow> reader \<Rightarrow> reader" where
  "entered_at objs i n r = r\<lparr>r_heap := r_heap r @ [n], r_objects := objs[i := VRef (length (r_heap r))]\<rparr>"

lemma Sim_open:
  assumes wf: "wf_graph g H" and S: "Sim g H B \<rho> U F s r" and a: "a < length H" "map_of (w_links s) (g_ptr g a) = None"
    and i: "i < length (r_objects r)" "r_objects r ! i = VNil"
  shows "Sim g H B (\<rho>(a \<mapsto> length (r_heap r))) (insert (length (r_heap r)) U) F (s\<lparr>w_links := (g_ptr g a, i) # w_links s\<rparr>)
           (entered_at (r_objects r) i n r)"
proof -
  let ?b = "length (r_heap r)" let ?\<rho> = "\<rho>(a \<mapsto> length (r_heap r))" let ?objs = "(r_objects r)[i := VRef (length (r_heap r))]"
  have t: "tables g H \<rho> (insert ?b U) F (w_links s) (w_enc_links s) ?objs (r_heap r @ [n])"
    by (intro tables_set tables_alloc_open Sim_tables[OF S] i(2))
  have na: "\<rho> a = None" using t a unfolding tables_def links_ok_def by (auto split: option.splits)
  have nb: "\<rho> c \<noteq> Some ?b" for c using Sim_bounds(2)[OF S, of c ?b] by auto
  from na have le: "\<rho> \<subseteq>\<^sub>m ?\<rho>" by (auto simp: map_le_def)
  have "links_ok g H ?\<rho> ((g_ptr g a, i) # w_links s) ?objs"
    using t a i wf_graph_ptr[OF wf _ a(1)] unfolding tables_def links_ok_def by (auto split: option.splits)
  moreover have "places_ok H ?\<rho> (insert ?b U) F (r_heap r @ [n])"
    using t a na nb unfolding tables_def places_ok_def
    by (auto simp: inj_on_def ran_def dom_def split: if_splits)
  moreover have "copies_ok H ?\<rho> (insert ?b U) F (r_heap r @ [n])"
    using t nmatch_mono[OF le order_refl] unfolding tables_def copies_ok_def by auto
  ultimately show ?thesis using t S by (simp add: tables_def Sim_def synced_def entered_at_def)
qed

end
