(* ===== verification/MarshalLoops.thy ===== *)
theory MarshalLoops
  imports MarshalSim
begin

text \<open>The loops over elements, rows and instance variables, for a reader and a writer of values that are in step.\<close>

text \<open>Writing extends the output and the links, and keeps the limit; a value takes at least a byte.\<close>

definition leads :: "writer \<Rightarrow> writer \<Rightarrow> bool" where
  "leads s s' \<longleftrightarrow> prefix (w_out s) (w_out s') \<and> fst ` set (w_links s) \<subseteq> fst ` set (w_links s') \<and> w_limit s' = w_limit s"

definition out_grows :: "value_writer \<Rightarrow> bool" where
  "out_grows wr \<longleftrightarrow> (\<forall>v s s'. wr v s = Inr s' \<longrightarrow> leads s s' \<and> length (w_out s) < length (w_out s'))"

definition value_ok :: "class_table \<Rightarrow> mnode list \<Rightarrow> octets \<Rightarrow> value_writer \<Rightarrow> mval rd \<Rightarrow> nat \<Rightarrow> bool" where
  "value_ok g H B wr rd f \<longleftrightarrow>
     (\<forall>v s s' r \<rho> U F.
        wr v s = Inr s' \<longrightarrow> Sim g H B \<rho> U F s r \<longrightarrow> calm H \<rho> U \<longrightarrow> wf_value g H v \<longrightarrow>
        prefix (w_out s') B \<longrightarrow> length (w_out s') \<le> length (w_out s) + f \<longrightarrow>
        (\<exists>v' r' \<rho>' F'. rd r = Inr (v', r') \<and> Sim g H B \<rho>' U F' s' r' \<and> grows {} \<rho> F r \<rho>' F' r' \<and> vmatch \<rho>' v v'))"

lemma value_okE:
  assumes "value_ok g H B wr rd f" "wr v s = Inr s'" "Sim g H B \<rho> U F s r" "calm H \<rho> U" "wf_value g H v"
    "prefix (w_out s') B" "length (w_out s') \<le> length (w_out s) + f"
  obtains v' r' \<rho>' F' where "rd r = Inr (v', r')" "Sim g H B \<rho>' U F' s' r'" "grows {} \<rho> F r \<rho>' F' r'" "vmatch \<rho>' v v'" "calm H \<rho>' U"
  using assms calm_grows[OF assms(4,3)] unfolding value_ok_def by blast

lemma leads_refl [simp]: "leads s s"
  by (simp add: leads_def)

lemma leads_trans: "leads s s1 \<Longrightarrow> leads s1 s2 \<Longrightarrow> leads s s2"
  unfolding leads_def by (metis prefix_order.trans subset_trans)

lemma leads_prefix [simp]: "leads s s' \<Longrightarrow> prefix (w_out s) (w_out s')"
  by (simp add: leads_def)

lemma out_leads: "out_grows wr \<Longrightarrow> wr v s = Inr s' \<Longrightarrow> leads s s'"
  unfolding out_grows_def by blast

lemma out_growsD: "out_grows wr \<Longrightarrow> wr v s = Inr s' \<Longrightarrow> prefix (w_out s) (w_out s')"
  using out_leads leads_prefix by blast

lemma out_byte: "out_grows wr \<Longrightarrow> wr v s = Inr s' \<Longrightarrow> length (w_out s) < length (w_out s')"
  unfolding out_grows_def by blast

lemma leads_symbol: "leads s (write_symbol n s)"
  by (simp add: leads_def write_symbol_eq)

lemma out_symbol: "prefix (w_out s) (w_out (write_symbol n s))"
  by (rule leads_prefix[OF leads_symbol])

lemma leads_all: "out_grows wr \<Longrightarrow> write_all wr vs s = Inr s' \<Longrightarrow> leads s s'"
proof (induction vs arbitrary: s)
  case (Cons v vs)
  then obtain s1 where "wr v s = Inr s1" "write_all wr vs s1 = Inr s'" by (auto simp: bindE_Inr)
  with Cons show ?case using out_leads leads_trans by blast
qed simp

lemma leads_named: "out_grows wr \<Longrightarrow> write_named wr xs s = Inr s' \<Longrightarrow> leads s s'"
proof (induction wr xs s rule: write_named.induct)
  case (2 wr n v xs s)
  then obtain s1 where "wr v (write_symbol n s) = Inr s1" "write_named wr xs s1 = Inr s'" by (auto simp: bindE_Inr)
  with 2 show ?case using out_leads leads_symbol leads_trans by metis
qed simp

lemmas out_all = leads_prefix[OF leads_all] and out_named = leads_prefix[OF leads_named]

lemma out_count: "out_grows wr \<Longrightarrow> write_all wr vs s = Inr s' \<Longrightarrow> length (w_out s) + length vs \<le> length (w_out s')"
proof (induction vs arbitrary: s)
  case (Cons v vs)
  then obtain s1 where "wr v s = Inr s1" "write_all wr vs s1 = Inr s'" by (auto simp: bindE_Inr)
  with Cons out_byte[OF Cons.prems(1), of v s s1] show ?case by fastforce
qed simp

lemma out_count_named: "out_grows wr \<Longrightarrow> write_named wr xs s = Inr s' \<Longrightarrow> length (w_out s) + length xs \<le> length (w_out s')"
proof (induction wr xs s rule: write_named.induct)
  case (2 wr n v xs s)
  then obtain s1 where w: "wr v (write_symbol n s) = Inr s1" "write_named wr xs s1 = Inr s'" by (auto simp: bindE_Inr)
  from 2(1)[OF 2(2) w(2)] out_byte[OF 2(2) w(1)] prefix_length_le[OF out_symbol[of s n]] show ?case by simp
qed simp

lemma split_room:
  assumes "prefix (w_out s) (w_out s1)" "prefix (w_out s1) (w_out s')" "length (w_out s') \<le> length (w_out s) + f" "prefix (w_out s') B"
  shows "length (w_out s1) \<le> length (w_out s) + f" "length (w_out s') \<le> length (w_out s1) + f" "prefix (w_out s1) B"
  using assms prefix_length_le[OF assms(1)] prefix_length_le[OF assms(2)] prefix_order.trans by auto

section \<open>Elements\<close>

definition core_payload :: "mbody \<Rightarrow> mpayload option" where
  "core_payload b = (case b of BVal p \<Rightarrow> Some p | BSub c p \<Rightarrow> Some p | _ \<Rightarrow> None)"

definition with_payload :: "mpayload \<Rightarrow> mnode \<Rightarrow> mnode" where
  "with_payload p n = n\<lparr>n_body := (case n_body n of BVal q \<Rightarrow> BVal p | BSub c q \<Rightarrow> BSub c p | b \<Rightarrow> b)\<rparr>"

lemma with_payload_simps [simp]:
  "core_payload (n_body n) = Some q \<Longrightarrow> core_payload (n_body (with_payload p n)) = Some p"
  "with_payload p (with_payload q n) = with_payload p n"
  "core_payload (n_body n) = Some p \<Longrightarrow> with_payload p n = n"
  by (auto simp: core_payload_def with_payload_def split: mbody.splits)

lemma push_elem_payload: "core_payload (n_body n) = Some (PArr xs) \<Longrightarrow> push_elem v n = with_payload (PArr (xs @ [v])) n"
  by (auto simp: push_elem_def core_payload_def with_payload_def split: mbody.splits)

lemma read_elems_ok:
  assumes ok: "value_ok g H B wr rd f" and og: "out_grows wr"
  shows "write_all wr vs s = Inr s' \<Longrightarrow> Sim g H B \<rho> U F s r \<Longrightarrow> calm H \<rho> U \<Longrightarrow> b \<in> U \<Longrightarrow> prefix (w_out s') B \<Longrightarrow>
    length (w_out s') \<le> length (w_out s) + f \<Longrightarrow> list_all (wf_value g H) vs \<Longrightarrow> core_payload (n_body (r_heap r ! b)) = Some (PArr xs) \<Longrightarrow>
    \<exists>r' \<rho>' F' ws. read_elems rd (length vs) b r = Inr ((), r') \<and> Sim g H B \<rho>' U F' s' r' \<and> grows {b} \<rho> F r \<rho>' F' r' \<and>
      r_heap r' ! b = with_payload (PArr (xs @ ws)) (r_heap r ! b) \<and> list_all2 (vmatch \<rho>') vs ws"
proof (induction vs arbitrary: s r \<rho> F xs)
  case Nil
  then show ?case by (auto intro!: exI[of _ "[]"] exI[of _ r] exI[of _ \<rho>] exI[of _ F] grows_refl)
next
  case (Cons v vs)
  then obtain s1 where w: "wr v s = Inr s1" "write_all wr vs s1 = Inr s'" by (auto simp: bindE_Inr)
  note room = split_room[OF out_growsD[OF og w(1)] out_all[OF og w(2)] Cons.prems(6,5)]
  have wf: "wf_value g H v" "list_all (wf_value g H) vs" using Cons.prems(7) by simp_all
  obtain x r1 \<rho>1 F1 where x: "rd r = Inr (x, r1)" "Sim g H B \<rho>1 U F1 s1 r1" "grows {} \<rho> F r \<rho>1 F1 r1" "vmatch \<rho>1 v x" "calm H \<rho>1 U"
    by (rule value_okE[OF ok w(1) Cons.prems(2,3) wf(1) room(3,1)])
  have b: "b < length (r_heap r)" "b < length (r_heap r1)" "r_heap r1 ! b = r_heap r ! b"
    using Sim_bounds(3)[OF Cons.prems(2,4)] growsD[OF x(3)] by auto
  define n where "n = with_payload (PArr (xs @ [x])) (r_heap r ! b)"
  define r2 where "r2 = r1\<lparr>r_heap := (r_heap r1)[b := n]\<rparr>"
  have u: "update_node b (push_elem x) r1 = Inr ((), r2)"
    using b push_elem_payload[OF Cons.prems(8)] by (simp add: update_node_def r2_def n_def)
  have S2: "Sim g H B \<rho>1 U F1 s1 r2" "grows {b} \<rho>1 F1 r1 \<rho>1 F1 r2"
    using Sim_update[OF x(2) Cons.prems(4)] by (simp_all add: r2_def)
  have p2: "core_payload (n_body (r_heap r2 ! b)) = Some (PArr (xs @ [x]))"
    using b Cons.prems(8) by (simp add: r2_def n_def)
  obtain r' \<rho>' F' ws where r': "read_elems rd (length vs) b r2 = Inr ((), r')" "Sim g H B \<rho>' U F' s' r'" "grows {b} \<rho>1 F1 r2 \<rho>' F' r'"
    "r_heap r' ! b = with_payload (PArr ((xs @ [x]) @ ws)) (r_heap r2 ! b)" "list_all2 (vmatch \<rho>') vs ws"
    using Cons.IH[OF w(2) S2(1) x(5) Cons.prems(4,5) room(2) wf(2) p2] by blast
  have "grows {b} \<rho> F r \<rho>' F' r'" using grows_trans_same[OF grows_weaken[OF x(3)] grows_trans_same[OF S2(2) r'(3)]] .
  moreover have "read_elems rd (length (v # vs)) b r = Inr ((), r')" using x(1) u r'(1) by simp
  moreover have "r_heap r' ! b = with_payload (PArr (xs @ x # ws)) (r_heap r ! b)" using r'(4) b by (simp add: r2_def n_def)
  moreover have "list_all2 (vmatch \<rho>') (v # vs) (x # ws)" using r'(5) vmatch_mono[OF growsD(1)[OF r'(3)] x(4)] by simp
  ultimately show ?case using r'(2) by blast
qed

section \<open>Instance variables\<close>

fun read_loop :: "mval rd \<Rightarrow> (octets \<Rightarrow> mval \<Rightarrow> unit rd) \<Rightarrow> nat \<Rightarrow> unit rd" where
  "read_loop rd app 0 = ret ()"
| "read_loop rd app (Suc k) = andthen read_symbol_name (\<lambda>n. andthen rd (\<lambda>u. andthen (app n u) (\<lambda>_. read_loop rd app k)))"

lemma read_ivar_list_loop: "read_ivar_list rd k v = read_loop rd (apply_ivar v) k"
  by (induction k) simp_all

lemma read_object_ivars_loop:
  "read_object_ivars rd k a =
     read_loop rd (\<lambda>n v. if n = ascii ''mesg'' \<or> n = ascii ''bt'' then ret () else ivar_set (VRef a) (trim_at n) v) k"
  by (induction k) simp_all

definition sets_ivars :: "nat \<Rightarrow> (octets \<Rightarrow> mval \<Rightarrow> unit rd) \<Rightarrow> bool" where
  "sets_ivars b app \<longleftrightarrow> (\<forall>x v r. (x = [] \<or> hd x \<noteq> 64) \<longrightarrow> app (64 # x) v r = ivar_set (VRef b) x v r)"

lemma trim_at_name: "x = [] \<or> hd x \<noteq> 64 \<Longrightarrow> trim_at (64 # x) = x"
  by (cases x) (auto simp: trim_at_def)

lemma at_names: "64 # x \<noteq> ascii ''E''" "64 # x \<noteq> ascii ''encoding''" "64 # x \<noteq> ascii ''mesg''" "64 # x \<noteq> ascii ''bt''"
  by (simp_all add: ascii_def)

lemma sets_ivars_apply: "sets_ivars b (apply_ivar (VRef b))"
  unfolding sets_ivars_def using at_names trim_at_name by (simp add: apply_ivar_def)

lemma sets_ivars_object: "sets_ivars b (\<lambda>n v. if n = ascii ''mesg'' \<or> n = ascii ''bt'' then ret () else ivar_set (VRef b) (trim_at n) v)"
  unfolding sets_ivars_def using at_names trim_at_name by simp

definition at_sign :: "(octets \<times> mval) list \<Rightarrow> (octets \<times> mval) list" where
  "at_sign xs = map (\<lambda>(x, v). (64 # x, v)) xs"

lemma read_loop_ok:
  assumes ok: "value_ok g H B wr rd f" and og: "out_grows wr" and app: "sets_ivars b app"
  shows "write_named wr (at_sign xs) s = Inr s' \<Longrightarrow> Sim g H B \<rho> U F s r \<Longrightarrow> calm H \<rho> U \<Longrightarrow> b \<in> U \<Longrightarrow> prefix (w_out s') B \<Longrightarrow>
    length (w_out s') \<le> length (w_out s) + f \<Longrightarrow> list_all (wf_value g H) (map snd xs) \<Longrightarrow>
    wf_names (map fst (n_ivars (r_heap r ! b)) @ map fst xs) \<Longrightarrow>
    \<exists>r' \<rho>' F' ys. read_loop rd app (length xs) r = Inr ((), r') \<and> Sim g H B \<rho>' U F' s' r' \<and> grows {b} \<rho> F r \<rho>' F' r' \<and>
      r_heap r' ! b = (r_heap r ! b)\<lparr>n_ivars := n_ivars (r_heap r ! b) @ ys\<rparr> \<and> list_all2 (fmatch \<rho>') xs ys"
proof (induction xs arbitrary: s r \<rho> F)
  case Nil
  then show ?case by (auto simp: at_sign_def intro!: exI[of _ "[]"] exI[of _ r] exI[of _ \<rho>] exI[of _ F] grows_refl)
next
  case (Cons xv xs)
  obtain x v where xv: "xv = (x, v)" by (cases xv)
  let ?n = "r_heap r ! b"
  obtain s1 where w: "wr v (write_symbol (64 # x) s) = Inr s1" "write_named wr (at_sign xs) s1 = Inr s'"
    using Cons.prems(1) by (auto simp: bindE_Inr at_sign_def xv)
  have p1: "prefix (w_out s) (w_out s1)" "prefix (w_out (write_symbol (64 # x) s)) (w_out s1)"
    using out_growsD[OF og w(1)] out_symbol[of s "64 # x"] prefix_order.trans by blast+
  note room = split_room[OF p1(1) out_named[OF og w(2)] Cons.prems(6,5)]
  have wf: "wf_value g H v" "list_all (wf_value g H) (map snd xs)" "valid_utf8 (64 # x)" "x = [] \<or> hd x \<noteq> 64"
    "x \<notin> set (map fst (n_ivars ?n))" using Cons.prems(7,8) by (auto simp: xv wf_names_def)
  obtain r0 where r0: "read_symbol_name r = Inr (64 # x, r0)" "Sim g H B \<rho> U F (write_symbol (64 # x) s) r0"
    "r_objects r0 = r_objects r" "r_heap r0 = r_heap r"
    using Sim_symbol[OF Cons.prems(2) prefix_order.trans[OF p1(2) room(3)] wf(3)] by blast
  have "length (w_out s1) \<le> length (w_out (write_symbol (64 # x) s)) + f"
    using room(1) prefix_length_le[OF out_symbol[of s "64 # x"]] by simp
  then obtain u r1 \<rho>1 F1 where u: "rd r0 = Inr (u, r1)" "Sim g H B \<rho>1 U F1 s1 r1" "grows {} \<rho> F r0 \<rho>1 F1 r1" "vmatch \<rho>1 v u" "calm H \<rho>1 U"
    using value_okE[OF ok w(1) r0(2) Cons.prems(3) wf(1) room(3)] by blast
  have g1: "grows {} \<rho> F r \<rho>1 F1 r1" by (rule grows_trans_same[OF grows_still[OF r0(3,4)] u(3)])
  have b: "b < length (r_heap r)" "b < length (r_heap r1)" "r_heap r1 ! b = ?n"
    using Sim_bounds(3)[OF Cons.prems(2,4)] growsD[OF g1] by auto
  define n where "n = ?n\<lparr>n_ivars := n_ivars ?n @ [(x, u)]\<rparr>"
  define r2 where "r2 = r1\<lparr>r_heap := (r_heap r1)[b := n]\<rparr>"
  have a: "app (64 # x) u r1 = Inr ((), r2)"
    using app wf(4,5) b by (auto simp: sets_ivars_def ivar_set_def update_node_def r2_def n_def ivar_put_def)
  have S2: "Sim g H B \<rho>1 U F1 s1 r2" "grows {b} \<rho>1 F1 r1 \<rho>1 F1 r2"
    using Sim_update[OF u(2) Cons.prems(4)] by (simp_all add: r2_def)
  have n2: "r_heap r2 ! b = n" using b by (simp add: r2_def)
  have wf2: "wf_names (map fst (n_ivars (r_heap r2 ! b)) @ map fst xs)" using Cons.prems(8) n2 by (simp add: n_def xv)
  obtain r' \<rho>' F' ys where r': "read_loop rd app (length xs) r2 = Inr ((), r')" "Sim g H B \<rho>' U F' s' r'" "grows {b} \<rho>1 F1 r2 \<rho>' F' r'"
    "r_heap r' ! b = (r_heap r2 ! b)\<lparr>n_ivars := n_ivars (r_heap r2 ! b) @ ys\<rparr>" "list_all2 (fmatch \<rho>') xs ys"
    using Cons.IH[OF w(2) S2(1) u(5) Cons.prems(4,5) room(2) wf(2) wf2] by blast
  have "grows {b} \<rho> F r \<rho>' F' r'" using grows_trans_same[OF grows_weaken[OF g1] grows_trans_same[OF S2(2) r'(3)]] .
  moreover have "read_loop rd app (length (xv # xs)) r = Inr ((), r')" using r0(1) u(1) a r'(1) by simp
  moreover have "r_heap r' ! b = ?n\<lparr>n_ivars := n_ivars ?n @ (x, u) # ys\<rparr>" using r'(4) n2 by (simp add: n_def)
  moreover have "list_all2 (fmatch \<rho>') (xv # xs) ((x, u) # ys)"
    using r'(5) vmatch_mono[OF growsD(1)[OF r'(3)] u(4)] by (simp add: xv fmatch_def)
  ultimately show ?case using r'(2) by blast
qed

section \<open>Rows\<close>

lemma kmatch_key: "kmatch H F h k k' \<Longrightarrow> wf_key H k \<Longrightarrow> hkey_of h k' = hkey_of H k"
  by (cases k) (auto simp: kmatch_def wf_key_def hkey_of_def)

lemma put_row_new:
  assumes "list_all2 (rowmatch H \<rho> F h) rows rows'" "list_all (wf_key H \<circ> fst) rows" "hkey_of H k \<notin> set (map (hkey_of H \<circ> fst) rows)"
  shows "put_row h k' v' (hkey_of H k) rows' = rows' @ [(k', v')]"
proof -
  have "hkey_of h (fst y) \<noteq> hkey_of H k" if "y \<in> set rows'" for y
  proof -
    obtain i where i: "i < length rows'" "y = rows' ! i" using \<open>y \<in> set rows'\<close> by (auto simp: in_set_conv_nth)
    then have "i < length rows" "rowmatch H \<rho> F h (rows ! i) y" using assms(1) by (auto simp: list_all2_conv_all_nth)
    then have "hkey_of h (fst y) = hkey_of H (fst (rows ! i))" "rows ! i \<in> set rows"
      using assms(2) kmatch_key by (auto simp: rowmatch_def list_all_length)
    with assms(3) show ?thesis by (force simp: image_iff)
  qed
  then have "position (\<lambda>(k', v'). hkey_of h k' = hkey_of H k) rows' = None"
    using position_None[of "\<lambda>(k', v'). hkey_of h k' = hkey_of H k" rows'] by fastforce
  then show ?thesis by (simp add: put_row_def)
qed

lemma key_copied:
  assumes S: "Sim g H B \<rho> U F s r" and calm: "calm H \<rho> U" and k: "wf_key H k" "vmatch \<rho> k kx"
  obtains k' r' F' where "hkey_of (r_heap r) kx = hkey_of H k" "key_snapshot kx r = Inr (k', r')" "Sim g H B \<rho> U F' s r'"
    "grows {} \<rho> F r \<rho> F' r'" "kmatch H F' (r_heap r') k k'"
proof (cases k)
  case (VRef a)
  then obtain c where c: "\<rho> a = Some c" "kx = VRef c" using k(2) by (auto simp: vmatch_def)
  obtain bs e where s: "n_body (H ! a) = BVal (PStr bs e)" "plain_string (H ! a)"
    using k(1) VRef by (auto simp: wf_key_def plain_string_def split: mbody.splits mpayload.splits)
  have "nmatch H \<rho> F (r_heap r) (H ! a) (r_heap r ! c)"
    using Sim_tables[OF S] calm c(1) s(2) unfolding calm_def tables_def copies_ok_def by blast
  then have n: "n_body (r_heap r ! c) = n_body (H ! a)" using s by (auto simp: nmatch_def bmatch_def pmatch_def)
  let ?b = "length (r_heap r)" let ?r = "r\<lparr>r_heap := r_heap r @ [new_node (n_body (H ! a))]\<rparr>"
  show thesis
  proof (rule that)
    show "hkey_of (r_heap r) kx = hkey_of H k" using n by (simp add: c VRef hkey_of_def)
    show "key_snapshot kx r = Inr (VRef ?b, ?r)" using n by (simp add: c key_snapshot_def new_ref_def)
    show "Sim g H B \<rho> U (insert ?b F) s ?r" "grows {} \<rho> F r \<rho> (insert ?b F) ?r" by (rule Sim_frozen[OF S])+
    show "kmatch H (insert ?b F) (r_heap ?r) k (VRef ?b)" by (simp add: kmatch_def VRef new_node_def)
  qed
qed (use k S that[of kx r F] grows_refl in \<open>auto simp: vmatch_def wf_key_def kmatch_def hkey_of_def key_snapshot_def\<close>)

lemma payload_put_new:
  assumes "core_payload (n_body n) = Some (PHash rows' d p)" "put_row h k v hk rows' = rows''"
  shows "payload_put h k v hk n = with_payload (PHash rows'' d p) n"
  using assms by (auto simp: payload_put_def core_payload_def with_payload_def split: mbody.splits)

lemma read_pairs_ok:
  assumes ok: "value_ok g H B wr rd f" and og: "out_grows wr"
  shows "write_all wr (flat_pairs rows) s = Inr s' \<Longrightarrow> Sim g H B \<rho> U F s r \<Longrightarrow> calm H \<rho> U \<Longrightarrow> b \<in> U \<Longrightarrow> prefix (w_out s') B \<Longrightarrow>
    length (w_out s') \<le> length (w_out s) + f \<Longrightarrow> list_all (wf_value g H) (flat_pairs rows) \<Longrightarrow>
    core_payload (n_body (r_heap r ! b)) = Some (PHash rows0' d p) \<Longrightarrow> list_all2 (rowmatch H \<rho> F (r_heap r)) rows0 rows0' \<Longrightarrow>
    distinct (map (hkey_of H \<circ> fst) (rows0 @ rows)) \<Longrightarrow> list_all (wf_key H \<circ> fst) (rows0 @ rows) \<Longrightarrow>
    \<exists>r' \<rho>' F' all'. read_pairs rd (length rows) b r = Inr ((), r') \<and> Sim g H B \<rho>' U F' s' r' \<and> grows {b} \<rho> F r \<rho>' F' r' \<and>
      r_heap r' ! b = with_payload (PHash all' d p) (r_heap r ! b) \<and> list_all2 (rowmatch H \<rho>' F' (r_heap r')) (rows0 @ rows) all'"
proof (induction rows arbitrary: s r \<rho> F rows0 rows0')
  case Nil
  then show ?case by (auto simp: flat_pairs_def intro!: exI[of _ rows0'] exI[of _ r] exI[of _ \<rho>] exI[of _ F] grows_refl)
next
  case (Cons kv rows)
  obtain k v where kv: "kv = (k, v)" by (cases kv)
  let ?n = "r_heap r ! b"
  obtain s1 s2 where w: "wr k s = Inr s1" "wr v s1 = Inr s2" "write_all wr (flat_pairs rows) s2 = Inr s'"
    using Cons.prems(1) by (auto simp: bindE_Inr kv flat_pairs_def)
  have p12: "prefix (w_out s) (w_out s1)" "prefix (w_out s1) (w_out s2)" "prefix (w_out s2) (w_out s')"
    using out_growsD[OF og] w out_all[OF og w(3)] by blast+
  note room = split_room[OF prefix_order.trans[OF p12(1,2)] p12(3) Cons.prems(6,5)]
  note room1 = split_room[OF p12(1,2) room(1,3)]
  have wf: "wf_value g H k" "wf_value g H v" "list_all (wf_value g H) (flat_pairs rows)" "wf_key H k"
    using Cons.prems(7,11) by (auto simp: kv flat_pairs_def)
  obtain x r1 \<rho>1 F1 where x: "rd r = Inr (x, r1)" "Sim g H B \<rho>1 U F1 s1 r1" "grows {} \<rho> F r \<rho>1 F1 r1" "vmatch \<rho>1 k x" "calm H \<rho>1 U"
    by (rule value_okE[OF ok w(1) Cons.prems(2,3) wf(1) room1(3,1)])
  obtain y r2 \<rho>2 F2 where y: "rd r1 = Inr (y, r2)" "Sim g H B \<rho>2 U F2 s2 r2" "grows {} \<rho>1 F1 r1 \<rho>2 F2 r2" "vmatch \<rho>2 v y" "calm H \<rho>2 U"
    by (rule value_okE[OF ok w(2) x(2,5) wf(2) room(3) room1(2)])
  obtain k' r3 F3 where k': "hkey_of (r_heap r2) x = hkey_of H k" "key_snapshot x r2 = Inr (k', r3)" "Sim g H B \<rho>2 U F3 s2 r3"
    "grows {} \<rho>2 F2 r2 \<rho>2 F3 r3" "kmatch H F3 (r_heap r3) k k'"
    by (rule key_copied[OF y(2,5) wf(4) vmatch_mono[OF growsD(1)[OF y(3)] x(4)]])
  have g3: "grows {} \<rho> F r \<rho>2 F3 r3" by (rule grows_trans_same[OF x(3) grows_trans_same[OF y(3) k'(4)]])
  have b: "b < length (r_heap r)" "b < length (r_heap r3)" "r_heap r3 ! b = ?n" "b \<notin> F3"
    using Sim_bounds(3)[OF Cons.prems(2,4)] growsD[OF g3] Sim_bounds(4)[OF k'(3)] Cons.prems(4) by auto
  have F: "F \<subseteq> {..<length (r_heap r)}" "F3 \<subseteq> {..<length (r_heap r3)}" using Sim_bounds(1)[OF Cons.prems(2)] Sim_bounds(1)[OF k'(3)] by auto
  have rows3: "list_all2 (rowmatch H \<rho>2 F3 (r_heap r3)) rows0 rows0'"
    using Cons.prems(9) grows_match[OF g3 _ F(1)] by (auto elim!: list_all2_mono)
  have fresh: "hkey_of H k \<notin> set (map (hkey_of H \<circ> fst) rows0)" using Cons.prems(10) by (auto simp: kv)
  have wf0: "list_all (wf_key H \<circ> fst) rows0" using Cons.prems(11) by (simp add: o_def)
  define n where "n = with_payload (PHash (rows0' @ [(k', y)]) d p) ?n"
  define r4 where "r4 = r3\<lparr>r_heap := (r_heap r3)[b := n]\<rparr>"
  have "hkey_of H k \<noteq> KNone" using wf(4) by (simp add: wf_key_def)
  moreover have "payload_put (r_heap r3) k' y (hkey_of H k) ?n = n"
    unfolding n_def by (intro payload_put_new[OF Cons.prems(8)] put_row_new[OF rows3 wf0 fresh])
  ultimately have h: "row_set b x y r2 = Inr ((), r4)"
    using b k'(1,2) by (simp add: row_set_def update_node_def r4_def)
  have S4: "Sim g H B \<rho>2 U F3 s2 r4" "grows {b} \<rho>2 F3 r3 \<rho>2 F3 r4"
    using Sim_update[OF k'(3) Cons.prems(4)] by (simp_all add: r4_def)
  have rows4: "list_all2 (rowmatch H \<rho>2 F3 (r_heap r4)) (rows0 @ [kv]) (rows0' @ [(k', y)])"
  proof -
    have "rowmatch H \<rho>2 F3 (r_heap r3) kv (k', y)" using k'(5) vmatch_mono[OF growsD(1)[OF k'(4)] y(4)] by (simp add: rowmatch_def kv)
    with rows3 have "list_all2 (rowmatch H \<rho>2 F3 (r_heap r3)) (rows0 @ [kv]) (rows0' @ [(k', y)])" by (simp add: list_all2_appendI)
    then show ?thesis using grows_match[OF S4(2) _ F(2)] b(4) by (auto elim!: list_all2_mono)
  qed
  have p4: "core_payload (n_body (r_heap r4 ! b)) = Some (PHash (rows0' @ [(k', y)]) d p)" using b Cons.prems(8) by (simp add: r4_def n_def)
  have d4: "distinct (map (hkey_of H \<circ> fst) ((rows0 @ [kv]) @ rows))" "list_all (wf_key H \<circ> fst) ((rows0 @ [kv]) @ rows)"
    using Cons.prems(10,11) by (simp_all add: o_def)
  obtain r' \<rho>' F' all' where r': "read_pairs rd (length rows) b r4 = Inr ((), r')" "Sim g H B \<rho>' U F' s' r'" "grows {b} \<rho>2 F3 r4 \<rho>' F' r'"
    "r_heap r' ! b = with_payload (PHash all' d p) (r_heap r4 ! b)" "list_all2 (rowmatch H \<rho>' F' (r_heap r')) ((rows0 @ [kv]) @ rows) all'"
    using Cons.IH[OF w(3) S4(1) y(5) Cons.prems(4,5) room(2) wf(3) p4 rows4 d4] by blast
  have "grows {b} \<rho> F r \<rho>' F' r'" using grows_trans_same[OF grows_weaken[OF g3] grows_trans_same[OF S4(2) r'(3)]] .
  moreover have "read_pairs rd (length (kv # rows)) b r = Inr ((), r')" using x(1) y(1) h r'(1) by simp
  moreover have "r_heap r' ! b = with_payload (PHash all' d p) ?n" using r'(4) b by (simp add: r4_def n_def)
  ultimately show ?case using r'(2,5) by auto
qed

end
