(* ===== verification/MarshalCopy.thy ===== *)
theory MarshalCopy
  imports MarshalLoops
begin

text \<open>The bodies of allocations: what the tag and the contents of each kind of allocation are read back as.\<close>

section \<open>The output only grows\<close>

definition later :: "writer \<Rightarrow> merror + writer \<Rightarrow> bool" where
  "later s m \<longleftrightarrow> (\<forall>s'. m = Inr s' \<longrightarrow> leads s s')"

definition sooner :: "writer \<Rightarrow> merror + writer \<Rightarrow> bool" where
  "sooner s m \<longleftrightarrow> (\<forall>s'. m = Inr s' \<longrightarrow> leads s s' \<and> length (w_out s) < length (w_out s'))"

lemma later_simps [simp]: "later s (Inl e)" "later s (Inr s') \<longleftrightarrow> leads s s'"
  by (simp_all add: later_def)

lemma sooner_simps [simp]: "sooner s (Inl e)" "sooner s (Inr s') \<longleftrightarrow> leads s s' \<and> length (w_out s) < length (w_out s')"
  by (simp_all add: sooner_def)

lemma later_bind: "later s m \<Longrightarrow> (\<And>s1. later s1 (f s1)) \<Longrightarrow> later s (bindE m f)"
  unfolding later_def bindE_Inr using leads_trans by blast

lemma later_from: "later s1 m \<Longrightarrow> leads s s1 \<Longrightarrow> later s m"
  unfolding later_def using leads_trans by blast

lemma leads_length: "leads s s' \<Longrightarrow> length (w_out s) \<le> length (w_out s')"
  by (simp add: leads_def prefix_length_le)

lemma sooner_trans: "leads s s1 \<Longrightarrow> length (w_out s) < length (w_out s1) \<Longrightarrow> leads s1 s2 \<Longrightarrow> leads s s2 \<and> length (w_out s) < length (w_out s2)"
  using leads_trans[of s s1 s2] leads_length[of s1 s2] by simp

lemma sooner_bind: "sooner s m \<Longrightarrow> (\<And>s1. later s1 (f s1)) \<Longrightarrow> sooner s (bindE m f)"
  unfolding later_def sooner_def bindE_Inr using sooner_trans by blast

lemma sooner_from: "later s1 m \<Longrightarrow> leads s s1 \<and> length (w_out s) < length (w_out s1) \<Longrightarrow> sooner s m"
  unfolding later_def sooner_def using sooner_trans by blast

lemma prefix_append_right: "prefix xs ys \<Longrightarrow> prefix xs (ys @ zs)"
  by (auto simp: prefix_def)

lemma limit_sel [simp]: "w_limit (put bs s) = w_limit s" "w_limit (register_link k s) = w_limit s" "w_limit (count_link s) = w_limit s"
  by (simp_all add: put_def register_link_def count_link_def)

lemma leads_writes [simp]:
  "leads s s1 \<Longrightarrow> leads s (put bs s1)"
  "leads s s1 \<Longrightarrow> leads s (register_link k s1)"
  "leads s s1 \<Longrightarrow> leads s (count_link s1)"
  "leads s s1 \<Longrightarrow> leads s (write_long x s1)"
  "leads s s1 \<Longrightarrow> leads s (write_bytes bs s1)"
  "leads s s1 \<Longrightarrow> leads s (write_symbol n s1)"
  "leads s s1 \<Longrightarrow> leads s (write_encoding_name n s1)"
  "leads s s1 \<Longrightarrow> leads s (wrap_ivars is s1)"
  by (auto simp: leads_def write_long_put write_bytes_put write_symbol_eq write_encoding_name_def wrap_ivars_def prefix_append_right split: option.splits)

lemmas prefix_writes = leads_prefix[OF leads_writes(4)] leads_prefix[OF leads_writes(6)] leads_prefix[OF leads_writes(7)]

lemma leads_extends: "leads s s1 \<Longrightarrow> leads s (write_extends g ms s1)"
  by (induction g ms s1 rule: write_extends.induct) (auto split: option.splits)

lemma longer_put [simp]: "leads s s1 \<Longrightarrow> bs \<noteq> [] \<Longrightarrow> length (w_out s) < length (w_out (put bs s1))"
  using leads_length[of s s1] by (cases bs) simp_all

lemma longer_writes [simp]:
  assumes "leads s s1"
  shows "length (w_out s) < length (w_out (write_long x s1))" "length (w_out s) < length (w_out (write_bytes bs s1))"
    "length (w_out s) < length (w_out (write_symbol n s1))"
proof -
  show "length (w_out s) < length (w_out (write_long x s1))" "length (w_out s) < length (w_out (write_bytes bs s1))"
    unfolding write_long_put write_bytes_put by (rule longer_put[OF assms], simp)+
  have "length (w_out (write_symbol n s1)) = length (w_out (put (symbol_bytes (w_symbols s1) n) s1))" by (simp add: write_symbol_eq)
  then show "length (w_out s) < length (w_out (write_symbol n s1))"
    using longer_put[OF assms symbol_bytes_long(2)[of "w_symbols s1" n]] by presburger
qed

lemma later_all: "out_grows wr \<Longrightarrow> later s (write_all wr vs s)"
  using leads_all by (auto simp: later_def)

lemma later_named: "out_grows wr \<Longrightarrow> later s (write_named wr xs s)"
  using leads_named by (auto simp: later_def)

lemma later_wr: "out_grows wr \<Longrightarrow> later s (wr v s)"
  using out_leads by (auto simp: later_def)

lemma later_iv: "out_grows wr \<Longrightarrow> later s (write_iv wr i s)"
  by (cases i) (auto simp: write_iv_def intro: later_from[OF later_wr])

lemma later_iv_list: "out_grows wr \<Longrightarrow> later s (write_iv_list wr is s)"
  by (induction "is" arbitrary: s) (auto intro: later_bind later_iv)

lemma later_ivars: "out_grows wr \<Longrightarrow> later s (write_ivars wr is s)"
  by (auto simp: write_ivars_def intro: later_from[OF later_iv_list])

lemma sooner_value: "out_grows wr \<Longrightarrow> sooner s (write_value wr key n p s)"
  by (cases p)
    (auto simp: write_value_def Let_def simp del: w_sel(1) intro!: sooner_bind later_ivars later_bind intro: sooner_from[OF later_ivars] sooner_from[OF later_all] later_wr)

lemma later_body: "out_grows wr \<Longrightarrow> later s (write_builtin_body wr p s)"
  by (cases p) (auto simp: write_builtin_body_def intro: later_from[OF later_all])

lemma sooner_object: "out_grows wr \<Longrightarrow> sooner s (write_object wr g key n s)"
  by (cases "n_body n"; cases "nameable g (the (body_class (n_body n)))")
    (auto simp: write_object_def body_class_def Let_def leads_extends simp del: w_sel(1) intro!: sooner_bind later_ivars sooner_value
       intro: sooner_from[OF later_ivars] sooner_from[OF later_named] sooner_from[OF later_body])

lemma sooner_linked: "(sooner s (f s)) \<Longrightarrow> sooner s (linked key s f)"
  by (auto simp: linked_def check_link_def split: option.splits)

lemma sooner_range: "out_grows wr \<Longrightarrow> sooner s (write_range wr lo hi x key s)"
  unfolding write_range_def by (rule sooner_from[OF later_named]) simp_all

lemma sooner_inline: "out_grows wr \<Longrightarrow> leads s s1 \<Longrightarrow> sooner s (write_inline_array wr vs s1)"
  unfolding write_inline_array_def by (rule sooner_from[OF later_all]) simp_all

lemma sooner_name: "(\<And>n. sooner s (f n)) \<Longrightarrow> sooner s (bindE (nameable g c) f)"
  by (cases "nameable g c") simp_all

lemma leads_bignum [simp]: "leads s (write_bignum b s)" "length (w_out s) < length (w_out (write_bignum b s))"
  by (simp_all add: write_bignum_eq leads_def)

lemma sooner_inner: "out_grows wr \<Longrightarrow> sooner s (write_inner wr g H v s)"
  by (cases v)
    (auto simp: write_inner_def simp del: w_sel(1) intro!: sooner_linked sooner_object sooner_name sooner_range sooner_inline)

lemma write_val_grows: "out_grows (write_val k g H)"
proof (induction k)
  case (Suc k)
  show ?case unfolding out_grows_def
  proof (intro allI impI)
    fix v s s' assume "write_val (Suc k) g H v s = Inr s'"
    then obtain s1 where "write_inner (write_val k g H) g H v (s\<lparr>w_depth := w_depth s + 1\<rparr>) = Inr s1" "s' = s1\<lparr>w_depth := w_depth s1 - 1\<rparr>"
      by (auto simp: bindE_Inr split: if_splits option.splits)
    then show "leads s s' \<and> length (w_out s) < length (w_out s')"
      using sooner_inner[OF Suc, of "s\<lparr>w_depth := w_depth s + 1\<rparr>" g H v] by (simp add: sooner_def leads_def)
  qed
qed (simp add: out_grows_def)

section \<open>Tags\<close>

definition rdv :: "nat \<Rightarrow> class_table \<Rightarrow> mval rd" where
  "rdv k g = andthen read_byte (read_tag k g)"

lemma read_tag_simps:
  "read_tag (Suc f) g (chr8 CHR ''0'') = ret VNil"
  "read_tag (Suc f) g (chr8 CHR ''T'') = ret (VBool True)"
  "read_tag (Suc f) g (chr8 CHR ''F'') = ret (VBool False)"
  "read_tag (Suc f) g (chr8 CHR ''i'') = andthen read_long (\<lambda>n. ret (VInt n))"
  "read_tag (Suc f) g (chr8 CHR '':'') = andthen symbol_new (\<lambda>n. ret (VSym n))"
  "read_tag (Suc f) g (chr8 CHR '';'') = andthen symbol_link (\<lambda>n. ret (VSym n))"
  "read_tag (Suc f) g (chr8 CHR ''@'') = object_link"
  "read_tag (Suc f) g (chr8 CHR ''f'') =
     andthen read_bytes (\<lambda>bs. let v = VFloat (parse_marshal_float bs) in andthen (push_object v) (\<lambda>_. ret v))"
  "read_tag (Suc f) g (chr8 CHR ''\"'') = read_string"
  "read_tag (Suc f) g (chr8 CHR ''/'') = read_regexp g"
  "read_tag (Suc f) g (chr8 CHR ''['') = read_array (rdv f g)"
  "read_tag (Suc f) g (chr8 CHR ''{'') = read_hash (rdv f g) False"
  "read_tag (Suc f) g (chr8 CHR ''}'') = read_hash (rdv f g) True"
  "read_tag (Suc f) g (chr8 CHR ''l'') = read_bignum"
  "read_tag (Suc f) g (chr8 CHR ''c'') = read_class_ref g"
  "read_tag (Suc f) g (chr8 CHR ''m'') = read_class_ref g"
  "read_tag (Suc f) g (chr8 CHR ''C'') = read_subclass g (rdv f g)"
  "read_tag (Suc f) g (chr8 CHR ''U'') = read_number g (rdv f g)"
  "read_tag (Suc f) g (chr8 CHR ''o'') = read_object g (rdv f g)"
  "read_tag (Suc f) g (chr8 CHR ''e'') = read_extended g (rdv f g)"
  "read_tag (Suc f) g (chr8 CHR ''I'') = andthen (rdv f g) (\<lambda>v. andthen (apply_ivars (rdv f g) v) (\<lambda>_. ret v))"
  by (simp_all add: rdv_def Let_def andthen_def fun_eq_iff split: sum.splits)

text \<open>A value that starts with the tag \<open>t\<close>; there is fuel, as the tag is one of the bytes the fuel counts.\<close>

lemma rdv_tag:
  assumes "Sim g H B \<rho> U F s r" "prefix (w_out s') B" "prefix (w_out (put [t] s)) (w_out s')" "length (w_out s') \<le> length (w_out s) + f"
  obtains f' where "f = Suc f'" "rdv f g r = read_tag (Suc f') g t (adv 1 r)" "Sim g H B \<rho> U F (put [t] s) (adv 1 r)"
    "length (w_out s') \<le> length (w_out (put [t] s)) + f'" "w_next (put [t] s) < length (w_out (put [t] s))"
proof -
  have l: "length (w_out s) + 1 \<le> length (w_out s')" using prefix_length_le[OF assms(3)] by simp
  then obtain f' where f: "f = Suc f'" using assms(4) by (cases f) auto
  have p: "prefix (w_out s @ [t]) B" using prefix_order.trans[OF assms(3,2)] by simp
  have "w_next s \<le> length (w_out s)" using assms(1) by (simp add: Sim_def synced_def)
  then show thesis using f assms(4) Sim_byte[OF assms(1) p] that[of f'] by (simp add: rdv_def)
qed

section \<open>A copy is entered\<close>

definition entered :: "mval list \<Rightarrow> mnode \<Rightarrow> reader \<Rightarrow> reader" where
  "entered objs n r = r\<lparr>r_heap := r_heap r @ [n], r_objects := objs @ [VRef (length (r_heap r))]\<rparr>"

lemma entered_sel [simp]:
  "r_heap (entered objs n r) = r_heap r @ [n]" "r_objects (entered objs n r) = objs @ [VRef (length (r_heap r))]"
  by (simp_all add: entered_def)

lemma Sim_fill:
  assumes wf: "wf_graph g H" and S: "Sim g H B \<rho> U F s r" and a: "a < length H" "map_of (w_links s) (g_ptr g a) = None"
    and objs: "r_objects r = objs @ [VNil]"
  shows "Sim g H B (\<rho>(a \<mapsto> length (r_heap r))) (insert (length (r_heap r)) U) F
           (s\<lparr>w_links := (g_ptr g a, length objs) # w_links s\<rparr>) (entered objs n r)"
proof -
  have "entered_at (r_objects r) (length objs) n r = entered objs n r" by (simp add: entered_at_def entered_def objs)
  then show ?thesis using Sim_open[OF wf S a, of "length objs" n] objs by simp
qed

lemma grows_add:
  assumes "\<rho> a = None" "r_objects r' = r_objects r @ [x]" "r_heap r' = r_heap r @ [n]" "b = length (r_heap r)"
  shows "grows {} \<rho> F r (\<rho>(a \<mapsto> b)) F r'"
  using assms by (auto simp: grows_def map_le_def nth_append ran_def)

lemma Sim_enter:
  assumes wf: "wf_graph g H" and S: "Sim g H B \<rho> U F s r" and a: "a < length H" "map_of (w_links s) (g_ptr g a) = None"
    and "w_next s < length (w_out s)"
  shows "Sim g H B (\<rho>(a \<mapsto> length (r_heap r))) (insert (length (r_heap r)) U) F (register_link (g_ptr g a) s)
           (entered (r_objects r) n r)"
proof -
  let ?r = "r\<lparr>r_objects := r_objects r @ [VNil]\<rparr>"
  have "Sim g H B \<rho> U F (count_link s) ?r" by (rule Sim_count(2)[OF S assms(5)])
  from Sim_fill[OF wf this, of a "r_objects r" n] a S
  have "Sim g H B (\<rho>(a \<mapsto> length (r_heap r))) (insert (length (r_heap r)) U) F
      ((count_link s)\<lparr>w_links := (g_ptr g a, length (r_objects r)) # w_links s\<rparr>) (entered (r_objects r) n ?r)" by simp
  moreover have "(count_link s)\<lparr>w_links := (g_ptr g a, length (r_objects r)) # w_links s\<rparr> = register_link (g_ptr g a) s"
    using S by (simp add: Sim_def synced_def count_link_def register_link_def)
  moreover have "entered (r_objects r) n ?r = entered (r_objects r) n r" by (simp add: entered_def)
  ultimately show ?thesis by simp
qed

lemma unlinked: "Sim g H B \<rho> U F s r \<Longrightarrow> a < length H \<Longrightarrow> map_of (w_links s) (g_ptr g a) = None \<Longrightarrow> \<rho> a = None"
  unfolding Sim_def tables_def links_ok_def by (auto split: option.splits)

lemma calm_enter:
  assumes "calm H \<rho> U" "Sim g H B \<rho> U F s r" "\<rho> a = None" "\<not> plain_string (H ! a)"
  shows "calm H (\<rho>(a \<mapsto> length (r_heap r))) (insert (length (r_heap r)) U)"
  using assms(1,3,4) Sim_bounds(2,3)[OF assms(2)] unfolding calm_def by (auto split: if_splits)

section \<open>The body of an allocation\<close>

text \<open>What the tag and the contents give, before the encoding and the instance variables are applied.\<close>

definition raw_payload :: "mpayload \<Rightarrow> mpayload" where
  "raw_payload p = (case p of PStr bs e \<Rightarrow> PStr bs ASCII_8BIT | _ \<Rightarrow> p)"

definition raw :: "mbody \<Rightarrow> mbody" where
  "raw b = (case b of BVal p \<Rightarrow> BVal (raw_payload p) | BSub c p \<Rightarrow> BSub c (raw_payload p) | _ \<Rightarrow> b)"

definition half :: "mnode list \<Rightarrow> amap \<Rightarrow> nat set \<Rightarrow> mnode list \<Rightarrow> mbody \<Rightarrow> mnode \<Rightarrow> bool" where
  "half H \<rho> F h b n \<longleftrightarrow> bmatch H \<rho> F h (raw b) (n_body n) \<and> n_ivars n = [] \<and> n_ext n = [] \<and> \<not> n_singleton n"

text \<open>A read that has entered the copy of \<open>a\<close> and left it under construction.\<close>

definition begun ::
  "class_table \<Rightarrow> mnode list \<Rightarrow> octets \<Rightarrow> amap \<Rightarrow> nat set \<Rightarrow> nat set \<Rightarrow> reader \<Rightarrow> nat \<Rightarrow> writer \<Rightarrow> merror + mval \<times> reader \<Rightarrow>
     (amap \<Rightarrow> nat set \<Rightarrow> mnode list \<Rightarrow> mnode \<Rightarrow> bool) \<Rightarrow> bool" where
  "begun g H B \<rho> U F r a s' m P \<longleftrightarrow>
     (\<exists>b r' \<rho>' F'. m = Inr (VRef b, r') \<and> Sim g H B \<rho>' (insert b U) F' s' r' \<and> grows {} \<rho> F r \<rho>' F' r' \<and>
        \<rho>' a = Some b \<and> length (r_heap r) \<le> b \<and> P \<rho>' F' (r_heap r') (r_heap r' ! b))"

lemma register_put: "put bs (register_link k s) = register_link k (put bs s)"
  by (simp add: put_def register_link_def)

lemma register_writes:
  "write_long x (register_link k s) = register_link k (write_long x s)"
  "write_bytes bs (register_link k s) = register_link k (write_bytes bs s)"
  "write_symbol n (register_link k s) = register_link k (write_symbol n s)"
  "wrap_ivars is (register_link k s) = register_link k (wrap_ivars is s)"
  by (simp_all add: write_long_put write_bytes_put write_symbol_eq wrap_ivars_def register_put) (simp add: put_def register_link_def)

lemma string_begun:
  assumes wf: "wf_graph g H" and S: "Sim g H B \<rho> U F s r" and a: "a < length H" "map_of (w_links s) (g_ptr g a) = None"
    and s': "s' = write_bytes bs (put [chr8 CHR ''\"''] (register_link (g_ptr g a) s))" "prefix (w_out s') B"
      "length (w_out s') \<le> length (w_out s) + f"
  shows "begun g H B \<rho> U F r a s' (rdv f g r) (\<lambda>\<rho>' F' h n. half H \<rho>' F' h (BVal (PStr bs e)) n)"
proof -
  let ?t = "chr8 CHR ''\"''"
  have p: "prefix (w_out (put [?t] s)) (w_out s')" unfolding s'(1) by (simp add: write_bytes_put)
  obtain f' where f: "f = Suc f'" "rdv f g r = read_tag (Suc f') g ?t (adv 1 r)" "Sim g H B \<rho> U F (put [?t] s) (adv 1 r)"
    "w_next (put [?t] s) < length (w_out (put [?t] s))" by (rule rdv_tag[OF S s'(2) p s'(3)])
  let ?r = "adv (length (marshal_long (int (length bs)) @ bs)) (adv 1 r)" let ?s = "write_bytes bs (put [?t] s)"
  have pb: "prefix (w_out (put [?t] s) @ marshal_long (int (length bs)) @ bs) B" using s' by (simp add: write_bytes_put)
  note rb = Sim_bytes[OF f(3) pb]
  let ?n = "new_node (BVal (PStr bs ASCII_8BIT))"
  have E: "Sim g H B (\<rho>(a \<mapsto> length (r_heap ?r))) (insert (length (r_heap ?r)) U) F (register_link (g_ptr g a) ?s) (entered (r_objects ?r) ?n ?r)"
    using a f(4) by (intro Sim_enter[OF wf rb(2)]) (simp_all add: write_bytes_put)
  have m: "rdv f g r = Inr (VRef (length (r_heap ?r)), entered (r_objects ?r) ?n ?r)"
    unfolding f(2) read_tag_simps using rb(1) by (simp add: read_string_def new_ref_def push_object_def entered_def del: adv_adv)
  have G: "grows {} \<rho> F r (\<rho>(a \<mapsto> length (r_heap ?r))) F (entered (r_objects ?r) ?n ?r)"
    using unlinked[OF S a] by (intro grows_add) simp_all
  have "s' = register_link (g_ptr g a) ?s" by (simp add: s'(1) register_put register_writes)
  with E m G show ?thesis unfolding begun_def
    by (intro exI[of _ "length (r_heap ?r)"] exI[of _ "entered (r_objects ?r) ?n ?r"] exI[of _ "\<rho>(a \<mapsto> length (r_heap ?r))"] exI[of _ F])
      (simp add: half_def raw_def raw_payload_def bmatch_def pmatch_def new_node_def)
qed


lemma grows_length: "grows X \<rho> F r \<rho>' F' r' \<Longrightarrow> length (r_heap r) \<le> length (r_heap r')"
  by (simp add: grows_def)

lemma array_begun:
  assumes wf: "wf_graph g H" and ok: "\<And>f. value_ok g H B wr (rdv f g) f" and og: "out_grows wr"
    and S: "Sim g H B \<rho> U F s r" and a: "a < length H" "map_of (w_links s) (g_ptr g a) = None" and calm: "calm H \<rho> U"
    and n: "n_body (H ! a) = BVal (PArr vs)" "list_all (wf_value g H) vs"
    and s': "write_all wr vs (write_long (int (length vs)) (put [chr8 CHR ''[''] (register_link (g_ptr g a) s))) = Inr s'"
      "prefix (w_out s') B" "length (w_out s') \<le> length (w_out s) + f"
  shows "begun g H B \<rho> U F r a s' (rdv f g r) (\<lambda>\<rho>' F' h n. half H \<rho>' F' h (BVal (PArr vs)) n)"
proof -
  let ?t = "chr8 CHR ''[''" let ?l = "marshal_long (int (length vs))" let ?b = "length (r_heap r)"
  let ?n = "new_node (BVal (PArr []))" let ?\<rho> = "\<rho>(a \<mapsto> ?b)"
  define s1 where "s1 = register_link (g_ptr g a) (write_long (int (length vs)) (put [?t] s))"
  have w: "write_all wr vs s1 = Inr s'" using s'(1) by (simp add: s1_def register_put register_writes)
  have p1: "prefix (w_out s @ [?t] @ ?l) (w_out s')" using out_all[OF og w] by (simp add: s1_def write_long_put)
  then have p: "prefix (w_out (put [?t] s)) (w_out s')" by (auto simp: prefix_def)
  obtain f' where f: "f = Suc f'" "rdv f g r = read_tag (Suc f') g ?t (adv 1 r)" "Sim g H B \<rho> U F (put [?t] s) (adv 1 r)"
    "length (w_out s') \<le> length (w_out (put [?t] s)) + f'" "w_next (put [?t] s) < length (w_out (put [?t] s))"
    by (rule rdv_tag[OF S s'(2) p s'(3)])
  have E: "Sim g H B ?\<rho> (insert ?b U) F (register_link (g_ptr g a) (put [?t] s)) (entered (r_objects r) ?n (adv 1 r))"
    using Sim_enter[OF wf f(3) a(1), of ?n] a(2) f(5) by simp
  have pl: "prefix (w_out (register_link (g_ptr g a) (put [?t] s)) @ ?l) B" using prefix_order.trans[OF p1 s'(2)] by simp
  have "long_ok (int (length vs))"
    using out_count[OF og w] prefix_length_le[OF s'(2)] S by (simp add: long_ok_def Sim_def synced_def)
  note L = Sim_long[OF E pl this]
  let ?r2 = "adv (length ?l) (entered (r_objects r) ?n (adv 1 r))"
  have s1: "write_long (int (length vs)) (register_link (g_ptr g a) (put [?t] s)) = s1" by (simp add: s1_def register_writes)
  have calm1: "calm H ?\<rho> (insert ?b U)" using calm_enter[OF calm S unlinked[OF S a]] n(1) by (simp add: plain_string_def)
  have room: "length (w_out s') \<le> length (w_out s1) + f'" using f(4) by (simp add: s1_def write_long_put)
  obtain r' \<rho>' F' ws where r': "read_elems (rdv f' g) (length vs) ?b ?r2 = Inr ((), r')" "Sim g H B \<rho>' (insert ?b U) F' s' r'"
    "grows {?b} ?\<rho> F ?r2 \<rho>' F' r'" "r_heap r' ! ?b = with_payload (PArr ([] @ ws)) (r_heap ?r2 ! ?b)" "list_all2 (vmatch \<rho>') vs ws"
    using read_elems_ok[OF ok og w L(2)[unfolded s1] calm1 _ s'(2) room n(2), of ?b "[]"]
    by (auto simp: core_payload_def new_node_def)
  have "rdv f g r = Inr (VRef ?b, r')"
    unfolding f(2) read_tag_simps using L(1) r'(1) by (simp add: read_array_def new_ref_def push_object_def entered_def)
  moreover have "grows {} \<rho> F r \<rho>' F' r'"
  proof (rule grows_trans)
    show "grows {} \<rho> F r ?\<rho> F ?r2" using unlinked[OF S a] by (intro grows_add) simp_all
    show "grows {?b} ?\<rho> F ?r2 \<rho>' F' r'" by (rule r'(3))
  qed simp
  moreover have "\<rho>' a = Some ?b" by (rule growsD(8)[OF r'(3)]) simp
  moreover have "half H \<rho>' F' (r_heap r') (BVal (PArr vs)) (r_heap r' ! ?b)"
    using r'(4,5) by (simp add: half_def raw_def raw_payload_def bmatch_def pmatch_def with_payload_def new_node_def)
  ultimately show ?thesis using r'(2) unfolding begun_def by blast
qed

lemma flat_pairs_length: "length (flat_pairs rows) = 2 * length rows"
  by (induction rows) (auto simp: flat_pairs_def)

lemma hash_begun:
  assumes wf: "wf_graph g H" and ok: "\<And>f. value_ok g H B wr (rdv f g) f" and og: "out_grows wr"
    and S: "Sim g H B \<rho> U F s r" and a: "a < length H" "map_of (w_links s) (g_ptr g a) = None" and calm: "calm H \<rho> U"
    and n: "n_body (H ! a) = BVal (PHash rows d False)" "list_all (wf_value g H) (flat_pairs rows)" "wf_value g H d"
      "distinct (map (hkey_of H \<circ> fst) rows)" "list_all (wf_key H \<circ> fst) rows"
    and s': "write_all wr (flat_pairs rows) (write_long (int (length rows)) (put [if d \<noteq> VNil then chr8 CHR ''}'' else chr8 CHR ''{'']
        (register_link (g_ptr g a) s))) = Inr s2" "(if d \<noteq> VNil then wr d s2 else Inr s2) = Inr s'"
      "prefix (w_out s') B" "length (w_out s') \<le> length (w_out s) + f"
  shows "begun g H B \<rho> U F r a s' (rdv f g r) (\<lambda>\<rho>' F' h n. half H \<rho>' F' h (BVal (PHash rows d False)) n)"
proof -
  let ?t = "if d \<noteq> VNil then chr8 CHR ''}'' else chr8 CHR ''{''" let ?l = "marshal_long (int (length rows))" let ?b = "length (r_heap r)"
  let ?n = "new_node (BVal (PHash [] VNil False))" let ?\<rho> = "\<rho>(a \<mapsto> ?b)"
  define s1 where "s1 = register_link (g_ptr g a) (write_long (int (length rows)) (put [?t] s))"
  have w: "write_all wr (flat_pairs rows) s1 = Inr s2" using s'(1) by (simp add: s1_def register_put register_writes)
  have p2: "prefix (w_out s2) (w_out s')" using s'(2) out_growsD[OF og] by (auto split: if_splits)
  have p1: "prefix (w_out s @ [?t] @ ?l) (w_out s')" using prefix_order.trans[OF out_all[OF og w] p2] by (simp add: s1_def write_long_put)
  then have p: "prefix (w_out (put [?t] s)) (w_out s')" by (auto simp: prefix_def)
  obtain f' where f: "f = Suc f'" "rdv f g r = read_tag (Suc f') g ?t (adv 1 r)" "Sim g H B \<rho> U F (put [?t] s) (adv 1 r)"
    "length (w_out s') \<le> length (w_out (put [?t] s)) + f'" "w_next (put [?t] s) < length (w_out (put [?t] s))"
    by (rule rdv_tag[OF S s'(3) p s'(4)])
  have E: "Sim g H B ?\<rho> (insert ?b U) F (register_link (g_ptr g a) (put [?t] s)) (entered (r_objects r) ?n (adv 1 r))"
    using Sim_enter[OF wf f(3) a(1), of ?n] a(2) f(5) by simp
  have pl: "prefix (w_out (register_link (g_ptr g a) (put [?t] s)) @ ?l) B" using prefix_order.trans[OF p1 s'(3)] by simp
  have "long_ok (int (length rows))"
    using out_count[OF og w] flat_pairs_length[of rows] prefix_length_le[OF p2] prefix_length_le[OF s'(3)] S by (simp add: long_ok_def Sim_def synced_def)
  note L = Sim_long[OF E pl this]
  let ?r2 = "adv (length ?l) (entered (r_objects r) ?n (adv 1 r))"
  have s1: "write_long (int (length rows)) (register_link (g_ptr g a) (put [?t] s)) = s1" by (simp add: s1_def register_writes)
  have calm1: "calm H ?\<rho> (insert ?b U)" using calm_enter[OF calm S unlinked[OF S a]] n(1) by (simp add: plain_string_def)
  have room: "length (w_out s') \<le> length (w_out s1) + f'" using f(4) by (simp add: s1_def write_long_put)
  note room2 = split_room[OF out_all[OF og w] p2 room s'(3)]
  have pn: "core_payload (n_body (r_heap ?r2 ! ?b)) = Some (PHash [] VNil False)" by (simp add: core_payload_def new_node_def)
  obtain r' \<rho>' F' all' where r': "read_pairs (rdv f' g) (length rows) ?b ?r2 = Inr ((), r')" "Sim g H B \<rho>' (insert ?b U) F' s2 r'"
    "grows {?b} ?\<rho> F ?r2 \<rho>' F' r'" "r_heap r' ! ?b = with_payload (PHash all' VNil False) (r_heap ?r2 ! ?b)"
    "list_all2 (rowmatch H \<rho>' F' (r_heap r')) rows all'"
    using read_pairs_ok[OF ok og w L(2)[unfolded s1] calm1 _ room2(3,1) n(2) pn, of "[]"] n(4,5) by auto
  have G1: "grows {} \<rho> F r ?\<rho> F ?r2" using unlinked[OF S a] by (intro grows_add) simp_all
  have mnode: "r_heap r' ! ?b = new_node (BVal (PHash all' VNil False))" using r'(4) by (simp add: with_payload_def new_node_def)
  have G: "grows {} \<rho> F r \<rho>' F' r'" using G1 r'(3) by (rule grows_trans) simp
  have \<rho>a: "\<rho>' a = Some ?b" by (rule growsD(8)[OF r'(3)]) simp
  have rt: "rdv f g r = read_hash (rdv f' g) (d \<noteq> VNil) (adv 1 r)"
    unfolding f(2) by (cases "d = VNil") (simp_all only: simp_thms if_True if_False read_tag_simps)
  have rh: "rdv f g r = andthen (if d \<noteq> VNil then andthen (rdv f' g) (\<lambda>d. update_node ?b (set_default d)) else ret ()) (\<lambda>_. ret (VRef ?b)) r'"
    unfolding rt using L(1) r'(1) by (simp add: read_hash_def new_ref_def push_object_def entered_def)
  show ?thesis
  proof (cases "d = VNil")
    case True
    then have "rdv f g r = Inr (VRef ?b, r')" using rh by simp
    moreover have "half H \<rho>' F' (r_heap r') (BVal (PHash rows d False)) (r_heap r' ! ?b)"
      using r'(5) by (simp add: half_def raw_def raw_payload_def bmatch_def pmatch_def mnode new_node_def True vmatch_def)
    moreover have "s2 = s'" using s'(2) True by simp
    ultimately show ?thesis using r'(2) G \<rho>a unfolding begun_def by blast
  next
    case False
    then have wd: "wr d s2 = Inr s'" using s'(2) by simp
    have calm2: "calm H \<rho>' (insert ?b U)" by (rule calm_grows[OF calm1 L(2) r'(3,2)])
    obtain y r3 \<rho>3 F3 where y: "rdv f' g r' = Inr (y, r3)" "Sim g H B \<rho>3 (insert ?b U) F3 s' r3" "grows {} \<rho>' F' r' \<rho>3 F3 r3"
      "vmatch \<rho>3 d y" "calm H \<rho>3 (insert ?b U)" by (rule value_okE[OF ok wd r'(2) calm2 n(3) s'(3) room2(2)])
    have b: "?b < length (r_heap r')" using Sim_bounds(3)[OF r'(2)] by simp
    have node3: "r_heap r3 ! ?b = r_heap r' ! ?b" "?b < length (r_heap r3)" using growsD(3,4)[OF y(3)] b by auto
    let ?m = "new_node (BVal (PHash all' y False))" let ?r4 = "r3\<lparr>r_heap := (r_heap r3)[?b := ?m]\<rparr>"
    have "rdv f g r = Inr (VRef ?b, ?r4)" using rh False y(1) node3 by (simp add: update_node_def set_default_def mnode new_node_def)
    moreover have S4: "Sim g H B \<rho>3 (insert ?b U) F3 s' ?r4" "grows {?b} \<rho>3 F3 r3 \<rho>3 F3 ?r4" using Sim_update[OF y(2)] by simp_all
    moreover have "grows {} \<rho> F r \<rho>3 F3 ?r4" using grows_trans_same[OF G y(3)] S4(2) by (rule grows_trans) simp
    moreover have "\<rho>3 a = Some ?b" by (rule growsD(8)[OF y(3) \<rho>a])
    moreover have "list_all2 (rowmatch H \<rho>3 F3 (r_heap ?r4)) rows all'"
    proof -
      have "F' \<subseteq> {..<length (r_heap r')}" "F' \<inter> {?b} = {}" using Sim_bounds(1,4)[OF r'(2)] by auto
      moreover have "grows {?b} \<rho>' F' r' \<rho>3 F3 ?r4" using grows_weaken[OF y(3)] S4(2) by (rule grows_trans_same)
      ultimately show ?thesis using r'(5) grows_match by (blast intro: list_all2_mono)
    qed
    then have "half H \<rho>3 F3 (r_heap ?r4) (BVal (PHash rows d False)) (r_heap ?r4 ! ?b)"
      using y(4) node3(2) by (simp add: half_def raw_def raw_payload_def bmatch_def pmatch_def new_node_def)
    ultimately show ?thesis unfolding begun_def by blast
  qed
qed

subsection \<open>Regexps and subclasses\<close>

lemma regexp_options_bits:
  "bit (regexp_options ic ex ml) 0 = ic" "bit (regexp_options ic ex ml) (Suc 0) = ex" "bit (regexp_options ic ex ml) 2 = ml"
  by (cases ic; cases ex; cases ml; simp add: regexp_options_def)+

lemma regexp_body_ok:
  assumes S: "Sim g H B \<rho> U F s r" and p: "prefix (w_out (put [regexp_options ic ex ml] (write_bytes src s))) B"
    and src: "valid_utf8 src" "g_regexp g src"
  obtains r' where "regexp_body g r = Inr (PRegexp src ic ex ml, r')" "Sim g H B \<rho> U F (put [regexp_options ic ex ml] (write_bytes src s)) r'"
    "r_objects r' = r_objects r" "r_heap r' = r_heap r"
proof -
  let ?l = "length (marshal_long (int (length src)) @ src)"
  have "prefix (w_out s @ marshal_long (int (length src)) @ src) B" using p by (auto simp: write_bytes_put prefix_def)
  note b = Sim_bytes[OF S this]
  note o1 = Sim_byte[OF b(2), of "regexp_options ic ex ml"]
  have "regexp_body g r = Inr (PRegexp src ic ex ml, adv 1 (adv ?l r))"
    using b(1) o1(1) p src lossy_valid[OF src(1)] by (simp add: regexp_body_def Let_def regexp_options_bits del: adv_adv)
  then show thesis using that o1(2) p by simp
qed

definition sub_head :: "mpayload \<Rightarrow> writer \<Rightarrow> writer" where
  "sub_head p s =
     (case p of
        PStr bs e \<Rightarrow> write_bytes bs (put [chr8 CHR ''\"''] s)
      | PArr vs \<Rightarrow> put [chr8 CHR ''[''] s
      | PHash rows d proc \<Rightarrow> put [chr8 CHR ''{''] s
      | PRegexp src ic ex ml \<Rightarrow> put [regexp_options ic ex ml] (write_bytes src (put [chr8 CHR ''/''] s)))"

definition sub_rest :: "value_writer \<Rightarrow> mpayload \<Rightarrow> writer \<Rightarrow> merror + writer" where
  "sub_rest wr p s =
     (case p of
        PArr vs \<Rightarrow> write_all wr vs (write_long (int (length vs)) s)
      | PHash rows d proc \<Rightarrow> write_all wr (flat_pairs rows) (write_long (int (length rows)) s)
      | _ \<Rightarrow> Inr s)"

definition blank :: "mpayload \<Rightarrow> mpayload" where
  "blank p = (case p of PStr bs e \<Rightarrow> PStr bs ASCII_8BIT | PArr vs \<Rightarrow> PArr [] | PHash rows d proc \<Rightarrow> PHash [] VNil False | _ \<Rightarrow> p)"

lemma write_builtin_body_split: "write_builtin_body wr p s = sub_rest wr p (sub_head p s)"
  by (cases p) (simp_all add: write_builtin_body_def sub_rest_def sub_head_def)

lemma subclass_payload_ok:
  assumes S: "Sim g H B \<rho> U F s r" and p: "prefix (w_out (sub_head p s)) B" and wf: "wf_payload g H p"
  obtains r' where "subclass_payload g r = Inr (blank p, r')" "Sim g H B \<rho> U F (sub_head p s) r'"
    "r_objects r' = r_objects r" "r_heap r' = r_heap r"
proof (cases p)
  case (PStr bs e)
  have "prefix (w_out s @ [chr8 CHR ''\"'']) B" using p by (auto simp: PStr sub_head_def write_bytes_put prefix_def)
  note t = Sim_byte[OF S this]
  have "prefix (w_out (put [chr8 CHR ''\"''] s) @ marshal_long (int (length bs)) @ bs) B" using p by (simp add: PStr sub_head_def write_bytes_put)
  note b = Sim_bytes[OF t(2) this]
  show thesis using that t(1) b by (simp add: PStr sub_head_def blank_def subclass_payload_def del: adv_adv)
next
  case (PArr vs)
  note t = Sim_byte[OF S, of "chr8 CHR ''[''"]
  show thesis using that t p by (simp add: PArr sub_head_def blank_def subclass_payload_def del: adv_adv)
next
  case (PHash rows d proc)
  note t = Sim_byte[OF S, of "chr8 CHR ''{''"]
  show thesis using that t p by (simp add: PHash sub_head_def blank_def subclass_payload_def del: adv_adv)
next
  case (PRegexp src ic ex ml)
  let ?t = "chr8 CHR ''/''"
  have pr: "prefix (w_out (put [regexp_options ic ex ml] (write_bytes src (put [?t] s)))) B" using p by (simp add: PRegexp sub_head_def)
  then have "prefix (w_out s @ [?t]) B" by (auto simp: write_bytes_put prefix_def)
  note t = Sim_byte[OF S this]
  obtain r' where "regexp_body g (adv 1 r) = Inr (PRegexp src ic ex ml, r')" "Sim g H B \<rho> U F (sub_head p s) r'"
    "r_objects r' = r_objects r" "r_heap r' = r_heap r"
    using regexp_body_ok[OF t(2) pr] wf by (auto simp: PRegexp wf_payload_def sub_head_def)
  then show thesis using that t(1) by (simp add: PRegexp blank_def subclass_payload_def)
qed

lemma fill_payload_ok:
  assumes ok: "value_ok g H B wr (rdv f g) f" and og: "out_grows wr" and S: "Sim g H B \<rho> U F s r" and calm: "calm H \<rho> U" and b: "b \<in> U"
    and wf: "wf_payload g H p" "list_all (wf_value g H) (held_values p)" "case p of PHash rows d proc \<Rightarrow> d = VNil | _ \<Rightarrow> True"
    and s': "sub_rest wr p s = Inr s'" "prefix (w_out s') B" "length (w_out s') \<le> length (w_out s) + f"
    and blank: "core_payload (n_body (r_heap r ! b)) = Some (blank p)"
  shows "\<exists>r' \<rho>' F' p'. fill_payload (rdv f g) (blank p) b r = Inr ((), r') \<and> Sim g H B \<rho>' U F' s' r' \<and> grows {b} \<rho> F r \<rho>' F' r' \<and>
    r_heap r' ! b = with_payload p' (r_heap r ! b) \<and> pmatch H \<rho>' F' (r_heap r') (raw_payload p) p'"
proof -
  have still: ?thesis if "sub_rest wr p s = Inr s" "fill_payload (rdv f g) (blank p) b = ret ()" "blank p = raw_payload p" "pmatch H \<rho> F (r_heap r) (raw_payload p) (raw_payload p)"
    using that S s'(1) blank by (auto intro!: exI[of _ r] exI[of _ \<rho>] exI[of _ F] exI[of _ "raw_payload p"] grows_refl)
  show ?thesis
  proof (cases p)
    case (PArr vs)
    let ?l = "marshal_long (int (length vs))"
    have w: "write_all wr vs (write_long (int (length vs)) s) = Inr s'" using s'(1) by (simp add: PArr sub_rest_def)
    have pl: "prefix (w_out s @ ?l) B" using prefix_order.trans[OF out_all[OF og w] s'(2)] by (simp add: write_long_put)
    have "long_ok (int (length vs))" using out_count[OF og w] prefix_length_le[OF s'(2)] S by (simp add: long_ok_def Sim_def synced_def)
    note L = Sim_long[OF S pl this]
    have room: "length (w_out s') \<le> length (w_out (write_long (int (length vs)) s)) + f" using s'(3) by (simp add: write_long_put)
    have "grows {b} \<rho> F r \<rho> F (adv (length ?l) r)" by (simp add: grows_still)
    then show ?thesis
      using read_elems_ok[OF ok og w L(2) calm b s'(2) room, of "[]"] wf(2) blank L(1) grows_trans_same[of "{b}" \<rho> F r]
      by (fastforce simp: PArr blank_def held_values_def fill_payload_def raw_payload_def pmatch_def)
  next
    case (PHash rows d proc)
    let ?l = "marshal_long (int (length rows))"
    have w: "write_all wr (flat_pairs rows) (write_long (int (length rows)) s) = Inr s'" using s'(1) by (simp add: PHash sub_rest_def)
    have pl: "prefix (w_out s @ ?l) B" using prefix_order.trans[OF out_all[OF og w] s'(2)] by (simp add: write_long_put)
    have "long_ok (int (length rows))"
      using out_count[OF og w] flat_pairs_length[of rows] prefix_length_le[OF s'(2)] S by (simp add: long_ok_def Sim_def synced_def)
    note L = Sim_long[OF S pl this]
    have room: "length (w_out s') \<le> length (w_out (write_long (int (length rows)) s)) + f" using s'(3) by (simp add: write_long_put)
    have wf': "list_all (wf_value g H) (flat_pairs rows)" "distinct (map (hkey_of H \<circ> fst) ([] @ rows))" "list_all (wf_key H \<circ> fst) ([] @ rows)"
      "\<not> proc" "d = VNil" using wf by (simp_all add: PHash held_values_def wf_payload_def)
    have bl: "core_payload (n_body (r_heap (adv (length ?l) r) ! b)) = Some (PHash [] VNil False)" using blank by (simp add: PHash blank_def)
    obtain r' \<rho>' F' all' where r': "read_pairs (rdv f g) (length rows) b (adv (length ?l) r) = Inr ((), r')" "Sim g H B \<rho>' U F' s' r'"
      "grows {b} \<rho> F (adv (length ?l) r) \<rho>' F' r'" "r_heap r' ! b = with_payload (PHash all' VNil False) (r_heap r ! b)"
      "list_all2 (rowmatch H \<rho>' F' (r_heap r')) rows all'"
      using read_pairs_ok[OF ok og w L(2) calm b s'(2) room wf'(1) bl _ wf'(2,3)] by auto
    have "grows {b} \<rho> F r \<rho>' F' r'" using grows_trans_same[OF grows_still r'(3)] by simp
    moreover have "fill_payload (rdv f g) (blank p) b r = Inr ((), r')" using L(1) r'(1) by (simp add: PHash blank_def fill_payload_def)
    moreover have "pmatch H \<rho>' F' (r_heap r') (raw_payload p) (PHash all' VNil False)"
      using r'(5) wf'(4,5) by (simp add: PHash raw_payload_def pmatch_def vmatch_def)
    ultimately show ?thesis using r'(2,4) by blast
  qed (rule still; simp add: sub_rest_def blank_def fill_payload_def raw_payload_def pmatch_def)+
qed

lemma later_sub_rest: "out_grows wr \<Longrightarrow> later s (sub_rest wr p s)"
  by (cases p) (auto simp: sub_rest_def intro: later_from[OF later_all])

lemma regexp_begun:
  assumes wf: "wf_graph g H" and S: "Sim g H B \<rho> U F s r" and a: "a < length H" "map_of (w_links s) (g_ptr g a) = None"
    and src: "valid_utf8 src" "g_regexp g src"
    and s': "s' = put [regexp_options ic ex ml] (write_bytes src (put [chr8 CHR ''/''] (register_link (g_ptr g a) s)))" "prefix (w_out s') B"
      "length (w_out s') \<le> length (w_out s) + f"
  shows "begun g H B \<rho> U F r a s' (rdv f g r) (\<lambda>\<rho>' F' h n. half H \<rho>' F' h (BVal (PRegexp src ic ex ml)) n)"
proof -
  let ?t = "chr8 CHR ''/''" let ?b = "length (r_heap r)" let ?n = "new_node (BVal (PRegexp src ic ex ml))"
  have p: "prefix (w_out (put [?t] s)) (w_out s')" unfolding s'(1) by (simp add: write_bytes_put)
  obtain f' where f: "f = Suc f'" "rdv f g r = read_tag (Suc f') g ?t (adv 1 r)" "Sim g H B \<rho> U F (put [?t] s) (adv 1 r)"
    "w_next (put [?t] s) < length (w_out (put [?t] s))" by (rule rdv_tag[OF S s'(2) p s'(3)])
  define r1 where "r1 = (adv 1 r)\<lparr>r_objects := r_objects r @ [VNil]\<rparr>"
  have C: "push_object VNil (adv 1 r) = Inr (w_next s, r1)" "Sim g H B \<rho> U F (count_link (put [?t] s)) r1"
    using Sim_count[OF f(3,4), of VNil] by (simp_all add: r1_def)
  let ?s2 = "put [regexp_options ic ex ml] (write_bytes src (count_link (put [?t] s)))"
  have "prefix (w_out ?s2) B" using s' by (simp add: write_bytes_put)
  then obtain r2 where r2: "regexp_body g r1 = Inr (PRegexp src ic ex ml, r2)" "Sim g H B \<rho> U F ?s2 r2" "r_objects r2 = r_objects r1" "r_heap r2 = r_heap r1"
    using regexp_body_ok[OF C(2) _ src] by blast
  have objs: "r_objects r2 = r_objects r @ [VNil]" "r_heap r2 = r_heap r" "length (r_objects r) = w_next s"
    using r2(3,4) S by (simp_all add: r1_def Sim_def synced_def)
  have "?s2\<lparr>w_links := (g_ptr g a, length (r_objects r)) # w_links ?s2\<rparr> = s'"
    by (simp add: s'(1) objs(3) write_bytes_put put_def count_link_def register_link_def)
  then have E: "Sim g H B (\<rho>(a \<mapsto> ?b)) (insert ?b U) F s' (entered (r_objects r) ?n r2)"
    using Sim_fill[OF wf r2(2) a(1) _ objs(1), of ?n] a(2) objs(2) by (simp add: write_bytes_put)
  have upd: "(r_objects r @ [VNil])[w_next s := x] = r_objects r @ [x]" for x using objs(3) by (metis list_update_length)
  have m: "rdv f g r = Inr (VRef ?b, entered (r_objects r) ?n r2)"
    unfolding f(2) read_tag_simps using C(1) r2(1) objs upd
    by (simp add: read_regexp_def new_ref_def set_object_def entered_def)
  have G: "grows {} \<rho> F r (\<rho>(a \<mapsto> ?b)) F (entered (r_objects r) ?n r2)"
    using unlinked[OF S a] by (intro grows_add) (simp_all add: objs)
  have "half H (\<rho>(a \<mapsto> ?b)) F (r_heap (entered (r_objects r) ?n r2)) (BVal (PRegexp src ic ex ml)) (r_heap (entered (r_objects r) ?n r2) ! ?b)"
    by (simp add: half_def raw_def raw_payload_def bmatch_def pmatch_def new_node_def objs)
  with E m G show ?thesis unfolding begun_def by fastforce
qed

lemma class_name: "class_ok g c \<Longrightarrow> nameable g c = Inr n \<Longrightarrow> valid_utf8 n \<and> g_lookup g n = Some c"
  by (simp add: class_ok_def)

lemma register_sub_head: "sub_head p (register_link k s) = register_link k (sub_head p s)"
  by (cases p) (simp_all add: sub_head_def register_put register_writes)

lemma sub_head_fields: "w_links (sub_head p s) = w_links s" "prefix (w_out s) (w_out (sub_head p s))"
  by (cases p; simp add: sub_head_def write_bytes_put)+

lemma sub_head_prefix: "prefix (w_out s) (w_out s1) \<Longrightarrow> prefix (w_out s) (w_out (sub_head p s1))"
  using sub_head_fields(2) prefix_order.trans by blast

lemma count_register: "w_next s = i \<Longrightarrow> (count_link s)\<lparr>w_links := (k, i) # w_links s\<rparr> = register_link k s"
  by (auto simp: count_link_def register_link_def)

lemma relink_writes:
  "(put bs s)\<lparr>w_links := L\<rparr> = put bs (s\<lparr>w_links := L\<rparr>)"
  "(write_bytes bs s)\<lparr>w_links := L\<rparr> = write_bytes bs (s\<lparr>w_links := L\<rparr>)"
  "(write_symbol n s)\<lparr>w_links := L\<rparr> = write_symbol n (s\<lparr>w_links := L\<rparr>)"
  "(sub_head p s)\<lparr>w_links := L\<rparr> = sub_head p (s\<lparr>w_links := L\<rparr>)"
  by (cases p; simp add: sub_head_def write_bytes_put write_symbol_eq put_def)+

lemma subclass_begun:
  assumes wf: "wf_graph g H" and ok: "\<And>f. value_ok g H B wr (rdv f g) f" and og: "out_grows wr"
    and S: "Sim g H B \<rho> U F s r" and a: "a < length H" "map_of (w_links s) (g_ptr g a) = None" and calm: "calm H \<rho> U"
    and n: "n_body (H ! a) = BSub c p" "list_all (wf_value g H) (held_values p)" "wf_payload g H p" "class_ok g c" "g_value_root g c"
      "case p of PHash rows d proc \<Rightarrow> d = VNil | _ \<Rightarrow> True" "nameable g c = Inr name"
    and s': "write_builtin_body wr p (write_symbol name (put [chr8 CHR ''C''] (register_link (g_ptr g a) s))) = Inr s'"
      "prefix (w_out s') B" "length (w_out s') \<le> length (w_out s) + f"
  shows "begun g H B \<rho> U F r a s' (rdv f g r) (\<lambda>\<rho>' F' h n. half H \<rho>' F' h (BSub c p) n)"
proof -
  let ?t = "chr8 CHR ''C''" let ?b = "length (r_heap r)" let ?n = "new_node (BSub c (blank p))" let ?\<rho> = "\<rho>(a \<mapsto> ?b)"
  note name = class_name[OF n(4,7)]
  define s3 where "s3 = sub_head p (write_symbol name (put [?t] (register_link (g_ptr g a) s)))"
  have w: "sub_rest wr p s3 = Inr s'" using s'(1) by (simp add: write_builtin_body_split s3_def)
  have p3: "prefix (w_out s3) (w_out s')" using later_sub_rest[OF og, of s3 p] w by (simp add: later_def)
  have p0: "prefix (w_out (put [?t] (register_link (g_ptr g a) s))) (w_out s3)"
    unfolding s3_def by (rule sub_head_prefix[OF prefix_writes(2)[OF leads_refl]])
  then have p: "prefix (w_out (put [?t] s)) (w_out s')" using prefix_order.trans[OF p0 p3] by simp
  obtain f' where f: "f = Suc f'" "rdv f g r = read_tag (Suc f') g ?t (adv 1 r)" "Sim g H B \<rho> U F (put [?t] s) (adv 1 r)"
    "length (w_out s') \<le> length (w_out (put [?t] s)) + f'" "w_next (put [?t] s) < length (w_out (put [?t] s))"
    by (rule rdv_tag[OF S s'(2) p s'(3)])
  define r1 where "r1 = (adv 1 r)\<lparr>r_objects := r_objects r @ [VNil]\<rparr>"
  have C: "push_object VNil (adv 1 r) = Inr (w_next s, r1)" "Sim g H B \<rho> U F (count_link (put [?t] s)) r1"
    using Sim_count[OF f(3,5), of VNil] by (simp_all add: r1_def)
  let ?s1 = "write_symbol name (count_link (put [?t] s))" let ?s2 = "sub_head p ?s1"
  have o2: "w_out ?s2 = w_out s3" by (cases p) (simp_all add: s3_def sub_head_def write_bytes_put write_symbol_eq)
  have p2: "prefix (w_out ?s2) B" unfolding o2 using prefix_order.trans[OF p3 s'(2)] .
  then have p1: "prefix (w_out ?s1) B" using prefix_order.trans[OF sub_head_fields(2)] by blast
  obtain r2 where r2: "read_symbol_name r1 = Inr (name, r2)" "Sim g H B \<rho> U F ?s1 r2" "r_objects r2 = r_objects r1" "r_heap r2 = r_heap r1"
    using Sim_symbol[OF C(2) p1] name by blast
  obtain r3 where r3: "subclass_payload g r2 = Inr (blank p, r3)" "Sim g H B \<rho> U F ?s2 r3" "r_objects r3 = r_objects r2" "r_heap r3 = r_heap r2"
    by (rule subclass_payload_ok[OF r2(2) p2 n(3)])
  have objs: "r_objects r3 = r_objects r @ [VNil]" "r_heap r3 = r_heap r" "length (r_objects r) = w_next s"
    using r2(3,4) r3(3,4) S by (simp_all add: r1_def Sim_def synced_def)
  have "?s2\<lparr>w_links := (g_ptr g a, length (r_objects r)) # w_links ?s2\<rparr> = s3"
    unfolding s3_def relink_writes using count_register[of "put [?t] s" "length (r_objects r)" "g_ptr g a"] objs(3)
    by (simp add: sub_head_fields write_symbol_eq register_put)
  then have E: "Sim g H B ?\<rho> (insert ?b U) F s3 (entered (r_objects r) ?n r3)"
    using Sim_fill[OF wf r3(2) a(1) _ objs(1), of ?n] a(2) objs(2) by (simp add: sub_head_fields write_symbol_eq)
  let ?r4 = "entered (r_objects r) ?n r3"
  have calm1: "calm H ?\<rho> (insert ?b U)" using calm_enter[OF calm S unlinked[OF S a]] n(1) by (simp add: plain_string_def)
  have room: "length (w_out s') \<le> length (w_out s3) + f'"
    using f(4) prefix_length_le[OF p0] by simp
  have bl: "core_payload (n_body (r_heap ?r4 ! ?b)) = Some (blank p)" by (simp add: core_payload_def new_node_def objs)
  obtain r' \<rho>' F' p' where r': "fill_payload (rdv f' g) (blank p) ?b ?r4 = Inr ((), r')" "Sim g H B \<rho>' (insert ?b U) F' s' r'"
    "grows {?b} ?\<rho> F ?r4 \<rho>' F' r'" "r_heap r' ! ?b = with_payload p' (r_heap ?r4 ! ?b)" "pmatch H \<rho>' F' (r_heap r') (raw_payload p) p'"
    using fill_payload_ok[OF ok og E calm1 _ n(3,2,6) w s'(2) room bl] by auto
  have upd: "(r_objects r @ [VNil])[w_next s := x] = r_objects r @ [x]" for x using objs(3) by (metis list_update_length)
  have "rdv f g r = Inr (VRef ?b, r')"
    unfolding f(2) read_tag_simps using C(1) r2(1) r3(1) objs upd r'(1) name n(5)
    by (simp add: read_subclass_def new_ref_def set_object_def entered_def read_class_def)
  moreover have "grows {} \<rho> F r ?\<rho> F ?r4" using unlinked[OF S a] by (intro grows_add) (simp_all add: objs)
  then have "grows {} \<rho> F r \<rho>' F' r'" using r'(3) by (rule grows_trans) simp
  moreover have "\<rho>' a = Some ?b" by (rule growsD(8)[OF r'(3)]) simp
  moreover have "half H \<rho>' F' (r_heap r') (BSub c p) (r_heap r' ! ?b)"
    using r'(4,5) by (simp add: half_def raw_def bmatch_def with_payload_def new_node_def objs)
  ultimately show ?thesis using r'(2) unfolding begun_def by blast
qed

subsection \<open>Plain objects\<close>

definition plain_done :: "nat \<Rightarrow> (octets \<times> mval) list \<Rightarrow> nat list \<Rightarrow> amap \<Rightarrow> nat set \<Rightarrow> mnode list \<Rightarrow> mnode \<Rightarrow> bool" where
  "plain_done c xs ms \<rho> F h n \<longleftrightarrow> n_body n = BPlain c \<and> list_all2 (fmatch \<rho>) xs (n_ivars n) \<and> n_ext n = rev ms \<and> \<not> n_singleton n"

lemma object_begun:
  assumes wf: "wf_graph g H" and ok: "\<And>f. value_ok g H B wr (rdv f g) f" and og: "out_grows wr"
    and S: "Sim g H B \<rho> U F s r" and a: "a < length H" "map_of (w_links s) (g_ptr g a) = None" and calm: "calm H \<rho> U"
    and n: "\<not> plain_string (H ! a)" "list_all (wf_value g H) (map snd xs)" "wf_names (map fst xs)" "plain_ok g c" "nameable g c = Inr name"
    and s': "write_named wr (at_sign xs) (write_long (int (length xs)) (write_symbol name (put [chr8 CHR ''o''] (register_link (g_ptr g a) s)))) = Inr s'"
      "prefix (w_out s') B" "length (w_out s') \<le> length (w_out s) + f"
  shows "begun g H B \<rho> U F r a s' (rdv f g r) (plain_done c xs [])"
proof -
  let ?t = "chr8 CHR ''o''" let ?b = "length (r_heap r)" let ?n = "new_node (BPlain c)" let ?\<rho> = "\<rho>(a \<mapsto> ?b)" let ?l = "marshal_long (int (length xs))"
  have cls: "class_ok g c" "g_blank g c = Some (BPlain c)" "name \<noteq> ascii ''Range''" "name \<noteq> ascii ''Set''" using n(4,5) by (auto simp: plain_ok_def)
  note name = class_name[OF cls(1) n(5)]
  define s3 where "s3 = write_symbol name (put [?t] (register_link (g_ptr g a) s))"
  have w: "write_named wr (at_sign xs) (write_long (int (length xs)) s3) = Inr s'" using s'(1) by (simp add: s3_def)
  have p4: "prefix (w_out s3 @ ?l) (w_out s')" using out_named[OF og w] by (simp add: write_long_put)
  have p0: "prefix (w_out s @ [?t]) (w_out s3)" by (simp add: s3_def write_symbol_eq)
  have p3: "prefix (w_out s3) (w_out s')" using p4 by (auto simp: prefix_def)
  then have p: "prefix (w_out (put [?t] s)) (w_out s')" using prefix_order.trans[OF p0 p3] by simp
  obtain f' where f: "f = Suc f'" "rdv f g r = read_tag (Suc f') g ?t (adv 1 r)" "Sim g H B \<rho> U F (put [?t] s) (adv 1 r)"
    "length (w_out s') \<le> length (w_out (put [?t] s)) + f'" "w_next (put [?t] s) < length (w_out (put [?t] s))"
    by (rule rdv_tag[OF S s'(2) p s'(3)])
  define r1 where "r1 = (adv 1 r)\<lparr>r_objects := r_objects r @ [VNil]\<rparr>"
  have C: "push_object VNil (adv 1 r) = Inr (w_next s, r1)" "Sim g H B \<rho> U F (count_link (put [?t] s)) r1"
    using Sim_count[OF f(3,5), of VNil] by (simp_all add: r1_def)
  let ?s1 = "write_symbol name (count_link (put [?t] s))"
  have o1: "w_out ?s1 = w_out s3" by (simp add: s3_def write_symbol_eq)
  have p1: "prefix (w_out ?s1) B" unfolding o1 using prefix_order.trans[OF p3 s'(2)] .
  obtain r2 where r2: "read_symbol_name r1 = Inr (name, r2)" "Sim g H B \<rho> U F ?s1 r2" "r_objects r2 = r_objects r1" "r_heap r2 = r_heap r1"
    using Sim_symbol[OF C(2) p1] name by blast
  have objs: "r_objects r2 = r_objects r @ [VNil]" "r_heap r2 = r_heap r" "length (r_objects r) = w_next s"
    using r2(3,4) S by (simp_all add: r1_def Sim_def synced_def)
  have "?s1\<lparr>w_links := (g_ptr g a, length (r_objects r)) # w_links ?s1\<rparr> = s3"
    unfolding s3_def relink_writes using count_register[of "put [?t] s" "length (r_objects r)" "g_ptr g a"] objs(3)
    by (simp add: write_symbol_eq register_put)
  then have E: "Sim g H B ?\<rho> (insert ?b U) F s3 (entered (r_objects r) ?n r2)"
    using Sim_fill[OF wf r2(2) a(1) _ objs(1), of ?n] a(2) objs(2) by (simp add: write_symbol_eq)
  let ?r4 = "entered (r_objects r) ?n r2"
  have "long_ok (int (length xs))"
    using out_count_named[OF og w] prefix_length_le[OF s'(2)] S by (simp add: long_ok_def Sim_def synced_def at_sign_def)
  note L = Sim_long[OF E prefix_order.trans[OF p4 s'(2)] this]
  have calm1: "calm H ?\<rho> (insert ?b U)" by (rule calm_enter[OF calm S unlinked[OF S a] n(1)])
  have room: "length (w_out s') \<le> length (w_out (write_long (int (length xs)) s3)) + f'"
    using f(4) prefix_length_le[OF p0] by (simp add: write_long_put)
  have nm: "wf_names (map fst (n_ivars (r_heap (adv (length ?l) ?r4) ! ?b)) @ map fst xs)" using n(3) by (simp add: new_node_def objs)
  obtain r' \<rho>' F' ys where r': "read_loop (rdv f' g) (\<lambda>n v. if n = ascii ''mesg'' \<or> n = ascii ''bt'' then ret () else ivar_set (VRef ?b) (trim_at n) v)
      (length xs) (adv (length ?l) ?r4) = Inr ((), r')" "Sim g H B \<rho>' (insert ?b U) F' s' r'"
    "grows {?b} ?\<rho> F (adv (length ?l) ?r4) \<rho>' F' r'" "r_heap r' ! ?b = ?n\<lparr>n_ivars := ys\<rparr>" "list_all2 (fmatch \<rho>') xs ys"
    using read_loop_ok[OF ok og sets_ivars_object w L(2) calm1 _ s'(2) room n(2) nm] by (auto simp: new_node_def objs)
  have upd: "(r_objects r @ [VNil])[w_next s := x] = r_objects r @ [x]" for x using objs(3) by (metis list_update_length)
  have "rdv f g r = Inr (VRef ?b, r')"
    unfolding f(2) read_tag_simps using C(1) r2(1) L(1) objs upd r'(1) name cls
    by (simp add: read_object_def new_ref_def set_object_def entered_def read_class_def read_object_ivars_loop)
  moreover have "grows {} \<rho> F r ?\<rho> F (adv (length ?l) ?r4)" using unlinked[OF S a] by (intro grows_add) (simp_all add: objs)
  then have "grows {} \<rho> F r \<rho>' F' r'" using r'(3) by (rule grows_trans) simp
  moreover have "\<rho>' a = Some ?b" by (rule growsD(8)[OF r'(3)]) simp
  moreover have "plain_done c xs [] \<rho>' F' (r_heap r') (r_heap r' ! ?b)" using r'(4,5) by (simp add: plain_done_def new_node_def)
  ultimately show ?thesis using r'(2) unfolding begun_def by blast
qed

lemma extended_begun:
  assumes wf: "wf_graph g H" and ok: "\<And>f. value_ok g H B wr (rdv f g) f" and og: "out_grows wr"
    and a: "a < length H" and calm: "calm H \<rho> U"
    and n: "\<not> plain_string (H ! a)" "list_all (wf_value g H) (map snd xs)" "wf_names (map fst xs)" "plain_ok g c" "nameable g c = Inr name"
    and s': "prefix (w_out s') B"
  shows "Sim g H B \<rho> U F s r \<Longrightarrow> map_of (w_links s) (g_ptr g a) = None \<Longrightarrow> distinct ms \<Longrightarrow> list_all (module_ok g) ms \<Longrightarrow>
    write_named wr (at_sign xs) (write_long (int (length xs)) (write_symbol name (put [chr8 CHR ''o'']
      (register_link (g_ptr g a) (write_extends g ms s))))) = Inr s' \<Longrightarrow> length (w_out s') \<le> length (w_out s) + f \<Longrightarrow>
    begun g H B \<rho> U F r a s' (rdv f g r) (plain_done c xs ms)"
proof (induction ms arbitrary: s r f)
  case Nil
  then show ?case using object_begun[OF wf ok og Nil(1) a Nil(2) calm n _ s' Nil(6)] by simp
next
  case (Cons m ms)
  let ?t = "chr8 CHR ''e''"
  obtain mn where m: "g_name g m = Some mn" "valid_utf8 mn" "g_lookup g mn = Some m"
    using Cons.prems(4) by (auto simp: module_ok_def split: option.splits)
  define s1 where "s1 = write_symbol mn (put [?t] s)"
  have w: "write_named wr (at_sign xs) (write_long (int (length xs)) (write_symbol name (put [chr8 CHR ''o'']
      (register_link (g_ptr g a) (write_extends g ms s1))))) = Inr s'" using Cons.prems(5) by (simp add: m(1) s1_def)
  have "later s1 (Inr s')" unfolding w[symmetric] by (rule later_from[OF later_named[OF og]]) (simp add: leads_extends)
  then have p1: "prefix (w_out s1) (w_out s')" by simp
  have p0: "prefix (w_out s @ [?t]) (w_out s1)" by (simp add: s1_def write_symbol_eq)
  then have p: "prefix (w_out (put [?t] s)) (w_out s')" using prefix_order.trans[OF p0 p1] by simp
  obtain f' where f: "f = Suc f'" "rdv f g r = read_tag (Suc f') g ?t (adv 1 r)" "Sim g H B \<rho> U F (put [?t] s) (adv 1 r)"
    "length (w_out s') \<le> length (w_out (put [?t] s)) + f'" by (rule rdv_tag[OF Cons.prems(1) s' p Cons.prems(6)])
  obtain r1 where r1: "read_symbol_name (adv 1 r) = Inr (mn, r1)" "Sim g H B \<rho> U F s1 r1" "r_objects r1 = r_objects r" "r_heap r1 = r_heap r"
    using Sim_symbol[OF f(3), of mn] prefix_order.trans[OF p1 s'] m(2) unfolding s1_def by auto
  have "map_of (w_links s1) (g_ptr g a) = None" using Cons.prems(2) by (simp add: s1_def write_symbol_eq)
  moreover have "length (w_out s') \<le> length (w_out s1) + f'" using f(4) prefix_length_le[OF p0] by simp
  ultimately have "begun g H B \<rho> U F r1 a s' (rdv f' g r1) (plain_done c xs ms)"
    using Cons.IH[OF r1(2) _ _ _ w] Cons.prems(3,4) by simp
  then obtain b r2 \<rho>2 F2 where r2: "rdv f' g r1 = Inr (VRef b, r2)" "Sim g H B \<rho>2 (insert b U) F2 s' r2" "grows {} \<rho> F r1 \<rho>2 F2 r2"
    "\<rho>2 a = Some b" "length (r_heap r) \<le> b" "plain_done c xs ms \<rho>2 F2 (r_heap r2) (r_heap r2 ! b)" unfolding begun_def r1(4) by blast
  let ?n = "(r_heap r2 ! b)\<lparr>n_ext := rev (m # ms)\<rparr>" let ?r3 = "r2\<lparr>r_heap := (r_heap r2)[b := ?n]\<rparr>"
  have x: "extend_node m (r_heap r2 ! b) = ?n" using r2(6) Cons.prems(3) by (simp add: extend_node_def plain_done_def)
  have "rdv f g r = Inr (VRef b, ?r3)"
    unfolding f(2) read_tag_simps using r1(1) r2(1) m(3) x by (simp add: read_extended_def update_node_def)
  moreover have u: "Sim g H B \<rho>2 (insert b U) F2 s' ?r3" "grows {b} \<rho>2 F2 r2 \<rho>2 F2 ?r3" using Sim_update[OF r2(2)] by simp_all
  moreover have "grows {} \<rho> F r \<rho>2 F2 ?r3"
    using grows_trans_same[OF grows_still[OF r1(3,4)] r2(3)] u(2) by (rule grows_trans) (simp add: r2(5))
  moreover have "b < length (r_heap r2)" using Sim_bounds(3)[OF r2(2)] by simp
  then have "plain_done c xs (m # ms) \<rho>2 F2 (r_heap ?r3) (r_heap ?r3 ! b)" using r2(6) by (simp add: plain_done_def)
  ultimately show ?case using r2(4,5) unfolding begun_def by blast
qed

end
