(* ===== verification/MarshalRoundtrip.thy ===== *)
theory MarshalRoundtrip
  imports MarshalCopy
begin

text \<open>
  Every value the writer accepts is read back as a copy: encodings and instance variables, whole allocations, links, immediate values
  and numbers, and then any graph.
\<close>

section \<open>Encodings and instance variables\<close>

lemma chars_of_ascii: "map (\<lambda>b. char_of (unat b)) (ascii s) = s"
proof -
  have "unat (of_char c :: 8 word) = of_char c" for c
    using unat_of_nat[of "of_char c", where 'a = 8] nat_of_char_less_256[of c] by (simp add: of_nat_of_char)
  then show ?thesis by (simp add: ascii_def o_def)
qed

lemma utf8_names: "valid_utf8 (ascii ''E'')" "valid_utf8 (ascii ''encoding'')" "ascii ''encoding'' \<noteq> ascii ''E''"
  by code_simp+

lemma truthy_simps [simp]: "truthy (VBool True)" "\<not> truthy (VBool False)"
  by (simp_all add: truthy_def)

text \<open>The string with the name of an encoding, or a link to one written before.\<close>

lemma encoding_name_ok:
  assumes S: "Sim g H B \<rho> U F s r" and p: "prefix (w_out (write_encoding_name n s)) B"
    and f: "length (w_out (write_encoding_name n s)) \<le> length (w_out s) + f"
  obtains c r' F' e where "rdv f g r = Inr (VRef c, r')" "Sim g H B \<rho> U F' (write_encoding_name n s) r'" "grows {} \<rho> F r \<rho> F' r'"
    "n_body (r_heap r' ! c) = BVal (PStr n e)"
proof (cases "map_of (w_enc_links s) n")
  case (Some i)
  let ?t = "chr8 CHR ''@''" let ?l = "marshal_long (int i)"
  have w: "write_encoding_name n s = write_long (int i) (put [?t] s)" by (simp add: write_encoding_name_def Some)
  obtain f' where f: "rdv f g r = read_tag (Suc f') g ?t (adv 1 r)" "Sim g H B \<rho> U F (put [?t] s) (adv 1 r)"
    using rdv_tag[OF S p, of ?t] f by (auto simp: w write_long_put)
  have i: "i < length (r_objects r)" "\<exists>b\<in>F. \<exists>e. r_objects r ! i = VRef b \<and> n_body (r_heap r ! b) = BVal (PStr n e)"
    using S Some unfolding Sim_def tables_def encs_ok_def by blast+
  then obtain c e where c: "r_objects r ! i = VRef c" "n_body (r_heap r ! c) = BVal (PStr n e)" by blast
  have "prefix (w_out s) B" using p by (auto simp: w write_long_put prefix_def)
  then have "long_ok (int i)" using i(1) S prefix_length_le[of "w_out s" B] by (simp add: long_ok_def Sim_def synced_def)
  note L = Sim_long[OF f(2) _ this]
  show thesis
  proof (rule that)
    show "rdv f g r = Inr (VRef c, adv (length ?l) (adv 1 r))"
      unfolding f(1) read_tag_simps using L(1) p i(1) c(1) by (simp add: object_link_def w write_long_put del: adv_adv)
    show "Sim g H B \<rho> U F (write_encoding_name n s) (adv (length ?l) (adv 1 r))" using L(2) p by (simp add: w write_long_put)
    show "grows {} \<rho> F r \<rho> F (adv (length ?l) (adv 1 r))" by (simp add: grows_still)
    show "n_body (r_heap (adv (length ?l) (adv 1 r)) ! c) = BVal (PStr n e)" using c(2) by simp
  qed
next
  case None
  let ?t = "chr8 CHR ''\"''" let ?l = "marshal_long (int (length n)) @ n" let ?b = "length (r_heap r)"
  define s1 where "s1 = write_bytes n (put [?t] s)"
  have w: "write_encoding_name n s = s1\<lparr>w_enc_links := (n, w_next s) # w_enc_links s, w_next := Suc (w_next s)\<rparr>"
    by (simp add: write_encoding_name_def None s1_def write_bytes_put put_def)
  have p1: "prefix (w_out s @ [?t] @ ?l) B" using p by (simp add: w s1_def write_bytes_put)
  obtain f' where f: "rdv f g r = read_tag (Suc f') g ?t (adv 1 r)" "Sim g H B \<rho> U F (put [?t] s) (adv 1 r)" "w_next s < length (w_out (put [?t] s))"
    using rdv_tag[OF S p, of ?t] f by (auto simp: w s1_def write_bytes_put)
  note b = Sim_bytes[OF f(2), of n]
  let ?r1 = "adv (length ?l) (adv 1 r)"
  have S1: "Sim g H B \<rho> U F s1 ?r1" using b(2) p1 by (simp add: s1_def)
  let ?r2 = "entered (r_objects r) (new_node (BVal (PStr n ASCII_8BIT))) ?r1"
  have len: "length (r_objects r) = w_next s" using S by (simp add: Sim_def synced_def)
  have "tables g H \<rho> U (insert ?b F) (w_links s1) ((n, length (r_objects r)) # w_enc_links s1) (r_objects ?r2) (r_heap ?r2)"
    using tables_enc[OF Sim_tables[OF S1]] by simp
  then have S2: "Sim g H B \<rho> U (insert ?b F) (write_encoding_name n s) ?r2"
    using S1 f(3) len unfolding Sim_def synced_def w by (simp add: s1_def write_bytes_put entered_def)
  show thesis
  proof (rule that[OF _ S2])
    show "rdv f g r = Inr (VRef ?b, ?r2)"
      unfolding f(1) read_tag_simps using b(1) p1 by (simp add: read_string_def new_ref_def push_object_def entered_def del: adv_adv)
    show "grows {} \<rho> F r \<rho> (insert ?b F) ?r2" by (auto simp: grows_def nth_append)
    show "n_body (r_heap ?r2 ! ?b) = BVal (PStr n ASCII_8BIT)" by (simp add: new_node_def)
  qed
qed

lemma encoding_ivar_cases:
  assumes "encoding_ivar e = [i]"
  shows "(\<exists>x. i = EncBool x \<and> e = (if x then UTF_8 else US_ASCII)) \<or> i = EncName (ascii (enc_name e))"
proof -
  consider "e = UTF_8" | "e \<noteq> UTF_8" "e = US_ASCII" | "e \<noteq> UTF_8" "e \<noteq> US_ASCII" by blast
  then show ?thesis
    by cases (use assms in \<open>auto simp: encoding_ivar_def split: if_splits\<close>)
qed

lemma encoding_ivar_ok:
  assumes S: "Sim g H B \<rho> U F s r" and b: "b \<in> U" and i: "encoding_ivar e = [i]" and wf: "find_encoding (enc_name e) = Some e"
    and w: "write_iv wr i s = Inr s'" "prefix (w_out s') B" "length (w_out s') \<le> length (w_out s) + f"
  obtains nm r0 u r1 r' F' where "read_symbol_name r = Inr (nm, r0)" "rdv f g r0 = Inr (u, r1)" "apply_ivar (VRef b) nm u r1 = Inr ((), r')"
    "Sim g H B \<rho> U F' s' r'" "grows {b} \<rho> F r \<rho> F' r'" "r_heap r' ! b = retag e (r_heap r ! b)"
proof -
  note goal = that
  have bl: "b < length (r_heap r)" using Sim_bounds(3)[OF S b] .
  have set_enc: thesis if rd: "read_symbol_name r = Inr (nm, r0)" "rdv f g r0 = Inr (u, r1)" "Sim g H B \<rho> U F' s' r1" "grows {} \<rho> F r \<rho> F' r1"
      "apply_ivar (VRef b) nm u r1 = update_node b (retag e) r1" for nm r0 u r1 F'
  proof -
    have h: "r_heap r1 ! b = r_heap r ! b" "b < length (r_heap r1)" using growsD(3,4)[OF rd(4)] bl by auto
    have "apply_ivar (VRef b) nm u r1 = Inr ((), r1\<lparr>r_heap := (r_heap r1)[b := retag e (r_heap r ! b)]\<rparr>)" using rd(5) h by (simp add: update_node_def)
    moreover note u = Sim_update[OF rd(3) b, of "retag e (r_heap r ! b)"]
    moreover have "grows {b} \<rho> F r \<rho> F' (r1\<lparr>r_heap := (r_heap r1)[b := retag e (r_heap r ! b)]\<rparr>)" using grows_weaken[OF rd(4)] u(2) by (rule grows_trans_same)
    ultimately show thesis using rd(1-3) h(2) by (intro goal) auto
  qed
  consider (bool) x where "i = EncBool x" "e = (if x then UTF_8 else US_ASCII)" | (name) "i = EncName (ascii (enc_name e))"
    using encoding_ivar_cases[OF i] by blast
  then show thesis
  proof cases
    case (bool x)
    let ?s1 = "write_symbol (ascii ''E'') s" let ?t = "if x then chr8 CHR ''T'' else chr8 CHR ''F''"
    have s': "s' = put [?t] ?s1" using w(1) by (simp add: bool(1) write_iv_def)
    have "prefix (w_out ?s1) B" using w(2) by (auto simp: s' prefix_def)
    then obtain r0 where r0: "read_symbol_name r = Inr (ascii ''E'', r0)" "Sim g H B \<rho> U F ?s1 r0" "r_objects r0 = r_objects r" "r_heap r0 = r_heap r"
      using Sim_symbol[OF S _ utf8_names(1)] by blast
    have "length (w_out s') \<le> length (w_out ?s1) + f" using w(3) prefix_length_le[OF out_symbol[of s "ascii ''E''"]] by simp
    then obtain f' where f: "rdv f g r0 = read_tag (Suc f') g ?t (adv 1 r0)" "Sim g H B \<rho> U F s' (adv 1 r0)"
      using rdv_tag[OF r0(2) w(2), of ?t] unfolding s' by auto
    have "rdv f g r0 = Inr (VBool x, adv 1 r0)" unfolding f(1) by (cases x) (simp_all only: if_True if_False read_tag_simps ret_simp)
    moreover have "apply_ivar (VRef b) (ascii ''E'') (VBool x) (adv 1 r0) = update_node b (retag e) (adv 1 r0)"
      by (cases x) (simp_all add: apply_ivar_def set_string_encoding_def bool(2))
    moreover have "grows {} \<rho> F r \<rho> F (adv 1 r0)" using r0(3,4) by (simp add: grows_still)
    ultimately show thesis using set_enc[OF r0(1) _ f(2)] by blast
  next
    case name
    let ?n = "ascii (enc_name e)" let ?s1 = "write_symbol (ascii ''encoding'') s"
    have s': "s' = write_encoding_name ?n ?s1" using w(1) by (simp add: name write_iv_def)
    have "prefix (w_out ?s1) B" using prefix_order.trans[OF prefix_writes(3)[OF leads_refl] w(2)[unfolded s']] .
    then obtain r0 where r0: "read_symbol_name r = Inr (ascii ''encoding'', r0)" "Sim g H B \<rho> U F ?s1 r0" "r_objects r0 = r_objects r" "r_heap r0 = r_heap r"
      using Sim_symbol[OF S _ utf8_names(2)] by blast
    have room: "length (w_out s') \<le> length (w_out ?s1) + f" using w(3) prefix_length_le[OF out_symbol[of s "ascii ''encoding''"]] by simp
    obtain c r1 F' e0 where r1: "rdv f g r0 = Inr (VRef c, r1)" "Sim g H B \<rho> U F' s' r1" "grows {} \<rho> F r0 \<rho> F' r1" "n_body (r_heap r1 ! c) = BVal (PStr ?n e0)"
      using encoding_name_ok[OF r0(2), of ?n f] w(2) room unfolding s' by blast
    have "apply_ivar (VRef b) (ascii ''encoding'') (VRef c) r1 = update_node b (retag e) r1"
      using r1(4) wf utf8_names(3) by (simp add: apply_ivar_def apply_encoding_name_def set_string_encoding_def chars_of_ascii)
    moreover have "grows {} \<rho> F r \<rho> F' r1" by (rule grows_trans_same[OF grows_still[OF r0(3,4)] r1(3)])
    ultimately show thesis using set_enc[OF r0(1) r1(1,2)] by blast
  qed
qed

text \<open>What the wrapper carries: perhaps an encoding, then the object's own variables.\<close>

definition enc_ivars :: "nat option \<Rightarrow> iv list" where
  "enc_ivars eo = (case eo of None \<Rightarrow> [] | Some e \<Rightarrow> encoding_ivar e)"

definition tagged :: "nat option \<Rightarrow> mnode \<Rightarrow> mnode" where
  "tagged eo n = (case eo of None \<Rightarrow> n | Some e \<Rightarrow> if e = ASCII_8BIT then n else retag e n)"

definition enc_ok :: "nat option \<Rightarrow> bool" where
  "enc_ok eo = (case eo of None \<Rightarrow> True | Some e \<Rightarrow> e = ASCII_8BIT \<or> find_encoding (enc_name e) = Some e)"

lemma not_binary: "UTF_8 \<noteq> ASCII_8BIT" "US_ASCII \<noteq> ASCII_8BIT"
  by code_simp+

lemma enc_ivars_cases:
  obtains (none) "enc_ivars eo = []" "\<And>n. tagged eo n = n" | (some) e i where "eo = Some e" "enc_ivars eo = [i]" "encoding_ivar e = [i]" "\<And>n. tagged eo n = retag e n"
proof (cases eo)
  case (Some e)
  note u = not_binary
  show thesis
  proof (cases "e = ASCII_8BIT")
    case True
    then show thesis using none u Some by (auto simp: enc_ivars_def tagged_def encoding_ivar_def)
  next
    case False
    then have "\<exists>i. encoding_ivar e = [i]" by (simp add: encoding_ivar_def)
    with False show thesis using some Some by (auto simp: enc_ivars_def tagged_def)
  qed
qed (use none in \<open>simp_all add: enc_ivars_def tagged_def\<close>)

lemma retag_ivars [simp]: "n_ivars (retag e n) = n_ivars n" "n_ext (retag e n) = n_ext n" "n_singleton (retag e n) = n_singleton n"
  by (auto simp: retag_def split: mbody.splits mpayload.splits)

lemma write_iv_list_append: "write_iv_list wr (xs @ ys) s = bindE (write_iv_list wr xs s) (write_iv_list wr ys)"
  by (induction xs arbitrary: s) (auto simp: bindE_def split: sum.splits)

lemma write_iv_list_own: "write_iv_list wr (own_ivars n) s = write_named wr (at_sign (n_ivars n)) s"
proof -
  have "write_iv_list wr (map (\<lambda>(x, v). Named (64 # x) v) xs) s = write_named wr (at_sign xs) s" for xs
  proof (induction xs arbitrary: s)
    case (Cons x xs)
    then have "write_iv_list wr (map (\<lambda>(x, v). Named (64 # x) v) xs) = write_named wr (at_sign xs)" by (simp add: fun_eq_iff)
    then show ?case by (cases x) (simp add: at_sign_def write_iv_def)
  qed (simp add: at_sign_def)
  then show ?thesis by (simp add: own_ivars_def)
qed

lemma own_loop_ok:
  assumes ok: "value_ok g H B wr (rdv f g) f" and og: "out_grows wr" and S: "Sim g H B \<rho> U F s r" and b: "b \<in> U"
    and calm: "n_ivars n \<noteq> [] \<Longrightarrow> calm H \<rho> U" and n: "list_all (wf_value g H) (map snd (n_ivars n))" "wf_names (map fst (n_ivars n))" "n_ivars (r_heap r ! b) = []"
    and w: "write_named wr (at_sign (n_ivars n)) s = Inr s'" "prefix (w_out s') B" "length (w_out s') \<le> length (w_out s) + f"
  shows "\<exists>r' \<rho>' F' ys. read_ivar_list (rdv f g) (length (n_ivars n)) (VRef b) r = Inr ((), r') \<and> Sim g H B \<rho>' U F' s' r' \<and> grows {b} \<rho> F r \<rho>' F' r' \<and>
    r_heap r' ! b = (r_heap r ! b)\<lparr>n_ivars := ys\<rparr> \<and> list_all2 (fmatch \<rho>') (n_ivars n) ys"
proof (cases "n_ivars n = []")
  case True
  then show ?thesis using S w(1) n(3)
    by (auto simp: at_sign_def intro!: exI[of _ r] exI[of _ \<rho>] exI[of _ F] exI[of _ "[]"] grows_refl)
next
  case False
  show ?thesis unfolding read_ivar_list_loop
    using read_loop_ok[OF ok og sets_ivars_apply w(1) S calm[OF False] b w(2,3) n(1)] n(2,3) by simp
qed

lemma apply_ivars_ok:
  assumes ok: "value_ok g H B wr (rdv f g) f" and og: "out_grows wr" and S: "Sim g H B \<rho> U F s r" and b: "b \<in> U"
    and calm: "n_ivars n \<noteq> [] \<Longrightarrow> calm H \<rho> U" and n: "list_all (wf_value g H) (map snd (n_ivars n))" "wf_names (map fst (n_ivars n))" "n_ivars (r_heap r ! b) = []" "enc_ok eo"
    and iv: "is = enc_ivars eo @ own_ivars n" "is \<noteq> []"
    and w: "write_ivars wr is s = Inr s'" "prefix (w_out s') B" "length (w_out s') \<le> length (w_out s) + f"
  shows "\<exists>r' \<rho>' F' ys. apply_ivars (rdv f g) (VRef b) r = Inr ((), r') \<and> Sim g H B \<rho>' U F' s' r' \<and> grows {b} \<rho> F r \<rho>' F' r' \<and>
    r_heap r' ! b = (tagged eo (r_heap r ! b))\<lparr>n_ivars := ys\<rparr> \<and> list_all2 (fmatch \<rho>') (n_ivars n) ys"
proof -
  define s1 where "s1 = write_long (int (length is)) s"
  let ?l = "marshal_long (int (length is))" let ?r = "adv (length ?l) r"
  obtain s2 where s2: "write_iv_list wr (enc_ivars eo) s1 = Inr s2" "write_named wr (at_sign (n_ivars n)) s2 = Inr s'"
    using w(1) iv(2) by (auto simp: write_ivars_def iv(1) write_iv_list_append write_iv_list_own bindE_Inr s1_def)
  have p12: "prefix (w_out s1) (w_out s2)" using later_iv_list[OF og, of s1 "enc_ivars eo"] s2(1) by (simp add: later_def)
  have p2: "prefix (w_out s2) (w_out s')" by (rule out_named[OF og s2(2)])
  have l1: "length (w_out s1) = length (w_out s) + length ?l" by (simp add: s1_def write_long_put)
  have room1: "length (w_out s') \<le> length (w_out s1) + f" using w(3) l1 by simp
  note room = split_room[OF p12 p2 room1 w(2)]
  have len: "length is \<le> Suc (length (n_ivars n))" by (cases rule: enc_ivars_cases[of eo]) (simp_all add: iv(1) own_ivars_def)
  have "0 < length ?l" by simp
  then have "length is \<le> length (w_out s')" using len out_count_named[OF og s2(2)] prefix_length_le[OF p12] l1 unfolding at_sign_def length_map by linarith
  then have "long_ok (int (length is))" using prefix_length_le[OF w(2)] S by (simp add: long_ok_def Sim_def synced_def)
  from Sim_long[OF S _ this] prefix_order.trans[OF p12 room(3)]
  have L: "read_long r = Inr (int (length is), ?r)" "Sim g H B \<rho> U F s1 ?r" by (simp_all add: s1_def write_long_put)
  have G1: "grows {b} \<rho> F r \<rho> F ?r" by (simp add: grows_still)
  show ?thesis
  proof (cases rule: enc_ivars_cases[of eo])
    case none
    have w1: "write_named wr (at_sign (n_ivars n)) s1 = Inr s'" using s2 by (simp add: none)
    have ni: "n_ivars (r_heap ?r ! b) = []" using n(3) by simp
    obtain r' \<rho>' F' ys where r': "read_ivar_list (rdv f g) (length (n_ivars n)) (VRef b) ?r = Inr ((), r')" "Sim g H B \<rho>' U F' s' r'"
      "grows {b} \<rho> F ?r \<rho>' F' r'" "r_heap r' ! b = (r_heap ?r ! b)\<lparr>n_ivars := ys\<rparr>" "list_all2 (fmatch \<rho>') (n_ivars n) ys"
      using own_loop_ok[OF ok og L(2) b calm n(1,2) ni w1 w(2) room1] by blast
    have "apply_ivars (rdv f g) (VRef b) r = Inr ((), r')" using L(1) r'(1) by (simp add: apply_ivars_def iv(1) none own_ivars_def)
    moreover have "grows {b} \<rho> F r \<rho>' F' r'" by (rule grows_trans_same[OF G1 r'(3)])
    ultimately show ?thesis using r'(2,4,5) none by auto
  next
    case (some e i)
    have e: "find_encoding (enc_name e) = Some e" using n(4) some(1,3) not_binary by (auto simp: enc_ok_def encoding_ivar_def split: if_splits)
    have wi: "write_iv wr i s1 = Inr s2" using s2(1) by (auto simp: some(2) bindE_Inr)
    obtain nm r0 u r1 r2 F2 where r2: "read_symbol_name ?r = Inr (nm, r0)" "rdv f g r0 = Inr (u, r1)" "apply_ivar (VRef b) nm u r1 = Inr ((), r2)"
      "Sim g H B \<rho> U F2 s2 r2" "grows {b} \<rho> F ?r \<rho> F2 r2" "r_heap r2 ! b = retag e (r_heap ?r ! b)"
      by (rule encoding_ivar_ok[OF L(2) b some(3) e wi room(3,1)])
    have ni: "n_ivars (r_heap r2 ! b) = []" using n(3) r2(6) by simp
    obtain r' \<rho>' F' ys where r': "read_ivar_list (rdv f g) (length (n_ivars n)) (VRef b) r2 = Inr ((), r')" "Sim g H B \<rho>' U F' s' r'"
      "grows {b} \<rho> F2 r2 \<rho>' F' r'" "r_heap r' ! b = (r_heap r2 ! b)\<lparr>n_ivars := ys\<rparr>" "list_all2 (fmatch \<rho>') (n_ivars n) ys"
      using own_loop_ok[OF ok og r2(4) b calm n(1,2) ni s2(2) w(2) room(2)] by blast
    have "apply_ivars (rdv f g) (VRef b) r = Inr ((), r')"
      using L(1) r2(1-3) r'(1) by (simp add: apply_ivars_def iv(1) some(2) own_ivars_def nat_add_distrib)
    moreover have "grows {b} \<rho> F r \<rho>' F' r'" by (rule grows_trans_same[OF G1 grows_trans_same[OF r2(5) r'(3)]])
    ultimately show ?thesis using r'(2,4,5) r2(6) some(4) by auto
  qed
qed

section \<open>A whole allocation\<close>

definition core_write :: "value_writer \<Rightarrow> class_table \<Rightarrow> nat \<Rightarrow> mbody \<Rightarrow> writer \<Rightarrow> merror + writer" where
  "core_write wr g key b s =
     (case b of
        BVal (PStr bs e) \<Rightarrow> Inr (write_bytes bs (put [chr8 CHR ''\"''] (register_link key s)))
      | BVal (PRegexp src ic ex ml) \<Rightarrow> Inr (put [regexp_options ic ex ml] (write_bytes src (put [chr8 CHR ''/''] (register_link key s))))
      | BVal (PArr vs) \<Rightarrow> write_all wr vs (write_long (int (length vs)) (put [chr8 CHR ''[''] (register_link key s)))
      | BVal (PHash rows d proc) \<Rightarrow>
          bindE (write_all wr (flat_pairs rows)
            (write_long (int (length rows)) (put [if d \<noteq> VNil then chr8 CHR ''}'' else chr8 CHR ''{''] (register_link key s))))
            (\<lambda>s. if d \<noteq> VNil then wr d s else Inr s)
      | BSub c p \<Rightarrow> bindE (nameable g c) (\<lambda>name. write_builtin_body wr p (write_symbol name (put [chr8 CHR ''C''] (register_link key s))))
      | _ \<Rightarrow> Inl OutOfFuel)"

definition enc_of :: "mbody \<Rightarrow> nat option" where
  "enc_of b =
     (case b of
        BVal (PStr bs e) \<Rightarrow> Some e
      | BVal (PRegexp src ic ex ml) \<Rightarrow> Some (if is_ascii src then US_ASCII else UTF_8)
      | BSub c (PStr bs e) \<Rightarrow> Some e
      | _ \<Rightarrow> None)"

definition wrapped :: "mnode \<Rightarrow> iv list" where
  "wrapped n = enc_ivars (enc_of (n_body n)) @ own_ivars n"

lemma bindE_assoc: "bindE (bindE m f) h = bindE m (\<lambda>x. bindE (f x) h)"
  by (cases m) simp_all

lemma write_object_core:
  assumes "wf_body g H n" "core_payload (n_body n) \<noteq> None"
  shows "write_object wr g key n s = bindE (core_write wr g key (n_body n) (wrap_ivars (wrapped n) s)) (write_ivars wr (wrapped n))"
proof -
  consider bs e where "n_body n = BVal (PStr bs e)" | src ic ex ml where "n_body n = BVal (PRegexp src ic ex ml)" "n_ivars n = []"
    | vs where "n_body n = BVal (PArr vs)" | rows d where "n_body n = BVal (PHash rows d False)" | c p where "n_body n = BSub c p"
    using assms by (auto simp: wf_body_def core_payload_def wf_payload_def split: mbody.splits mpayload.splits)
  then show ?thesis
  proof cases
    case (5 c p)
    have "(case p of PStr bs e \<Rightarrow> encoding_ivar e | _ \<Rightarrow> []) @ own_ivars n = wrapped n"
      by (cases p) (simp_all add: wrapped_def enc_of_def enc_ivars_def 5)
    then show ?thesis by (simp add: write_object_def core_write_def 5 bindE_assoc Let_def)
  qed (simp_all add: write_object_def write_value_def core_write_def wrapped_def enc_of_def enc_ivars_def own_ivars_def register_writes bindE_assoc Let_def)
qed

lemma core_begun:
  assumes wf: "wf_graph g H" and ok: "\<And>f. value_ok g H B wr (rdv f g) f" and og: "out_grows wr"
    and S: "Sim g H B \<rho> U F s r" and a: "a < length H" "map_of (w_links s) (g_ptr g a) = None" and calm: "calm H \<rho> U"
    and n: "core_payload (n_body (H ! a)) \<noteq> None"
    and s': "core_write wr g (g_ptr g a) (n_body (H ! a)) s = Inr s'" "prefix (w_out s') B" "length (w_out s') \<le> length (w_out s) + f"
  shows "begun g H B \<rho> U F r a s' (rdv f g r) (\<lambda>\<rho>' F' h n. half H \<rho>' F' h (n_body (H ! a)) n)"
proof -
  have nd: "wf_body g H (H ! a)" "list_all (wf_value g H) (node_values (H ! a))" using wf_graph_node[OF wf a(1)] by (simp_all add: wf_node_def)
  consider (str) bs e where "n_body (H ! a) = BVal (PStr bs e)" | (re) src ic ex ml where "n_body (H ! a) = BVal (PRegexp src ic ex ml)"
    | (arr) vs where "n_body (H ! a) = BVal (PArr vs)" | (hash) rows d where "n_body (H ! a) = BVal (PHash rows d False)" | (sub) c p where "n_body (H ! a) = BSub c p"
    using n nd(1) by (auto simp: wf_body_def core_payload_def wf_payload_def split: mbody.splits mpayload.splits)
  then show ?thesis
  proof cases
    case str
    then have "s' = write_bytes bs (put [chr8 CHR ''\"''] (register_link (g_ptr g a) s))" using s'(1) by (simp add: core_write_def)
    from string_begun[OF wf S a this s'(2,3), of e] show ?thesis by (simp add: str)
  next
    case re
    have "valid_utf8 src" "g_regexp g src" using nd(1) by (simp_all add: re wf_body_def wf_payload_def)
    moreover have "s' = put [regexp_options ic ex ml] (write_bytes src (put [chr8 CHR ''/''] (register_link (g_ptr g a) s)))"
      using s'(1) by (simp add: core_write_def re)
    ultimately show ?thesis using regexp_begun[OF wf S a _ _ _ s'(2,3)] unfolding re by blast
  next
    case arr
    have "list_all (wf_value g H) vs" using nd(2) by (simp add: arr node_values_def held_values_def)
    then show ?thesis using array_begun[OF wf ok og S a calm arr _ _ s'(2,3)] s'(1) by (simp add: core_write_def arr)
  next
    case hash
    have h: "list_all (wf_value g H) (flat_pairs rows)" "wf_value g H d" "distinct (map (hkey_of H \<circ> fst) rows)" "list_all (wf_key H \<circ> fst) rows"
      using nd by (simp_all add: hash node_values_def held_values_def wf_body_def wf_payload_def)
    obtain s2 where "write_all wr (flat_pairs rows) (write_long (int (length rows)) (put [if d \<noteq> VNil then chr8 CHR ''}'' else chr8 CHR ''{'']
        (register_link (g_ptr g a) s))) = Inr s2" "(if d \<noteq> VNil then wr d s2 else Inr s2) = Inr s'"
      using s'(1) unfolding core_write_def hash mbody.case mpayload.case bindE_Inr by blast
    from hash_begun[OF wf ok og S a calm hash h this s'(2,3)] show ?thesis by (simp add: hash)
  next
    case sub
    obtain name where nm: "nameable g c = Inr name" using s'(1) by (auto simp: core_write_def sub bindE_Inr)
    have c: "list_all (wf_value g H) (held_values p)" "wf_payload g H p" "class_ok g c" "g_value_root g c" "case p of PHash rows d proc \<Rightarrow> d = VNil | _ \<Rightarrow> True"
      using nd by (simp_all add: sub node_values_def wf_body_def)
    from subclass_begun[OF wf ok og S a calm sub c nm _ s'(2,3)] s'(1) show ?thesis by (simp add: sub core_write_def nm)
  qed
qed

lemma half_tagged:
  assumes "half H \<rho> F h b n" "core_payload b \<noteq> None"
  shows "bmatch H \<rho> F h b (n_body (tagged (enc_of b) n))"
proof -
  obtain p where p: "core_payload b = Some p" using assms(2) by blast
  show ?thesis
    using assms(1) p by (cases b; cases p)
      (auto simp: core_payload_def half_def raw_def raw_payload_def bmatch_def pmatch_def tagged_def enc_of_def retag_def)
qed

text \<open>An allocation is copied: its node is complete, and nothing else is left under construction.\<close>

definition copied ::
  "class_table \<Rightarrow> mnode list \<Rightarrow> octets \<Rightarrow> amap \<Rightarrow> nat set \<Rightarrow> nat set \<Rightarrow> reader \<Rightarrow> mval \<Rightarrow> writer \<Rightarrow> merror + mval \<times> reader \<Rightarrow> bool" where
  "copied g H B \<rho> U F r v s' m \<longleftrightarrow>
     (\<exists>v' r' \<rho>' F'. m = Inr (v', r') \<and> Sim g H B \<rho>' U F' s' r' \<and> grows {} \<rho> F r \<rho>' F' r' \<and> vmatch \<rho>' v v')"

lemma begun_copied:
  assumes S: "Sim g H B \<rho> U F s r" and m: "begun g H B \<rho> U F r a s' m (\<lambda>\<rho>' F' h n. nmatch H \<rho>' F' h (H ! a) n)"
  shows "copied g H B \<rho> U F r (VRef a) s' m"
proof -
  obtain b r' \<rho>' F' where b: "m = Inr (VRef b, r')" "Sim g H B \<rho>' (insert b U) F' s' r'" "grows {} \<rho> F r \<rho>' F' r'" "\<rho>' a = Some b"
    "length (r_heap r) \<le> b" "nmatch H \<rho>' F' (r_heap r') (H ! a) (r_heap r' ! b)" using m unfolding begun_def by blast
  have "b \<notin> U" using b(5) Sim_bounds(3)[OF S, of b] by auto
  moreover have "Sim g H B \<rho>' (insert b U - {b}) F' s' r'"
  proof (rule Sim_close[OF b(2)])
    fix a' assume "\<rho>' a' = Some b"
    then have "a' = a" using b(4) Sim_bounds(7)[OF b(2)] by blast
    then show "nmatch H \<rho>' F' (r_heap r') (H ! a') (r_heap r' ! b)" using b(6) by simp
  qed
  ultimately show ?thesis using b(1,3,4) unfolding copied_def by (fastforce simp: vmatch_def)
qed

lemma enc_names: "find_encoding (enc_name UTF_8) = Some UTF_8" "find_encoding (enc_name US_ASCII) = Some US_ASCII"
  by code_simp+

lemma later_core: "out_grows wr \<Longrightarrow> later s (core_write wr g key b s)"
proof -
  assume og: "out_grows wr"
  have "later s (bindE (nameable g c) (\<lambda>name. write_builtin_body wr p (write_symbol name (put bs (register_link key s)))))" for c p bs
    using og by (cases "nameable g c") (auto intro: later_from[OF later_body])
  then show ?thesis
    by (cases b; (rename_tac p, case_tac p)?)
      (auto simp: core_write_def og later_wr intro!: later_bind intro: later_from[OF later_all[OF og]])
qed

text \<open>The nodes under construction before a copy was entered stay calm after it.\<close>

lemma calm_open:
  assumes "calm H \<rho> U" "Sim g H B \<rho> U F s r" "grows X \<rho> F r \<rho>' F' r'" "Sim g H B \<rho>' (insert b U) F' s' r'"
  shows "calm H \<rho>' U"
  unfolding calm_def
proof (intro allI impI)
  fix a c assume a: "\<rho>' a = Some c" "c \<in> U"
  then have "c < length (r_heap r)" using Sim_bounds(3)[OF assms(2)] by blast
  moreover have "c \<in> ran \<rho>'" using a(1) by (auto simp: ran_def)
  ultimately have "c \<in> ran \<rho>" using growsD(7)[OF assms(3)] by force
  then obtain d where d: "\<rho> d = Some c" by (auto simp: ran_def)
  with growsD(8)[OF assms(3)] a Sim_bounds(7)[OF assms(4)] have "d = a" by blast
  with d a(2) assms(1) show "\<not> plain_string (H ! a)" unfolding calm_def by blast
qed

lemma wrapped_ok:
  assumes wf: "wf_graph g H" and ok: "\<And>f. value_ok g H B wr (rdv f g) f" and og: "out_grows wr"
    and S: "Sim g H B \<rho> U F s r" and a: "a < length H" "map_of (w_links s) (g_ptr g a) = None" and calm: "calm H \<rho> U"
    and n: "core_payload (n_body (H ! a)) \<noteq> None"
    and s': "write_object wr g (g_ptr g a) (H ! a) s = Inr s'" "prefix (w_out s') B" "length (w_out s') \<le> length (w_out s) + f"
  shows "begun g H B \<rho> U F r a s' (rdv f g r) (\<lambda>\<rho>' F' h n. nmatch H \<rho>' F' h (H ! a) n)"
proof -
  let ?n = "H ! a" let ?is = "wrapped (H ! a)"
  have nd: "wf_body g H ?n" "list_all (wf_value g H) (node_values ?n)" "wf_names (map fst (n_ivars ?n))"
    using wf_graph_node[OF wf a(1)] by (simp_all add: wf_node_def)
  have ext: "n_ext ?n = []" using n nd(1) by (auto simp: wf_body_def core_payload_def split: mbody.splits)
  have iv: "list_all (wf_value g H) (map snd (n_ivars ?n))" using nd(2) by (simp add: node_values_def)
  have enc: "enc_ok (enc_of (n_body ?n))" using n nd(1) not_binary enc_names
    by (auto simp: wf_body_def core_payload_def wf_payload_def enc_of_def enc_ok_def split: mbody.splits mpayload.splits)
  obtain s1 where w: "core_write wr g (g_ptr g a) (n_body ?n) (wrap_ivars ?is s) = Inr s1" "write_ivars wr ?is s1 = Inr s'"
    using s'(1) unfolding write_object_core[OF nd(1) n] bindE_Inr by blast
  have p1: "prefix (w_out s1) (w_out s')" using later_ivars[OF og, of s1 ?is] w(2) by (simp add: later_def)
  show ?thesis
  proof (cases "?is = []")
    case True
    then have e: "wrap_ivars ?is s = s" "s1 = s'" "n_ivars ?n = []" "\<And>x. tagged (enc_of (n_body ?n)) x = x"
      using w(2) by (simp_all add: wrap_ivars_def write_ivars_def wrapped_def own_ivars_def) (cases rule: enc_ivars_cases[of "enc_of (n_body ?n)"]; simp)
    have "begun g H B \<rho> U F r a s' (rdv f g r) (\<lambda>\<rho>' F' h n. half H \<rho>' F' h (n_body ?n) n)"
      using core_begun[OF wf ok og S a calm n _ s'(2,3)] w(1) e by simp
    then show ?thesis unfolding begun_def using half_tagged[OF _ n] e ext by (fastforce simp: nmatch_def half_def)
  next
    case False
    let ?t = "chr8 CHR ''I''"
    have wr: "wrap_ivars ?is s = put [?t] s" using False by (simp add: wrap_ivars_def)
    have "later (put [?t] s) (Inr s1)" unfolding w(1)[symmetric] wr by (rule later_core[OF og])
    then have p0: "prefix (w_out (put [?t] s)) (w_out s1)" using leads_prefix[of "put [?t] s" s1] by simp
    obtain f' where f: "f = Suc f'" "rdv f g r = read_tag (Suc f') g ?t (adv 1 r)" "Sim g H B \<rho> U F (put [?t] s) (adv 1 r)"
      "length (w_out s') \<le> length (w_out (put [?t] s)) + f'" by (rule rdv_tag[OF S s'(2) prefix_order.trans[OF p0 p1] s'(3)])
    note room = split_room[OF p0 p1 f(4) s'(2)]
    have "begun g H B \<rho> U F (adv 1 r) a s1 (rdv f' g (adv 1 r)) (\<lambda>\<rho>' F' h n. half H \<rho>' F' h (n_body ?n) n)"
      using core_begun[OF wf ok og f(3) a(1) _ calm n _ room(3,1)] a(2) w(1) wr by simp
    then obtain b r1 \<rho>1 F1 where r1: "rdv f' g (adv 1 r) = Inr (VRef b, r1)" "Sim g H B \<rho>1 (insert b U) F1 s1 r1" "grows {} \<rho> F (adv 1 r) \<rho>1 F1 r1"
      "\<rho>1 a = Some b" "length (r_heap r) \<le> b" "half H \<rho>1 F1 (r_heap r1) (n_body ?n) (r_heap r1 ! b)" unfolding begun_def by auto
    have G1: "grows {} \<rho> F r \<rho>1 F1 r1" using r1(3) by (simp add: grows_def)
    have bU: "b \<notin> U" using r1(5) Sim_bounds(3)[OF S, of b] by auto
    have calm1: "calm H \<rho>1 (insert b U)" if "n_ivars ?n \<noteq> []"
    proof -
      have "\<not> plain_string ?n" using that by (simp add: plain_string_def)
      moreover have "a' = a" if "\<rho>1 a' = Some b" for a' using that r1(4) Sim_bounds(7)[OF r1(2)] by blast
      moreover have "calm H \<rho>1 U" by (rule calm_open[OF calm S G1 r1(2)])
      ultimately show ?thesis unfolding calm_def by blast
    qed
    have ni: "n_ivars (r_heap r1 ! b) = []" using r1(6) by (simp add: half_def)
    obtain r' \<rho>' F' ys where r': "apply_ivars (rdv f' g) (VRef b) r1 = Inr ((), r')" "Sim g H B \<rho>' (insert b U) F' s' r'" "grows {b} \<rho>1 F1 r1 \<rho>' F' r'"
      "r_heap r' ! b = (tagged (enc_of (n_body ?n)) (r_heap r1 ! b))\<lparr>n_ivars := ys\<rparr>" "list_all2 (fmatch \<rho>') (n_ivars ?n) ys"
      using apply_ivars_ok[OF ok og r1(2) _ calm1 iv nd(3) ni enc _ False w(2) s'(2) room(2)] by (auto simp: wrapped_def)
    have "rdv f g r = Inr (VRef b, r')" unfolding f(2) read_tag_simps using r1(1) r'(1) by simp
    moreover have "grows {} \<rho> F r \<rho>' F' r'" using G1 r'(3) by (rule grows_trans) (simp add: r1(5))
    moreover have "nmatch H \<rho>' F' (r_heap r') ?n (r_heap r' ! b)"
    proof -
      have F: "F1 \<subseteq> {..<length (r_heap r1)}" "b \<notin> F1" using Sim_bounds(1,4)[OF r1(2)] by auto
      have "bmatch H \<rho>' F' (r_heap r') (n_body ?n) (n_body (tagged (enc_of (n_body ?n)) (r_heap r1 ! b)))"
        by (rule bmatch_mono[OF growsD(1)[OF r'(3)] growsD(2)[OF r'(3)] _ half_tagged[OF r1(6) n]]) (use F growsD(4)[OF r'(3)] in auto)
      moreover have "n_ext (tagged (enc_of (n_body ?n)) (r_heap r1 ! b)) = []" "\<not> n_singleton (tagged (enc_of (n_body ?n)) (r_heap r1 ! b))"
        using r1(6) by (simp_all add: half_def tagged_def split: option.splits)
      ultimately show ?thesis using r'(4,5) ext by (simp add: nmatch_def)
    qed
    moreover have "\<rho>' a = Some b" by (rule growsD(8)[OF r'(3) r1(4)])
    ultimately show ?thesis using r'(2) r1(5) unfolding begun_def by blast
  qed
qed

lemma plain_copied:
  assumes wf: "wf_graph g H" and ok: "\<And>f. value_ok g H B wr (rdv f g) f" and og: "out_grows wr"
    and S: "Sim g H B \<rho> U F s r" and a: "a < length H" "map_of (w_links s) (g_ptr g a) = None" and calm: "calm H \<rho> U"
    and n: "n_body (H ! a) = BPlain c"
    and s': "write_object wr g (g_ptr g a) (H ! a) s = Inr s'" "prefix (w_out s') B" "length (w_out s') \<le> length (w_out s) + f"
  shows "begun g H B \<rho> U F r a s' (rdv f g r) (\<lambda>\<rho>' F' h n. nmatch H \<rho>' F' h (H ! a) n)"
proof -
  let ?n = "H ! a"
  have nd: "plain_ok g c" "distinct (n_ext ?n)" "list_all (module_ok g) (n_ext ?n)" "wf_names (map fst (n_ivars ?n))"
    "list_all (wf_value g H) (map snd (n_ivars ?n))" "\<not> plain_string ?n"
    using wf_graph_node[OF wf a(1)] n by (simp_all add: wf_node_def wf_body_def node_values_def plain_string_def)
  obtain name where nm: "nameable g c = Inr name" using s'(1) by (auto simp: write_object_def n bindE_Inr)
  have "write_named wr (at_sign (n_ivars ?n)) (write_long (int (length (n_ivars ?n))) (write_symbol name (put [chr8 CHR ''o'']
      (register_link (g_ptr g a) (write_extends g (n_ext ?n) s))))) = Inr s'" using s'(1) by (simp add: write_object_def n nm at_sign_def)
  from extended_begun[OF wf ok og a(1) calm nd(6,5,4,1) nm s'(2) S a(2) nd(2,3) this s'(3)] show ?thesis
    unfolding begun_def by (fastforce simp: plain_done_def nmatch_def bmatch_def n)
qed

lemma object_copied:
  assumes wf: "wf_graph g H" and ok: "\<And>f. value_ok g H B wr (rdv f g) f" and og: "out_grows wr"
    and S: "Sim g H B \<rho> U F s r" and a: "a < length H" "map_of (w_links s) (g_ptr g a) = None" and calm: "calm H \<rho> U"
    and s': "write_object wr g (g_ptr g a) (H ! a) s = Inr s'" "prefix (w_out s') B" "length (w_out s') \<le> length (w_out s) + f"
  shows "copied g H B \<rho> U F r (VRef a) s' (rdv f g r)"
proof (rule begun_copied[OF S])
  have "wf_body g H (H ! a)" using wf_graph_node[OF wf a(1)] by (simp add: wf_node_def)
  then consider "core_payload (n_body (H ! a)) \<noteq> None" | c where "n_body (H ! a) = BPlain c"
    by (auto simp: wf_body_def core_payload_def split: mbody.splits)
  then show "begun g H B \<rho> U F r a s' (rdv f g r) (\<lambda>\<rho>' F' h n. nmatch H \<rho>' F' h (H ! a) n)"
    by cases (rule wrapped_ok[OF wf ok og S a calm _ s'], assumption, rule plain_copied[OF wf ok og S a calm _ s'])
qed

section \<open>Links\<close>

lemma link_copied:
  assumes S: "Sim g H B \<rho> U F s r" and k: "map_of (w_links s) k = Some i" and v: "i < length (r_objects r)" "vmatch \<rho> v (r_objects r ! i)"
    and s': "s' = write_long (int i) (put [chr8 CHR ''@''] s)" "prefix (w_out s') B" "length (w_out s') \<le> length (w_out s) + f"
  shows "copied g H B \<rho> U F r v s' (rdv f g r)"
proof -
  let ?t = "chr8 CHR ''@''" let ?l = "marshal_long (int i)"
  obtain f' where f: "rdv f g r = read_tag (Suc f') g ?t (adv 1 r)" "Sim g H B \<rho> U F (put [?t] s) (adv 1 r)"
    using rdv_tag[OF S s'(2), of ?t] s'(3) by (auto simp: s'(1) write_long_put)
  have "prefix (w_out s) B" using s'(2) by (auto simp: s'(1) write_long_put prefix_def)
  then have "long_ok (int i)" using v(1) S prefix_length_le[of "w_out s" B] by (simp add: long_ok_def Sim_def synced_def)
  note L = Sim_long[OF f(2) _ this]
  have "rdv f g r = Inr (r_objects r ! i, adv (length ?l) (adv 1 r))"
    unfolding f(1) read_tag_simps using L(1) s'(2) v(1) by (simp add: object_link_def s'(1) write_long_put del: adv_adv)
  moreover have "Sim g H B \<rho> U F s' (adv (length ?l) (adv 1 r))" using L(2) s'(2) by (simp add: s'(1) write_long_put)
  moreover have "grows {} \<rho> F r \<rho> F (adv (length ?l) (adv 1 r))" by (simp add: grows_still)
  ultimately show ?thesis using v(2) unfolding copied_def by blast
qed

lemma copied_linked:
  assumes S: "Sim g H B \<rho> U F s r" and s': "linked k s w = Inr s'" "prefix (w_out s') B" "length (w_out s') \<le> length (w_out s) + f"
    and old: "\<And>i. map_of (w_links s) k = Some i \<Longrightarrow> i < length (r_objects r) \<and> vmatch \<rho> v (r_objects r ! i)"
    and new: "map_of (w_links s) k = None \<Longrightarrow> w s = Inr s' \<Longrightarrow> copied g H B \<rho> U F r v s' (rdv f g r)"
  shows "copied g H B \<rho> U F r v s' (rdv f g r)"
proof (cases "map_of (w_links s) k")
  case (Some i)
  then show ?thesis using link_copied[OF S Some _ _ _ s'(2,3)] old s'(1) by (simp add: linked_def check_link_def)
next
  case None
  then show ?thesis using new s'(1) by (simp add: linked_def check_link_def)
qed

section \<open>Immediate values\<close>

lemma copied_still:
  assumes "rdv f g r = Inr (v, r')" "Sim g H B \<rho> U F s' r'" "prefix (r_objects r) (r_objects r')" "r_heap r' = r_heap r" "vmatch \<rho> v v"
  shows "copied g H B \<rho> U F r v s' (rdv f g r)"
proof -
  have "grows {} \<rho> F r \<rho> F r'" using assms(3,4) by (simp add: grows_def)
  with assms(1,2,5) show ?thesis unfolding copied_def by blast
qed

lemma tag_copied:
  assumes S: "Sim g H B \<rho> U F s r" and s': "s' = put [t] s" "prefix (w_out s') B" "length (w_out s') \<le> length (w_out s) + f"
    and t: "\<And>f. read_tag (Suc f) g t = ret v" and v: "vmatch \<rho> v v"
  shows "copied g H B \<rho> U F r v s' (rdv f g r)"
proof -
  obtain f' where f: "rdv f g r = read_tag (Suc f') g t (adv 1 r)" "Sim g H B \<rho> U F s' (adv 1 r)"
    using rdv_tag[OF S s'(2), of t] s'(3) by (auto simp: s'(1))
  then show ?thesis using t v by (intro copied_still[OF _ f(2)]) simp_all
qed

lemma symbol_copied:
  assumes S: "Sim g H B \<rho> U F s r" and n: "valid_utf8 n" and s': "s' = write_symbol n s" "prefix (w_out s') B" "length (w_out s') \<le> length (w_out s) + f"
  shows "copied g H B \<rho> U F r (VSym n) s' (rdv f g r)"
proof -
  obtain r' where r': "read_symbol_name r = Inr (n, r')" "Sim g H B \<rho> U F s' r'" "r_objects r' = r_objects r" "r_heap r' = r_heap r"
    using Sim_symbol[OF S _ n] s' by blast
  obtain f' where f: "f = Suc f'" using s'(3) symbol_bytes_long(2)[of "w_symbols s" n] by (cases f) (auto simp: s'(1) write_symbol_eq)
  have "rdv f g r = Inr (VSym n, r')"
    using r'(1) unfolding f read_symbol_name_def rdv_def andthen_def
    by (auto simp: read_tag_simps[unfolded of_char_eq_iff] fail_def andthen_def split: sum.splits if_splits)
  from copied_still[OF this r'(2)] show ?thesis using r'(3,4) by (simp add: vmatch_def)
qed

lemma int_copied:
  assumes S: "Sim g H B \<rho> U F s r" and n: "fits_i32 n" and s': "s' = write_long n (put [chr8 CHR ''i''] s)" "prefix (w_out s') B" "length (w_out s') \<le> length (w_out s) + f"
  shows "copied g H B \<rho> U F r (VInt n) s' (rdv f g r)"
proof -
  let ?t = "chr8 CHR ''i''" let ?l = "marshal_long n"
  obtain f' where f: "rdv f g r = read_tag (Suc f') g ?t (adv 1 r)" "Sim g H B \<rho> U F (put [?t] s) (adv 1 r)"
    using rdv_tag[OF S s'(2), of ?t] s'(3) by (auto simp: s'(1) write_long_put)
  have "long_ok n" using n by (simp add: long_ok_def fits_i32_def)
  note L = Sim_long[OF f(2) _ this]
  have "rdv f g r = Inr (VInt n, adv (length ?l) (adv 1 r))"
    unfolding f(1) read_tag_simps using L(1) s'(2) by (simp add: s'(1) write_long_put del: adv_adv)
  from copied_still[OF this, of H B \<rho> U F s'] show ?thesis using L(2) s'(2) by (simp add: s'(1) write_long_put vmatch_def)
qed

lemma bignum_copied:
  assumes S: "Sim g H B \<rho> U F s r" and n: "bigint_to_value b = v" and s': "s' = write_bignum b s" "prefix (w_out s') B" "length (w_out s') \<le> length (w_out s) + f"
  shows "copied g H B \<rho> U F r v s' (rdv f g r)"
proof -
  let ?t = "chr8 CHR ''l''" let ?l = "bignum_bytes b"
  have p: "prefix (w_out s @ [?t] @ ?l) B" using s'(2) by (simp add: s'(1) write_bignum_eq)
  obtain f' where f: "rdv f g r = read_tag (Suc f') g ?t (adv 1 r)" "Sim g H B \<rho> U F (put [?t] s) (adv 1 r)" "w_next s < length (w_out (put [?t] s))"
    using rdv_tag[OF S s'(2), of ?t] s'(3) by (auto simp: s'(1) write_bignum_eq)
  have small: "int (length ?l) < 2 ^ 40" using Sim_small[OF S, of "w_out s @ [?t]" ?l] p by simp
  have "ahead ?l (adv 1 r)" using ahead_synced[OF Sim_synced[OF f(2)]] p by simp
  from read_bignum_eats[OF small this]
  have "rdv f g r = Inr (v, (adv (length ?l) (adv 1 r))\<lparr>r_objects := r_objects r @ [v]\<rparr>)"
    unfolding f(1) read_tag_simps n by simp
  moreover have "Sim g H B \<rho> U F (count_link (put ?l (put [?t] s))) ((adv (length ?l) (adv 1 r))\<lparr>r_objects := r_objects r @ [v]\<rparr>)"
    using Sim_count(2)[OF Sim_put[OF f(2), of ?l], of v] f(3) by simp
  moreover have "count_link (put ?l (put [?t] s)) = s'" by (simp add: s'(1) write_bignum_eq put_def count_link_def)
  moreover have "vmatch \<rho> v v" unfolding n[symmetric] by (simp add: vmatch_def bigint_to_value_def)
  ultimately show ?thesis using copied_still[of f g r v _ H B \<rho> U F s'] by simp
qed

lemma float_copied:
  assumes S: "Sim g H B \<rho> U F s r" and x: "wf_float x"
    and s': "s' = write_bytes (float_to_marshal x) (put [chr8 CHR ''f''] (count_link s))" "prefix (w_out s') B" "length (w_out s') \<le> length (w_out s) + f"
  shows "copied g H B \<rho> U F r (VFloat x) s' (rdv f g r)"
proof -
  let ?t = "chr8 CHR ''f''" let ?bs = "float_to_marshal x" let ?l = "marshal_long (int (length ?bs)) @ ?bs"
  have p: "prefix (w_out s @ [?t] @ ?l) B" using s'(2) by (simp add: s'(1) write_bytes_put)
  obtain f' where f: "rdv f g r = read_tag (Suc f') g ?t (adv 1 r)" "Sim g H B \<rho> U F (put [?t] s) (adv 1 r)" "w_next s < length (w_out (put [?t] s))"
    using rdv_tag[OF S s'(2), of ?t] s'(3) by (auto simp: s'(1) write_bytes_put)
  note b = Sim_bytes[OF f(2), of ?bs]
  have S2: "Sim g H B \<rho> U F (write_bytes ?bs (put [?t] s)) (adv (length ?l) (adv 1 r))" using b(2) p by simp
  have C: "push_object (VFloat x) (adv (length ?l) (adv 1 r)) = Inr (w_next s, (adv (length ?l) (adv 1 r))\<lparr>r_objects := r_objects r @ [VFloat x]\<rparr>)"
    "Sim g H B \<rho> U F (count_link (write_bytes ?bs (put [?t] s))) ((adv (length ?l) (adv 1 r))\<lparr>r_objects := r_objects r @ [VFloat x]\<rparr>)"
    using Sim_count[OF S2, of "VFloat x"] f(3) by (simp_all add: write_bytes_put)
  have "rdv f g r = Inr (VFloat x, (adv (length ?l) (adv 1 r))\<lparr>r_objects := r_objects r @ [VFloat x]\<rparr>)"
    unfolding f(1) read_tag_simps using b(1) p C(1) by (simp add: float_round_trip[OF x] Let_def del: adv_adv)
  moreover have "count_link (write_bytes ?bs (put [?t] s)) = s'" by (simp add: s'(1) write_bytes_put put_def count_link_def)
  ultimately show ?thesis using C(2) copied_still[of f g r "VFloat x" _ H B \<rho> U F s'] by (simp add: vmatch_def)
qed

lemma class_copied:
  assumes S: "Sim g H B \<rho> U F s r" and c: "class_ok g c" "c \<notin> g_ptr g ` {..<length H}"
    and s': "bindE (nameable g c) (\<lambda>name. Inr (write_bytes name (put [if g_module g c then chr8 CHR ''m'' else chr8 CHR ''c''] (register_link c s)))) = Inr s'"
      "prefix (w_out s') B" "length (w_out s') \<le> length (w_out s) + f"
  shows "copied g H B \<rho> U F r (VClass c) s' (rdv f g r)"
proof -
  let ?t = "if g_module g c then chr8 CHR ''m'' else chr8 CHR ''c''"
  obtain n where n: "nameable g c = Inr n" "s' = write_bytes n (put [?t] (register_link c s))" using s'(1) by (auto simp: bindE_Inr)
  note name = class_name[OF c(1) n(1)]
  let ?l = "marshal_long (int (length n)) @ n"
  have p: "prefix (w_out s @ [?t] @ ?l) B" using s'(2) by (simp add: n(2) write_bytes_put)
  obtain f' where f: "rdv f g r = read_tag (Suc f') g ?t (adv 1 r)" "Sim g H B \<rho> U F (put [?t] s) (adv 1 r)" "w_next s < length (w_out (put [?t] s))"
    using rdv_tag[OF S s'(2), of ?t] s'(3) by (auto simp: n(2) write_bytes_put)
  note b = Sim_bytes[OF f(2), of n]
  let ?r1 = "adv (length ?l) (adv 1 r)" let ?r2 = "?r1\<lparr>r_objects := r_objects r @ [VClass c]\<rparr>"
  have S1: "Sim g H B \<rho> U F (write_bytes n (put [?t] s)) ?r1" using b(2) p by simp
  have "read_tag (Suc f') g ?t = read_class_ref g" by (cases "g_module g c") (simp_all only: if_True if_False read_tag_simps)
  then have "rdv f g r = Inr (VClass c, ?r2)"
    unfolding f(1) using b(1) p name lossy_valid[of n] by (simp add: read_class_ref_def read_class_def push_object_def del: adv_adv)
  moreover have "Sim g H B \<rho> U F s' ?r2"
    using S1 f(3) tables_class[OF Sim_tables[OF S1] c(2)] unfolding Sim_def synced_def by (simp add: n(2) write_bytes_put)
  ultimately show ?thesis using copied_still[of f g r "VClass c" _ H B \<rho> U F s'] by (simp add: vmatch_def)
qed

section \<open>Rationals and complex numbers\<close>

lemma inline_ok:
  assumes ok: "\<And>f. value_ok g H B wr (rdv f g) f" and og: "out_grows wr" and S: "Sim g H B \<rho> U F s r" and calm: "calm H \<rho> U"
    and vs: "list_all (wf_value g H) vs" "list_all wf_number vs"
    and s': "write_inline_array wr vs s = Inr s'" "prefix (w_out s') B" "length (w_out s') \<le> length (w_out s) + f"
  obtains c r' \<rho>' F' where "rdv f g r = Inr (VRef c, r')" "Sim g H B \<rho>' U F' s' r'" "grows {} \<rho> F r \<rho>' F' r'" "n_body (r_heap r' ! c) = BVal (PArr vs)"
proof -
  let ?t = "chr8 CHR ''[''" let ?l = "marshal_long (int (length vs))" let ?b = "length (r_heap r)" let ?n = "new_node (BVal (PArr []))"
  define s1 where "s1 = write_long (int (length vs)) (put [?t] (count_link s))"
  have w: "write_all wr vs s1 = Inr s'" using s'(1) by (simp add: write_inline_array_def s1_def)
  have p1: "prefix (w_out s @ [?t] @ ?l) (w_out s')" using out_all[OF og w] by (simp add: s1_def write_long_put)
  then have p: "prefix (w_out (put [?t] s)) (w_out s')" by (auto simp: prefix_def)
  obtain f' where f: "rdv f g r = read_tag (Suc f') g ?t (adv 1 r)" "Sim g H B \<rho> U F (put [?t] s) (adv 1 r)"
    "length (w_out s') \<le> length (w_out (put [?t] s)) + f'" "w_next (put [?t] s) < length (w_out (put [?t] s))"
    by (rule rdv_tag[OF S s'(2) p s'(3)])
  have sw: "count_link (put [?t] s) = put [?t] (count_link s)" by (simp add: count_link_def put_def)
  have E: "Sim g H B \<rho> (insert ?b U) F (put [?t] (count_link s)) (entered (r_objects r) ?n (adv 1 r))"
    using Sim_count(2)[OF Sim_alloc(1)[OF f(2), of ?n] f(4), of "VRef ?b"] unfolding sw by (simp add: entered_def)
  have pl: "prefix (w_out (put [?t] (count_link s)) @ ?l) B" using prefix_order.trans[OF p1 s'(2)] by simp
  have "long_ok (int (length vs))" using out_count[OF og w] prefix_length_le[OF s'(2)] S by (simp add: long_ok_def Sim_def synced_def)
  note L = Sim_long[OF E pl this]
  let ?r2 = "adv (length ?l) (entered (r_objects r) ?n (adv 1 r))"
  have L2: "Sim g H B \<rho> (insert ?b U) F s1 ?r2" using L(2) by (simp add: s1_def)
  have fresh: "\<rho> a \<noteq> Some ?b" for a using Sim_bounds(2)[OF S, of a ?b] by auto
  then have calm1: "calm H \<rho> (insert ?b U)" using calm by (auto simp: calm_def)
  have room: "length (w_out s') \<le> length (w_out s1) + f'" using f(3) by (simp add: s1_def write_long_put)
  have pn: "core_payload (n_body (r_heap ?r2 ! ?b)) = Some (PArr [])" by (simp add: core_payload_def new_node_def)
  obtain r' \<rho>' F' ws where r': "read_elems (rdv f' g) (length vs) ?b ?r2 = Inr ((), r')" "Sim g H B \<rho>' (insert ?b U) F' s' r'"
    "grows {?b} \<rho> F ?r2 \<rho>' F' r'" "r_heap r' ! ?b = with_payload (PArr ([] @ ws)) (r_heap ?r2 ! ?b)" "list_all2 (vmatch \<rho>') vs ws"
    using read_elems_ok[OF ok og w L2 calm1 _ s'(2) room vs(1) pn] by auto
  have m: "rdv f g r = Inr (VRef ?b, r')"
    unfolding f(1) read_tag_simps using L(1) r'(1) by (simp add: read_array_def new_ref_def push_object_def entered_def)
  have G: "grows {} \<rho> F r \<rho>' F' r'"
  proof (rule grows_trans)
    show "grows {} \<rho> F r \<rho> F ?r2" by (auto simp: grows_def nth_append)
    show "grows {?b} \<rho> F ?r2 \<rho>' F' r'" by (rule r'(3))
  qed simp
  have "\<rho>' a \<noteq> Some ?b" for a
  proof
    assume "\<rho>' a = Some ?b"
    then have "?b \<in> ran \<rho>'" by (auto simp: ran_def)
    then have "?b \<in> ran \<rho>" using growsD(7)[OF r'(3)] by fastforce
    then show False using fresh by (auto simp: ran_def)
  qed
  then have "Sim g H B \<rho>' (insert ?b U - {?b}) F' s' r'" by (intro Sim_close[OF r'(2)]) blast
  moreover have "?b \<notin> U" using Sim_bounds(3)[OF S, of ?b] by auto
  ultimately have S': "Sim g H B \<rho>' U F' s' r'" by simp
  have "ws = vs" using r'(5) vs(2)
  proof (induction rule: list_all2_induct)
    case (Cons v vs w ws)
    then show ?case by (cases v) (auto simp: vmatch_def wf_number_def)
  qed simp
  then have "n_body (r_heap r' ! ?b) = BVal (PArr vs)" using r'(4) by (simp add: with_payload_def new_node_def)
  with m S' G show thesis using that by blast
qed

lemma wf_number_value: "wf_number v \<Longrightarrow> wf_value g H v"
  by (cases v) (simp_all add: wf_value_def wf_number_def)

lemma wf_number_int: "wf_number (bigint_to_value n)"
  by (simp add: wf_number_def bigint_to_value_def)

text \<open>The arm of the reader that rebuilds a number from the two parts.\<close>

definition rebuild :: "octets \<Rightarrow> mval list \<Rightarrow> mval rd" where
  "rebuild cls vs =
     (if cls = ascii ''Rational'' then andthen (to_bigint (elem_at vs 0)) (\<lambda>n. andthen (to_bigint (elem_at vs 1)) (\<lambda>d. rational_new n d))
      else complex_new (elem_at vs 0) (elem_at vs 1))"

lemma number_copied:
  assumes ok: "\<And>f. value_ok g H B wr (rdv f g) f" and og: "out_grows wr" and S: "Sim g H B \<rho> U F s r" and calm: "calm H \<rho> U"
    and vs: "list_all wf_number vs" and cls: "cls = ascii ''Rational'' \<or> cls = ascii ''Complex''" "valid_utf8 cls"
    and v: "\<And>r. rebuild cls vs r = Inr (v, r)" "vmatch Map.empty v v"
    and s': "write_inline_array wr vs (write_symbol cls (put [chr8 CHR ''U''] (count_link s))) = Inr s'" "prefix (w_out s') B" "length (w_out s') \<le> length (w_out s) + f"
  shows "copied g H B \<rho> U F r v s' (rdv f g r)"
proof -
  let ?t = "chr8 CHR ''U''"
  define s1 where "s1 = write_symbol cls (put [?t] (count_link s))"
  have w: "write_inline_array wr vs s1 = Inr s'" using s'(1) by (simp add: s1_def)
  have "sooner s1 (Inr s')" unfolding w[symmetric] by (rule sooner_inline[OF og]) simp
  then have p1: "prefix (w_out s1) (w_out s')" by (simp add: strict_prefix_def)
  have p0: "prefix (w_out s @ [?t]) (w_out s1)" by (simp add: s1_def write_symbol_eq)
  then have p: "prefix (w_out (put [?t] s)) (w_out s')" using prefix_order.trans[OF p0 p1] by simp
  obtain f' where f: "rdv f g r = read_tag (Suc f') g ?t (adv 1 r)" "Sim g H B \<rho> U F (put [?t] s) (adv 1 r)"
    "length (w_out s') \<le> length (w_out (put [?t] s)) + f'" "w_next (put [?t] s) < length (w_out (put [?t] s))"
    by (rule rdv_tag[OF S s'(2) p s'(3)])
  define r1 where "r1 = (adv 1 r)\<lparr>r_objects := r_objects r @ [VNil]\<rparr>"
  have sw: "count_link (put [?t] s) = put [?t] (count_link s)" by (simp add: count_link_def put_def)
  have C: "push_object VNil (adv 1 r) = Inr (w_next s, r1)" "Sim g H B \<rho> U F (put [?t] (count_link s)) r1"
    using Sim_count[OF f(2,4), of VNil] unfolding sw by (simp_all add: r1_def)
  obtain r2 where r2: "read_symbol_name r1 = Inr (cls, r2)" "Sim g H B \<rho> U F s1 r2" "r_objects r2 = r_objects r1" "r_heap r2 = r_heap r1"
    using Sim_symbol[OF C(2) _ cls(2)] prefix_order.trans[OF p1 s'(2)] unfolding s1_def by blast
  have objs: "r_objects r2 = r_objects r @ [VNil]" "r_heap r2 = r_heap r" "length (r_objects r) = w_next s"
    using r2(3,4) S by (simp_all add: r1_def Sim_def synced_def)
  have room: "length (w_out s') \<le> length (w_out s1) + f'" using f(3) prefix_length_le[OF p0] by simp
  have wv: "list_all (wf_value g H) vs" using vs by (auto simp: list_all_iff wf_number_value)
  obtain c r3 \<rho>3 F3 where r3: "rdv f' g r2 = Inr (VRef c, r3)" "Sim g H B \<rho>3 U F3 s' r3" "grows {} \<rho> F r2 \<rho>3 F3 r3" "n_body (r_heap r3 ! c) = BVal (PArr vs)"
    by (rule inline_ok[OF ok og r2(2) calm wv vs w s'(2) room])
  let ?r4 = "r3\<lparr>r_objects := (r_objects r3)[w_next s := v]\<rparr>"
  have nil: "r_objects r3 ! w_next s = VNil" using growsD(5)[OF r3(3), of "w_next s"] objs by (metis length_append_singleton lessI nth_append_length)
  have "rebuild cls vs r3 = Inr (v, r3)" by (rule v(1))
  then have m: "rdv f g r = Inr (v, ?r4)"
    unfolding f(1) read_tag_simps using C(1) r2(1) r3(1,4) cls(1)
    by (auto simp: read_number_def set_object_def rebuild_def andthen_def ret_def split: sum.splits)
  have "Sim g H B \<rho>3 U F3 s' ?r4" using r3(2) tables_set[OF Sim_tables[OF r3(2)] nil, of v] by (simp add: Sim_def synced_def)
  moreover have "grows {} \<rho> F r \<rho>3 F3 ?r4"
  proof -
    obtain zs where "r_objects r3 = (r_objects r @ [VNil]) @ zs" using r3(3) objs(1) by (auto simp: grows_def prefix_def)
    then have "(r_objects r3)[w_next s := v] = r_objects r @ v # zs" using objs(3) by (metis append.assoc append_Cons append_Nil list_update_length)
    then show ?thesis using r3(3) objs(2) by (simp add: grows_def)
  qed
  moreover have "vmatch \<rho>3 v v" using v(2) by (cases v) (auto simp: vmatch_def)
  ultimately show ?thesis using m unfolding copied_def by blast
qed

lemma number_names: "valid_utf8 (ascii ''Rational'')" "valid_utf8 (ascii ''Complex'')" "ascii ''Complex'' \<noteq> ascii ''Rational''"
  by code_simp+

lemma rebuild_rational:
  assumes "wf_number (VRational n d)"
  shows "rebuild (ascii ''Rational'') [bigint_to_value n, bigint_to_value d] r = Inr (VRational n d, r)"
  using assms by (auto simp: rebuild_def elem_at_def to_bigint_def bigint_to_value_def rational_new_def wf_number_def Let_def)

lemma rebuild_complex:
  assumes "wf_number x" "wf_number y"
  shows "rebuild (ascii ''Complex'') [x, y] r = Inr (VComplex x y, r)"
proof -
  have "is_component x" "is_component y" using assms by (auto simp: is_component_def wf_number_def split: mval.splits)
  then show ?thesis using number_names(3) by (simp add: rebuild_def elem_at_def complex_new_def)
qed

section \<open>Every value\<close>

lemma linked_object:
  assumes "Sim g H B \<rho> U F s r" "a < length H" "map_of (w_links s) (g_ptr g a) = Some i"
  shows "i < length (r_objects r) \<and> vmatch \<rho> (VRef a) (r_objects r ! i)"
proof -
  have "case map_of (w_links s) (g_ptr g a) of Some i \<Rightarrow> i < length (r_objects r) \<and> (\<exists>b. \<rho> a = Some b \<and> r_objects r ! i = VRef b) | None \<Rightarrow> \<rho> a = None"
    using Sim_tables[OF assms(1)] assms(2) unfolding tables_def links_ok_def by blast
  then show ?thesis using assms(3) by (auto simp: vmatch_def)
qed

lemma inner_copied:
  assumes wf: "wf_graph g H" and ok: "\<And>f. value_ok g H B wr (rdv f g) f" and og: "out_grows wr"
    and S: "Sim g H B \<rho> U F s r" and calm: "calm H \<rho> U" and v: "wf_value g H v"
    and s': "write_inner wr g H v s = Inr s'" "prefix (w_out s') B" "length (w_out s') \<le> length (w_out s) + f"
  shows "copied g H B \<rho> U F r v s' (rdv f g r)"
proof (cases v)
  case VNil
  then show ?thesis using tag_copied[OF S _ s'(2,3) read_tag_simps(1)] s'(1) by (simp add: write_inner_def vmatch_def)
next
  case (VBool b)
  then show ?thesis using tag_copied[OF S _ s'(2,3) read_tag_simps(2)] tag_copied[OF S _ s'(2,3) read_tag_simps(3)] s'(1)
    by (cases b) (simp_all add: write_inner_def vmatch_def)
next
  case (VInt n)
  have "bigint_to_value n = VInt n" using v by (simp add: VInt wf_value_def wf_number_def bigint_to_value_def)
  then show ?thesis using int_copied[OF S _ _ s'(2,3), of n] bignum_copied[OF S _ _ s'(2,3), of n] s'(1)
    by (cases "fits_i32 n") (simp_all add: VInt write_inner_def)
next
  case (VBig n)
  have "bigint_to_value n = VBig n" using v by (simp add: VBig wf_value_def wf_number_def bigint_to_value_def)
  then show ?thesis using bignum_copied[OF S _ _ s'(2,3), of n] s'(1) by (simp add: VBig write_inner_def)
next
  case (VSym n)
  then show ?thesis using symbol_copied[OF S _ _ s'(2,3), of n] v s'(1) by (simp add: write_inner_def wf_value_def)
next
  case (VFloat x)
  then show ?thesis using float_copied[OF S _ _ s'(2,3), of x] v s'(1) by (simp add: write_inner_def wf_value_def wf_number_def)
next
  case (VRef a)
  have a: "a < length H" using v by (simp add: VRef wf_value_def)
  have w: "linked (g_ptr g a) s (write_object wr g (g_ptr g a) (H ! a)) = Inr s'" using s'(1) by (simp add: VRef write_inner_def ptr_of_def)
  have "i < length (r_objects r) \<and> vmatch \<rho> (VRef a) (r_objects r ! i)" if "map_of (w_links s) (g_ptr g a) = Some i" for i
    using linked_object[OF S a that] .
  from copied_linked[OF S w s'(2,3) this object_copied[OF wf ok og S a _ calm _ s'(2,3)]] show ?thesis unfolding VRef by blast
next
  case (VClass c)
  have c: "class_ok g c" "c \<notin> g_ptr g ` {..<length H}" using v by (auto simp: VClass wf_value_def lessThan_atLeast0)
  have w: "linked c s (\<lambda>s. bindE (nameable g c) (\<lambda>name. Inr (write_bytes name
      (put [if g_module g c then chr8 CHR ''m'' else chr8 CHR ''c''] (register_link c s))))) = Inr s'"
    using s'(1) by (simp add: VClass write_inner_def)
  have "i < length (r_objects r) \<and> vmatch \<rho> (VClass c) (r_objects r ! i)" if "map_of (w_links s) c = Some i" for i
    using Sim_tables[OF S] c(2) that unfolding tables_def links_ok_def by (auto simp: vmatch_def)
  from copied_linked[OF S w s'(2,3) this class_copied[OF S c _ s'(2,3)]] show ?thesis unfolding VClass by blast
next
  case (VRational n d)
  have x: "wf_number (VRational n d)" using v by (simp add: VRational wf_value_def)
  show ?thesis unfolding VRational
    by (rule number_copied[OF ok og S calm, of "[bigint_to_value n, bigint_to_value d]" "ascii ''Rational''", OF _ _ number_names(1) rebuild_rational[OF x] _ _ s'(2,3)])
      (use s'(1) in \<open>simp_all add: VRational write_inner_def wf_number_int vmatch_def\<close>)
next
  case (VComplex x y)
  have xy: "wf_number x" "wf_number y" using v by (simp_all add: VComplex wf_value_def)
  show ?thesis unfolding VComplex
    by (rule number_copied[OF ok og S calm, of "[x, y]" "ascii ''Complex''", OF _ _ number_names(2) rebuild_complex[OF xy] _ _ s'(2,3)])
      (use s'(1) xy in \<open>simp_all add: VComplex write_inner_def vmatch_def\<close>)
qed (use v in \<open>simp_all add: wf_value_def wf_number_def\<close>)

lemma write_val_ok: "wf_graph g H \<Longrightarrow> value_ok g H B (write_val k g H) (rdv f g) f"
proof (induction k arbitrary: f)
  case (Suc k)
  show ?case unfolding value_ok_def
  proof (intro allI impI)
    fix v s s' r \<rho> U F
    assume w: "write_val (Suc k) g H v s = Inr s'" "Sim g H B \<rho> U F s r" "calm H \<rho> U" "wf_value g H v" "prefix (w_out s') B" "length (w_out s') \<le> length (w_out s) + f"
    then obtain s1 where s1: "write_inner (write_val k g H) g H v (s\<lparr>w_depth := w_depth s + 1\<rparr>) = Inr s1" "s' = s1\<lparr>w_depth := w_depth s1 - 1\<rparr>"
      by (auto simp: bindE_Inr split: if_splits option.splits)
    have "copied g H B \<rho> U F r v s1 (rdv f g r)"
      using inner_copied[OF Suc.prems Suc.IH[OF Suc.prems] write_val_grows _ w(3,4) s1(1)] w(2,5,6) s1(2) by simp
    then show "\<exists>v' r' \<rho>' F'. rdv f g r = Inr (v', r') \<and> Sim g H B \<rho>' U F' s' r' \<and> grows {} \<rho> F r \<rho>' F' r' \<and> vmatch \<rho>' v v'"
      unfolding copied_def s1(2) by simp
  qed
qed (simp add: value_ok_def)

text \<open>A heap with a cycle, sharing, an extended object, string keys, a subclass, and strings of three encodings.\<close>

definition demo :: class_table where
  "demo =
     \<lparr>g_name = map_of [(0, ascii ''Object''), (1, ascii ''P''), (2, ascii ''A''), (3, ascii ''B''), (4, ascii ''S''), (5, ascii ''L'')],
      g_module = (\<lambda>c. c = 2 \<or> c = 3),
      g_lookup = map_of [(ascii ''Object'', 0), (ascii ''P'', 1), (ascii ''A'', 2), (ascii ''B'', 3), (ascii ''S'', 4), (ascii ''L'', 5)],
      g_ancestors = (\<lambda>c. [c, 0]),
      g_blank = (\<lambda>c. if c = 1 then Some (BPlain 1) else None),
      g_members = (\<lambda>c. if c = 4 then Some [ascii ''a''] else None),
      g_value_root = (\<lambda>c. c = 5),
      g_regexp = (\<lambda>s. True),
      g_ptr = (\<lambda>a. 64 + a)\<rparr>"

definition demo_heap :: "mnode list" where
  "demo_heap =
     [(new_node (BPlain 1))\<lparr>n_ivars := [(ascii ''x'', VRef 0), (ascii ''y'', VRef 1)], n_ext := [2]\<rparr>,
      new_node (BVal (PHash [(VInt 300, VRef 2), (VRef 3, VRef 1)] (VSym (ascii ''x'')) False)),
      new_node (BVal (PArr [VFloat (FDec True [1, 2, 5] 1), VRef 4, VRational (-3) 7, VClass 0, VRef 2, VRef 5])),
      new_node (BVal (PStr [200, 65] 39)),
      (new_node (BVal (PStr (ascii ''ab'') UTF_8)))\<lparr>n_ivars := [(ascii ''z'', VNil)]\<rparr>,
      new_node (BSub 5 (PArr [VRef 4, VBool True]))]"

definition demo_bytes :: octets where
  "demo_bytes =
     [4, 8, 101, 58, 6, 65, 111, 58, 6, 80, 7, 58, 7, 64, 120, 64, 0, 58, 7, 64, 121, 125, 7, 105, 2, 44, 1, 91, 11, 102, 10, 45, 49, 50,
      46, 53, 73, 34, 7, 97, 98, 7, 58, 6, 69, 84, 58, 7, 64, 122, 48, 85, 58, 13, 82, 97, 116, 105, 111, 110, 97, 108, 91, 7, 105, 248,
      105, 12, 99, 11, 79, 98, 106, 101, 99, 116, 64, 7, 67, 58, 6, 76, 91, 7, 64, 9, 84, 73, 34, 7, 200, 65, 6, 58, 13, 101, 110, 99,
      111, 100, 105, 110, 103, 34, 14, 83, 104, 105, 102, 116, 95, 74, 73, 83, 64, 6, 58, 6, 120]"

lemma demo_wf: "wf_graph demo demo_heap" "wf_value demo demo_heap (VRef 0)"
  by code_simp+

lemma demo_dump: "dump demo demo_heap (VRef 0) None = Inr demo_bytes"
  by code_simp



end
