(* ===== verification/MarshalTotal.thy ===== *)
theory MarshalTotal
  imports MarshalRoundtrip
begin

text \<open>The writer and the reader always finish: the fuel of \<open>dump\<close> and of \<open>load\<close> is enough.\<close>

section \<open>The writer\<close>

text \<open>The error, if any, is one of \<open>E\<close>.\<close>

definition fails_in :: "merror set \<Rightarrow> merror + 'a \<Rightarrow> bool" where
  "fails_in E m = (case m of Inl e \<Rightarrow> e \<in> E | Inr x \<Rightarrow> True)"

lemma fails_in_simps [simp]: "fails_in E (Inl e) \<longleftrightarrow> e \<in> E" "fails_in E (Inr x)"
  by (simp_all add: fails_in_def)

lemma fails_in_bind: "fails_in E m \<Longrightarrow> (\<And>x. m = Inr x \<Longrightarrow> fails_in E (f x)) \<Longrightarrow> fails_in E (bindE m f)"
  by (cases m) simp_all

text \<open>Writing any of the values fails in \<open>E\<close> only, from every state after \<open>s\<close>.\<close>

definition tame_writer :: "merror set \<Rightarrow> value_writer \<Rightarrow> mval set \<Rightarrow> writer \<Rightarrow> bool" where
  "tame_writer E wr V s \<longleftrightarrow> (\<forall>v\<in>V. \<forall>s1. leads s s1 \<longrightarrow> fails_in E (wr v s1))"

lemma tame_writerD: "tame_writer E wr V s \<Longrightarrow> v \<in> V \<Longrightarrow> leads s s1 \<Longrightarrow> fails_in E (wr v s1)"
  by (simp add: tame_writer_def)

lemma tame_mono: "tame_writer E wr V s \<Longrightarrow> W \<subseteq> V \<Longrightarrow> leads s s1 \<Longrightarrow> tame_writer E wr W s1"
  unfolding tame_writer_def using leads_trans by blast

lemma fails_all:
  assumes og: "out_grows wr"
  shows "tame_writer E wr (set vs) s0 \<Longrightarrow> leads s0 s \<Longrightarrow> fails_in E (write_all wr vs s)"
proof (induction vs arbitrary: s)
  case (Cons v vs)
  have "fails_in E (wr v s)" by (rule tame_writerD[OF Cons.prems(1) _ Cons.prems(2)]) simp
  moreover have "fails_in E (write_all wr vs s1)" if "wr v s = Inr s1" for s1
    by (rule Cons.IH[OF tame_mono[OF Cons.prems(1)]]) (use leads_trans[OF Cons.prems(2) out_leads[OF og that]] in auto)
  ultimately show ?case by (simp add: fails_in_bind)
qed simp

lemma fails_named:
  assumes og: "out_grows wr"
  shows "tame_writer E wr (set (map snd xs)) s0 \<Longrightarrow> leads s0 s \<Longrightarrow> fails_in E (write_named wr xs s)"
proof (induction xs arbitrary: s)
  case (Cons x xs)
  obtain n v where x: "x = (n, v)" by (cases x)
  have l: "leads s0 (write_symbol n s)" using Cons.prems(2) by simp
  have "fails_in E (wr v (write_symbol n s))" by (rule tame_writerD[OF Cons.prems(1) _ l]) (simp add: x)
  moreover have "fails_in E (write_named wr xs s1)" if "wr v (write_symbol n s) = Inr s1" for s1
    by (rule Cons.IH[OF tame_mono[OF Cons.prems(1)]]) (use leads_trans[OF l out_leads[OF og that]] in auto)
  ultimately show ?case by (simp add: x fails_in_bind)
qed simp

definition iv_values :: "iv list \<Rightarrow> mval set" where
  "iv_values is = {v. \<exists>n. Named n v \<in> set is}"

lemma fails_ivars:
  assumes og: "out_grows wr" and t: "tame_writer E wr (iv_values is) s0" "leads s0 s"
  shows "fails_in E (write_ivars wr is s)"
proof -
  have "tame_writer E wr (iv_values is) s0 \<Longrightarrow> leads s0 s \<Longrightarrow> fails_in E (write_iv_list wr is s)" for s
  proof (induction "is" arbitrary: s)
    case (Cons i "is")
    have "fails_in E (write_iv wr i s)"
      using tame_writerD[OF Cons.prems(1), of _ "write_symbol _ s"] Cons.prems(2) by (cases i) (auto simp: write_iv_def iv_values_def)
    moreover have "fails_in E (write_iv_list wr is s1)" if "write_iv wr i s = Inr s1" for s1
    proof (rule Cons.IH[OF tame_mono[OF Cons.prems(1)]])
      show "leads s0 s1" using leads_trans[OF Cons.prems(2)] later_iv[OF og, of s i] that by (simp add: later_def)
    qed (auto simp: iv_values_def)
    ultimately show ?case by (simp add: fails_in_bind)
  qed simp
  then show ?thesis using t by (simp add: write_ivars_def)
qed

lemma iv_values_simps [simp]: "iv_values (encoding_ivar e) = {}" "iv_values (xs @ ys) = iv_values xs \<union> iv_values ys" "iv_values (own_ivars n) = set (map snd (n_ivars n))"
  "iv_values [Named x v] = {v}" "iv_values [] = {}"
  by (auto simp: iv_values_def encoding_ivar_def own_ivars_def image_iff; force)+

lemma leads_register: "leads s s1 \<Longrightarrow> leads (register_link k s) (register_link k s1)"
  by (auto simp: leads_def)

definition name_in :: "merror set \<Rightarrow> class_table \<Rightarrow> nat \<Rightarrow> bool" where
  "name_in E g c \<longleftrightarrow> fails_in E (nameable g c)"

definition body_in :: "merror set \<Rightarrow> class_table \<Rightarrow> mbody \<Rightarrow> bool" where
  "body_in E g b \<longleftrightarrow>
     (case body_class b of Some c \<Rightarrow> name_in E g c | None \<Rightarrow> True) \<and> (case b of BVal (PHash rows d proc) \<Rightarrow> proc \<longrightarrow> DefaultProc \<in> E | _ \<Rightarrow> True)"

lemma fails_value:
  assumes og: "out_grows wr" and t: "tame_writer E wr (set (map snd (n_ivars n)) \<union> set (held_values p)) (register_link key s)"
    and d: "case p of PHash rows d proc \<Rightarrow> proc \<longrightarrow> DefaultProc \<in> E | _ \<Rightarrow> True"
  shows "fails_in E (write_value wr key n p s)"
proof -
  let ?s = "register_link key s"
  have l: "leads ?s (register_link key (wrap_ivars is s))" "leads ?s (wrap_ivars is (register_link key s))" for "is"
    by (simp_all add: leads_register)
  have own: "fails_in E (write_ivars wr (own_ivars n) s1)" if "leads ?s s1" for s1
    by (rule fails_ivars[OF og tame_mono[OF t _ leads_refl] that]) auto
  show ?thesis
  proof (cases p)
    case (PStr bs e)
    have "fails_in E (write_ivars wr (encoding_ivar e @ own_ivars n) s1)" if "leads ?s s1" for s1
      by (rule fails_ivars[OF og tame_mono[OF t _ leads_refl] that]) auto
    then show ?thesis using l by (simp add: PStr write_value_def Let_def)
  next
    case (PRegexp src ic ex ml)
    have "fails_in E (write_ivars wr (encoding_ivar e) s1)" if "leads ?s s1" for s1 e
      by (rule fails_ivars[OF og tame_mono[OF t _ leads_refl] that]) auto
    then show ?thesis using l by (simp add: PRegexp write_value_def Let_def)
  next
    case (PArr vs)
    let ?s1 = "write_long (int (length vs)) (put [chr8 CHR ''[''] (register_link key (wrap_ivars (own_ivars n) s)))"
    have l1: "leads ?s ?s1" using l by simp
    have "fails_in E (write_all wr vs ?s1)" by (rule fails_all[OF og tame_mono[OF t _ leads_refl] l1]) (simp add: PArr held_values_def)
    moreover have "leads ?s s2" if "write_all wr vs ?s1 = Inr s2" for s2 by (rule leads_trans[OF l1 leads_all[OF og that]])
    ultimately have "fails_in E (bindE (write_all wr vs ?s1) (write_ivars wr (own_ivars n)))" using own by (intro fails_in_bind) blast+
    then show ?thesis by (simp add: PArr write_value_def Let_def)
  next
    case (PHash rows d proc)
    let ?s1 = "write_long (int (length rows)) (put [if d \<noteq> VNil then chr8 CHR ''}'' else chr8 CHR ''{''] (wrap_ivars (own_ivars n) ?s))"
    have l1: "leads ?s ?s1" using l by simp
    have "fails_in E (write_all wr (flat_pairs rows) ?s1)"
      by (rule fails_all[OF og tame_mono[OF t _ leads_refl] l1]) (auto simp: PHash held_values_def)
    moreover have l2: "leads ?s s2" if "write_all wr (flat_pairs rows) ?s1 = Inr s2" for s2 by (rule leads_trans[OF l1 leads_all[OF og that]])
    moreover have "fails_in E (if d \<noteq> VNil then wr d s2 else Inr s2)" if "leads ?s s2" for s2
      using tame_writerD[OF t _ that, of d] by (simp add: PHash held_values_def)
    moreover have "leads ?s s3" if "leads ?s s2" "(if d \<noteq> VNil then wr d s2 else Inr s2) = Inr s3" for s2 s3
      using that leads_trans[OF that(1)] out_leads[OF og, of d s2 s3] by (auto split: if_splits)
    ultimately have "fails_in E (bindE (write_all wr (flat_pairs rows) ?s1) (\<lambda>s2. bindE (if d \<noteq> VNil then wr d s2 else Inr s2) (write_ivars wr (own_ivars n))))"
      using own by (intro fails_in_bind) blast+
    moreover have "write_value wr key n p s = (if proc then Inl DefaultProc else
        bindE (write_all wr (flat_pairs rows) ?s1) (\<lambda>s2. bindE (if d \<noteq> VNil then wr d s2 else Inr s2) (write_ivars wr (own_ivars n))))"
      unfolding PHash write_value_def mpayload.case Let_def ..
    ultimately show ?thesis using d by (simp add: PHash)
  qed
qed

lemma fails_object:
  assumes og: "out_grows wr" and t: "tame_writer E wr (set (node_values n)) (register_link key s)" and b: "body_in E g (n_body n)"
  shows "fails_in E (write_object wr g key n s)"
proof -
  let ?s = "register_link key s"
  have named: "fails_in E (bindE (nameable g c) f)" if "name_in E g c" "\<And>name. fails_in E (f name)" for c f
    using that by (intro fails_in_bind) (simp_all add: name_in_def)
  show ?thesis
  proof (cases "n_body n")
    case (BVal p)
    then show ?thesis using fails_value[OF og tame_mono[OF t _ leads_refl], of n p] b
      by (auto simp: write_object_def node_values_def body_in_def split: mpayload.splits)
  next
    case (BSub c p)
    have l: "leads ?s (register_link key (wrap_ivars is s))" for "is" by (simp add: leads_register)
    have content: "fails_in E (write_builtin_body wr p s1)" if "leads ?s s1" for s1
      using fails_all[OF og tame_mono[OF t _ leads_refl], of _ s1] that
      by (cases p) (auto simp: write_builtin_body_def BSub node_values_def held_values_def intro!: fails_all[OF og tame_mono[OF t _ leads_refl]])
    have ivs: "fails_in E (write_ivars wr ((case p of PStr bs e \<Rightarrow> encoding_ivar e | _ \<Rightarrow> []) @ own_ivars n) s1)" if "leads ?s s1" for s1
      by (rule fails_ivars[OF og tame_mono[OF t _ leads_refl] that]) (auto simp: node_values_def split: mpayload.splits)
    have lb: "leads ?s s2" if "leads ?s s1" "write_builtin_body wr p s1 = Inr s2" for s1 s2
      using leads_trans[OF that(1)] later_body[OF og, of s1 p] that(2) by (simp add: later_def)
    have "fails_in E (bindE (write_builtin_body wr p s1) (write_ivars wr ((case p of PStr bs e \<Rightarrow> encoding_ivar e | _ \<Rightarrow> []) @ own_ivars n)))"
      if "leads ?s s1" for s1
      using fails_in_bind[OF content[OF that] ivs[OF lb[OF that]]] .
    then show ?thesis using b l by (simp add: write_object_def BSub body_in_def body_class_def Let_def named)
  next
    case (BPlain c)
    have "fails_in E (write_named wr (map (\<lambda>(x, v). (64 # x, v)) (n_ivars n)) s1)" if "leads ?s s1" for s1
      by (rule fails_named[OF og tame_mono[OF t _ leads_refl] that]) (force simp: node_values_def BPlain)
    moreover have "leads ?s (register_link key (write_extends g (n_ext n) s))" by (simp add: leads_register leads_extends)
    ultimately show ?thesis using b by (auto simp: write_object_def BPlain body_in_def body_class_def intro!: named)
  next
    case (BStruct c ms)
    have "fails_in E (write_named wr ms s1)" if "leads ?s s1" for s1
      by (rule fails_named[OF og tame_mono[OF t _ leads_refl] that]) (simp add: node_values_def BStruct)
    then show ?thesis using b by (auto simp: write_object_def BStruct body_in_def body_class_def intro!: named)
  next
    case (BSet c h)
    have "fails_in E (write_ivars wr [Named (ascii ''@hash'') (VRef h)] s1)" if "leads ?s s1" for s1
      by (rule fails_ivars[OF og tame_mono[OF t _ leads_refl] that]) (simp add: node_values_def BSet)
    then show ?thesis using b by (auto simp: write_object_def BSet body_in_def body_class_def intro!: named)
  qed
qed

text \<open>The allocations not yet written, with the values they hold.\<close>

definition cost :: "class_table \<Rightarrow> mnode list \<Rightarrow> writer \<Rightarrow> nat" where
  "cost g H s = (\<Sum>a<length H. if map_of (w_links s) (g_ptr g a) = None then Suc (vsizes (node_values (H ! a))) else 0)"

lemma cost_leads: "leads s s1 \<Longrightarrow> cost g H s1 \<le> cost g H s"
proof -
  assume l: "leads s s1"
  have "map_of (w_links s) k = None" if "map_of (w_links s1) k = None" for k
    using that l by (auto simp: leads_def map_of_eq_None_iff)
  then show ?thesis unfolding cost_def by (intro sum_mono) auto
qed

lemma cost_register:
  assumes "a < length H" "map_of (w_links s) (g_ptr g a) = None"
  shows "cost g H (register_link (g_ptr g a) s) + Suc (vsizes (node_values (H ! a))) \<le> cost g H s"
proof -
  let ?c = "\<lambda>s b. if map_of (w_links s) (g_ptr g b) = None then Suc (vsizes (node_values (H ! b))) else 0"
  let ?s1 = "register_link (g_ptr g a) s"
  have r: "sum (?c s) {..<length H} = ?c s a + sum (?c s) ({..<length H} - {a})" using assms(1) by (simp add: sum.remove[of _ a])
  have r1: "sum (?c ?s1) {..<length H} = ?c ?s1 a + sum (?c ?s1) ({..<length H} - {a})" using assms(1) by (simp add: sum.remove[of _ a])
  have "sum (?c ?s1) ({..<length H} - {a}) \<le> sum (?c s) ({..<length H} - {a})" by (intro sum_mono) auto
  then show ?thesis unfolding cost_def r r1 using assms(2) by simp
qed

primrec tolerable :: "merror set \<Rightarrow> class_table \<Rightarrow> mnode list \<Rightarrow> mval \<Rightarrow> bool" where
  "tolerable E g H VNil = True"
| "tolerable E g H (VBool b) = True"
| "tolerable E g H (VInt n) = True"
| "tolerable E g H (VBig n) = True"
| "tolerable E g H (VSym n) = True"
| "tolerable E g H (VFloat f) = True"
| "tolerable E g H (VRef a) = (a < length H)"
| "tolerable E g H (VRange lo hi x) \<longleftrightarrow>
     (case map_option (tolerable E g H) lo of Some b \<Rightarrow> b | None \<Rightarrow> True) \<and> (case map_option (tolerable E g H) hi of Some b \<Rightarrow> b | None \<Rightarrow> True)"
| "tolerable E g H (VClass c) = name_in E g c"
| "tolerable E g H (VRational n d) = True"
| "tolerable E g H (VComplex a b) \<longleftrightarrow> tolerable E g H a \<and> tolerable E g H b"
| "tolerable E g H (VOther c) \<longleftrightarrow> NoDumpData \<in> E \<and> (case refuse_class g c of Some e \<Rightarrow> e \<in> E | None \<Rightarrow> True)"

definition node_in :: "merror set \<Rightarrow> class_table \<Rightarrow> mnode list \<Rightarrow> mnode \<Rightarrow> bool" where
  "node_in E g H n \<longleftrightarrow>
     list_all (tolerable E g H) (node_values n) \<and> body_in E g (n_body n) \<and> (n_singleton n \<longrightarrow> SingletonMethods \<in> E) \<and>
     (case body_class (n_body n) of Some c \<Rightarrow> (case refuse_class g c of Some e \<Rightarrow> e \<in> E | None \<Rightarrow> True) | None \<Rightarrow> True)"

lemma vsize_pos: "0 < vsize v"
  by (cases v) simp_all

lemma vsize_in: "v \<in> set vs \<Longrightarrow> vsize v \<le> vsizes vs"
  unfolding vsizes_def by (auto intro!: member_le_sum_list)

lemma nil_or_size: "vsize (nil_or x) \<le> Suc (case map_option vsize x of Some k \<Rightarrow> k | None \<Rightarrow> 0)"
  "(case map_option (tolerable E g H) x of Some b \<Rightarrow> b | None \<Rightarrow> True) \<Longrightarrow> tolerable E g H (nil_or x)"
  by (cases x; simp add: nil_or_def)+

lemma fails_inner:
  assumes og: "out_grows wr" and H: "list_all (node_in E g H) H" and v: "tolerable E g H v"
    and wr: "\<And>u s1. cost g H s1 + vsize u < cost g H s + vsize v \<Longrightarrow> w_limit s1 = w_limit s \<Longrightarrow> tolerable E g H u \<Longrightarrow> fails_in E (wr u s1)"
  shows "fails_in E (write_inner wr g H v s)"
proof -
  have tame: "tame_writer E wr V s0" if "leads s s0" "\<And>u. u \<in> V \<Longrightarrow> vsize u < vsize v \<and> tolerable E g H u" for V s0
    unfolding tame_writer_def
  proof (intro ballI allI impI)
    fix u s1 assume u: "u \<in> V" "leads s0 s1"
    have l: "leads s s1" by (rule leads_trans[OF that(1) u(2)])
    show "fails_in E (wr u s1)" using cost_leads[OF l, of g H] that(2)[OF u(1)] l by (intro wr) (auto simp: leads_def)
  qed
  have link: "fails_in E (linked k s f)" if "map_of (w_links s) k = None \<Longrightarrow> fails_in E (f s)" for k f
    using that by (cases "map_of (w_links s) k") (simp_all add: linked_def check_link_def)
  have inline: "fails_in E (write_inline_array wr vs s1)" if "leads s s1" "\<And>u. u \<in> set vs \<Longrightarrow> vsize u < vsize v \<and> tolerable E g H u" for vs s1
    unfolding write_inline_array_def by (rule fails_all[OF og tame[OF that]]) simp_all
  show ?thesis
  proof (cases v)
    case (VRef a)
    have a: "a < length H" "node_in E g H (H ! a)" using v H by (simp_all add: VRef list_all_length)
    have "fails_in E (write_object wr g (g_ptr g a) (H ! a) s)" if n: "map_of (w_links s) (g_ptr g a) = None"
    proof (rule fails_object[OF og])
      show "body_in E g (n_body (H ! a))" using a(2) by (simp add: node_in_def)
      show "tame_writer E wr (set (node_values (H ! a))) (register_link (g_ptr g a) s)" unfolding tame_writer_def
      proof (intro ballI allI impI)
        fix u s1 assume u: "u \<in> set (node_values (H ! a))" "leads (register_link (g_ptr g a) s) s1"
        have "tolerable E g H u" using a(2) u(1) by (auto simp: node_in_def list_all_iff)
        moreover have "cost g H s1 + vsize u < cost g H s + vsize v"
          using cost_leads[OF u(2), of g H] cost_register[OF a(1) n] vsize_in[OF u(1)] by (simp add: VRef)
        moreover have "w_limit s1 = w_limit s" using u(2) by (simp add: leads_def)
        ultimately show "fails_in E (wr u s1)" using wr by blast
      qed
    qed
    then show ?thesis using link by (simp add: VRef write_inner_def ptr_of_def)
  next
    case (VRange lo hi x)
    have "fails_in E (write_range wr lo hi x k s)" for k
      unfolding write_range_def
    proof (rule fails_named[OF og tame[OF leads_refl]])
      fix u assume "u \<in> set (map snd [(ascii ''excl'', VBool x), (ascii ''begin'', nil_or lo), (ascii ''end'', nil_or hi)])"
      then show "vsize u < vsize v \<and> tolerable E g H u"
        using v nil_or_size(1)[of lo] nil_or_size(1)[of hi] nil_or_size(2)[of E g H lo] nil_or_size(2)[of E g H hi] by (auto simp: VRange)
    qed simp
    then show ?thesis using link by (simp add: VRange write_inner_def)
  next
    case (VClass c)
    then show ?thesis using v by (auto simp: write_inner_def name_in_def intro!: link fails_in_bind)
  next
    case (VRational n d)
    then show ?thesis by (auto simp: write_inner_def bigint_to_value_def intro!: inline)
  next
    case (VComplex a b)
    then show ?thesis using v vsize_pos[of a] vsize_pos[of b] by (auto simp: write_inner_def intro!: inline)
  qed (use v in \<open>simp_all add: write_inner_def\<close>)
qed

lemma refuse_in:
  assumes "list_all (node_in E g H) H" "tolerable E g H v" "refuse_undumpable g H v = Some e"
  shows "e \<in> E"
proof (cases v)
  case (VRef a)
  then have "node_in E g H (H ! a)" using assms(1,2) by (simp add: list_all_length)
  then show ?thesis using assms(3) by (auto simp: VRef refuse_undumpable_def node_in_def split: if_splits option.splits)
qed (use assms in \<open>auto simp: refuse_undumpable_def\<close>)

lemma write_has_fuel:
  assumes H: "list_all (node_in E g H) H"
  shows "cost g H s + vsize v < k \<Longrightarrow> tolerable E g H v \<Longrightarrow> w_limit s = None \<or> DepthLimit \<in> E \<Longrightarrow> fails_in E (write_val k g H v s)"
proof (induction k arbitrary: v s)
  case (Suc k)
  let ?s = "s\<lparr>w_depth := w_depth s + 1\<rparr>"
  have c: "cost g H ?s = cost g H s" by (simp add: cost_def)
  have "fails_in E (write_inner (write_val k g H) g H v ?s)"
  proof (rule fails_inner[OF write_val_grows H Suc.prems(2)])
    fix u s1 assume "cost g H s1 + vsize u < cost g H ?s + vsize v" "w_limit s1 = w_limit ?s" "tolerable E g H u"
    then show "fails_in E (write_val k g H u s1)" using Suc.prems c by (intro Suc.IH) auto
  qed
  then have "fails_in E (bindE (write_inner (write_val k g H) g H v ?s) (\<lambda>st'. Inr (st'\<lparr>w_depth := w_depth st' - 1\<rparr>)))"
    by (rule fails_in_bind) simp
  then show ?case using Suc.prems(3) refuse_in[OF H Suc.prems(2)] by (auto split: option.splits)
qed simp

lemma dump_fails_in:
  assumes "list_all (node_in E g H) H" "tolerable E g H v" "limit = None \<or> DepthLimit \<in> E"
  shows "fails_in E (dump g H v limit)"
proof -
  have "sum_list (map (\<lambda>n. Suc (vsizes (node_values n))) H) = (\<Sum>a<length H. Suc (vsizes (node_values (H ! a))))"
    by (simp add: sum_list_sum_nth atLeast0LessThan)
  then have "cost g H (put [4, 8] (new_writer limit)) + vsize v < dump_fuel H v" by (simp add: dump_fuel_def cost_def new_writer_def)
  then show ?thesis using assms unfolding dump_def
    by (intro fails_in_bind write_has_fuel) (auto simp: new_writer_def)
qed

text \<open>The errors a dump can end in.\<close>

definition dump_errors :: "merror set" where
  "dump_errors = {DepthLimit, SingletonMethods, CantDump, NoDumpData, DefaultProc, AnonymousClass, SingletonClass}"

primrec refs_in :: "mnode list \<Rightarrow> mval \<Rightarrow> bool" where
  "refs_in H VNil = True"
| "refs_in H (VBool b) = True"
| "refs_in H (VInt n) = True"
| "refs_in H (VBig n) = True"
| "refs_in H (VSym n) = True"
| "refs_in H (VFloat f) = True"
| "refs_in H (VRef a) = (a < length H)"
| "refs_in H (VRange lo hi x) \<longleftrightarrow>
     (case map_option (refs_in H) lo of Some b \<Rightarrow> b | None \<Rightarrow> True) \<and> (case map_option (refs_in H) hi of Some b \<Rightarrow> b | None \<Rightarrow> True)"
| "refs_in H (VClass c) = True"
| "refs_in H (VRational n d) = True"
| "refs_in H (VComplex a b) \<longleftrightarrow> refs_in H a \<and> refs_in H b"
| "refs_in H (VOther c) = True"

definition closed_heap :: "mnode list \<Rightarrow> bool" where
  "closed_heap H = list_all (\<lambda>n. list_all (refs_in H) (node_values n)) H"

lemma name_in_errors: "name_in dump_errors g c"
  by (auto simp: name_in_def nameable_def dump_errors_def Let_def split: option.splits)

lemma refuse_in_errors: "refuse_class g c = Some e \<Longrightarrow> e \<in> dump_errors"
  by (auto simp: refuse_class_def dump_errors_def split: if_splits)

lemma refs_tolerable: "refs_in H v \<Longrightarrow> tolerable dump_errors g H v"
proof (induction v)
  case (VRange lo hi x)
  then show ?case by (cases lo; cases hi) auto
next
  case (VOther c)
  then show ?case using refuse_in_errors by (auto simp: dump_errors_def split: option.splits)
qed (simp_all add: name_in_errors)



definition dumpable :: "class_table \<Rightarrow> mnode list \<Rightarrow> mval \<Rightarrow> bool" where
  "dumpable g H v \<longleftrightarrow> list_all (node_in {} g H) H \<and> tolerable {} g H v"



section \<open>The reader\<close>

text \<open>An action that, with at most \<open>n\<close> bytes left, does not run out of fuel and does not move backwards.\<close>

definition left :: "reader \<Rightarrow> nat" where
  "left r = length (r_bytes r) - r_pos r"

definition tame :: "nat \<Rightarrow> 'a rd \<Rightarrow> bool" where
  "tame n m \<longleftrightarrow> (\<forall>r. left r \<le> n \<longrightarrow> (case m r of Inl e \<Rightarrow> e \<noteq> OutOfFuel | Inr (x, r') \<Rightarrow> left r' \<le> left r))"

lemma tameD: "tame n m \<Longrightarrow> left r \<le> n \<Longrightarrow> m r \<noteq> Inl OutOfFuel" "tame n m \<Longrightarrow> left r \<le> n \<Longrightarrow> m r = Inr (x, r') \<Longrightarrow> left r' \<le> left r"
  by (auto simp: tame_def split: sum.splits prod.splits)

lemma tameI: "(\<And>r. left r \<le> n \<Longrightarrow> m r \<noteq> Inl OutOfFuel) \<Longrightarrow> (\<And>r x r'. left r \<le> n \<Longrightarrow> m r = Inr (x, r') \<Longrightarrow> left r' \<le> left r) \<Longrightarrow> tame n m"
  unfolding tame_def by (intro allI impI) (case_tac "m r"; auto)

lemma tame_andthen:
  assumes "tame n m" "\<And>x. tame n (f x)"
  shows "tame n (andthen m f)"
proof (rule tameI)
  fix r assume r: "left r \<le> n"
  show "andthen m f r \<noteq> Inl OutOfFuel"
  proof (cases "m r")
    case (Inl e)
    then show ?thesis using tameD(1)[OF assms(1) r] by (simp add: andthen_def)
  next
    case (Inr y)
    then obtain x r' where y: "m r = Inr (x, r')" by (cases y) simp
    then have "left r' \<le> n" using tameD(2)[OF assms(1) r y] r by simp
    then show ?thesis using tameD(1)[OF assms(2)] y by simp
  qed
next
  fix r x r' assume r: "left r \<le> n" "andthen m f r = Inr (x, r')"
  then obtain y r1 where y: "m r = Inr (y, r1)" "f y r1 = Inr (x, r')" by (auto simp: andthen_def split: sum.splits)
  have l: "left r1 \<le> left r" by (rule tameD(2)[OF assms(1) r(1) y(1)])
  then show "left r' \<le> left r" using tameD(2)[OF assms(2) _ y(2)] r(1) by simp
qed

lemma tame_point: "(\<And>r. \<exists>m'. tame n m' \<and> m r = m' r) \<Longrightarrow> tame n m"
  by (rule tameI) (metis tameD)+

lemma tame_ret [simp]: "tame n (ret x)" "tame n (\<lambda>r. Inr (x, r))"
  by (simp_all add: tame_def ret_def)

lemma tame_fail [simp]: "e \<noteq> OutOfFuel \<Longrightarrow> tame n (fail e)"
  by (simp add: tame_def fail_def)

lemma tame_primitive [simp]:
  "tame n read_byte" "tame n (push_object v)" "tame n (set_object i v)" "tame n (new_ref b)" "tame n (update_node a h)" "tame n (read_class g c)"
  by (auto simp: tame_def left_def read_byte_def push_object_def set_object_def new_ref_def update_node_def read_class_def fail_def ret_def
      split: option.splits)

lemma tame_bounded: "(\<And>r. case m r of Inl e \<Rightarrow> e \<noteq> OutOfFuel | Inr (x, r') \<Rightarrow> left r' \<le> left r) \<Longrightarrow> tame n m"
  by (simp add: tame_def)

lemma tame_le [simp]: "tame n (read_le k i x)"
  by (induction k arbitrary: i x) (auto intro: tame_andthen)

lemma tame_long [simp]: "tame n read_long"
  by (auto simp: read_long_def Let_def intro!: tame_andthen)

lemma tame_bytes [simp]: "tame n read_bytes"
  unfolding read_bytes_def by (rule tame_andthen) (auto simp: left_def intro!: tame_bounded)

lemma tame_symbols [simp]: "tame n symbol_link" "tame n symbol_new"
  unfolding symbol_link_def symbol_new_def by (rule tame_andthen; auto simp: left_def Let_def intro!: tame_bounded)+

lemma tame_symbol [simp]: "tame n read_symbol_name"
  unfolding read_symbol_name_def by (rule tame_andthen) auto

lemma tame_ivar [simp]: "tame n (ivar_set v x u)" "tame n (set_string_encoding v e)"
  by (cases v; simp add: ivar_set_def set_string_encoding_def)+

lemma tame_encoding_name: "tame n (apply_encoding_name v u)"
proof (rule tame_point)
  fix r
  have "(\<exists>e. apply_encoding_name v u r = set_string_encoding v e r) \<or> apply_encoding_name v u r = ret () r"
    by (auto simp: apply_encoding_name_def ret_def split: mval.splits mbody.splits mpayload.splits option.splits)
  then show "\<exists>m'. tame n m' \<and> apply_encoding_name v u r = m' r" by (metis tame_ivar(2) tame_ret)
qed

lemma tame_apply_ivar [simp]: "tame n (apply_ivar v x u)"
  by (simp add: apply_ivar_def tame_encoding_name)

lemma tame_hash_set [simp]: "tame n (row_set a k v)"
proof (rule tame_point)
  fix r
  have "tame n (key_snapshot k)"
  proof (rule tame_point)
    fix r
    show "\<exists>m'. tame n m' \<and> key_snapshot k r = m' r"
    proof (cases k)
      case (VRef b)
      then show ?thesis
        by (intro exI[of _ "andthen (new_ref (n_body (r_heap r ! b))) (\<lambda>b. ret (VRef b))"]) (auto simp: key_snapshot_def intro: tame_andthen)
    qed (auto simp: key_snapshot_def ret_def intro!: exI[of _ "ret k"])
  qed
  moreover have "tame n (\<lambda>r'. update_node a (payload_put (r_heap r') k' v hk) r')" for k' hk
    by (rule tame_point) (use tame_primitive(5) in blast)
  ultimately have t: "tame n (andthen (key_snapshot k) (\<lambda>k' r'. update_node a (payload_put (r_heap r') k' v hk) r'))" for hk by (rule tame_andthen)
  show "\<exists>m'. tame n m' \<and> row_set a k v r = m' r"
  proof (cases "hkey_of (r_heap r) k = KNone")
    case True
    then show ?thesis by (intro exI[of _ "fail KeyNotModelled"]) (simp add: row_set_def fail_def)
  next
    case False
    then show ?thesis using t[of "hkey_of (r_heap r) k"] by (auto simp: row_set_def)
  qed
qed

text \<open>The functions that read nested values with \<open>rd\<close>.\<close>

lemma tame_raw [simp]: "tame n (read_raw k)"
  by (induction k) (auto intro!: tame_andthen)

lemma tame_loops:
  assumes "tame n rd"
  shows "tame n (read_elems rd k a)" "tame n (read_pairs rd k a)" "tame n (read_fields rd k)" "tame n (read_ivar_list rd k v)" "tame n (read_object_ivars rd k a)"
  using assms by (induction k) (auto intro!: tame_andthen)

lemma tame_apply_ivars: "tame n rd \<Longrightarrow> tame n (apply_ivars rd v)"
  by (auto simp: apply_ivars_def intro!: tame_andthen tame_loops)

lemma tame_leaves [simp]: "tame n read_bignum" "tame n read_string" "tame n (regexp_body g)" "tame n (read_regexp g)" "tame n (read_class_ref g)" "tame n (subclass_payload g)"
proof -
  show r: "tame n (regexp_body g)" by (auto simp: regexp_body_def Let_def intro!: tame_andthen)
  show "tame n read_bignum" "tame n read_string" "tame n (read_class_ref g)"
    by (auto simp: read_bignum_def read_string_def read_class_ref_def Let_def intro!: tame_andthen)
  show "tame n (read_regexp g)" "tame n (subclass_payload g)" using r by (auto simp: read_regexp_def subclass_payload_def intro!: tame_andthen)
qed

lemma tame_object_link [simp]: "tame n object_link"
  unfolding object_link_def by (rule tame_andthen) (auto simp: left_def intro!: tame_bounded)

lemma tame_containers:
  assumes "tame n rd"
  shows "tame n (read_array rd)" "tame n (read_hash rd d)" "tame n (fill_payload rd p a)" "tame n (read_subclass g rd)" "tame n (read_extended g rd)"
proof -
  note l = tame_loops[OF assms]
  show "tame n (read_array rd)" "tame n (read_hash rd d)" using assms l by (auto simp: read_array_def read_hash_def intro!: tame_andthen)
  show f: "tame n (fill_payload rd p a)" for p a using l by (cases p) (auto simp: fill_payload_def intro!: tame_andthen)
  show "tame n (read_subclass g rd)" using f by (auto simp: read_subclass_def intro!: tame_andthen)
  have "tame n (case v of VRef a \<Rightarrow> andthen (update_node a h) (\<lambda>_. ret v) | _ \<Rightarrow> ret v)" for v h
    by (cases v) (auto intro!: tame_andthen)
  then show "tame n (read_extended g rd)" using assms by (auto simp: read_extended_def intro!: tame_andthen split: option.splits)
qed

lemma tame_struct: "tame n rd \<Longrightarrow> tame n (read_struct g rd)"
proof -
  assume rd: "tame n rd"
  have b: "tame n (\<lambda>r. andthen (read_fields rd (k r)) (\<lambda>fs. andthen (new_ref (B fs)) (\<lambda>a. andthen (set_object i (VRef a)) (\<lambda>_. ret (VRef a)))) r)" for k B i
    by (rule tame_point, rule exI, rule conjI[OF _ refl]) (auto intro!: tame_andthen tame_loops rd)
  show ?thesis unfolding read_struct_def using b by (auto intro!: tame_andthen split: option.splits)
qed

lemma tame_rebuild: "tame n (rebuild cls vs)"
proof -
  have "tame n (to_bigint v)" "tame n (rational_new a b)" "tame n (complex_new v w)" for v w a b
    by (cases v; simp add: to_bigint_def) (auto simp: rational_new_def complex_new_def Let_def)
  then show ?thesis by (auto simp: rebuild_def intro!: tame_andthen)
qed

lemma tame_number: "tame n rd \<Longrightarrow> tame n (read_number g rd)"
proof -
  assume rd: "tame n rd"
  have b: "tame n (\<lambda>r. case v of VRef a \<Rightarrow> (case n_body (r_heap r ! a) of BVal (PArr vs) \<Rightarrow> andthen (rebuild cls vs) (\<lambda>v. andthen (set_object i v) (\<lambda>_. ret v)) r
      | _ \<Rightarrow> Inl MalformedUser) | _ \<Rightarrow> Inl MalformedUser)" for v cls i
  proof (rule tame_point)
    fix r
    have t: "tame n (andthen (rebuild cls vs) (\<lambda>v. andthen (set_object i v) (\<lambda>_. ret v)))" for vs by (auto intro!: tame_andthen tame_rebuild)
    have f: "tame n (fail MalformedUser :: mval rd)" by simp
    show "\<exists>m'. tame n m' \<and> (case v of VRef a \<Rightarrow> (case n_body (r_heap r ! a) of BVal (PArr vs) \<Rightarrow> andthen (rebuild cls vs) (\<lambda>v. andthen (set_object i v) (\<lambda>_. ret v)) r
      | _ \<Rightarrow> Inl MalformedUser) | _ \<Rightarrow> Inl MalformedUser) = m' r"
      using t f unfolding fail_def by (auto split: mval.splits mbody.splits mpayload.splits)
  qed
  show ?thesis unfolding read_number_def using b rd unfolding rebuild_def by (auto intro!: tame_andthen)
qed

lemma tame_objects:
  assumes "tame n rd"
  shows "tame n (read_range rd i)" "tame n (read_set rd i c)" "tame n (read_object g rd)"
proof -
  show r: "tame n (read_range rd i)" for i using tame_loops[OF assms] by (auto simp: read_range_def Let_def intro!: tame_andthen)
  have b: "tame n (\<lambda>r. andthen (new_ref (B r)) (\<lambda>h. andthen (new_ref (BSet c h)) (\<lambda>a. andthen (set_object i (VRef a)) (\<lambda>_. ret (VRef a)))) r)" for B c i
    by (rule tame_point, rule exI, rule conjI[OF _ refl]) (auto intro!: tame_andthen)
  show s: "tame n (read_set rd i c)" for i c unfolding read_set_def using tame_loops[OF assms] b by (auto intro!: tame_andthen)
  have "tame n (case b of BVal p \<Rightarrow> ret () | _ \<Rightarrow> read_object_ivars rd k a)" for b k a using tame_loops[OF assms] by (cases b) auto
  then show "tame n (read_object g rd)" unfolding read_object_def using r s by (auto intro!: tame_andthen split: option.splits)
qed

lemma tame_nested: "(\<And>t. tame n (f t)) \<Longrightarrow> tame (Suc n) (andthen read_byte f)"
proof (rule tameI)
  fix r assume f: "\<And>t. tame n (f t)" "left r \<le> Suc n"
  show "andthen read_byte f r \<noteq> Inl OutOfFuel"
    using tameD(1)[OF f(1)] f(2) by (auto simp: andthen_def read_byte_def left_def)
next
  fix r x r' assume f: "\<And>t. tame n (f t)" "left r \<le> Suc n" "andthen read_byte f r = Inr (x, r')"
  then have p: "r_pos r < length (r_bytes r)" "f (r_bytes r ! r_pos r) (r\<lparr>r_pos := r_pos r + 1\<rparr>) = Inr (x, r')"
    by (auto simp: andthen_def read_byte_def split: if_splits)
  have "left (r\<lparr>r_pos := r_pos r + 1\<rparr>) \<le> n" using f(2) p(1) by (simp add: left_def)
  from tameD(2)[OF f(1) this p(2)] show "left r' \<le> left r" by (simp add: left_def)
qed

lemma tame_empty: "tame 0 (andthen read_byte f)"
  by (auto simp: tame_def andthen_def read_byte_def left_def)

lemma andthen_assoc: "andthen m (\<lambda>x. andthen (f x) h) = andthen (andthen m f) h"
  by (auto simp: andthen_def fun_eq_iff split: sum.splits)

lemma tame_step:
  assumes rd: "tame n (andthen read_byte (read_tag k g))"
  shows "tame n (read_tag (Suc k) g t)"
proof -
  let ?rd = "andthen read_byte (read_tag k g)"
  have i: "tame n (andthen ?rd (\<lambda>v. andthen (apply_ivars ?rd v) (\<lambda>_. ret v)))" by (auto intro!: tame_andthen tame_apply_ivars rd)
  note containers = tame_containers[OF rd] tame_objects[OF rd] tame_struct[OF rd] tame_number[OF rd]
  show ?thesis unfolding read_tag.simps Let_def andthen_assoc using containers i
    by (simp add: tame_andthen)
qed

lemma tame_tag: "tame k (read_tag (Suc k) g t)"
proof (induction k arbitrary: t)
  case 0
  show ?case by (rule tame_step[OF tame_empty])
next
  case (Suc k)
  show ?case by (rule tame_step[OF tame_nested[OF Suc]])
qed


section \<open>Where the copy differs\<close>

definition copy_of :: "mnode list \<Rightarrow> mval \<Rightarrow> merror + mval \<times> mnode list" where
  "copy_of H v = bindE (dump demo H v None) (load demo)"

text \<open>All ranges have the same link key, so the second range of an array is loaded as the first.\<close>

theorem ranges_share_a_link:
  "copy_of [new_node (BVal (PArr [VRange (Some (VInt 1)) (Some (VInt 2)) False, VRange (Some (VInt 3)) None True]))] (VRef 0) =
     Inr (VRef 0, [new_node (BVal (PArr [VRange (Some (VInt 1)) (Some (VInt 2)) False, VRange (Some (VInt 1)) (Some (VInt 2)) False]))])"
  by code_simp

text \<open>The key of a range is also that of the class with id 0.\<close>

theorem range_after_object:
  "copy_of [new_node (BVal (PArr [VClass 0, VRange (Some (VInt 3)) None True]))] (VRef 0) =
     Inr (VRef 0, [new_node (BVal (PArr [VClass 0, VClass 0]))])"
  by code_simp

text \<open>A struct is entered after its members are read, so a member that is the struct itself is loaded as nil.\<close>

theorem cyclic_struct_loses_itself:
  "copy_of [new_node (BStruct 4 [(ascii ''a'', VRef 0)])] (VRef 0) = Inr (VRef 0, [new_node (BStruct 4 [(ascii ''a'', VNil)])])"
  by code_simp

theorem extensions_are_reversed:
  "copy_of [(new_node (BPlain 1))\<lparr>n_ext := [2, 3]\<rparr>] (VRef 0) = Inr (VRef 0, [(new_node (BPlain 1))\<lparr>n_ext := [3, 2]\<rparr>])"
  by code_simp

theorem regexp_loses_ivars:
  "copy_of [(new_node (BVal (PRegexp (ascii ''a'') False False False)))\<lparr>n_ivars := [(ascii ''x'', VNil)]\<rparr>] (VRef 0) =
     Inr (VRef 0, [new_node (BVal (PRegexp (ascii ''a'') False False False))])"
  by code_simp

text \<open>A subclass of Hash keeps neither its default nor, silently, its default proc.\<close>

theorem hash_subclass_loses_default:
  "copy_of [new_node (BSub 5 (PHash [] (VInt 1) True))] (VRef 0) = Inr (VRef 0, [new_node (BSub 5 (PHash [] VNil False))])"
  by code_simp

text \<open>A negative length panics instead of raising.\<close>

theorem negative_lengths_panic: "load g [4, 8, 34, 250] = Inl Panic" "load g [4, 8, 108, 43, 250] = Inl Panic"
  by code_simp+

text \<open>The limit \<open>-1\<close>, which stands for no limit when \<^verbatim>\<open>_dump\<close> is called, refuses everything.\<close>

theorem limit_minus_one_refuses: "dump g H VNil (Some (-1)) = Inl DepthLimit"
  by (simp add: dump_def dump_fuel_def new_writer_def put_def)

end
