(* ===== verification/Spec2Isabelle.thy ===== *)
theory Spec2Isabelle
  imports Arrays Hashes GcCollect Mro GemLockfile SoleThread Rendezvous ThreadSync Mt DateCalendar MarshalTotal
begin

text \<open>
  Zeo compiles a whole Ruby program to native code and links it with a runtime written in Rust.  This development models the
  parts of the runtime, of the compiler and of the gem reader whose correctness is a matter of data and of ordering, and
  proves what each promises.

  \<^bold>\<open>The parts and how they meet.\<close>  Compiled code works on \<^verbatim>\<open>RubyValue\<close>s, whose heap variants own reference-counted
  allocations.  Arrays and hashes are two of them.  Cycles are reclaimed by a collector that reads a registry of weak
  handles and the reference counts; it runs on one thread, at a safepoint, while the others are parked.  A safepoint is
  reached through interrupts: a process-wide counter that compiled code loads at each checkpoint, bits per thread, and a
  pending slot per thread.  Threads run under a ticket lock that is armed only when a second thread and a C extension
  meet; until then a thread may claim to be the only one and skip locking.  Method calls follow the ancestor chains the
  compiler linearizes; \<^verbatim>\<open>super\<close> walks them at run time.  Gems are chosen from \<^verbatim>\<open>Gemfile.lock\<close> by version and platform.

  \<^bold>\<open>Theories.\<close>
  \<^item> \<open>Prelude\<close>, \<open>Machines\<close>, \<open>Strings\<close>: Rust's \<^verbatim>\<open>Vec\<close>, slices and strings on lists, a panic being \<^term>\<open>None\<close>; runs of
    labelled step relations with the locales \<open>invariant_machine\<close> and \<open>forward_simulation\<close>.
  \<^item> \<open>Value\<close>: \<^verbatim>\<open>RubyValue\<close> (\<^verbatim>\<open>crates/zeo-rt/src/value/mod.rs\<close>).
  \<^item> \<open>Arrays\<close>, \<open>Hashes\<close> (\<^verbatim>\<open>value/collections.rs\<close>): the array buffer with its dead prefix refines a list through the locale
    \<open>ruby_sequence\<close>, and its moves are amortized; the hash, a row vector that is promoted to an \<^verbatim>\<open>IndexMap\<close>, keeps the
    contract \<open>ordered_table\<close> across the promotion, and insertion, deletion, order and the iteration guard behave as Ruby says.
  \<^item> \<open>GcHeap\<close>, \<open>GcRegistry\<close>, \<open>GcCollect\<close> (\<^verbatim>\<open>gc/registry.rs\<close>, \<^verbatim>\<open>gc/mod.rs\<close>, \<^verbatim>\<open>gc/collect.rs\<close>): allocations with their
    owners, the registry under any interleaving of allocations and deaths, and the collection pass, which returns, keeps
    everything reachable and, on a fully reported heap, frees exactly the rest.
  \<^item> \<open>Mro\<close> (\<^verbatim>\<open>crates/zeo/src/analyze/mro.rs\<close>, \<^verbatim>\<open>crates/zeo-abi/src/hierarchy.rs\<close>, \<^verbatim>\<open>dispatch/walk.rs\<close>): linearization is total,
    complete and ordered; chained \<^verbatim>\<open>super\<close> calls visit each definition once.
  \<^item> \<open>GemVersion\<close>, \<open>GemPlatform\<close>, \<open>GemLockfile\<close> (\<^verbatim>\<open>crates/zeo-gem/src\<close>): the version order, requirements, platforms, and
    \<^verbatim>\<open>Gemfile.lock\<close> with its reader, printer and queries; parsing and printing are inverse on well-formed data.
  \<^item> \<open>Interrupts\<close>, \<open>Gvl\<close>, \<open>SoleThread\<close>, \<open>Rendezvous\<close> (\<^verbatim>\<open>concurrency/gvl.rs\<close>, \<^verbatim>\<open>thread.rs\<close>, \<^verbatim>\<open>coroutine.rs\<close>, \<^verbatim>\<open>cframes.rs\<close>): each access to
    shared state is one step and the steps of all threads interleave.  The pending counter is exact, the ticket lock
    refines a queue, excludes and serves its waiters, the sole-thread claim is exclusive, no order of spawning and loading
    misses arming the lock, and the collector runs only while the threads it asked are parked.
  \<^item> \<open>ThreadSync\<close> (\<^verbatim>\<open>thread.rs\<close>, \<^verbatim>\<open>gvl.rs\<close> module \<^verbatim>\<open>deadlock\<close>): \<^verbatim>\<open>Mutex\<close>, \<^verbatim>\<open>Queue\<close> and \<^verbatim>\<open>SizedQueue\<close> as what each call does under its
    lock, a parked call being the value \<open>MustWait\<close>; the deadlock verdict.
  \<^item> \<open>Mt\<close> (\<^verbatim>\<open>mt.rs\<close>): the in-place Mersenne twister equals the reference recurrence (the published test vector is evaluated);
    bounded draws are rejection sampling on the stream, saved positions are restored exactly.
  \<^item> \<open>Base64\<close>, \<open>Cgi\<close>, \<open>DateCalendar\<close> (\<^verbatim>\<open>crates/zeo-rt/ext\<close>: \<^verbatim>\<open>base64\<close>, \<^verbatim>\<open>cgi\<close>, \<^verbatim>\<open>date\<close>): extensions of the standard library.  Decoders
    undo their encoders on every byte string, and where they panic or raise is characterized; every day has one civil date and
    one ISO week date, on the Gregorian calendar, on the Julian one and across the reform.
  \<^item> \<open>Encodings\<close>, \<open>EncodingTable\<close>, \<open>StrBuf\<close> (\<^verbatim>\<open>enc/wide.rs\<close>, \<^verbatim>\<open>mb.rs\<close>, \<^verbatim>\<open>coderange.rs\<close>, \<^verbatim>\<open>registry.rs\<close>, \<^verbatim>\<open>strbuf.rs\<close>): the walks that cut bytes
    into characters share the locale \<open>unit_walk\<close>; the rows of the encoding table; the string buffer with its cached
    classification.  A string is valid exactly when it is a sequence of characters, the byte-indexed fast paths agree with
    the characters, concatenation keeps them, and the unchecked conversion to \<^verbatim>\<open>str\<close> is sound.
  \<^item> \<open>Marshal\<close> with \<open>MarshalText\<close>, \<open>MarshalFloat\<close>, \<open>MarshalGraph\<close>, \<open>MarshalSim\<close>, \<open>MarshalLoops\<close>, \<open>MarshalCopy\<close>, \<open>MarshalRoundtrip\<close> and
    \<open>MarshalTotal\<close> (\<^verbatim>\<open>builtins/marshal.rs\<close>): the writer and the reader of \<^verbatim>\<open>Marshal\<close> with their tables of symbols and links, on a heap of
    addressed nodes.  The texts of longs, floats, symbols and bignums read back; a simulation keeps the two tables in step while
    nodes are under construction, so that a dumped graph, with its sharing and cycles, loads as a copy; both directions
    return on every input; where a copy differs is evaluated.

  \<^bold>\<open>Bounds and fuel.\<close>  Machine integers are words where the code lets them wrap (tickets, counters, version segments, the
  generator).  The retrying draws of \<open>Mt\<close> take the number of attempts as fuel, and the theorems say which number is enough; the
  marking loop of the collector and the linearization of cyclic class tables have fuel or a depth bound that is proved enough; the
  month shift of a date takes fuel, four steps of which are enough on the Gregorian calendar.  \<^verbatim>\<open>Marshal.dump\<close> has as
  fuel the number of values in the heap and \<^verbatim>\<open>Marshal.load\<close> the length of the data, and neither runs out; lengths in the format
  are read exactly below \<open>2 ^ 40\<close>, which bounds the data of the round trip.  The \<^verbatim>\<open>i64\<close> and \<^verbatim>\<open>f64\<close> arithmetic of the
  calendar is exact in the range its theory names.
  Third-party code is an argument with a stated contract: \<^verbatim>\<open>IndexMap\<close> (locale \<open>ordered_table\<close>) and the byte conversions of
  \<^verbatim>\<open>num_bigint\<close>.  The class registry that \<^verbatim>\<open>Marshal\<close> asks is a record of functions.  Memory orderings
  weaker than sequential consistency are not modelled.

  \<^bold>\<open>Not modelled.\<close>  The Prism front end, the IR and Cranelift code generation (their meaning rests on libraries outside the
  repository), the rows of the core classes (coercions into user code), transcoding and case mapping (generated tables), regular
  expressions (a third-party engine), the hooks of \<^verbatim>\<open>Marshal\<close> that run user code, the C API and foreign functions (raw pointers),
  ractors and fibers beyond their effect on the lock, the gem store and packages (files and archives), the
  scanners of \<^verbatim>\<open>Date.parse\<close>, the remaining extensions, macros and developer tools.
\<close>

end
